(* ===== verification/Prelude.thy ===== *)
theory Prelude
  imports Main "HOL-Library.Word"
begin

text \<open>
  What every component of the development shares: the ways the C++ program can fail,
  results that carry such a failure, checked access to lists, the decimal notation of
  natural numbers, and the collections of facts the component theories extend.
\<close>

section \<open>Failures and results\<close>

text \<open>
  The compiler has no recoverable errors: it throws (the standard conversions), aborts
  (\<open>std::abort\<close>, a failed \<open>assert\<close>), or runs into undefined behaviour
  (a null pointer, an element outside a container, a wrong \<open>static_cast\<close>).
  Each of these ends the run; the model keeps which one it was.
\<close>

datatype failure =
    Abort            \<comment> \<open>\<open>std::abort ()\<close>\<close>
  | AssertFailed     \<comment> \<open>a failed \<open>assert\<close>\<close>
  | InvalidArgument  \<comment> \<open>\<open>std::invalid_argument\<close> thrown by a conversion\<close>
  | OutOfRange       \<comment> \<open>\<open>std::out_of_range\<close> thrown by a conversion or by \<open>at\<close>\<close>
  | LengthError      \<comment> \<open>\<open>std::length_error\<close> thrown by a string constructor\<close>
  | NullDeref        \<comment> \<open>a null pointer is dereferenced\<close>
  | BadIndex         \<comment> \<open>an element outside a container is read\<close>
  | BadCast          \<comment> \<open>a \<open>static_cast\<close> to a class the object does not have\<close>
  | ArithTrap        \<comment> \<open>an integer division that traps\<close>
  | IntOverflow      \<comment> \<open>a signed operation or conversion whose result does not fit\<close>

type_synonym 'a result = "failure + 'a"

definition bindR :: "'a result \<Rightarrow> ('a \<Rightarrow> 'b result) \<Rightarrow> 'b result" where
  "bindR r f = (case r of Inl e \<Rightarrow> Inl e | Inr x \<Rightarrow> f x)"

lemma bindR_simps [simp]:
  "bindR (Inl e) f = Inl e"
  "bindR (Inr x) f = f x"
  by (simp_all add: bindR_def)

lemma bindR_eq_Inr_iff: "bindR r f = Inr y \<longleftrightarrow> (\<exists>x. r = Inr x \<and> f x = Inr y)"
  by (cases r) simp_all

lemma bindR_InrE [elim!]:
  assumes "bindR r f = Inr y"
  obtains x where "r = Inr x" and "f x = Inr y"
  using assms by (auto simp: bindR_eq_Inr_iff)

lemma bindR_cong [fundef_cong]:
  "r = r' \<Longrightarrow> (\<And>x. r' = Inr x \<Longrightarrow> f x = g x) \<Longrightarrow> bindR r f = bindR r' g"
  by (cases r') simp_all

lemma bindR_Inr_right [simp]: "bindR r Inr = r"
  by (cases r) simp_all

lemma bindR_assoc: "bindR (bindR r f) g = bindR r (\<lambda>x. bindR (f x) g)"
  by (cases r) simp_all

text \<open>What a computed result satisfies.\<close>

lemma case_InrD: "(case x of Inl _ \<Rightarrow> False | Inr y \<Rightarrow> P y) \<Longrightarrow> \<exists>y. x = Inr y \<and> P y"
  by (cases x) simp_all

fun mapR :: "('a \<Rightarrow> 'b result) \<Rightarrow> 'a list \<Rightarrow> 'b list result" where
  "mapR f [] = Inr []"
| "mapR f (x # xs) = bindR (f x) (\<lambda>y. bindR (mapR f xs) (\<lambda>ys. Inr (y # ys)))"

lemma mapR_cong [fundef_cong]:
  "xs = ys \<Longrightarrow> (\<And>x. x \<in> set ys \<Longrightarrow> f x = g x) \<Longrightarrow> mapR f xs = mapR g ys"
proof (induction ys arbitrary: xs)
  case (Cons y ys)
  then show ?case by (auto intro!: bindR_cong)
qed simp

lemma mapR_Inr_iff: "mapR f xs = Inr ys \<longleftrightarrow> list_all2 (\<lambda>x y. f x = Inr y) xs ys"
  by (induction xs arbitrary: ys) (auto simp: bindR_eq_Inr_iff list_all2_Cons1)

lemma mapR_append:
  "mapR f (xs @ ys) = bindR (mapR f xs) (\<lambda>us. bindR (mapR f ys) (\<lambda>vs. Inr (us @ vs)))"
  by (induction xs) (simp_all add: bindR_assoc)

section \<open>Checked access\<close>

definition nth_checked :: "'a list \<Rightarrow> nat \<Rightarrow> 'a result" where
  "nth_checked xs i = (if i < length xs then Inr (xs ! i) else Inl BadIndex)"

lemma nth_checked_simps [simp]:
  "nth_checked [] i = Inl BadIndex"
  "nth_checked (x # xs) 0 = Inr x"
  "nth_checked (x # xs) (Suc i) = nth_checked xs i"
  by (simp_all add: nth_checked_def)

lemma nth_checked_numeral [simp]:
  "nth_checked (x # xs) (numeral k) = nth_checked xs (pred_numeral k)"
  by (simp add: nth_checked_def)

lemma nth_checked_Inr_iff: "nth_checked xs i = Inr x \<longleftrightarrow> i < length xs \<and> xs ! i = x"
  by (auto simp: nth_checked_def)

lemma nth_checked_in_set: "nth_checked xs i = Inr x \<Longrightarrow> x \<in> set xs"
  by (auto simp: nth_checked_Inr_iff)

section \<open>Decimal notation\<close>

definition digit_char :: "nat \<Rightarrow> char" where
  "digit_char d = char_of (48 + d)"

definition is_digit :: "char \<Rightarrow> bool" where
  "is_digit c \<longleftrightarrow> 48 \<le> (of_char c :: nat) \<and> (of_char c :: nat) \<le> 57"

definition digit_val :: "char \<Rightarrow> nat" where
  "digit_val c = of_char c - 48"

lemma digit_char_props [simp]:
  assumes "d < 10"
  shows "is_digit (digit_char d)" "digit_val (digit_char d) = d"
  using assms by (simp_all add: digit_char_def is_digit_def digit_val_def)

fun show_nat :: "nat \<Rightarrow> string" where
  "show_nat n = (if n < 10 then [digit_char n] else show_nat (n div 10) @ [digit_char (n mod 10)])"

declare show_nat.simps [simp del]

definition show_int :: "int \<Rightarrow> string" where
  "show_int i = (if i < 0 then CHR ''-'' # show_nat (nat (- i)) else show_nat (nat i))"

definition digits_val :: "string \<Rightarrow> nat" where
  "digits_val s = foldl (\<lambda>n c. 10 * n + digit_val c) 0 s"

lemma digits_val_snoc: "digits_val (s @ [c]) = 10 * digits_val s + digit_val c"
  by (simp add: digits_val_def)

lemma show_nat_digits: "c \<in> set (show_nat n) \<Longrightarrow> is_digit c"
proof (induction n rule: show_nat.induct)
  case (1 n)
  then show ?case by (cases "n < 10") (auto simp: show_nat.simps [of n])
qed

lemma show_nat_not_Nil [simp]: "show_nat n \<noteq> []"
  by (simp add: show_nat.simps [of n])

lemma digits_val_show_nat [simp]: "digits_val (show_nat n) = n"
proof (induction n rule: show_nat.induct)
  case (1 n)
  then show ?case
    by (cases "n < 10")
      (simp_all add: show_nat.simps [of n] digits_val_snoc, simp add: digits_val_def)
qed

section \<open>Machine integers\<close>

type_synonym i32 = "32 word"

definition int_min :: int where "int_min = - (2 ^ 31)"
definition int_max :: int where "int_max = 2 ^ 31 - 1"

lemma sint_word_of_int_32:
  "int_min \<le> i \<Longrightarrow> i \<le> int_max \<Longrightarrow> sint (word_of_int i :: i32) = i"
  by (simp add: int_min_def int_max_def sint_sbintrunc' signed_take_bit_int_eq_self)

lemma sint_i32_range: "int_min \<le> sint (w :: i32)" "sint (w :: i32) \<le> int_max"
  using sint_range_size [of w] by (simp_all add: int_min_def int_max_def word_size)

text \<open>C++ integer division truncates towards zero; a zero divisor and \<open>INT_MIN / -1\<close> trap.\<close>

definition trunc_div :: "int \<Rightarrow> int \<Rightarrow> int" where
  "trunc_div a b = sgn a * sgn b * (\<bar>a\<bar> div \<bar>b\<bar>)"

end
