(* ===== verification/CxxStd.thy ===== *)
theory CxxStd
  imports Prelude
begin

text \<open>
  What the compiler uses of C++ itself: the conversions \<open>std::stoi\<close> and
  \<open>std::stof\<close>, the type \<open>float\<close> as IEEE 754 binary32 bit patterns
  (arithmetic rounds to nearest, ties to even), the conversions between \<open>float\<close>,
  \<open>int\<close> and \<open>double\<close>, and how \<open>std::cout\<close> prints a number.
  A float is its 32 bits, so the union of an \<open>int\<close> and a \<open>float\<close> in an
  AST node is one word.
\<close>

unbundle bit_operations_syntax

section \<open>Decimal integers\<close>

definition is_space :: "char \<Rightarrow> bool" where
  "is_space c \<longleftrightarrow> c \<in> {CHR '' '', CHR 0x09, CHR 0x0A, CHR 0x0B, CHR 0x0C, CHR 0x0D}"

definition stoi :: "string \<Rightarrow> i32 result" where
  "stoi s =
     (let t = dropWhile is_space s;
          neg = (t \<noteq> [] \<and> hd t = CHR ''-'');
          u = (if t \<noteq> [] \<and> (hd t = CHR ''-'' \<or> hd t = CHR ''+'') then tl t else t);
          ds = takeWhile is_digit u;
          v = (if neg then - int (digits_val ds) else int (digits_val ds))
      in if ds = [] then Inl InvalidArgument
         else if v < int_min \<or> int_max < v then Inl OutOfRange
         else Inr (word_of_int v))"

lemma digit_not_special:
  assumes "is_digit c"
  shows "\<not> is_space c" "c \<noteq> CHR ''-''" "c \<noteq> CHR ''+''" "c \<noteq> CHR ''.''"
  using assms by (auto simp: is_digit_def is_space_def)

lemma stoi_digits:
  assumes "s \<noteq> []" "list_all is_digit s"
  shows "stoi s = (if digits_val s < 2 ^ 31 then Inr (word_of_nat (digits_val s)) else Inl OutOfRange)"
proof -
  obtain c s' where s: "s = c # s'" and c: "is_digit c" using assms by (cases s) auto
  have tw: "takeWhile is_digit s = s" using assms(2) by (simp add: list_all_iff)
  have "dropWhile is_space s = s" using s c by (simp add: digit_not_special)
  moreover have "hd s \<noteq> CHR ''-''" "hd s \<noteq> CHR ''+''" using s c digit_not_special by auto
  moreover have "\<not> int (digits_val s) < int_min" by (simp add: int_min_def)
  moreover have "int_max < int (digits_val s) \<longleftrightarrow> \<not> digits_val s < 2 ^ 31"
    by (simp add: int_max_def) linarith
  ultimately show ?thesis using assms(1) by (simp add: stoi_def Let_def tw del: takeWhile_eq_all_conv)
qed

lemma stoi_show_nat: "n < 2 ^ 31 \<Longrightarrow> stoi (show_nat n) = Inr (word_of_nat n)"
  by (simp add: stoi_digits list_all_iff show_nat_digits)

section \<open>Floating point\<close>

type_synonym f32 = "32 word"

definition f32_sign :: "f32 \<Rightarrow> bool" where "f32_sign w = bit w 31"
definition f32_bits :: "f32 \<Rightarrow> nat" where "f32_bits w = unat (take_bit 31 w)"
definition f32_exp :: "f32 \<Rightarrow> nat" where "f32_exp w = f32_bits w div 2 ^ 23"
definition f32_frac :: "f32 \<Rightarrow> nat" where "f32_frac w = f32_bits w mod 2 ^ 23"

definition f32_make :: "bool \<Rightarrow> nat \<Rightarrow> f32" where
  "f32_make s b = (if s then word_of_nat (2 ^ 31 + b) else word_of_nat b)"

definition f32_inf_bits :: nat where "f32_inf_bits = 255 * 2 ^ 23"
definition f32_is_nan :: "f32 \<Rightarrow> bool" where "f32_is_nan w \<longleftrightarrow> f32_bits w > f32_inf_bits"
definition f32_is_inf :: "f32 \<Rightarrow> bool" where "f32_is_inf w \<longleftrightarrow> f32_bits w = f32_inf_bits"
definition f32_is_zero :: "f32 \<Rightarrow> bool" where "f32_is_zero w \<longleftrightarrow> f32_bits w = 0"

text \<open>The NaN that an invalid operation yields (its payload is left open by C++).\<close>

definition f32_nan :: f32 where "f32_nan = 0x7FC00000"
definition f32_inf :: "bool \<Rightarrow> f32" where "f32_inf s = f32_make s f32_inf_bits"
definition f32_zero :: "bool \<Rightarrow> f32" where "f32_zero s = f32_make s 0"
definition f32_neg :: "f32 \<Rightarrow> f32" where "f32_neg w = w XOR 0x80000000"

text \<open>
  Every finite float is a multiple of the least positive one, \<open>2 ^ -149\<close>:
  \<open>f32_mag\<close> is how many times that its magnitude is, and \<open>f32_val\<close> the same
  with the sign.
\<close>

definition f32_mag :: "f32 \<Rightarrow> nat" where
  "f32_mag w = (if f32_exp w = 0 then f32_frac w else (f32_frac w + 2 ^ 23) * 2 ^ (f32_exp w - 1))"

definition f32_val :: "f32 \<Rightarrow> int" where
  "f32_val w = (if f32_sign w then - int (f32_mag w) else int (f32_mag w))"

fun bitlen :: "nat \<Rightarrow> nat" where
  "bitlen n = (if n = 0 then 0 else Suc (bitlen (n div 2)))"

declare bitlen.simps [simp del]

definition round_half_even :: "nat \<Rightarrow> nat \<Rightarrow> nat" where
  "round_half_even a b =
     (let q = a div b; r = a mod b
      in if 2 * r < b \<or> (2 * r = b \<and> even q) then q else Suc q)"

text \<open>
  The float nearest to \<open>p / q\<close> times \<open>2 ^ -149\<close>. With \<open>k\<close> the shift
  that leaves 24 significant bits and \<open>m\<close> the rounded significand, the bits are
  \<open>k * 2 ^ 23 + m\<close>, also where the rounding carries into the exponent and for
  subnormal results; a result of the infinity's exponent or more is infinity.
\<close>

definition f32_round :: "bool \<Rightarrow> nat \<Rightarrow> nat \<Rightarrow> f32" where
  "f32_round s p q =
     (let k = bitlen (p div q) - 24;
          m = round_half_even p (q * 2 ^ k)
      in f32_make s (min f32_inf_bits (k * 2 ^ 23 + m)))"

definition f32_add :: "f32 \<Rightarrow> f32 \<Rightarrow> f32" where
  "f32_add x y =
     (if f32_is_nan x \<or> f32_is_nan y then f32_nan
      else if f32_is_inf x then (if f32_is_inf y \<and> f32_sign x \<noteq> f32_sign y then f32_nan else x)
      else if f32_is_inf y then y
      else let v = f32_val x + f32_val y
           in if v = 0 then f32_zero (f32_sign x \<and> f32_sign y) else f32_round (v < 0) (nat \<bar>v\<bar>) 1)"

definition f32_sub :: "f32 \<Rightarrow> f32 \<Rightarrow> f32" where
  "f32_sub x y = f32_add x (f32_neg y)"

definition f32_mul :: "f32 \<Rightarrow> f32 \<Rightarrow> f32" where
  "f32_mul x y =
     (let s = (f32_sign x \<noteq> f32_sign y)
      in if f32_is_nan x \<or> f32_is_nan y then f32_nan
         else if f32_is_inf x then (if f32_is_zero y then f32_nan else f32_inf s)
         else if f32_is_inf y then (if f32_is_zero x then f32_nan else f32_inf s)
         else f32_round s (f32_mag x * f32_mag y) (2 ^ 149))"

definition f32_div :: "f32 \<Rightarrow> f32 \<Rightarrow> f32" where
  "f32_div x y =
     (let s = (f32_sign x \<noteq> f32_sign y)
      in if f32_is_nan x \<or> f32_is_nan y then f32_nan
         else if f32_is_inf x then (if f32_is_inf y then f32_nan else f32_inf s)
         else if f32_is_inf y then f32_zero s
         else if f32_is_zero y then (if f32_is_zero x then f32_nan else f32_inf s)
         else f32_round s (f32_mag x * 2 ^ 149) (f32_mag y))"

text \<open>
  The comparisons of C++ are false when an operand is not a number (\<open>!=\<close> is true).
\<close>

definition f32_key :: "f32 \<Rightarrow> int" where
  "f32_key w = (if f32_sign w then - int (f32_bits w) else int (f32_bits w))"

definition f32_unordered :: "f32 \<Rightarrow> f32 \<Rightarrow> bool" where
  "f32_unordered x y \<longleftrightarrow> f32_is_nan x \<or> f32_is_nan y"

definition f32_eq :: "f32 \<Rightarrow> f32 \<Rightarrow> bool" where
  "f32_eq x y \<longleftrightarrow> \<not> f32_unordered x y \<and> f32_key x = f32_key y"
definition f32_lt :: "f32 \<Rightarrow> f32 \<Rightarrow> bool" where
  "f32_lt x y \<longleftrightarrow> \<not> f32_unordered x y \<and> f32_key x < f32_key y"
definition f32_le :: "f32 \<Rightarrow> f32 \<Rightarrow> bool" where
  "f32_le x y \<longleftrightarrow> \<not> f32_unordered x y \<and> f32_key x \<le> f32_key y"

text \<open>
  \<open>(float) i\<close> and \<open>(int) f\<close>; the second truncates and is undefined when the
  result does not fit.
\<close>

definition f32_of_int :: "int \<Rightarrow> f32" where
  "f32_of_int i = f32_round (i < 0) (nat \<bar>i\<bar> * 2 ^ 149) 1"

definition f32_to_int :: "f32 \<Rightarrow> i32 option" where
  "f32_to_int w =
     (let t = int (f32_mag w div 2 ^ 149); v = (if f32_sign w then - t else t)
      in if f32_is_nan w \<or> f32_is_inf w \<or> v < int_min \<or> int_max < v then None
         else Some (word_of_int v))"

text \<open>
  The bits of the \<open>double\<close> of a float, exact for every number. The conversion of a
  NaN keeps its payload and sets the bit that makes it a quiet one.
\<close>

definition f64_bits_of_f32 :: "f32 \<Rightarrow> nat" where
  "f64_bits_of_f32 w =
     (let e = f32_exp w;
          f = (if f32_is_nan w \<and> f32_frac w < 2 ^ 22 then f32_frac w + 2 ^ 22 else f32_frac w);
          mag = (if e = 255 then 2047 * 2 ^ 52 + f * 2 ^ 29
                 else if e \<noteq> 0 then (e + 896) * 2 ^ 52 + f * 2 ^ 29
                 else if f = 0 then 0
                 else let b = bitlen f in (b + 873) * 2 ^ 52 + (f - 2 ^ (b - 1)) * 2 ^ (53 - b))
      in (if f32_sign w then 2 ^ 63 else 0) + mag)"

text \<open>
  \<open>std::stof\<close> on the texts of a floating literal, digits with one point among
  them: the nearest float, \<open>out_of_range\<close> when that is infinite. Texts of another
  form (signs, exponents, hexadecimal digits) do not reach it and are refused here.
\<close>

definition stof :: "string \<Rightarrow> f32 result" where
  "stof s =
     (let a = takeWhile is_digit s; r = dropWhile is_digit s
      in case r of
           [] \<Rightarrow> Inl InvalidArgument
         | c # fr \<Rightarrow>
             if c \<noteq> CHR ''.'' \<or> \<not> list_all is_digit fr \<or> (a = [] \<and> fr = []) then Inl InvalidArgument
             else let w = f32_round False (digits_val (a @ fr) * 2 ^ 149) (10 ^ length fr)
                  in if f32_is_inf w then Inl OutOfRange else Inr w)"

text \<open>
  \<open>std::cout << f\<close>: six significant digits, without trailing zeros, in scientific
  notation when the exponent is below -4 or at least 6 (the format of \<open>%g\<close>).
\<close>

fun drop_trailing_zeros :: "string \<Rightarrow> string" where
  "drop_trailing_zeros s = rev (dropWhile (\<lambda>c. c = CHR ''0'') (rev s))"

text \<open>\<open>log10_floor p q 0\<close> is the decimal exponent of \<open>p / q\<close> when \<open>q \<le> p\<close>.\<close>

function log10_floor :: "nat \<Rightarrow> nat \<Rightarrow> nat" where
  "log10_floor p q = (if q = 0 \<or> p < 10 * q then 0 else Suc (log10_floor p (10 * q)))"
  by pat_completeness auto
termination
  by (relation "measure (\<lambda>(p, q). p - q)") auto

function log10_up :: "nat \<Rightarrow> nat \<Rightarrow> nat" where
  "log10_up p q = (if p = 0 \<or> q \<le> p then 0 else Suc (log10_up (10 * p) q))"
  by pat_completeness auto
termination
  by (relation "measure (\<lambda>(p, q). q - p)") auto

declare log10_floor.simps [simp del] log10_up.simps [simp del]

definition show_g :: "nat \<Rightarrow> nat \<Rightarrow> string" where
  "show_g p q =
     (let x = (if q \<le> p then int (log10_floor p q) else - int (log10_up p q));
          d = (if x \<le> 5 then round_half_even (p * 10 ^ nat (5 - x)) q
               else round_half_even p (q * 10 ^ nat (x - 5)));
          (d, x) = (if d = 10 ^ 6 then (10 ^ 5, x + 1) else (d, x));
          ds = show_nat d
      in if x < - 4 \<or> 6 \<le> x then
           let fr = drop_trailing_zeros (tl ds); e = show_nat (nat \<bar>x\<bar>)
           in [hd ds] @ (if fr = [] then [] else CHR ''.'' # fr) @
              (if x < 0 then ''e-'' else ''e+'') @ (if length e < 2 then CHR ''0'' # e else e)
         else if 0 \<le> x then
           let fr = drop_trailing_zeros (drop (nat x + 1) ds)
           in take (nat x + 1) ds @ (if fr = [] then [] else CHR ''.'' # fr)
         else ''0.'' @ replicate (nat (- x) - 1) CHR ''0'' @ drop_trailing_zeros ds)"

definition show_f32 :: "f32 \<Rightarrow> string" where
  "show_f32 w =
     (if f32_sign w then ''-'' else '''') @
     (if f32_is_nan w then ''nan'' else if f32_is_inf w then ''inf''
      else if f32_is_zero w then ''0'' else show_g (f32_mag w) (2 ^ 149))"

section \<open>Strings\<close>

text \<open>\<open>std::string::rfind\<close> for a character\<close>

fun rfind :: "char \<Rightarrow> string \<Rightarrow> nat option" where
  "rfind c [] = None"
| "rfind c (d # s) = (case rfind c s of Some i \<Rightarrow> Some (Suc i) | None \<Rightarrow> if c = d then Some 0 else None)"

end
