(* ===== verification/Ast.thy ===== *)
theory Ast
  imports CxxStd
begin

text \<open>
  The abstract syntax tree of \<open>include/ast.hpp\<close>. A C++ class is a record or a
  datatype, an abstract base class a datatype with one constructor per subclass, a
  \<open>shared_ptr\<close> that may be null an option, a \<open>vector\<close> a list. The nodes
  are made by \<open>new T ()\<close> and \<open>make_shared\<close>, which zero the members that
  the code does not set: the operator of an expression without a second operand is the
  first enumerator, and a parameter is no array until it is marked.
\<close>

datatype CminusType = TYPE_INT | TYPE_FLOAT | TYPE_VOID

datatype RelOp = OP_LE | OP_LT | OP_GT | OP_GE | OP_EQ | OP_NEQ

datatype AddOp = OP_PLUS | OP_MINUS

datatype MulOp = OP_MUL | OP_DIV

text \<open>\<open>i_val\<close> and \<open>f_val\<close> share their storage: both read the word.\<close>

record ASTNum =
  num_type :: CminusType
  num_val :: i32

abbreviation i_val :: "ASTNum \<Rightarrow> i32" where "i_val \<equiv> num_val"
abbreviation f_val :: "ASTNum \<Rightarrow> f32" where "f_val \<equiv> num_val"

record ASTVarDeclaration =
  vd_type :: CminusType
  vd_id :: string
  vd_num :: "ASTNum option"

record ASTParam =
  p_type :: CminusType
  p_id :: string
  p_isarray :: bool

datatype ASTFactor =
      F_Num ASTNum
    | F_Expression ASTExpression
    | F_Var ASTVar
    | F_Call ASTCall
and ASTExpression =
      AssignExpression ASTVar ASTExpression
    | SimpleExpression ASTAdditiveExpression "ASTAdditiveExpression option" RelOp
and ASTVar = Var string "ASTExpression option"
and ASTAdditiveExpression = AdditiveExpression "ASTAdditiveExpression option" AddOp ASTTerm
and ASTTerm = Term "ASTTerm option" MulOp ASTFactor
and ASTCall = Call string "ASTExpression list"

datatype ASTStatement =
      S_Compound ASTCompoundStmt
    | ExpressionStmt "ASTExpression option"
    | SelectionStmt ASTExpression ASTStatement "ASTStatement option"
    | IterationStmt ASTExpression ASTStatement
    | ReturnStmt "ASTExpression option"
and ASTCompoundStmt = CompoundStmt "ASTVarDeclaration list" "ASTStatement list"

record ASTFunDeclaration =
  fd_type :: CminusType
  fd_id :: string
  fd_params :: "ASTParam list"
  fd_compound_stmt :: ASTCompoundStmt

datatype ASTDeclaration = D_Var ASTVarDeclaration | D_Fun ASTFunDeclaration

record ASTProgram =
  declarations :: "ASTDeclaration list"

text \<open>The base class \<open>ASTNode\<close>.\<close>

datatype ASTNode =
    N_Program ASTProgram
  | N_Declaration ASTDeclaration
  | N_Param ASTParam
  | N_Statement ASTStatement
  | N_Factor ASTFactor
  | N_Additive ASTAdditiveExpression
  | N_Term ASTTerm

text \<open>
  \<open>static_cast\<close> from \<open>ASTNode *\<close>: the caller claims the class, a node of
  another class is undefined behaviour.
\<close>

fun as_program :: "ASTNode \<Rightarrow> ASTProgram result" where
  "as_program (N_Program p) = Inr p"
| "as_program _ = Inl BadCast"

fun as_declaration :: "ASTNode \<Rightarrow> ASTDeclaration result" where
  "as_declaration (N_Declaration d) = Inr d"
| "as_declaration _ = Inl BadCast"

fun as_var_declaration :: "ASTNode \<Rightarrow> ASTVarDeclaration result" where
  "as_var_declaration (N_Declaration (D_Var v)) = Inr v"
| "as_var_declaration _ = Inl BadCast"

fun as_param :: "ASTNode \<Rightarrow> ASTParam result" where
  "as_param (N_Param p) = Inr p"
| "as_param _ = Inl BadCast"

fun as_statement :: "ASTNode \<Rightarrow> ASTStatement result" where
  "as_statement (N_Statement s) = Inr s"
| "as_statement _ = Inl BadCast"

fun as_compound_stmt :: "ASTNode \<Rightarrow> ASTCompoundStmt result" where
  "as_compound_stmt (N_Statement (S_Compound c)) = Inr c"
| "as_compound_stmt _ = Inl BadCast"

fun as_factor :: "ASTNode \<Rightarrow> ASTFactor result" where
  "as_factor (N_Factor f) = Inr f"
| "as_factor _ = Inl BadCast"

fun as_expression :: "ASTNode \<Rightarrow> ASTExpression result" where
  "as_expression (N_Factor (F_Expression e)) = Inr e"
| "as_expression _ = Inl BadCast"

fun as_var :: "ASTNode \<Rightarrow> ASTVar result" where
  "as_var (N_Factor (F_Var v)) = Inr v"
| "as_var _ = Inl BadCast"

fun as_additive :: "ASTNode \<Rightarrow> ASTAdditiveExpression result" where
  "as_additive (N_Additive a) = Inr a"
| "as_additive _ = Inl BadCast"

fun as_term :: "ASTNode \<Rightarrow> ASTTerm result" where
  "as_term (N_Term t) = Inr t"
| "as_term _ = Inl BadCast"

end
