(* ===== verification/SyntaxTree.thy ===== *)
theory SyntaxTree
  imports Prelude
begin

text \<open>
  The concrete syntax tree: \<open>src/common/syntax_tree.c\<close> with the node
  constructor of \<open>src/parser/syntax_analyzer.y\<close>, the tokens of
  \<open>src/parser/lexical_analyzer.l\<close>, and the grammar as data. A tree of the
  grammar is what the generated parser hands to the \<open>AST\<close> class.
\<close>

section \<open>Nodes\<close>

text \<open>
  A node holds its name and its children in order; \<open>children_num\<close> is the
  length of the list. A node of a nonterminal carries the nonterminal's name, a leaf the
  text of its token.
\<close>

datatype syntax_tree_node = STNode (st_name: string) (st_children: "syntax_tree_node list")

definition children_num :: "syntax_tree_node \<Rightarrow> nat" where
  "children_num n = length (st_children n)"

lemma children_num_STNode [simp]: "children_num (STNode s ts) = length ts"
  by (simp add: children_num_def)

definition child :: "syntax_tree_node \<Rightarrow> nat \<Rightarrow> syntax_tree_node result" where
  "child n i = nth_checked (st_children n) i"

lemma child_STNode [simp]: "child (STNode s ts) i = nth_checked ts i"
  by (simp add: child_def)

lemma size_child: "child n i = Inr c \<Longrightarrow> size c < size n"
  by (cases n) (auto dest!: nth_checked_in_set size_list_estimation' [where f = size, OF _ order_refl])

text \<open>
  The name is a buffer of \<open>SYNTAX_TREE_NODE_NAME_MAX\<close> bytes. \<open>strncpy\<close> copies that
  many bytes of the text at most, and a text of that length or more leaves no terminator:
  reading the name as a C string then runs past the buffer. \<open>strcmp\<close> with a shorter
  literal stops in time, and \<open>st_name\<close> is what it reads.
\<close>

definition SYNTAX_TREE_NODE_NAME_MAX :: nat where
  "SYNTAX_TREE_NODE_NAME_MAX = 30"

definition text_fits :: "string \<Rightarrow> bool" where
  "text_fits s \<longleftrightarrow> length s < SYNTAX_TREE_NODE_NAME_MAX"

definition new_syntax_tree_node :: "string \<Rightarrow> syntax_tree_node" where
  "new_syntax_tree_node nm = STNode (take SYNTAX_TREE_NODE_NAME_MAX nm) []"

definition name_string :: "syntax_tree_node \<Rightarrow> string result" where
  "name_string n = (if text_fits (st_name n) then Inr (st_name n) else Inl BadIndex)"

lemma text_fits_iff [simp]: "text_fits s \<longleftrightarrow> length s < 30"
  by (simp add: text_fits_def SYNTAX_TREE_NODE_NAME_MAX_def)

lemma new_node_simps [simp]:
  "st_children (new_syntax_tree_node s) = []" "children_num (new_syntax_tree_node s) = 0"
  "length s < 30 \<Longrightarrow> st_name (new_syntax_tree_node s) = s"
  "name_string (new_syntax_tree_node s) = (if length s < 30 then Inr s else Inl BadIndex)"
  by (simp_all add: new_syntax_tree_node_def SYNTAX_TREE_NODE_NAME_MAX_def name_string_def)

definition syntax_tree_add_child :: "syntax_tree_node \<Rightarrow> syntax_tree_node \<Rightarrow> syntax_tree_node" where
  "syntax_tree_add_child parent c = STNode (st_name parent) (st_children parent @ [c])"

text \<open>
  The parser's semantic actions: \<open>node (name, k, $1, ..., $k)\<close>. With no children
  the node gets one leaf named \<open>epsilon\<close>.
\<close>

definition node :: "string \<Rightarrow> syntax_tree_node list \<Rightarrow> syntax_tree_node" where
  "node nm kids =
     (if kids = []
      then syntax_tree_add_child (new_syntax_tree_node nm) (new_syntax_tree_node ''epsilon'')
      else foldl syntax_tree_add_child (new_syntax_tree_node nm) kids)"

lemma foldl_add_child: "foldl syntax_tree_add_child (STNode nm ts) kids = STNode nm (ts @ kids)"
  by (induction kids arbitrary: ts) (simp_all add: syntax_tree_add_child_def)

lemma node_eq:
  "node nm kids = STNode (take 30 nm) (if kids = [] then [new_syntax_tree_node ''epsilon''] else kids)"
  by (simp add: node_def new_syntax_tree_node_def [of nm] SYNTAX_TREE_NODE_NAME_MAX_def foldl_add_child
      syntax_tree_add_child_def)

text \<open>Printing, one line per node with a bar for each level.\<close>

fun print_syntax_tree_node :: "syntax_tree_node \<Rightarrow> nat \<Rightarrow> string result" where
  "print_syntax_tree_node (STNode nm ts) level =
     bindR (name_string (STNode nm ts)) (\<lambda>text.
     bindR (mapR (\<lambda>t. print_syntax_tree_node t (level + 1)) ts) (\<lambda>lines.
     Inr (concat (replicate level ''|  '') @ ''>--'' @ (if ts \<noteq> [] then ''+'' else ''*'') @ '' '' @ text @
       [CHR 0x0A] @ concat lines)))"

section \<open>Tokens\<close>

datatype token =
    TK_ADD | TK_SUB | TK_MUL | TK_DIV | TK_LT | TK_LE | TK_GT | TK_GE | TK_EQU | TK_NEQU | TK_ASSIGN | TK_SEMICOLON | TK_COMMA
  | TK_LPARENTHESIS | TK_RPARENTHESIS | TK_LBRACKET | TK_RBRACKET | TK_LBRACE | TK_RBRACE
  | TK_ELSE | TK_IF | TK_INT | TK_RETURN | TK_VOID | TK_WHILE | TK_FLOAT | TK_ID | TK_INTEGER | TK_FLOATN

definition keyword_texts :: "string list" where
  "keyword_texts = [''else'', ''if'', ''int'', ''return'', ''void'', ''while'', ''float'']"

definition is_letter :: "char \<Rightarrow> bool" where
  "is_letter c \<longleftrightarrow> (let n = (of_char c :: nat) in (65 \<le> n \<and> n \<le> 90) \<or> (97 \<le> n \<and> n \<le> 122))"

text \<open>
  The text a token can have. Flex takes the longest match and, among equally long ones,
  the first rule, so an identifier is a run of letters that is no keyword.
\<close>

fun lexeme :: "token \<Rightarrow> string \<Rightarrow> bool" where
  "lexeme TK_ADD s = (s = ''+'')"
| "lexeme TK_SUB s = (s = ''-'')"
| "lexeme TK_MUL s = (s = ''*'')"
| "lexeme TK_DIV s = (s = ''/'')"
| "lexeme TK_LT s = (s = ''<'')"
| "lexeme TK_LE s = (s = ''<='')"
| "lexeme TK_GT s = (s = ''>'')"
| "lexeme TK_GE s = (s = ''>='')"
| "lexeme TK_EQU s = (s = ''=='')"
| "lexeme TK_NEQU s = (s = ''!='')"
| "lexeme TK_ASSIGN s = (s = ''='')"
| "lexeme TK_SEMICOLON s = (s = '';'')"
| "lexeme TK_COMMA s = (s = '','')"
| "lexeme TK_LPARENTHESIS s = (s = ''('')"
| "lexeme TK_RPARENTHESIS s = (s = '')'')"
| "lexeme TK_LBRACKET s = (s = ''['')"
| "lexeme TK_RBRACKET s = (s = '']'')"
| "lexeme TK_LBRACE s = (s = ''{'')"
| "lexeme TK_RBRACE s = (s = ''}'')"
| "lexeme TK_ELSE s = (s = ''else'')"
| "lexeme TK_IF s = (s = ''if'')"
| "lexeme TK_INT s = (s = ''int'')"
| "lexeme TK_RETURN s = (s = ''return'')"
| "lexeme TK_VOID s = (s = ''void'')"
| "lexeme TK_WHILE s = (s = ''while'')"
| "lexeme TK_FLOAT s = (s = ''float'')"
| "lexeme TK_ID s = (s \<noteq> [] \<and> list_all is_letter s \<and> s \<notin> set keyword_texts)"
| "lexeme TK_INTEGER s = (s \<noteq> [] \<and> list_all is_digit s)"
| "lexeme TK_FLOATN s = (let a = takeWhile is_digit s; b = dropWhile is_digit s in
     (case b of [] \<Rightarrow> False
      | c # fr \<Rightarrow> c = CHR ''.'' \<and> list_all is_digit fr \<and> (a \<noteq> [] \<or> fr \<noteq> [])))"

section \<open>The grammar\<close>

datatype symbol = Tok token | Nt string

text \<open>
  The productions with their semantic actions: every action of the grammar is
  \<open>node (A, k, $1, ..., $k)\<close> for the nonterminal \<open>A\<close> of the rule, and the
  rules whose right side is \<open>empty\<close> call it with no children.
\<close>

definition productions :: "(string \<times> symbol list) list" where
  "productions =
   [(''program'', [Nt ''declaration-list'']),
    (''declaration-list'', [Nt ''declaration-list'', Nt ''declaration'']),
    (''declaration-list'', [Nt ''declaration'']),
    (''declaration'', [Nt ''var-declaration'']),
    (''declaration'', [Nt ''fun-declaration'']),
    (''var-declaration'', [Nt ''type-specifier'', Tok TK_ID, Tok TK_SEMICOLON]),
    (''var-declaration'', [Nt ''type-specifier'', Tok TK_ID, Tok TK_LBRACKET, Tok TK_INTEGER, Tok TK_RBRACKET, Tok TK_SEMICOLON]),
    (''type-specifier'', [Tok TK_INT]),
    (''type-specifier'', [Tok TK_FLOAT]),
    (''type-specifier'', [Tok TK_VOID]),
    (''fun-declaration'', [Nt ''type-specifier'', Tok TK_ID, Tok TK_LPARENTHESIS, Nt ''params'', Tok TK_RPARENTHESIS, Nt ''compound-stmt'']),
    (''params'', [Nt ''param-list'']),
    (''params'', [Tok TK_VOID]),
    (''param-list'', [Nt ''param-list'', Tok TK_COMMA, Nt ''param'']),
    (''param-list'', [Nt ''param'']),
    (''param'', [Nt ''type-specifier'', Tok TK_ID]),
    (''param'', [Nt ''type-specifier'', Tok TK_ID, Tok TK_LBRACKET, Tok TK_RBRACKET]),
    (''compound-stmt'', [Tok TK_LBRACE, Nt ''local-declarations'', Nt ''statement-list'', Tok TK_RBRACE]),
    (''local-declarations'', [Nt ''local-declarations'', Nt ''var-declaration'']),
    (''local-declarations'', []),
    (''statement-list'', [Nt ''statement-list'', Nt ''statement'']),
    (''statement-list'', []),
    (''statement'', [Nt ''expression-stmt'']),
    (''statement'', [Nt ''compound-stmt'']),
    (''statement'', [Nt ''selection-stmt'']),
    (''statement'', [Nt ''iteration-stmt'']),
    (''statement'', [Nt ''return-stmt'']),
    (''expression-stmt'', [Nt ''expression'', Tok TK_SEMICOLON]),
    (''expression-stmt'', [Tok TK_SEMICOLON]),
    (''selection-stmt'', [Tok TK_IF, Tok TK_LPARENTHESIS, Nt ''expression'', Tok TK_RPARENTHESIS, Nt ''statement'']),
    (''selection-stmt'', [Tok TK_IF, Tok TK_LPARENTHESIS, Nt ''expression'', Tok TK_RPARENTHESIS, Nt ''statement'', Tok TK_ELSE, Nt ''statement'']),
    (''iteration-stmt'', [Tok TK_WHILE, Tok TK_LPARENTHESIS, Nt ''expression'', Tok TK_RPARENTHESIS, Nt ''statement'']),
    (''return-stmt'', [Tok TK_RETURN, Tok TK_SEMICOLON]),
    (''return-stmt'', [Tok TK_RETURN, Nt ''expression'', Tok TK_SEMICOLON]),
    (''expression'', [Nt ''var'', Tok TK_ASSIGN, Nt ''expression'']),
    (''expression'', [Nt ''simple-expression'']),
    (''var'', [Tok TK_ID]),
    (''var'', [Tok TK_ID, Tok TK_LBRACKET, Nt ''expression'', Tok TK_RBRACKET]),
    (''simple-expression'', [Nt ''additive-expression'', Nt ''relop'', Nt ''additive-expression'']),
    (''simple-expression'', [Nt ''additive-expression'']),
    (''relop'', [Tok TK_LT]), (''relop'', [Tok TK_LE]), (''relop'', [Tok TK_GT]),
    (''relop'', [Tok TK_GE]), (''relop'', [Tok TK_EQU]), (''relop'', [Tok TK_NEQU]),
    (''additive-expression'', [Nt ''additive-expression'', Nt ''addop'', Nt ''term'']),
    (''additive-expression'', [Nt ''term'']),
    (''addop'', [Tok TK_ADD]), (''addop'', [Tok TK_SUB]),
    (''term'', [Nt ''term'', Nt ''mulop'', Nt ''factor'']),
    (''term'', [Nt ''factor'']),
    (''mulop'', [Tok TK_MUL]), (''mulop'', [Tok TK_DIV]),
    (''factor'', [Tok TK_LPARENTHESIS, Nt ''expression'', Tok TK_RPARENTHESIS]),
    (''factor'', [Nt ''var'']), (''factor'', [Nt ''call'']),
    (''factor'', [Nt ''integer'']), (''factor'', [Nt ''float'']),
    (''integer'', [Tok TK_INTEGER]), (''float'', [Tok TK_FLOATN]),
    (''call'', [Tok TK_ID, Tok TK_LPARENTHESIS, Nt ''args'', Tok TK_RPARENTHESIS]),
    (''args'', [Nt ''arg-list'']), (''args'', []),
    (''arg-list'', [Nt ''arg-list'', Tok TK_COMMA, Nt ''expression'']),
    (''arg-list'', [Nt ''expression''])]"

text \<open>
  The trees of a symbol, for a given reading of the tokens: \<open>lexeme\<close> itself, or a
  restriction of it (literals that fit their type, say).
\<close>

inductive derives :: "(token \<Rightarrow> string \<Rightarrow> bool) \<Rightarrow> symbol \<Rightarrow> syntax_tree_node \<Rightarrow> bool"
  for lx :: "token \<Rightarrow> string \<Rightarrow> bool" where
  leaf: "lx k s \<Longrightarrow> derives lx (Tok k) (new_syntax_tree_node s)"
| inner: "(A, rhs) \<in> set productions \<Longrightarrow> list_all2 (derives lx) rhs kids \<Longrightarrow>
     derives lx (Nt A) (node A kids)"

inductive_cases derives_TokE: "derives lx (Tok k) t"
inductive_cases derives_NtE: "derives lx (Nt A) t"
inductive_simps derives_Tok_iff: "derives lx (Tok k) t"

lemma derives_mono:
  assumes "derives lx X t" and "\<And>k s. lx k s \<Longrightarrow> ly k s"
  shows "derives ly X t"
  using assms(1)
proof (induction rule: derives.induct)
  case (leaf k s)
  then show ?case by (auto intro: derives.leaf assms(2))
next
  case (inner A rhs kids)
  then show ?case by (auto intro!: derives.inner elim: list_all2_mono)
qed

end
