(* ===== verification/AstTransform.thy ===== *)
theory AstTransform
  imports Ast SyntaxTree
begin

text \<open>
  \<open>AST::transform_node_iter\<close> of \<open>src/common/ast.cpp\<close>: from the concrete
  syntax tree to the AST. The source is one function that compares the node's name with
  each nonterminal in turn; here every branch is a definition that takes the recursive
  call as an argument, and the function ties them together. Reading a child a node does
  not have, or casting a node to a class it does not have, is a failure.
\<close>

section \<open>Flattening left-recursive lists\<close>

text \<open>
  \<open>while (list_ptr->children_num == k) { s.push (list_ptr->children[j]); list_ptr =
  list_ptr->children[0]; }\<close> with the stack as a list, its top first.
\<close>

function flatten_loop ::
  "nat \<Rightarrow> nat \<Rightarrow> syntax_tree_node \<Rightarrow> syntax_tree_node list \<Rightarrow>
   (syntax_tree_node \<times> syntax_tree_node list) result" where
  "flatten_loop k j p s =
     (if children_num p = k
      then bindR (child p j) (\<lambda>c. bindR (child p 0) (\<lambda>p'. flatten_loop k j p' (c # s)))
      else Inr (p, s))"
  by pat_completeness auto
termination
  by (relation "measure (\<lambda>(k, j, p, s). size p)") (auto dest: size_child)

declare flatten_loop.simps [simp del]

lemma flatten_loop_size:
  "flatten_loop k j p s = Inr (p', s') \<Longrightarrow>
   size p' \<le> size p \<and> (\<forall>c \<in> set s'. c \<in> set s \<or> size c < size p)"
proof (induction k j p s rule: flatten_loop.induct)
  case (1 k j p s)
  show ?case
  proof (cases "children_num p = k")
    case True
    with "1.prems" obtain c p1 where c: "child p j = Inr c" and p1: "child p 0 = Inr p1"
      and rest: "flatten_loop k j p1 (c # s) = Inr (p', s')"
      by (auto simp: flatten_loop.simps [of k j p s])
    from "1.IH" [OF True c p1 rest] size_child [OF c] size_child [OF p1] show ?thesis
      by fastforce
  next
    case False
    with "1.prems" show ?thesis by (simp add: flatten_loop.simps [of k j p s])
  qed
qed

lemma flatten_loop_in:
  assumes "flatten_loop k j p [] = Inr (p', s)" and "c \<in> set s"
  shows "size c < size p"
  using flatten_loop_size [OF assms(1)] assms(2) by auto

lemma flatten_loop_end:
  assumes "flatten_loop k j p [] = Inr (p', s)" and "child p' i = Inr c"
  shows "size c < size p"
  using flatten_loop_size [OF assms(1)] size_child [OF assms(2)] by auto

lemma flatten_in_child:
  assumes "flatten_loop k j lp [] = Inr (p, s)" and "size lp < size n"
  shows "t \<in> set s \<Longrightarrow> size t < size n" and "child p i = Inr t \<Longrightarrow> size t < size n"
  using flatten_loop_in [OF assms(1)] flatten_loop_end [OF assms(1)] assms(2) by (blast intro: less_trans)+

text \<open>
  \<open>n->children[i]->children[j]\<close>, the name of a child as a string, and the bytes of the
  name of \<open>n->children[i]->children[j]\<close>, which the code only compares.
\<close>

definition child2 :: "syntax_tree_node \<Rightarrow> nat \<Rightarrow> nat \<Rightarrow> syntax_tree_node result" where
  "child2 n i j = bindR (child n i) (\<lambda>c. child c j)"

definition child_name :: "syntax_tree_node \<Rightarrow> nat \<Rightarrow> string result" where
  "child_name n i = bindR (child n i) name_string"

definition child2_name :: "syntax_tree_node \<Rightarrow> nat \<Rightarrow> nat \<Rightarrow> string result" where
  "child2_name n i j = bindR (child2 n i j) (\<lambda>c. Inr (st_name c))"

lemma size_child2: "child2 n i j = Inr c \<Longrightarrow> size c < size n"
  by (auto simp: child2_def dest!: size_child)

lemmas transform_sizes =
  size_child size_child2 flatten_in_child [OF _ size_child] flatten_in_child [OF _ size_child2]

section \<open>The branches\<close>

type_synonym transformer = "syntax_tree_node \<Rightarrow> ASTNode result"

definition transform_program :: "transformer \<Rightarrow> syntax_tree_node \<Rightarrow> ASTNode result" where
  "transform_program rec n =
     bindR (child n 0) (\<lambda>list_ptr.
     bindR (flatten_loop 2 1 list_ptr []) (\<lambda>(list_ptr, s).
     bindR (child list_ptr 0) (\<lambda>c.
     bindR (mapR (\<lambda>t. bindR (rec t) as_declaration) (c # s)) (\<lambda>ds.
     Inr (N_Program \<lparr>declarations = ds\<rparr>)))))"

definition transform_var_declaration :: "syntax_tree_node \<Rightarrow> ASTNode result" where
  "transform_var_declaration n =
     bindR (child2_name n 0 0) (\<lambda>ty.
     let type = (if ty = ''int'' then TYPE_INT else TYPE_FLOAT)
     in if children_num n = 3 then
          bindR (child_name n 1) (\<lambda>id.
          Inr (N_Declaration (D_Var \<lparr>vd_type = type, vd_id = id, vd_num = None\<rparr>)))
        else if children_num n = 6 then
          bindR (child_name n 1) (\<lambda>id.
          bindR (child_name n 3) (\<lambda>text.
          bindR (stoi text) (\<lambda>num.
          Inr (N_Declaration (D_Var \<lparr>vd_type = type, vd_id = id,
            vd_num = Some \<lparr>num_type = TYPE_INT, num_val = num\<rparr>\<rparr>)))))
        else Inl Abort)"

definition transform_fun_declaration :: "transformer \<Rightarrow> syntax_tree_node \<Rightarrow> ASTNode result" where
  "transform_fun_declaration rec n =
     bindR (child2_name n 0 0) (\<lambda>ty.
     let type = (if ty = ''int'' then TYPE_INT else if ty = ''float'' then TYPE_FLOAT else TYPE_VOID)
     in bindR (child_name n 1) (\<lambda>id.
        bindR (child2 n 3 0) (\<lambda>list_ptr.
        bindR (if children_num list_ptr \<noteq> 0
               then bindR (flatten_loop 3 2 list_ptr []) (\<lambda>(list_ptr, s).
                    bindR (child list_ptr 0) (\<lambda>c.
                    mapR (\<lambda>t. bindR (rec t) as_param) (c # s)))
               else Inr []) (\<lambda>params.
        bindR (child n 5) (\<lambda>body.
        bindR (bindR (rec body) as_compound_stmt) (\<lambda>compound_stmt.
        Inr (N_Declaration (D_Fun \<lparr>fd_type = type, fd_id = id, fd_params = params,
          fd_compound_stmt = compound_stmt\<rparr>))))))))"

definition transform_param :: "syntax_tree_node \<Rightarrow> ASTNode result" where
  "transform_param n =
     bindR (child2_name n 0 0) (\<lambda>ty.
     bindR (child_name n 1) (\<lambda>id.
     Inr (N_Param \<lparr>p_type = (if ty = ''int'' then TYPE_INT else TYPE_FLOAT), p_id = id,
       p_isarray = (children_num n > 2)\<rparr>)))"

definition transform_compound_stmt :: "transformer \<Rightarrow> syntax_tree_node \<Rightarrow> ASTNode result" where
  "transform_compound_stmt rec n =
     bindR (child n 1) (\<lambda>decls.
     bindR (if children_num decls = 2
            then bindR (flatten_loop 2 1 decls []) (\<lambda>(_, s).
                 mapR (\<lambda>t. bindR (rec t) as_var_declaration) s)
            else Inr []) (\<lambda>local_declarations.
     bindR (child n 2) (\<lambda>stmts.
     bindR (if children_num stmts = 2
            then bindR (flatten_loop 2 1 stmts []) (\<lambda>(_, s).
                 mapR (\<lambda>t. bindR (rec t) as_statement) s)
            else Inr []) (\<lambda>statement_list.
     Inr (N_Statement (S_Compound (CompoundStmt local_declarations statement_list)))))))"

definition transform_expression_stmt :: "transformer \<Rightarrow> syntax_tree_node \<Rightarrow> ASTNode result" where
  "transform_expression_stmt rec n =
     (if children_num n = 2
      then bindR (child n 0) (\<lambda>c. bindR (bindR (rec c) as_expression) (\<lambda>e.
           Inr (N_Statement (ExpressionStmt (Some e)))))
      else Inr (N_Statement (ExpressionStmt None)))"

definition transform_selection_stmt :: "transformer \<Rightarrow> syntax_tree_node \<Rightarrow> ASTNode result" where
  "transform_selection_stmt rec n =
     bindR (child n 2) (\<lambda>c2. bindR (bindR (rec c2) as_expression) (\<lambda>expression.
     bindR (child n 4) (\<lambda>c4. bindR (bindR (rec c4) as_statement) (\<lambda>if_statement.
     if children_num n = 7
     then bindR (child n 6) (\<lambda>c6. bindR (bindR (rec c6) as_statement) (\<lambda>else_statement.
          Inr (N_Statement (SelectionStmt expression if_statement (Some else_statement)))))
     else Inr (N_Statement (SelectionStmt expression if_statement None))))))"

definition transform_iteration_stmt :: "transformer \<Rightarrow> syntax_tree_node \<Rightarrow> ASTNode result" where
  "transform_iteration_stmt rec n =
     bindR (child n 2) (\<lambda>c2. bindR (bindR (rec c2) as_expression) (\<lambda>expression.
     bindR (child n 4) (\<lambda>c4. bindR (bindR (rec c4) as_statement) (\<lambda>statement.
     Inr (N_Statement (IterationStmt expression statement))))))"

definition transform_return_stmt :: "transformer \<Rightarrow> syntax_tree_node \<Rightarrow> ASTNode result" where
  "transform_return_stmt rec n =
     (if children_num n = 3
      then bindR (child n 1) (\<lambda>c. bindR (bindR (rec c) as_expression) (\<lambda>e.
           Inr (N_Statement (ReturnStmt (Some e)))))
      else Inr (N_Statement (ReturnStmt None)))"

definition transform_expression :: "transformer \<Rightarrow> syntax_tree_node \<Rightarrow> ASTNode result" where
  "transform_expression rec n =
     (if children_num n = 1 then bindR (child n 0) rec
      else bindR (child n 0) (\<lambda>c0. bindR (bindR (rec c0) as_var) (\<lambda>var.
           bindR (child n 2) (\<lambda>c2. bindR (bindR (rec c2) as_expression) (\<lambda>e.
           Inr (N_Factor (F_Expression (AssignExpression var e))))))))"

definition transform_var :: "transformer \<Rightarrow> syntax_tree_node \<Rightarrow> ASTNode result" where
  "transform_var rec n =
     bindR (child_name n 0) (\<lambda>id.
     if children_num n = 4
     then bindR (child n 2) (\<lambda>c. bindR (bindR (rec c) as_expression) (\<lambda>e.
          Inr (N_Factor (F_Var (Var id (Some e))))))
     else Inr (N_Factor (F_Var (Var id None))))"

definition transform_simple_expression :: "transformer \<Rightarrow> syntax_tree_node \<Rightarrow> ASTNode result" where
  "transform_simple_expression rec n =
     bindR (child n 0) (\<lambda>c0. bindR (bindR (rec c0) as_additive) (\<lambda>l.
     if children_num n = 3
     then bindR (child2_name n 1 0) (\<lambda>op_name.
          let op = (if op_name = ''<='' then OP_LE else if op_name = ''<'' then OP_LT
                    else if op_name = ''>'' then OP_GT else if op_name = ''>='' then OP_GE
                    else if op_name = ''=='' then OP_EQ else if op_name = ''!='' then OP_NEQ
                    else OP_LE)
          in bindR (child n 2) (\<lambda>c2. bindR (bindR (rec c2) as_additive) (\<lambda>r.
             Inr (N_Factor (F_Expression (SimpleExpression l (Some r) op))))))
     else Inr (N_Factor (F_Expression (SimpleExpression l None OP_LE)))))"

definition transform_additive_expression :: "transformer \<Rightarrow> syntax_tree_node \<Rightarrow> ASTNode result" where
  "transform_additive_expression rec n =
     (if children_num n = 3
      then bindR (child n 0) (\<lambda>c0. bindR (bindR (rec c0) as_additive) (\<lambda>a.
           bindR (child2_name n 1 0) (\<lambda>op_name.
           let op = (if op_name = ''+'' then OP_PLUS else if op_name = ''-'' then OP_MINUS else OP_PLUS)
           in bindR (child n 2) (\<lambda>c2. bindR (bindR (rec c2) as_term) (\<lambda>t.
              Inr (N_Additive (AdditiveExpression (Some a) op t)))))))
      else bindR (child n 0) (\<lambda>c0. bindR (bindR (rec c0) as_term) (\<lambda>t.
           Inr (N_Additive (AdditiveExpression None OP_PLUS t)))))"

definition transform_term :: "transformer \<Rightarrow> syntax_tree_node \<Rightarrow> ASTNode result" where
  "transform_term rec n =
     (if children_num n = 3
      then bindR (child n 0) (\<lambda>c0. bindR (bindR (rec c0) as_term) (\<lambda>t.
           bindR (child2_name n 1 0) (\<lambda>op_name.
           let op = (if op_name = ''*'' then OP_MUL else if op_name = ''/'' then OP_DIV else OP_MUL)
           in bindR (child n 2) (\<lambda>c2. bindR (bindR (rec c2) as_factor) (\<lambda>f.
              Inr (N_Term (Term (Some t) op f)))))))
      else bindR (child n 0) (\<lambda>c0. bindR (bindR (rec c0) as_factor) (\<lambda>f.
           Inr (N_Term (Term None OP_MUL f)))))"

definition transform_factor :: "transformer \<Rightarrow> syntax_tree_node \<Rightarrow> ASTNode result" where
  "transform_factor rec n =
     (let i = (if children_num n = 3 then 1 else 0)
      in bindR (child n i) (\<lambda>c.
         if st_name c = ''expression'' \<or> st_name c = ''var'' \<or> st_name c = ''call'' then rec c
         else if st_name c = ''integer'' then
           bindR (child_name c 0) (\<lambda>text. bindR (stoi text) (\<lambda>v.
           Inr (N_Factor (F_Num \<lparr>num_type = TYPE_INT, num_val = v\<rparr>))))
         else if st_name c = ''float'' then
           bindR (child_name c 0) (\<lambda>text. bindR (stof text) (\<lambda>v.
           Inr (N_Factor (F_Num \<lparr>num_type = TYPE_FLOAT, num_val = v\<rparr>))))
         else Inl Abort))"

definition transform_call :: "transformer \<Rightarrow> syntax_tree_node \<Rightarrow> ASTNode result" where
  "transform_call rec n =
     bindR (child_name n 0) (\<lambda>id.
     bindR (child2 n 2 0) (\<lambda>list_ptr.
     bindR (if st_name list_ptr = ''arg-list''
            then bindR (flatten_loop 3 2 list_ptr []) (\<lambda>(list_ptr, s).
                 bindR (child list_ptr 0) (\<lambda>c.
                 mapR (\<lambda>t. bindR (rec t) as_expression) (c # s)))
            else Inr []) (\<lambda>args.
     Inr (N_Factor (F_Call (Call id args))))))"

lemmas transform_branch_defs =
  transform_program_def transform_fun_declaration_def transform_compound_stmt_def
  transform_expression_stmt_def transform_selection_stmt_def transform_iteration_stmt_def
  transform_return_stmt_def transform_expression_def transform_var_def
  transform_simple_expression_def transform_additive_expression_def transform_term_def
  transform_factor_def transform_call_def transform_var_declaration_def transform_param_def

section \<open>The recursion\<close>

text \<open>A branch calls back on proper descendants of its node only.\<close>

lemma transform_branch_congs [fundef_cong]:
  assumes "n = m" and "\<And>t. size t < size m \<Longrightarrow> f t = g t"
  shows "transform_program f n = transform_program g m"
    and "transform_fun_declaration f n = transform_fun_declaration g m"
    and "transform_compound_stmt f n = transform_compound_stmt g m"
    and "transform_expression_stmt f n = transform_expression_stmt g m"
    and "transform_selection_stmt f n = transform_selection_stmt g m"
    and "transform_iteration_stmt f n = transform_iteration_stmt g m"
    and "transform_return_stmt f n = transform_return_stmt g m"
    and "transform_expression f n = transform_expression g m"
    and "transform_var f n = transform_var g m"
    and "transform_simple_expression f n = transform_simple_expression g m"
    and "transform_additive_expression f n = transform_additive_expression g m"
    and "transform_term f n = transform_term g m"
    and "transform_factor f n = transform_factor g m"
    and "transform_call f n = transform_call g m"
  unfolding transform_branch_defs assms(1)
  by (auto simp: Let_def intro!: bindR_cong mapR_cong assms(2) intro: transform_sizes)

function transform_node_iter :: "syntax_tree_node \<Rightarrow> ASTNode result" where
  "transform_node_iter n =
     (if st_name n = ''program'' then transform_program transform_node_iter n
      else if st_name n = ''declaration'' then bindR (child n 0) transform_node_iter
      else if st_name n = ''var-declaration'' then transform_var_declaration n
      else if st_name n = ''fun-declaration'' then transform_fun_declaration transform_node_iter n
      else if st_name n = ''param'' then transform_param n
      else if st_name n = ''compound-stmt'' then transform_compound_stmt transform_node_iter n
      else if st_name n = ''statement'' then bindR (child n 0) transform_node_iter
      else if st_name n = ''expression-stmt'' then transform_expression_stmt transform_node_iter n
      else if st_name n = ''selection-stmt'' then transform_selection_stmt transform_node_iter n
      else if st_name n = ''iteration-stmt'' then transform_iteration_stmt transform_node_iter n
      else if st_name n = ''return-stmt'' then transform_return_stmt transform_node_iter n
      else if st_name n = ''expression'' then transform_expression transform_node_iter n
      else if st_name n = ''var'' then transform_var transform_node_iter n
      else if st_name n = ''simple-expression'' then transform_simple_expression transform_node_iter n
      else if st_name n = ''additive-expression'' then transform_additive_expression transform_node_iter n
      else if st_name n = ''term'' then transform_term transform_node_iter n
      else if st_name n = ''factor'' then transform_factor transform_node_iter n
      else if st_name n = ''call'' then transform_call transform_node_iter n
      else Inl Abort)"
  by pat_completeness auto
termination
  by (relation "measure size") (auto dest: size_child)

declare transform_node_iter.simps [simp del]

text \<open>The constructor \<open>AST (syntax_tree * s)\<close>; a null tree aborts.\<close>

definition AST_of :: "syntax_tree_node option \<Rightarrow> ASTProgram result" where
  "AST_of s = (case s of None \<Rightarrow> Inl Abort | Some root \<Rightarrow> bindR (transform_node_iter root) as_program)"

end
