(* ===== verification/AstRoundtrip.thy ===== *)
theory AstRoundtrip
  imports AstTransform
begin

text \<open>
  What \<open>transform_node_iter\<close> promises. The specification is the inverse
  direction: the concrete tree of an AST, built with the parser's own node constructor.
  \<open>transform_node_iter\<close> recovers every well-formed AST from its tree, and it
  returns a well-formed program for every tree of the grammar whose literals fit.
\<close>

section \<open>The concrete tree of an AST\<close>

abbreviation leaf :: "string \<Rightarrow> syntax_tree_node" where
  "leaf s \<equiv> new_syntax_tree_node s"

fun type_text :: "CminusType \<Rightarrow> string" where
  "type_text TYPE_INT = ''int''"
| "type_text TYPE_FLOAT = ''float''"
| "type_text TYPE_VOID = ''void''"

fun relop_text :: "RelOp \<Rightarrow> string" where
  "relop_text OP_LE = ''<=''" | "relop_text OP_LT = ''<''" | "relop_text OP_GT = ''>''"
| "relop_text OP_GE = ''>=''" | "relop_text OP_EQ = ''==''" | "relop_text OP_NEQ = ''!=''"

fun addop_text :: "AddOp \<Rightarrow> string" where
  "addop_text OP_PLUS = ''+''" | "addop_text OP_MINUS = ''-''"

fun mulop_text :: "MulOp \<Rightarrow> string" where
  "mulop_text OP_MUL = ''*''" | "mulop_text OP_DIV = ''/''"

definition cst_type :: "CminusType \<Rightarrow> syntax_tree_node" where
  "cst_type ty = node ''type-specifier'' [leaf (type_text ty)]"

text \<open>
  Left-recursive lists: started by the empty rule, or by the first element with the
  others after a separator.
\<close>

definition cst_list0 :: "string \<Rightarrow> syntax_tree_node list \<Rightarrow> syntax_tree_node" where
  "cst_list0 A ts = foldl (\<lambda>l t. node A [l, t]) (node A []) ts"

definition cst_list1 :: "string \<Rightarrow> syntax_tree_node list \<Rightarrow> syntax_tree_node list \<Rightarrow> syntax_tree_node" where
  "cst_list1 A sep ts = foldl (\<lambda>l t. node A (l # sep @ [t])) (node A [hd ts]) (tl ts)"

text \<open>Floats are written by a function \<open>fl\<close> that \<open>stof\<close> inverts.\<close>

definition cst_num :: "(f32 \<Rightarrow> string) \<Rightarrow> ASTNum \<Rightarrow> syntax_tree_node" where
  "cst_num fl n = (if num_type n = TYPE_INT then node ''integer'' [leaf (show_nat (unat (num_val n)))]
                   else node ''float'' [leaf (fl (num_val n))])"

fun cst_factor :: "(f32 \<Rightarrow> string) \<Rightarrow> ASTFactor \<Rightarrow> syntax_tree_node"
and cst_expression :: "(f32 \<Rightarrow> string) \<Rightarrow> ASTExpression \<Rightarrow> syntax_tree_node"
and cst_var :: "(f32 \<Rightarrow> string) \<Rightarrow> ASTVar \<Rightarrow> syntax_tree_node"
and cst_additive :: "(f32 \<Rightarrow> string) \<Rightarrow> ASTAdditiveExpression \<Rightarrow> syntax_tree_node"
and cst_term :: "(f32 \<Rightarrow> string) \<Rightarrow> ASTTerm \<Rightarrow> syntax_tree_node"
and cst_call :: "(f32 \<Rightarrow> string) \<Rightarrow> ASTCall \<Rightarrow> syntax_tree_node" where
  "cst_factor fl (F_Num n) = node ''factor'' [cst_num fl n]"
| "cst_factor fl (F_Expression e) = node ''factor'' [leaf ''('', cst_expression fl e, leaf '')'']"
| "cst_factor fl (F_Var v) = node ''factor'' [cst_var fl v]"
| "cst_factor fl (F_Call c) = node ''factor'' [cst_call fl c]"
| "cst_expression fl (AssignExpression v e) =
     node ''expression'' [cst_var fl v, leaf ''='', cst_expression fl e]"
| "cst_expression fl (SimpleExpression l None op) =
     node ''expression'' [node ''simple-expression'' [cst_additive fl l]]"
| "cst_expression fl (SimpleExpression l (Some r) op) =
     node ''expression'' [node ''simple-expression''
       [cst_additive fl l, node ''relop'' [leaf (relop_text op)], cst_additive fl r]]"
| "cst_var fl (Var x None) = node ''var'' [leaf x]"
| "cst_var fl (Var x (Some e)) = node ''var'' [leaf x, leaf ''['', cst_expression fl e, leaf '']'']"
| "cst_additive fl (AdditiveExpression None op t) = node ''additive-expression'' [cst_term fl t]"
| "cst_additive fl (AdditiveExpression (Some a) op t) =
     node ''additive-expression'' [cst_additive fl a, node ''addop'' [leaf (addop_text op)], cst_term fl t]"
| "cst_term fl (Term None op f) = node ''term'' [cst_factor fl f]"
| "cst_term fl (Term (Some t) op f) =
     node ''term'' [cst_term fl t, node ''mulop'' [leaf (mulop_text op)], cst_factor fl f]"
| "cst_call fl (Call x args) =
     node ''call'' [leaf x, leaf ''('',
       node ''args'' (if args = [] then [] else [cst_list1 ''arg-list'' [leaf '',''] (map (cst_expression fl) args)]),
       leaf '')'']"

definition cst_var_declaration :: "(f32 \<Rightarrow> string) \<Rightarrow> ASTVarDeclaration \<Rightarrow> syntax_tree_node" where
  "cst_var_declaration fl d = node ''var-declaration''
     (case vd_num d of
        None \<Rightarrow> [cst_type (vd_type d), leaf (vd_id d), leaf '';'']
      | Some n \<Rightarrow> [cst_type (vd_type d), leaf (vd_id d), leaf ''['', leaf (show_nat (unat (num_val n))),
                  leaf '']'', leaf '';''])"

fun cst_statement :: "(f32 \<Rightarrow> string) \<Rightarrow> ASTStatement \<Rightarrow> syntax_tree_node"
and cst_compound :: "(f32 \<Rightarrow> string) \<Rightarrow> ASTCompoundStmt \<Rightarrow> syntax_tree_node" where
  "cst_statement fl (S_Compound c) = node ''statement'' [cst_compound fl c]"
| "cst_statement fl (ExpressionStmt None) = node ''statement'' [node ''expression-stmt'' [leaf '';'']]"
| "cst_statement fl (ExpressionStmt (Some e)) =
     node ''statement'' [node ''expression-stmt'' [cst_expression fl e, leaf '';'']]"
| "cst_statement fl (SelectionStmt e s None) =
     node ''statement'' [node ''selection-stmt''
       [leaf ''if'', leaf ''('', cst_expression fl e, leaf '')'', cst_statement fl s]]"
| "cst_statement fl (SelectionStmt e s (Some s')) =
     node ''statement'' [node ''selection-stmt''
       [leaf ''if'', leaf ''('', cst_expression fl e, leaf '')'', cst_statement fl s,
        leaf ''else'', cst_statement fl s']]"
| "cst_statement fl (IterationStmt e s) =
     node ''statement'' [node ''iteration-stmt''
       [leaf ''while'', leaf ''('', cst_expression fl e, leaf '')'', cst_statement fl s]]"
| "cst_statement fl (ReturnStmt None) =
     node ''statement'' [node ''return-stmt'' [leaf ''return'', leaf '';'']]"
| "cst_statement fl (ReturnStmt (Some e)) =
     node ''statement'' [node ''return-stmt'' [leaf ''return'', cst_expression fl e, leaf '';'']]"
| "cst_compound fl (CompoundStmt ds ss) =
     node ''compound-stmt'' [leaf ''{'',
       cst_list0 ''local-declarations'' (map (cst_var_declaration fl) ds),
       cst_list0 ''statement-list'' (map (cst_statement fl) ss), leaf ''}'']"

definition cst_param :: "ASTParam \<Rightarrow> syntax_tree_node" where
  "cst_param p = node ''param''
     ([cst_type (p_type p), leaf (p_id p)] @ (if p_isarray p then [leaf ''['', leaf '']''] else []))"

definition cst_fun_declaration :: "(f32 \<Rightarrow> string) \<Rightarrow> ASTFunDeclaration \<Rightarrow> syntax_tree_node" where
  "cst_fun_declaration fl d = node ''fun-declaration''
     [cst_type (fd_type d), leaf (fd_id d), leaf ''('',
      node ''params'' [if fd_params d = [] then leaf ''void''
                       else cst_list1 ''param-list'' [leaf '',''] (map cst_param (fd_params d))],
      leaf '')'', cst_compound fl (fd_compound_stmt d)]"

fun cst_declaration :: "(f32 \<Rightarrow> string) \<Rightarrow> ASTDeclaration \<Rightarrow> syntax_tree_node" where
  "cst_declaration fl (D_Var d) = node ''declaration'' [cst_var_declaration fl d]"
| "cst_declaration fl (D_Fun d) = node ''declaration'' [cst_fun_declaration fl d]"

definition cst_program :: "(f32 \<Rightarrow> string) \<Rightarrow> ASTProgram \<Rightarrow> syntax_tree_node" where
  "cst_program fl p =
     node ''program'' [cst_list1 ''declaration-list'' [] (map (cst_declaration fl) (declarations p))]"

section \<open>Well-formed ASTs\<close>

text \<open>
  What every parsed AST satisfies: an operator is the default where there is no second
  operand, integer literals are not negative, variables and parameters have the type int
  or float, an array size is an int, a program declares something, names fit the buffer of
  a node; \<open>ok\<close> is asked of every float.
\<close>

definition wf_num :: "(f32 \<Rightarrow> bool) \<Rightarrow> ASTNum \<Rightarrow> bool" where
  "wf_num ok n \<longleftrightarrow> (case num_type n of
     TYPE_INT \<Rightarrow> unat (num_val n) < 2 ^ 31 | TYPE_FLOAT \<Rightarrow> ok (num_val n) | TYPE_VOID \<Rightarrow> False)"

fun wf_factor :: "(f32 \<Rightarrow> bool) \<Rightarrow> ASTFactor \<Rightarrow> bool"
and wf_expression :: "(f32 \<Rightarrow> bool) \<Rightarrow> ASTExpression \<Rightarrow> bool"
and wf_var :: "(f32 \<Rightarrow> bool) \<Rightarrow> ASTVar \<Rightarrow> bool"
and wf_additive :: "(f32 \<Rightarrow> bool) \<Rightarrow> ASTAdditiveExpression \<Rightarrow> bool"
and wf_term :: "(f32 \<Rightarrow> bool) \<Rightarrow> ASTTerm \<Rightarrow> bool"
and wf_call :: "(f32 \<Rightarrow> bool) \<Rightarrow> ASTCall \<Rightarrow> bool" where
  "wf_factor ok (F_Num n) = wf_num ok n"
| "wf_factor ok (F_Expression e) = wf_expression ok e"
| "wf_factor ok (F_Var v) = wf_var ok v"
| "wf_factor ok (F_Call c) = wf_call ok c"
| "wf_expression ok (AssignExpression v e) = (wf_var ok v \<and> wf_expression ok e)"
| "wf_expression ok (SimpleExpression l None op) = (wf_additive ok l \<and> op = OP_LE)"
| "wf_expression ok (SimpleExpression l (Some r) op) = (wf_additive ok l \<and> wf_additive ok r)"
| "wf_var ok (Var x None) = text_fits x"
| "wf_var ok (Var x (Some e)) = (text_fits x \<and> wf_expression ok e)"
| "wf_additive ok (AdditiveExpression None op t) = (op = OP_PLUS \<and> wf_term ok t)"
| "wf_additive ok (AdditiveExpression (Some a) op t) = (wf_additive ok a \<and> wf_term ok t)"
| "wf_term ok (Term None op f) = (op = OP_MUL \<and> wf_factor ok f)"
| "wf_term ok (Term (Some t) op f) = (wf_term ok t \<and> wf_factor ok f)"
| "wf_call ok (Call x args) = (text_fits x \<and> (\<forall>e \<in> set args. wf_expression ok e))"

definition wf_var_declaration :: "ASTVarDeclaration \<Rightarrow> bool" where
  "wf_var_declaration d \<longleftrightarrow> vd_type d \<noteq> TYPE_VOID \<and> text_fits (vd_id d) \<and>
     (case vd_num d of None \<Rightarrow> True | Some n \<Rightarrow> num_type n = TYPE_INT \<and> unat (num_val n) < 2 ^ 31)"

fun wf_statement :: "(f32 \<Rightarrow> bool) \<Rightarrow> ASTStatement \<Rightarrow> bool"
and wf_compound :: "(f32 \<Rightarrow> bool) \<Rightarrow> ASTCompoundStmt \<Rightarrow> bool" where
  "wf_statement ok (S_Compound c) = wf_compound ok c"
| "wf_statement ok (ExpressionStmt None) = True"
| "wf_statement ok (ExpressionStmt (Some e)) = wf_expression ok e"
| "wf_statement ok (SelectionStmt e s None) = (wf_expression ok e \<and> wf_statement ok s)"
| "wf_statement ok (SelectionStmt e s (Some s')) =
     (wf_expression ok e \<and> wf_statement ok s \<and> wf_statement ok s')"
| "wf_statement ok (IterationStmt e s) = (wf_expression ok e \<and> wf_statement ok s)"
| "wf_statement ok (ReturnStmt None) = True"
| "wf_statement ok (ReturnStmt (Some e)) = wf_expression ok e"
| "wf_compound ok (CompoundStmt ds ss) =
     ((\<forall>d \<in> set ds. wf_var_declaration d) \<and> (\<forall>s \<in> set ss. wf_statement ok s))"

definition wf_param :: "ASTParam \<Rightarrow> bool" where
  "wf_param p \<longleftrightarrow> p_type p \<noteq> TYPE_VOID \<and> text_fits (p_id p)"

fun wf_declaration :: "(f32 \<Rightarrow> bool) \<Rightarrow> ASTDeclaration \<Rightarrow> bool" where
  "wf_declaration ok (D_Var d) = wf_var_declaration d"
| "wf_declaration ok (D_Fun d) = (text_fits (fd_id d) \<and> (\<forall>p \<in> set (fd_params d). wf_param p) \<and> wf_compound ok (fd_compound_stmt d))"

definition wf_program :: "(f32 \<Rightarrow> bool) \<Rightarrow> ASTProgram \<Rightarrow> bool" where
  "wf_program ok p \<longleftrightarrow> declarations p \<noteq> [] \<and> (\<forall>d \<in> set (declarations p). wf_declaration ok d)"

section \<open>Round trip\<close>

lemma mapR_map: "mapR f (map g xs) = mapR (\<lambda>x. f (g x)) xs"
  by (induction xs) simp_all

lemma mapR_Inr_map: "(\<And>x. x \<in> set xs \<Longrightarrow> f x = Inr (h x)) \<Longrightarrow> mapR f xs = Inr (map h xs)"
  by (induction xs) simp_all

lemma flatten_foldl:
  assumes "k = length sep + 2" and "j = length sep + 1" and "children_num b \<noteq> k"
  shows "flatten_loop k j (foldl (\<lambda>l t. node A (l # sep @ [t])) b ts) s = Inr (b, ts @ s)"
proof (induction ts arbitrary: s rule: rev_induct)
  case Nil
  then show ?case using assms by (simp add: flatten_loop.simps [of _ _ b])
next
  case (snoc t ts)
  let ?l = "foldl (\<lambda>l t. node A (l # sep @ [t])) b ts"
  have "flatten_loop k j (node A (?l # sep @ [t])) s = flatten_loop k j ?l (t # s)"
    by (subst flatten_loop.simps) (simp add: assms(1,2) node_eq nth_checked_def nth_append)
  with snoc show ?case by simp
qed

lemma flatten_cst_list0: "flatten_loop 2 1 (cst_list0 A ts) s = Inr (node A [], ts @ s)"
  unfolding cst_list0_def using flatten_foldl [of 2 "[]" 1 "node A []" A ts s] by (simp add: node_eq)

lemma flatten_cst_list0_Suc: "flatten_loop 2 (Suc 0) (cst_list0 A ts) s = Inr (node A [], ts @ s)"
  using flatten_cst_list0 by simp

lemma flatten_cst_list1:
  assumes "k = length sep + 2" and "j = length sep + 1"
  shows "flatten_loop k j (cst_list1 A sep ts) s = Inr (node A [hd ts], tl ts @ s)"
  unfolding cst_list1_def by (rule flatten_foldl) (simp_all add: assms node_eq)

lemma children_num_cst_list0: "children_num (cst_list0 A ts) = 2 \<longleftrightarrow> ts \<noteq> []"
  by (cases ts rule: rev_exhaust) (simp_all add: cst_list0_def node_eq)

lemma st_name_node [simp]: "length A < 30 \<Longrightarrow> st_name (node A ts) = A"
  by (simp add: node_eq)

lemma children_num_node: "children_num (node A ts) = (if ts = [] then 1 else length ts)"
  by (simp add: node_eq)

lemma child_node: "ts \<noteq> [] \<Longrightarrow> child (node A ts) i = nth_checked ts i"
  by (simp add: node_eq)

lemma child_node_Nil: "child (node A []) 0 = Inr (leaf ''epsilon'')"
  by (simp add: node_eq)

lemma cst_list1_props:
  assumes "ts \<noteq> []" and "length A < 30"
  shows "st_name (cst_list1 A sep ts) = A" and "children_num (cst_list1 A sep ts) \<noteq> 0"
  using assms(2) by (cases "tl ts" rule: rev_exhaust; simp add: cst_list1_def children_num_node)+

text \<open>What \<open>transform_node_iter\<close> does at each nonterminal.\<close>

lemma transform_node_simps:
  "transform_node_iter (node ''program'' ts) = transform_program transform_node_iter (node ''program'' ts)"
  "transform_node_iter (node ''declaration'' ts) = bindR (child (node ''declaration'' ts) 0) transform_node_iter"
  "transform_node_iter (node ''var-declaration'' ts) = transform_var_declaration (node ''var-declaration'' ts)"
  "transform_node_iter (node ''fun-declaration'' ts) = transform_fun_declaration transform_node_iter (node ''fun-declaration'' ts)"
  "transform_node_iter (node ''param'' ts) = transform_param (node ''param'' ts)"
  "transform_node_iter (node ''compound-stmt'' ts) = transform_compound_stmt transform_node_iter (node ''compound-stmt'' ts)"
  "transform_node_iter (node ''statement'' ts) = bindR (child (node ''statement'' ts) 0) transform_node_iter"
  "transform_node_iter (node ''expression-stmt'' ts) = transform_expression_stmt transform_node_iter (node ''expression-stmt'' ts)"
  "transform_node_iter (node ''selection-stmt'' ts) = transform_selection_stmt transform_node_iter (node ''selection-stmt'' ts)"
  "transform_node_iter (node ''iteration-stmt'' ts) = transform_iteration_stmt transform_node_iter (node ''iteration-stmt'' ts)"
  "transform_node_iter (node ''return-stmt'' ts) = transform_return_stmt transform_node_iter (node ''return-stmt'' ts)"
  "transform_node_iter (node ''expression'' ts) = transform_expression transform_node_iter (node ''expression'' ts)"
  "transform_node_iter (node ''var'' ts) = transform_var transform_node_iter (node ''var'' ts)"
  "transform_node_iter (node ''simple-expression'' ts) = transform_simple_expression transform_node_iter (node ''simple-expression'' ts)"
  "transform_node_iter (node ''additive-expression'' ts) = transform_additive_expression transform_node_iter (node ''additive-expression'' ts)"
  "transform_node_iter (node ''term'' ts) = transform_term transform_node_iter (node ''term'' ts)"
  "transform_node_iter (node ''factor'' ts) = transform_factor transform_node_iter (node ''factor'' ts)"
  "transform_node_iter (node ''call'' ts) = transform_call transform_node_iter (node ''call'' ts)"
  by (simp_all add: transform_node_iter.simps)

lemmas node_access = children_num_node child_node child_name_def child2_def child2_name_def cst_type_def
lemmas transform_node_eqs = transform_node_simps transform_branch_defs node_access

lemma st_name_cst_parts [simp]:
  "st_name (cst_expression fl e) = ''expression''"
  "st_name (cst_var fl v) = ''var''"
  "st_name (cst_call fl c) = ''call''"
proof -
  show "st_name (cst_expression fl e) = ''expression''"
  proof (cases e)
    case (SimpleExpression l r op)
    then show ?thesis by (cases r) simp_all
  qed simp
  show "st_name (cst_var fl v) = ''var''"
  proof (cases v)
    case (Var x e)
    then show ?thesis by (cases e) simp_all
  qed
  show "st_name (cst_call fl c) = ''call''" by (cases c) simp
qed

abbreviation inverts_stof :: "(f32 \<Rightarrow> string) \<Rightarrow> f32 \<Rightarrow> bool" where
  "inverts_stof fl \<equiv> \<lambda>w. text_fits (fl w) \<and> stof (fl w) = Inr w"

lemma length_show_nat: "n < 10 ^ Suc k \<Longrightarrow> length (show_nat n) \<le> Suc k"
proof (induction k arbitrary: n)
  case 0
  then show ?case by (simp add: show_nat.simps [of n])
next
  case (Suc k)
  then have "n div 10 < 10 ^ Suc k" by (simp add: div_less_iff_less_mult)
  with Suc.IH have "length (show_nat (n div 10)) \<le> Suc k" by blast
  then show ?case by (simp add: show_nat.simps [of n])
qed

lemma text_fits_show_nat [simp]: "n < 2147483648 \<Longrightarrow> length (show_nat n) < 30"
  using length_show_nat [of n 9] by simp

lemma transform_cst_num:
  assumes "wf_num (inverts_stof fl) n"
  shows "transform_node_iter (node ''factor'' [cst_num fl n]) = Inr (N_Factor (F_Num n))"
  using assms
  by (cases n) (auto simp: wf_num_def cst_num_def transform_node_eqs stoi_show_nat split: CminusType.splits)

lemma transform_cst_expressions:
  "wf_factor (inverts_stof fl) f \<Longrightarrow> transform_node_iter (cst_factor fl f) = Inr (N_Factor f)"
  "wf_expression (inverts_stof fl) e \<Longrightarrow> transform_node_iter (cst_expression fl e) = Inr (N_Factor (F_Expression e))"
  "wf_var (inverts_stof fl) v \<Longrightarrow> transform_node_iter (cst_var fl v) = Inr (N_Factor (F_Var v))"
  "wf_additive (inverts_stof fl) a \<Longrightarrow> transform_node_iter (cst_additive fl a) = Inr (N_Additive a)"
  "wf_term (inverts_stof fl) t \<Longrightarrow> transform_node_iter (cst_term fl t) = Inr (N_Term t)"
  "wf_call (inverts_stof fl) c \<Longrightarrow> transform_node_iter (cst_call fl c) = Inr (N_Factor (F_Call c))"
proof (induction fl f and fl e and fl v and fl a and fl t and fl c
    rule: cst_factor_cst_expression_cst_var_cst_additive_cst_term_cst_call.induct)
  case (1 fl n)
  then show ?case by (simp add: transform_cst_num)
next
  case (7 fl l r op)
  then show ?case by (cases op) (simp_all add: transform_node_eqs)
next
  case (11 fl a op t)
  then show ?case by (cases op) (simp_all add: transform_node_eqs)
next
  case (13 fl t op f)
  then show ?case by (cases op) (simp_all add: transform_node_eqs)
next
  case (14 fl x args)
  have "mapR (\<lambda>t. bindR (transform_node_iter t) as_expression) (map (cst_expression fl) args) = Inr args"
    unfolding mapR_map by (rule trans [OF mapR_Inr_map [where h = id]]) (use 14 in \<open>cases args; fastforce\<close>)+
  moreover have "length x < 30" using 14 by simp
  ultimately show ?case
    by (cases args)
      (simp_all add: transform_node_simps transform_call_def node_access child_node_Nil flatten_cst_list1 cst_list1_props)
qed (simp_all add: transform_node_eqs)


lemma transform_cst_var_declaration:
  "wf_var_declaration d \<Longrightarrow>
   transform_node_iter (cst_var_declaration fl d) = Inr (N_Declaration (D_Var d))"
  by (cases d; cases "vd_type d"; cases "vd_num d")
    (auto simp: wf_var_declaration_def cst_var_declaration_def transform_node_eqs child2_def stoi_show_nat
      split: option.splits)

lemma transform_cst_list0:
  assumes "\<And>x. x \<in> set xs \<Longrightarrow> bindR (transform_node_iter (f x)) as = Inr x"
  shows "mapR (\<lambda>t. bindR (transform_node_iter t) as) (map f xs) = Inr xs"
  unfolding mapR_map by (rule trans [OF mapR_Inr_map [where h = id]]) (use assms in auto)

lemma transform_cst_statements:
  "wf_statement (inverts_stof fl) s \<Longrightarrow> transform_node_iter (cst_statement fl s) = Inr (N_Statement s)"
  "wf_compound (inverts_stof fl) c \<Longrightarrow> transform_node_iter (cst_compound fl c) = Inr (N_Statement (S_Compound c))"
proof (induction fl s and fl c rule: cst_statement_cst_compound.induct)
  case (9 fl ds ss)
  have "mapR (\<lambda>t. bindR (transform_node_iter t) as_var_declaration) (map (cst_var_declaration fl) ds) = Inr ds"
    by (rule transform_cst_list0) (use 9 in \<open>auto simp: transform_cst_var_declaration\<close>)
  moreover have "mapR (\<lambda>t. bindR (transform_node_iter t) as_statement) (map (cst_statement fl) ss) = Inr ss"
    by (rule transform_cst_list0) (use 9 in auto)
  ultimately show ?case
    by (auto simp: transform_node_simps transform_compound_stmt_def node_access children_num_cst_list0 flatten_cst_list0_Suc)
qed (simp_all add: transform_node_eqs transform_cst_expressions)

lemma transform_cst_param: "wf_param p \<Longrightarrow> transform_node_iter (cst_param p) = Inr (N_Param p)"
  by (cases p; cases "p_type p") (auto simp: wf_param_def cst_param_def transform_node_eqs)

lemma transform_cst_fun_declaration:
  assumes "\<forall>p \<in> set (fd_params d). wf_param p" and "wf_compound (inverts_stof fl) (fd_compound_stmt d)"
    and "text_fits (fd_id d)"
  shows "transform_node_iter (cst_fun_declaration fl d) = Inr (N_Declaration (D_Fun d))"
proof -
  have "mapR (\<lambda>t. bindR (transform_node_iter t) as_param) (map cst_param (fd_params d)) = Inr (fd_params d)"
    by (rule transform_cst_list0) (use assms(1) in \<open>auto simp: transform_cst_param\<close>)
  with assms(2,3) show ?thesis
    by (cases d; cases "fd_type d"; cases "fd_params d")
      (auto simp: cst_fun_declaration_def transform_node_simps transform_fun_declaration_def node_access
        flatten_cst_list1 cst_list1_props transform_cst_statements)
qed

lemma transform_cst_declaration:
  "wf_declaration (inverts_stof fl) d \<Longrightarrow> transform_node_iter (cst_declaration fl d) = Inr (N_Declaration d)"
  by (cases d)
    (auto simp: transform_node_simps node_access transform_cst_var_declaration transform_cst_fun_declaration)

lemma transform_cst_program:
  assumes "wf_program (inverts_stof fl) p"
  shows "transform_node_iter (cst_program fl p) = Inr (N_Program p)"
proof -
  have "mapR (\<lambda>t. bindR (transform_node_iter t) as_declaration) (map (cst_declaration fl) (declarations p)) =
      Inr (declarations p)"
    by (rule transform_cst_list0) (use assms in \<open>auto simp: wf_program_def transform_cst_declaration\<close>)
  with assms show ?thesis
    using flatten_cst_list1 [of 2 "[]" 1 "''declaration-list''"]
    by (cases p; cases "declarations p")
      (auto simp: wf_program_def cst_program_def transform_node_simps transform_program_def node_access)
qed

text \<open>C3: transforming the concrete tree of a well-formed AST whose names and spelled floats have
  fewer than 30 characters (built with the parser's node constructor, left-recursive lists and all)
  gives back that AST: declarations, parameters, statements and arguments in source order, every
  operator, type and literal. The spelling of floats is a parameter that the conversion has to
  invert. Longer texts are not terminated in the node and no AST is claimed for them.\<close>

theorem AST_of_cst_program:
  assumes "wf_program (inverts_stof fl) p"
  shows "AST_of (Some (cst_program fl p)) = Inr p"
  using transform_cst_program [OF assms] by (simp add: AST_of_def)

definition sample_program :: ASTProgram where
  "sample_program = \<lparr>declarations =
     [D_Var \<lparr>vd_type = TYPE_FLOAT, vd_id = ''g'', vd_num = Some \<lparr>num_type = TYPE_INT, num_val = 4\<rparr>\<rparr>,
      D_Fun \<lparr>fd_type = TYPE_INT, fd_id = ''f'', fd_params = [\<lparr>p_type = TYPE_INT, p_id = ''n'', p_isarray = False\<rparr>],
        fd_compound_stmt = CompoundStmt []
          [IterationStmt (SimpleExpression (AdditiveExpression None OP_PLUS
               (Term None OP_MUL (F_Var (Var ''n'' None))))
             (Some (AdditiveExpression None OP_PLUS (Term None OP_MUL (F_Num \<lparr>num_type = TYPE_INT, num_val = 0\<rparr>)))) OP_GT)
             (ReturnStmt None)]\<rparr>]\<rparr>"

lemma sample_program_wf: "wf_program ok sample_program"
  by (simp add: sample_program_def wf_program_def wf_var_declaration_def wf_param_def wf_num_def)

lemma AST_of_cst_program_witness:
  "wf_program (inverts_stof show_f32) sample_program \<and>
   AST_of (Some (cst_program show_f32 sample_program)) = Inr sample_program"
  using AST_of_cst_program [OF sample_program_wf, of show_f32] by (simp add: sample_program_wf)

end
