(* ===== verification/AstPrint.thy ===== *)
theory AstPrint
  imports AstRoundtrip
begin

text \<open>
  \<open>ASTPrinter\<close> of \<open>src/common/ast.cpp\<close>: a visitor with one member, the
  depth, that writes a line per node. Every \<open>visit\<close> is a definition that takes what
  \<open>accept\<close> does on its children as arguments; the \<open>accept\<close> functions
  dispatch on the class of a node. The specification is a tree of labels and its rendering.
\<close>

section \<open>The printer\<close>

text \<open>\<open>depth\<close> and what \<open>std::cout\<close> has received.\<close>

record ast_printer =
  depth :: int
  out :: string

type_synonym printing = "ast_printer \<Rightarrow> ast_printer result"

definition emit :: "string \<Rightarrow> ast_printer \<Rightarrow> ast_printer" where
  "emit s p = p\<lparr>out := out p @ s\<rparr>"

definition endl :: string where
  "endl = [CHR 0x0A]"

text \<open>\<open>std::string (N, '-')\<close>, which throws when \<open>N\<close> is negative.\<close>

definition debug_print_n :: printing where
  "debug_print_n p = (if depth p < 0 then Inl LengthError else Inr (emit (replicate (nat (depth p)) CHR ''-'') p))"

definition add_depth :: "ast_printer \<Rightarrow> ast_printer" where
  "add_depth p = p\<lparr>depth := depth p + 2\<rparr>"

definition remove_depth :: "ast_printer \<Rightarrow> ast_printer" where
  "remove_depth p = p\<lparr>depth := depth p - 2\<rparr>"

fun print_all :: "printing list \<Rightarrow> printing" where
  "print_all [] p = Inr p"
| "print_all (f # fs) p = bindR (f p) (print_all fs)"

definition print_opt :: "printing option \<Rightarrow> printing" where
  "print_opt f = (case f of None \<Rightarrow> Inr | Some g \<Rightarrow> g)"

section \<open>The visits\<close>

definition visit_ASTProgram :: "printing list \<Rightarrow> printing" where
  "visit_ASTProgram decls p =
     bindR (debug_print_n p) (\<lambda>p.
     bindR (print_all decls (add_depth (emit (''program'' @ endl) p))) (\<lambda>p.
     Inr (remove_depth p)))"

definition visit_ASTNum :: "ASTNum \<Rightarrow> printing" where
  "visit_ASTNum n p =
     bindR (debug_print_n p) (\<lambda>p.
     if num_type n = TYPE_INT then Inr (emit (''num (int): '' @ show_int (sint (i_val n)) @ endl) p)
     else if num_type n = TYPE_FLOAT then Inr (emit (''num (float): '' @ show_f32 (f_val n) @ endl) p)
     else Inl Abort)"

definition visit_ASTVarDeclaration :: "ASTVarDeclaration \<Rightarrow> printing" where
  "visit_ASTVarDeclaration d p =
     bindR (debug_print_n p) (\<lambda>p.
     let p = emit (''var-declaration: '' @ vd_id d) p
     in case vd_num d of
          Some n \<Rightarrow> bindR (visit_ASTNum n (add_depth (emit (''[]'' @ endl) p))) (\<lambda>p. Inr (remove_depth p))
        | None \<Rightarrow> Inr (emit endl p))"

definition visit_ASTParam :: "ASTParam \<Rightarrow> printing" where
  "visit_ASTParam d p =
     bindR (debug_print_n p) (\<lambda>p.
     let p = emit (''param: '' @ p_id d) p;
         p = (if p_isarray d then emit ''[]'' p else p)
     in Inr (emit endl p))"

definition visit_ASTFunDeclaration :: "string \<Rightarrow> printing list \<Rightarrow> printing \<Rightarrow> printing" where
  "visit_ASTFunDeclaration nm params compound_stmt p =
     bindR (debug_print_n p) (\<lambda>p.
     bindR (print_all params (add_depth (emit (''fun-declaration: '' @ nm @ endl) p))) (\<lambda>p.
     bindR (compound_stmt p) (\<lambda>p. Inr (remove_depth p))))"

definition visit_ASTCompoundStmt :: "printing list \<Rightarrow> printing list \<Rightarrow> printing" where
  "visit_ASTCompoundStmt decls stmts p =
     bindR (debug_print_n p) (\<lambda>p.
     bindR (print_all decls (add_depth (emit (''compound-stmt'' @ endl) p))) (\<lambda>p.
     bindR (print_all stmts p) (\<lambda>p. Inr (remove_depth p))))"

definition visit_ASTExpressionStmt :: "printing option \<Rightarrow> printing" where
  "visit_ASTExpressionStmt e p =
     bindR (debug_print_n p) (\<lambda>p.
     bindR (print_opt e (add_depth (emit (''expression-stmt'' @ endl) p))) (\<lambda>p. Inr (remove_depth p)))"

definition visit_ASTSelectionStmt :: "printing \<Rightarrow> printing \<Rightarrow> printing option \<Rightarrow> printing" where
  "visit_ASTSelectionStmt e s s' p =
     bindR (debug_print_n p) (\<lambda>p.
     bindR (e (add_depth (emit (''selection-stmt'' @ endl) p))) (\<lambda>p.
     bindR (s p) (\<lambda>p. bindR (print_opt s' p) (\<lambda>p. Inr (remove_depth p)))))"

definition visit_ASTIterationStmt :: "printing \<Rightarrow> printing \<Rightarrow> printing" where
  "visit_ASTIterationStmt e s p =
     bindR (debug_print_n p) (\<lambda>p.
     bindR (e (add_depth (emit (''iteration-stmt'' @ endl) p))) (\<lambda>p.
     bindR (s p) (\<lambda>p. Inr (remove_depth p))))"

definition visit_ASTReturnStmt :: "printing option \<Rightarrow> printing" where
  "visit_ASTReturnStmt e p =
     bindR (debug_print_n p) (\<lambda>p.
     let p = emit ''return-stmt'' p
     in case e of
          None \<Rightarrow> Inr (emit ('': void'' @ endl) p)
        | Some g \<Rightarrow> bindR (g (add_depth (emit endl p))) (\<lambda>p. Inr (remove_depth p)))"

definition visit_ASTAssignExpression :: "printing \<Rightarrow> printing \<Rightarrow> printing" where
  "visit_ASTAssignExpression v e p =
     bindR (debug_print_n p) (\<lambda>p.
     bindR (v (add_depth (emit (''assign-expression'' @ endl) p))) (\<lambda>p.
     bindR (e p) (\<lambda>p. Inr (remove_depth p))))"

definition visit_ASTSimpleExpression :: "printing \<Rightarrow> printing option \<Rightarrow> RelOp \<Rightarrow> printing" where
  "visit_ASTSimpleExpression l r op p =
     bindR (debug_print_n p) (\<lambda>p.
     let p = emit ''simple-expression'' p;
         p = (if r = None then emit endl p
              else emit ('': '' @ (case op of OP_LT \<Rightarrow> ''<'' | OP_LE \<Rightarrow> ''<='' | OP_GE \<Rightarrow> ''>='' | OP_GT \<Rightarrow> ''>''
                                   | OP_EQ \<Rightarrow> ''=='' | OP_NEQ \<Rightarrow> ''!='') @ endl) p)
     in bindR (l (add_depth p)) (\<lambda>p. bindR (print_opt r p) (\<lambda>p. Inr (remove_depth p))))"

definition visit_ASTAdditiveExpression :: "printing option \<Rightarrow> AddOp \<Rightarrow> printing \<Rightarrow> printing" where
  "visit_ASTAdditiveExpression a op t p =
     bindR (debug_print_n p) (\<lambda>p.
     let p = emit ''additive-expression'' p;
         p = (if a = None then emit endl p
              else emit ('': '' @ (case op of OP_PLUS \<Rightarrow> ''+'' | OP_MINUS \<Rightarrow> ''-'') @ endl) p)
     in bindR (print_opt a (add_depth p)) (\<lambda>p. bindR (t p) (\<lambda>p. Inr (remove_depth p))))"

definition visit_ASTVar :: "string \<Rightarrow> printing option \<Rightarrow> printing" where
  "visit_ASTVar nm e p =
     bindR (debug_print_n p) (\<lambda>p.
     let p = emit (''var: '' @ nm) p
     in case e of
          Some g \<Rightarrow> bindR (g (add_depth (emit (''[]'' @ endl) p))) (\<lambda>p. Inr (remove_depth p))
        | None \<Rightarrow> Inr (emit endl p))"

definition visit_ASTTerm :: "printing option \<Rightarrow> MulOp \<Rightarrow> printing \<Rightarrow> printing" where
  "visit_ASTTerm t op f p =
     bindR (debug_print_n p) (\<lambda>p.
     let p = emit ''term'' p;
         p = (if t = None then emit endl p
              else emit ('': '' @ (case op of OP_MUL \<Rightarrow> ''*'' | OP_DIV \<Rightarrow> ''/'') @ endl) p)
     in bindR (print_opt t (add_depth p)) (\<lambda>p. bindR (f p) (\<lambda>p. Inr (remove_depth p))))"

definition visit_ASTCall :: "string \<Rightarrow> printing list \<Rightarrow> printing" where
  "visit_ASTCall nm args p =
     bindR (debug_print_n p) (\<lambda>p.
     bindR (print_all args (add_depth (emit (''call: '' @ nm @ ''()'' @ endl) p))) (\<lambda>p.
     Inr (remove_depth p)))"

section \<open>\<open>accept\<close>\<close>

text \<open>
  The abstract classes dispatch with \<open>dynamic_cast\<close>; a concrete class calls
  \<open>visit\<close>. \<open>Var\<close> and \<open>Call\<close> are the only ones of their kind.
\<close>

fun accept_ASTFactor :: "ASTFactor \<Rightarrow> printing"
and accept_ASTExpression :: "ASTExpression \<Rightarrow> printing"
and accept_ASTVar :: "ASTVar \<Rightarrow> printing"
and accept_ASTAdditiveExpression :: "ASTAdditiveExpression \<Rightarrow> printing"
and accept_ASTTerm :: "ASTTerm \<Rightarrow> printing"
and accept_ASTCall :: "ASTCall \<Rightarrow> printing" where
  "accept_ASTFactor (F_Expression e) = accept_ASTExpression e"
| "accept_ASTFactor (F_Var v) = accept_ASTVar v"
| "accept_ASTFactor (F_Call c) = accept_ASTCall c"
| "accept_ASTFactor (F_Num n) = visit_ASTNum n"
| "accept_ASTExpression (SimpleExpression l r op) =
     visit_ASTSimpleExpression (accept_ASTAdditiveExpression l)
       (map_option accept_ASTAdditiveExpression r) op"
| "accept_ASTExpression (AssignExpression v e) =
     visit_ASTAssignExpression (accept_ASTVar v) (accept_ASTExpression e)"
| "accept_ASTVar (Var nm e) = visit_ASTVar nm (map_option accept_ASTExpression e)"
| "accept_ASTAdditiveExpression (AdditiveExpression a op t) =
     visit_ASTAdditiveExpression (map_option accept_ASTAdditiveExpression a) op (accept_ASTTerm t)"
| "accept_ASTTerm (Term t op f) =
     visit_ASTTerm (map_option accept_ASTTerm t) op (accept_ASTFactor f)"
| "accept_ASTCall (Call nm args) = visit_ASTCall nm (map accept_ASTExpression args)"

fun accept_ASTStatement :: "ASTStatement \<Rightarrow> printing"
and accept_ASTCompoundStmt :: "ASTCompoundStmt \<Rightarrow> printing" where
  "accept_ASTStatement (S_Compound c) = accept_ASTCompoundStmt c"
| "accept_ASTStatement (ExpressionStmt e) = visit_ASTExpressionStmt (map_option accept_ASTExpression e)"
| "accept_ASTStatement (SelectionStmt e s s') =
     visit_ASTSelectionStmt (accept_ASTExpression e) (accept_ASTStatement s) (map_option accept_ASTStatement s')"
| "accept_ASTStatement (IterationStmt e s) =
     visit_ASTIterationStmt (accept_ASTExpression e) (accept_ASTStatement s)"
| "accept_ASTStatement (ReturnStmt e) = visit_ASTReturnStmt (map_option accept_ASTExpression e)"
| "accept_ASTCompoundStmt (CompoundStmt ds ss) =
     visit_ASTCompoundStmt (map visit_ASTVarDeclaration ds) (map accept_ASTStatement ss)"

fun accept_ASTDeclaration :: "ASTDeclaration \<Rightarrow> printing" where
  "accept_ASTDeclaration (D_Var d) = visit_ASTVarDeclaration d"
| "accept_ASTDeclaration (D_Fun d) =
     visit_ASTFunDeclaration (fd_id d) (map visit_ASTParam (fd_params d))
       (accept_ASTCompoundStmt (fd_compound_stmt d))"

definition run_visitor_printer :: "ASTProgram \<Rightarrow> printing" where
  "run_visitor_printer prog = visit_ASTProgram (map accept_ASTDeclaration (declarations prog))"

section \<open>The specification: a tree of labels\<close>

datatype label_tree = LT string "label_tree list"

fun render :: "int \<Rightarrow> label_tree \<Rightarrow> string" where
  "render d (LT l ts) = replicate (nat d) CHR ''-'' @ l @ endl @ concat (map (render (d + 2)) ts)"

definition num_label :: "ASTNum \<Rightarrow> label_tree" where
  "num_label n = LT (if num_type n = TYPE_INT then ''num (int): '' @ show_int (sint (i_val n))
                     else ''num (float): '' @ show_f32 (f_val n)) []"

definition opt_list :: "'a option \<Rightarrow> 'a list" where
  "opt_list x = (case x of None \<Rightarrow> [] | Some y \<Rightarrow> [y])"

fun factor_labels :: "ASTFactor \<Rightarrow> label_tree"
and expression_labels :: "ASTExpression \<Rightarrow> label_tree"
and var_labels :: "ASTVar \<Rightarrow> label_tree"
and additive_labels :: "ASTAdditiveExpression \<Rightarrow> label_tree"
and term_labels :: "ASTTerm \<Rightarrow> label_tree"
and call_labels :: "ASTCall \<Rightarrow> label_tree" where
  "factor_labels (F_Num n) = num_label n"
| "factor_labels (F_Expression e) = expression_labels e"
| "factor_labels (F_Var v) = var_labels v"
| "factor_labels (F_Call c) = call_labels c"
| "expression_labels (AssignExpression v e) = LT ''assign-expression'' [var_labels v, expression_labels e]"
| "expression_labels (SimpleExpression l r op) =
     LT (''simple-expression'' @ (if r = None then '''' else '': '' @
         (case op of OP_LT \<Rightarrow> ''<'' | OP_LE \<Rightarrow> ''<='' | OP_GE \<Rightarrow> ''>='' | OP_GT \<Rightarrow> ''>''
          | OP_EQ \<Rightarrow> ''=='' | OP_NEQ \<Rightarrow> ''!='')))
       (additive_labels l # opt_list (map_option additive_labels r))"
| "var_labels (Var nm e) =
     LT (''var: '' @ nm @ (if e = None then '''' else ''[]'')) (opt_list (map_option expression_labels e))"
| "additive_labels (AdditiveExpression a op t) =
     LT (''additive-expression'' @ (if a = None then '''' else '': '' @
         (case op of OP_PLUS \<Rightarrow> ''+'' | OP_MINUS \<Rightarrow> ''-'')))
       (opt_list (map_option additive_labels a) @ [term_labels t])"
| "term_labels (Term t op f) =
     LT (''term'' @ (if t = None then '''' else '': '' @ (case op of OP_MUL \<Rightarrow> ''*'' | OP_DIV \<Rightarrow> ''/'')))
       (opt_list (map_option term_labels t) @ [factor_labels f])"
| "call_labels (Call nm args) = LT (''call: '' @ nm @ ''()'') (map expression_labels args)"

definition var_declaration_labels :: "ASTVarDeclaration \<Rightarrow> label_tree" where
  "var_declaration_labels d =
     LT (''var-declaration: '' @ vd_id d @ (if vd_num d = None then '''' else ''[]''))
       (opt_list (map_option num_label (vd_num d)))"

fun statement_labels :: "ASTStatement \<Rightarrow> label_tree"
and compound_labels :: "ASTCompoundStmt \<Rightarrow> label_tree" where
  "statement_labels (S_Compound c) = compound_labels c"
| "statement_labels (ExpressionStmt e) =
     LT ''expression-stmt'' (opt_list (map_option expression_labels e))"
| "statement_labels (SelectionStmt e s s') =
     LT ''selection-stmt'' (expression_labels e # statement_labels s # opt_list (map_option statement_labels s'))"
| "statement_labels (IterationStmt e s) = LT ''iteration-stmt'' [expression_labels e, statement_labels s]"
| "statement_labels (ReturnStmt e) =
     LT (''return-stmt'' @ (if e = None then '': void'' else '''')) (opt_list (map_option expression_labels e))"
| "compound_labels (CompoundStmt ds ss) =
     LT ''compound-stmt'' (map var_declaration_labels ds @ map statement_labels ss)"

definition param_label :: "ASTParam \<Rightarrow> label_tree" where
  "param_label d = LT (''param: '' @ p_id d @ (if p_isarray d then ''[]'' else '''')) []"

fun declaration_labels :: "ASTDeclaration \<Rightarrow> label_tree" where
  "declaration_labels (D_Var d) = var_declaration_labels d"
| "declaration_labels (D_Fun d) =
     LT (''fun-declaration: '' @ fd_id d)
       (map param_label (fd_params d) @ [compound_labels (fd_compound_stmt d)])"

definition program_labels :: "ASTProgram \<Rightarrow> label_tree" where
  "program_labels prog = LT ''program'' (map declaration_labels (declarations prog))"

section \<open>The printer refines the specification\<close>

definition prints :: "printing \<Rightarrow> label_tree \<Rightarrow> bool" where
  "prints f t \<longleftrightarrow> (\<forall>p. 0 \<le> depth p \<longrightarrow> f p = Inr (emit (render (depth p) t) p))"

lemma emit_simps [simp]:
  "depth (emit s p) = depth p"
  "emit s (emit r p) = emit (r @ s) p"
  "emit [] p = p"
  "depth (add_depth p) = depth p + 2"
  "remove_depth (emit s (add_depth p)) = emit s p"
  "add_depth (emit s p) = emit s (add_depth p)"
  by (simp_all add: emit_def add_depth_def remove_depth_def)

lemma print_all_map:
  "(\<And>x. x \<in> set xs \<Longrightarrow> prints (f x) (g x)) \<Longrightarrow> 0 \<le> depth p \<Longrightarrow>
   print_all (map f xs) p = Inr (emit (concat (map (\<lambda>x. render (depth p) (g x)) xs)) p)"
  by (induction xs arbitrary: p) (simp_all add: prints_def)

lemma opt_simps [simp]:
  "print_opt None = Inr" "print_opt (Some g) = g" "opt_list None = []" "opt_list (Some x) = [x]"
  by (simp_all add: print_opt_def opt_list_def)

lemma printsD: "prints f t \<Longrightarrow> 0 \<le> depth p \<Longrightarrow> f p = Inr (emit (render (depth p) t) p)"
  by (simp add: prints_def)

lemmas visit_defs =
  visit_ASTProgram_def visit_ASTNum_def visit_ASTVarDeclaration_def visit_ASTParam_def
  visit_ASTFunDeclaration_def visit_ASTCompoundStmt_def visit_ASTExpressionStmt_def
  visit_ASTSelectionStmt_def visit_ASTIterationStmt_def visit_ASTReturnStmt_def
  visit_ASTAssignExpression_def visit_ASTSimpleExpression_def visit_ASTAdditiveExpression_def
  visit_ASTVar_def visit_ASTTerm_def visit_ASTCall_def debug_print_n_def

lemmas printer_rules = visit_defs print_all_map printsD

lemma prints_num: "wf_num ok n \<Longrightarrow> prints (visit_ASTNum n) (num_label n)"
  by (auto simp: prints_def visit_defs num_label_def wf_num_def split: CminusType.splits)

lemma wf_opt_simps:
  "wf_expression ok (SimpleExpression l r op) \<Longrightarrow> wf_additive ok l \<and> (\<forall>x. r = Some x \<longrightarrow> wf_additive ok x)"
  "wf_var ok (Var nm e) \<Longrightarrow> (\<forall>x. e = Some x \<longrightarrow> wf_expression ok x)"
  "wf_additive ok (AdditiveExpression a aop t) \<Longrightarrow> wf_term ok t \<and> (\<forall>x. a = Some x \<longrightarrow> wf_additive ok x)"
  "wf_term ok (Term m mop f) \<Longrightarrow> wf_factor ok f \<and> (\<forall>x. m = Some x \<longrightarrow> wf_term ok x)"
  by (cases r; simp; fail | cases e; simp; fail | cases a; simp; fail | cases m; simp; fail)+

lemma prints_expressions:
  "wf_factor ok f \<Longrightarrow> prints (accept_ASTFactor f) (factor_labels f)"
  "wf_expression ok e \<Longrightarrow> prints (accept_ASTExpression e) (expression_labels e)"
  "wf_var ok v \<Longrightarrow> prints (accept_ASTVar v) (var_labels v)"
  "wf_additive ok a \<Longrightarrow> prints (accept_ASTAdditiveExpression a) (additive_labels a)"
  "wf_term ok t \<Longrightarrow> prints (accept_ASTTerm t) (term_labels t)"
  "wf_call ok c \<Longrightarrow> prints (accept_ASTCall c) (call_labels c)"
proof (induction f and e and v and a and t and c
    rule: accept_ASTFactor_accept_ASTExpression_accept_ASTVar_accept_ASTAdditiveExpression_accept_ASTTerm_accept_ASTCall.induct)
  case (5 l r op)
  then show ?case
    by (subst prints_def) (auto simp: printer_rules dest!: wf_opt_simps)
next
  case (6 v e)
  then show ?case
    by (subst prints_def) (auto simp: printer_rules dest!: wf_opt_simps)
next
  case (7 nm e)
  then show ?case
    by (subst prints_def) (auto simp: printer_rules dest!: wf_opt_simps)
next
  case (8 a op t)
  then show ?case
    by (subst prints_def) (auto simp: printer_rules dest!: wf_opt_simps)
next
  case (9 t op f)
  then show ?case
    by (subst prints_def) (auto simp: printer_rules dest!: wf_opt_simps)
next
  case (10 nm args)
  then show ?case
    by (subst prints_def) (simp add: visit_ASTCall_def debug_print_n_def comp_def
        print_all_map [where g = expression_labels])
qed (auto simp: prints_num)

lemma prints_var_declaration:
  "wf_var_declaration d \<Longrightarrow> prints (visit_ASTVarDeclaration d) (var_declaration_labels d)"
  by (auto simp: prints_def wf_var_declaration_def var_declaration_labels_def visit_defs num_label_def
      split: option.splits)

lemma prints_param: "prints (visit_ASTParam d) (param_label d)"
  by (simp add: prints_def param_label_def visit_defs)

lemma wf_opt_statements:
  "wf_statement ok (ExpressionStmt e) \<Longrightarrow> \<forall>x. e = Some x \<longrightarrow> wf_expression ok x"
  "wf_statement ok (ReturnStmt e) \<Longrightarrow> \<forall>x. e = Some x \<longrightarrow> wf_expression ok x"
  "wf_statement ok (SelectionStmt c s s') \<Longrightarrow>
   wf_expression ok c \<and> wf_statement ok s \<and> (\<forall>x. s' = Some x \<longrightarrow> wf_statement ok x)"
  by (cases e; simp; fail | cases s'; simp; fail)+

lemmas accept_eqs = printsD [OF prints_expressions(2)] printsD [OF prints_var_declaration] printsD [OF prints_param]

lemma prints_statements:
  "wf_statement ok s \<Longrightarrow> prints (accept_ASTStatement s) (statement_labels s)"
  "wf_compound ok c \<Longrightarrow> prints (accept_ASTCompoundStmt c) (compound_labels c)"
proof (induction s and c rule: accept_ASTStatement_accept_ASTCompoundStmt.induct)
  case (2 e)
  then show ?case
    by (subst prints_def) (cases e; auto simp: printer_rules accept_eqs dest!: wf_opt_statements)
next
  case (3 e s s')
  then show ?case
    by (subst prints_def) (cases s'; auto simp: printer_rules accept_eqs dest!: wf_opt_statements)
next
  case (4 e s)
  then show ?case
    by (subst prints_def) (auto simp: printer_rules accept_eqs)
next
  case (5 e)
  then show ?case
    by (subst prints_def) (cases e; auto simp: printer_rules accept_eqs dest!: wf_opt_statements)
next
  case (6 ds ss)
  then show ?case
    by (subst prints_def) (auto simp: printer_rules comp_def print_all_map [where g = var_declaration_labels] prints_var_declaration
        print_all_map [where g = statement_labels])
qed auto

lemma prints_declaration:
  "wf_declaration ok d \<Longrightarrow> prints (accept_ASTDeclaration d) (declaration_labels d)"
  by (cases d; subst prints_def)
    (auto simp: visit_ASTFunDeclaration_def debug_print_n_def accept_eqs printsD [OF prints_statements(2)]
      print_all_map [where g = param_label] prints_param comp_def)

text \<open>C33: printing a well-formed program from any printer state whose depth is not negative
  neither fails nor aborts, leaves the depth as it was and appends exactly the rendering of the
  program's label tree: one line per node in source order, indented by two dashes for each level.
  From a negative depth, which no sequence of visits reaches, it throws.\<close>

theorem printer_refines_labels:
  assumes "wf_program ok prog"
  shows "run_visitor_printer prog p =
    (if depth p < 0 then Inl LengthError else Inr (p\<lparr>out := out p @ render (depth p) (program_labels prog)\<rparr>))"
proof -
  have "print_all (map accept_ASTDeclaration (declarations prog)) p =
      Inr (emit (concat (map (\<lambda>x. render (depth p) (declaration_labels x)) (declarations prog))) p)" if "0 \<le> depth p" for p
    by (rule print_all_map) (use assms that prints_declaration in \<open>auto simp: wf_program_def\<close>)
  then have "prints (run_visitor_printer prog) (program_labels prog)"
    by (simp add: prints_def run_visitor_printer_def program_labels_def visit_defs comp_def)
  then show ?thesis by (simp add: prints_def emit_def run_visitor_printer_def visit_ASTProgram_def debug_print_n_def)
qed

lemma printer_refines_labels_witness:
  "run_visitor_printer sample_program \<lparr>depth = 0, out = []\<rparr> =
   Inr \<lparr>depth = 0, out = render 0 (program_labels sample_program)\<rparr>"
  using printer_refines_labels [of "\<lambda>_. True" sample_program "\<lparr>depth = 0, out = []\<rparr>"] by (simp add: sample_program_wf)

end
