(* ===== verification/AstTotal.thy ===== *)
theory AstTotal
  imports AstRoundtrip
begin

text \<open>
  \<open>transform_node_iter\<close> on the trees the parser can build: the failures of the
  model (a missing child, a wrong cast, an unknown node, a bad literal) are never reached
  on a tree of the grammar whose literals fit, and the AST is well-formed.
\<close>

section \<open>Every tree of the grammar has an AST\<close>

text \<open>
  The texts that the conversions accept: an identifier or literal that the name buffer of a
  node holds, an integer below \<open>2 ^ 31\<close> and a float that does not overflow. Everything
  else the grammar derives is transformed.
\<close>

fun literal_fits :: "token \<Rightarrow> string \<Rightarrow> bool" where
  "literal_fits TK_ID s = (lexeme TK_ID s \<and> text_fits s)"
| "literal_fits TK_INTEGER s = (lexeme TK_INTEGER s \<and> text_fits s \<and> digits_val s < 2 ^ 31)"
| "literal_fits TK_FLOATN s = (lexeme TK_FLOATN s \<and> text_fits s \<and> (case stof s of Inl _ \<Rightarrow> False | Inr _ \<Rightarrow> True))"
| "literal_fits k s = lexeme k s"

text \<open>
  What holds of the tree of each symbol: the tree of a node with a class gives a
  well-formed object of it, the tree of a list gives its elements when it is flattened.
\<close>

definition gives :: "('a \<Rightarrow> ASTNode) \<Rightarrow> ('a \<Rightarrow> bool) \<Rightarrow> syntax_tree_node \<Rightarrow> bool" where
  "gives con P t \<longleftrightarrow> (\<exists>x. transform_node_iter t = Inr (con x) \<and> P x)"

definition elements0 :: "(syntax_tree_node \<Rightarrow> bool) \<Rightarrow> syntax_tree_node \<Rightarrow> bool" where
  "elements0 P t \<longleftrightarrow>
     (\<exists>p s. (\<forall>acc. flatten_loop 2 1 t acc = Inr (p, s @ acc)) \<and> (\<forall>x \<in> set s. P x))"

definition elements1 :: "nat \<Rightarrow> nat \<Rightarrow> (syntax_tree_node \<Rightarrow> bool) \<Rightarrow> syntax_tree_node \<Rightarrow> bool" where
  "elements1 k j P t \<longleftrightarrow>
     (\<exists>p c s. (\<forall>acc. flatten_loop k j t acc = Inr (p, s @ acc)) \<and> child p 0 = Inr c \<and>
        P c \<and> (\<forall>x \<in> set s. P x))"

lemma elements0_base: "elements0 P (node A [])"
proof -
  have "\<forall>acc. flatten_loop 2 1 (node A []) acc = Inr (node A [], [] @ acc)"
    by (subst flatten_loop.simps) (simp add: children_num_node)
  then show ?thesis unfolding elements0_def by (metis empty_iff empty_set)
qed

lemma elements0_step: "elements0 P l \<Longrightarrow> P x \<Longrightarrow> elements0 P (node A [l, x])"
proof -
  assume "elements0 P l" and x: "P x"
  then obtain p s where l: "\<forall>acc. flatten_loop 2 1 l acc = Inr (p, s @ acc)" and s: "\<forall>x \<in> set s. P x"
    by (auto simp: elements0_def)
  have "\<forall>acc. flatten_loop 2 1 (node A [l, x]) acc = Inr (p, (s @ [x]) @ acc)"
    by (subst flatten_loop.simps) (use l in \<open>simp add: node_eq\<close>)
  with s x show ?thesis unfolding elements0_def by (metis Un_iff empty_iff empty_set set_ConsD set_append)
qed

lemma elements1_base: "k \<noteq> 1 \<Longrightarrow> P x \<Longrightarrow> elements1 k j P (node A [x])"
  unfolding elements1_def
  by (rule exI [of _ "node A [x]"], rule exI [of _ x], rule exI [of _ "[]"])
    (simp add: flatten_loop.simps [of k j "STNode (take 30 A) [x]"] node_eq)

lemma elements1_step:
  assumes "elements1 k j P l" and "P x" and "children_num t = k" and "child t j = Inr x" and "child t 0 = Inr l"
  shows "elements1 k j P t"
proof -
  from assms(1) obtain p c s where l: "\<forall>acc. flatten_loop k j l acc = Inr (p, s @ acc)"
    and c: "child p 0 = Inr c" "P c" and s: "\<forall>x \<in> set s. P x"
    by (auto simp: elements1_def)
  have "\<forall>acc. flatten_loop k j t acc = Inr (p, (s @ [x]) @ acc)"
    by (subst flatten_loop.simps) (use l assms in simp)
  with s c assms(2) show ?thesis unfolding elements1_def
    by (metis Un_iff empty_iff empty_set set_ConsD set_append)
qed

lemma elements1_steps:
  "elements1 2 1 P l \<Longrightarrow> P x \<Longrightarrow> elements1 2 1 P (node A [l, x])"
  "elements1 3 2 P l \<Longrightarrow> P x \<Longrightarrow> elements1 3 2 P (node A [l, sep, x])"
  by (rule elements1_step; simp add: node_eq)+

lemma elements1_bases: "P x \<Longrightarrow> elements1 2 1 P (node A [x])" "P x \<Longrightarrow> elements1 3 2 P (node A [x])"
  by (rule elements1_base; simp)+

lemma gives_mapR:
  assumes "\<forall>x \<in> set xs. gives con P x" and "\<And>x. cast (con x) = Inr x"
  shows "\<exists>ys. mapR (\<lambda>t. bindR (transform_node_iter t) cast) xs = Inr ys \<and>
    length ys = length xs \<and> (\<forall>y \<in> set ys. P y)"
  using assms(1)
proof (induction xs)
  case (Cons x xs)
  then obtain y ys where "transform_node_iter x = Inr (con y)" "P y"
    "mapR (\<lambda>t. bindR (transform_node_iter t) cast) xs = Inr ys" "length ys = length xs" "\<forall>y \<in> set ys. P y"
    by (auto simp: gives_def)
  then show ?case by (intro exI [of _ "y # ys"]) (simp add: assms(2))
qed simp

text \<open>The flattened list of a tree that has elements, transformed.\<close>

lemma elements1_mapR:
  assumes "elements1 k j (gives con P) t" and "\<And>x. cast (con x) = Inr x"
  shows "\<exists>p s c y ys. flatten_loop k j t [] = Inr (p, s) \<and> child p 0 = Inr c \<and>
    transform_node_iter c = Inr (con y) \<and>
    mapR (\<lambda>t. bindR (transform_node_iter t) cast) s = Inr ys \<and> P y \<and> (\<forall>y \<in> set ys. P y)"
proof -
  from assms(1) obtain p c s y where l: "flatten_loop k j t [] = Inr (p, s)"
    and c: "child p 0 = Inr c" "transform_node_iter c = Inr (con y)" "P y"
    and P: "\<forall>x \<in> set s. gives con P x"
    by (auto simp: elements1_def gives_def)
  from gives_mapR [OF P assms(2)] l c show ?thesis by blast
qed

lemma elements0_mapR:
  assumes "elements0 (gives con P) t" and "\<And>x. cast (con x) = Inr x"
  shows "\<exists>p s ys. flatten_loop 2 1 t [] = Inr (p, s) \<and>
    mapR (\<lambda>t. bindR (transform_node_iter t) cast) s = Inr ys \<and> (\<forall>y \<in> set ys. P y)"
proof -
  from assms(1) obtain p s where l: "flatten_loop 2 1 t [] = Inr (p, s)"
    and P: "\<forall>x \<in> set s. gives con P x"
    by (auto simp: elements0_def)
  from gives_mapR [OF P assms(2)] l show ?thesis by blast
qed

lemmas elements_dests =
  elements1_mapR [where con = N_Declaration and cast = as_declaration, simplified]
  elements1_mapR [where con = N_Param and cast = as_param, simplified]
  elements1_mapR [where con = "\<lambda>e. N_Factor (F_Expression e)" and cast = as_expression, simplified]
  elements0_mapR [where con = "\<lambda>d. N_Declaration (D_Var d)" and cast = as_var_declaration, simplified]
  elements0_mapR [where con = N_Statement and cast = as_statement, simplified]

abbreviation any_float :: "f32 \<Rightarrow> bool" where "any_float \<equiv> \<lambda>_. True"

definition nt_sound :: "string \<Rightarrow> syntax_tree_node \<Rightarrow> bool" where
  "nt_sound A t \<longleftrightarrow> st_name t = A \<and>
     (if A = ''program'' then gives N_Program (wf_program any_float) t
      else if A = ''declaration-list'' then elements1 2 1 (gives N_Declaration (wf_declaration any_float)) t
      else if A = ''declaration'' then gives N_Declaration (wf_declaration any_float) t
      else if A = ''var-declaration'' then gives (\<lambda>d. N_Declaration (D_Var d)) wf_var_declaration t
      else if A = ''fun-declaration'' then
        gives (\<lambda>d. N_Declaration (D_Fun d)) (\<lambda>d. wf_declaration any_float (D_Fun d)) t
      else if A = ''params'' then
        (\<exists>c. child t 0 = Inr c \<and> (children_num c = 0 \<or> elements1 3 2 (gives N_Param wf_param) c))
      else if A = ''param-list'' then elements1 3 2 (gives N_Param wf_param) t
      else if A = ''param'' then gives N_Param wf_param t
      else if A = ''compound-stmt'' then gives (\<lambda>c. N_Statement (S_Compound c)) (wf_compound any_float) t
      else if A = ''local-declarations'' then
        elements0 (gives (\<lambda>d. N_Declaration (D_Var d)) wf_var_declaration) t
      else if A = ''statement-list'' then elements0 (gives N_Statement (wf_statement any_float)) t
      else if A \<in> {''statement'', ''expression-stmt'', ''selection-stmt'', ''iteration-stmt'', ''return-stmt''} then
        gives N_Statement (wf_statement any_float) t
      else if A \<in> {''expression'', ''simple-expression''} then
        gives (\<lambda>e. N_Factor (F_Expression e)) (wf_expression any_float) t
      else if A = ''var'' then gives (\<lambda>v. N_Factor (F_Var v)) (wf_var any_float) t
      else if A = ''additive-expression'' then gives N_Additive (wf_additive any_float) t
      else if A = ''term'' then gives N_Term (wf_term any_float) t
      else if A = ''factor'' then gives N_Factor (wf_factor any_float) t
      else if A = ''call'' then gives (\<lambda>c. N_Factor (F_Call c)) (wf_call any_float) t
      else if A = ''args'' then
        (\<exists>c. child t 0 = Inr c \<and> (st_name c = ''arg-list'' \<longrightarrow>
           elements1 3 2 (gives (\<lambda>e. N_Factor (F_Expression e)) (wf_expression any_float)) c))
      else if A = ''arg-list'' then
        elements1 3 2 (gives (\<lambda>e. N_Factor (F_Expression e)) (wf_expression any_float)) t
      else if A = ''integer'' then
        (\<exists>s. child t 0 = Inr (leaf s) \<and> text_fits s \<and> stoi s = Inr (word_of_nat (digits_val s)) \<and> digits_val s < 2 ^ 31)
      else if A = ''float'' then (\<exists>s w. child t 0 = Inr (leaf s) \<and> text_fits s \<and> stof s = Inr w)
      else (\<exists>s. child t 0 = Inr (leaf s)))"

fun symbol_sound :: "symbol \<Rightarrow> syntax_tree_node \<Rightarrow> bool" where
  "symbol_sound (Tok k) t = (\<exists>s. t = leaf s \<and> literal_fits k s)"
| "symbol_sound (Nt A) t = nt_sound A t"

lemma some_leaf [simp]: "\<exists>u. leaf s = leaf u" and some_leafI: "P s \<Longrightarrow> \<exists>u. leaf s = leaf u \<and> P u"
  by blast+

lemma literal_fits_stof: "literal_fits TK_FLOATN s \<Longrightarrow> text_fits s \<and> (\<exists>w. stof s = Inr w)"
  by (auto split: sum.splits)

lemma literal_fits_stoi:
  "literal_fits TK_INTEGER s \<Longrightarrow> text_fits s \<and> stoi s = Inr (word_of_nat (digits_val s)) \<and> digits_val s < 2 ^ 31"
  by (simp add: stoi_digits)

lemma unat_word_of_nat_32: "n < 2 ^ 31 \<Longrightarrow> unat (word_of_nat n :: i32) = n"
  by (simp add: unat_of_nat)


lemma nt_sound_simps:
  "nt_sound ''program'' t \<longleftrightarrow> st_name t = ''program'' \<and> gives N_Program (wf_program any_float) t"
  "nt_sound ''declaration-list'' t \<longleftrightarrow> st_name t = ''declaration-list'' \<and> elements1 2 1 (gives N_Declaration (wf_declaration any_float)) t"
  "nt_sound ''declaration'' t \<longleftrightarrow> st_name t = ''declaration'' \<and> gives N_Declaration (wf_declaration any_float) t"
  "nt_sound ''var-declaration'' t \<longleftrightarrow> st_name t = ''var-declaration'' \<and> gives (\<lambda>d. N_Declaration (D_Var d)) wf_var_declaration t"
  "nt_sound ''fun-declaration'' t \<longleftrightarrow> st_name t = ''fun-declaration'' \<and> gives (\<lambda>d. N_Declaration (D_Fun d)) (\<lambda>d. wf_declaration any_float (D_Fun d)) t"
  "nt_sound ''params'' t \<longleftrightarrow> st_name t = ''params'' \<and> (\<exists>c. child t 0 = Inr c \<and> (children_num c = 0 \<or> elements1 3 2 (gives N_Param wf_param) c))"
  "nt_sound ''param-list'' t \<longleftrightarrow> st_name t = ''param-list'' \<and> elements1 3 2 (gives N_Param wf_param) t"
  "nt_sound ''param'' t \<longleftrightarrow> st_name t = ''param'' \<and> gives N_Param wf_param t"
  "nt_sound ''compound-stmt'' t \<longleftrightarrow> st_name t = ''compound-stmt'' \<and> gives (\<lambda>c. N_Statement (S_Compound c)) (wf_compound any_float) t"
  "nt_sound ''local-declarations'' t \<longleftrightarrow> st_name t = ''local-declarations'' \<and> elements0 (gives (\<lambda>d. N_Declaration (D_Var d)) wf_var_declaration) t"
  "nt_sound ''statement-list'' t \<longleftrightarrow> st_name t = ''statement-list'' \<and> elements0 (gives N_Statement (wf_statement any_float)) t"
  "nt_sound ''statement'' t \<longleftrightarrow> st_name t = ''statement'' \<and> gives N_Statement (wf_statement any_float) t"
  "nt_sound ''expression-stmt'' t \<longleftrightarrow> st_name t = ''expression-stmt'' \<and> gives N_Statement (wf_statement any_float) t"
  "nt_sound ''selection-stmt'' t \<longleftrightarrow> st_name t = ''selection-stmt'' \<and> gives N_Statement (wf_statement any_float) t"
  "nt_sound ''iteration-stmt'' t \<longleftrightarrow> st_name t = ''iteration-stmt'' \<and> gives N_Statement (wf_statement any_float) t"
  "nt_sound ''return-stmt'' t \<longleftrightarrow> st_name t = ''return-stmt'' \<and> gives N_Statement (wf_statement any_float) t"
  "nt_sound ''expression'' t \<longleftrightarrow> st_name t = ''expression'' \<and> gives (\<lambda>e. N_Factor (F_Expression e)) (wf_expression any_float) t"
  "nt_sound ''simple-expression'' t \<longleftrightarrow> st_name t = ''simple-expression'' \<and> gives (\<lambda>e. N_Factor (F_Expression e)) (wf_expression any_float) t"
  "nt_sound ''var'' t \<longleftrightarrow> st_name t = ''var'' \<and> gives (\<lambda>v. N_Factor (F_Var v)) (wf_var any_float) t"
  "nt_sound ''additive-expression'' t \<longleftrightarrow> st_name t = ''additive-expression'' \<and> gives N_Additive (wf_additive any_float) t"
  "nt_sound ''term'' t \<longleftrightarrow> st_name t = ''term'' \<and> gives N_Term (wf_term any_float) t"
  "nt_sound ''factor'' t \<longleftrightarrow> st_name t = ''factor'' \<and> gives N_Factor (wf_factor any_float) t"
  "nt_sound ''call'' t \<longleftrightarrow> st_name t = ''call'' \<and> gives (\<lambda>c. N_Factor (F_Call c)) (wf_call any_float) t"
  "nt_sound ''args'' t \<longleftrightarrow> st_name t = ''args'' \<and> (\<exists>c. child t 0 = Inr c \<and> (st_name c = ''arg-list'' \<longrightarrow> elements1 3 2 (gives (\<lambda>e. N_Factor (F_Expression e)) (wf_expression any_float)) c))"
  "nt_sound ''arg-list'' t \<longleftrightarrow> st_name t = ''arg-list'' \<and> elements1 3 2 (gives (\<lambda>e. N_Factor (F_Expression e)) (wf_expression any_float)) t"
  "nt_sound ''integer'' t \<longleftrightarrow> st_name t = ''integer'' \<and> (\<exists>s. child t 0 = Inr (leaf s) \<and> text_fits s \<and> stoi s = Inr (word_of_nat (digits_val s)) \<and> digits_val s < 2 ^ 31)"
  "nt_sound ''float'' t \<longleftrightarrow> st_name t = ''float'' \<and> (\<exists>s w. child t 0 = Inr (leaf s) \<and> text_fits s \<and> stof s = Inr w)"
  "nt_sound ''type-specifier'' t \<longleftrightarrow> st_name t = ''type-specifier'' \<and> (\<exists>s. child t 0 = Inr (leaf s))"
  "nt_sound ''relop'' t \<longleftrightarrow> st_name t = ''relop'' \<and> (\<exists>s. child t 0 = Inr (leaf s))"
  "nt_sound ''addop'' t \<longleftrightarrow> st_name t = ''addop'' \<and> (\<exists>s. child t 0 = Inr (leaf s))"
  "nt_sound ''mulop'' t \<longleftrightarrow> st_name t = ''mulop'' \<and> (\<exists>s. child t 0 = Inr (leaf s))"
  by (simp_all add: nt_sound_def)

lemma production_lists:
  "list_all2 Q [] kids \<longleftrightarrow> kids = []"
  "list_all2 Q (X # Xs) kids \<longleftrightarrow> (\<exists>k ks. kids = k # ks \<and> Q X k \<and> list_all2 Q Xs ks)"
  by (auto simp: list_all2_Cons1)

lemma sound_declaration_list:
  assumes "(A, rhs) \<in> set productions" and "list_all2 symbol_sound rhs kids" and "A = ''declaration-list''"
  shows "nt_sound A (node A kids)"
  using assms
  by (auto simp: productions_def production_lists nt_sound_simps node_access elements0_base simp del: One_nat_def intro: elements0_step elements1_bases elements1_steps)

lemma sound_param_list:
  assumes "(A, rhs) \<in> set productions" and "list_all2 symbol_sound rhs kids" and "A = ''param-list''"
  shows "nt_sound A (node A kids)"
  using assms
  by (auto simp: productions_def production_lists nt_sound_simps node_access elements0_base simp del: One_nat_def intro: elements0_step elements1_bases elements1_steps)

lemma sound_local_declarations:
  assumes "(A, rhs) \<in> set productions" and "list_all2 symbol_sound rhs kids" and "A = ''local-declarations''"
  shows "nt_sound A (node A kids)"
  using assms
  by (auto simp: productions_def production_lists nt_sound_simps node_access elements0_base simp del: One_nat_def intro: elements0_step elements1_bases elements1_steps)

lemma sound_statement_list:
  assumes "(A, rhs) \<in> set productions" and "list_all2 symbol_sound rhs kids" and "A = ''statement-list''"
  shows "nt_sound A (node A kids)"
  using assms
  by (auto simp: productions_def production_lists nt_sound_simps node_access elements0_base simp del: One_nat_def intro: elements0_step elements1_bases elements1_steps)

lemma sound_arg_list:
  assumes "(A, rhs) \<in> set productions" and "list_all2 symbol_sound rhs kids" and "A = ''arg-list''"
  shows "nt_sound A (node A kids)"
  using assms
  by (auto simp: productions_def production_lists nt_sound_simps node_access elements0_base simp del: One_nat_def intro: elements0_step elements1_bases elements1_steps)

lemma sound_type_specifier:
  assumes "(A, rhs) \<in> set productions" and "list_all2 symbol_sound rhs kids" and "A = ''type-specifier''"
  shows "nt_sound A (node A kids)"
  using assms
  by (auto simp: productions_def production_lists nt_sound_simps node_access child_node_Nil simp del: literal_fits.simps dest!: literal_fits_stof literal_fits_stoi intro!: some_leafI)

lemma sound_relop:
  assumes "(A, rhs) \<in> set productions" and "list_all2 symbol_sound rhs kids" and "A = ''relop''"
  shows "nt_sound A (node A kids)"
  using assms
  by (auto simp: productions_def production_lists nt_sound_simps node_access child_node_Nil simp del: literal_fits.simps dest!: literal_fits_stof literal_fits_stoi intro!: some_leafI)

lemma sound_addop:
  assumes "(A, rhs) \<in> set productions" and "list_all2 symbol_sound rhs kids" and "A = ''addop''"
  shows "nt_sound A (node A kids)"
  using assms
  by (auto simp: productions_def production_lists nt_sound_simps node_access child_node_Nil simp del: literal_fits.simps dest!: literal_fits_stof literal_fits_stoi intro!: some_leafI)

lemma sound_mulop:
  assumes "(A, rhs) \<in> set productions" and "list_all2 symbol_sound rhs kids" and "A = ''mulop''"
  shows "nt_sound A (node A kids)"
  using assms
  by (auto simp: productions_def production_lists nt_sound_simps node_access child_node_Nil simp del: literal_fits.simps dest!: literal_fits_stof literal_fits_stoi intro!: some_leafI)

lemma sound_integer:
  assumes "(A, rhs) \<in> set productions" and "list_all2 symbol_sound rhs kids" and "A = ''integer''"
  shows "nt_sound A (node A kids)"
  using assms
  by (auto simp: productions_def production_lists nt_sound_simps node_access child_node_Nil simp del: literal_fits.simps dest!: literal_fits_stof literal_fits_stoi intro!: some_leafI)

lemma sound_float:
  assumes "(A, rhs) \<in> set productions" and "list_all2 symbol_sound rhs kids" and "A = ''float''"
  shows "nt_sound A (node A kids)"
  using assms
  by (auto simp: productions_def production_lists nt_sound_simps node_access child_node_Nil simp del: literal_fits.simps dest!: literal_fits_stof literal_fits_stoi intro!: some_leafI)

lemma sound_params:
  assumes "(A, rhs) \<in> set productions" and "list_all2 symbol_sound rhs kids" and "A = ''params''"
  shows "nt_sound A (node A kids)"
  using assms
  by (auto simp: productions_def production_lists nt_sound_simps node_access child_node_Nil simp del: literal_fits.simps dest!: literal_fits_stof literal_fits_stoi intro!: some_leafI)

lemma sound_args:
  assumes "(A, rhs) \<in> set productions" and "list_all2 symbol_sound rhs kids" and "A = ''args''"
  shows "nt_sound A (node A kids)"
  using assms
  by (auto simp: productions_def production_lists nt_sound_simps node_access child_node_Nil simp del: literal_fits.simps dest!: literal_fits_stof literal_fits_stoi intro!: some_leafI)

lemma sound_program:
  assumes "(A, rhs) \<in> set productions" and "list_all2 symbol_sound rhs kids" and "A = ''program''"
  shows "nt_sound A (node A kids)"
  using assms
  by (auto simp: productions_def production_lists nt_sound_simps gives_def wf_program_def wf_var_declaration_def wf_param_def transform_node_eqs child_node_Nil dest!: elements_dests)

lemma sound_declaration:
  assumes "(A, rhs) \<in> set productions" and "list_all2 symbol_sound rhs kids" and "A = ''declaration''"
  shows "nt_sound A (node A kids)"
  using assms
  by (auto simp: productions_def production_lists nt_sound_simps gives_def wf_program_def wf_var_declaration_def wf_param_def transform_node_eqs child_node_Nil)

lemma sound_var_declaration:
  assumes "(A, rhs) \<in> set productions" and "list_all2 symbol_sound rhs kids" and "A = ''var-declaration''"
  shows "nt_sound A (node A kids)"
  using assms
  by (auto simp: productions_def production_lists nt_sound_simps gives_def wf_program_def wf_var_declaration_def wf_param_def transform_node_eqs child_node_Nil stoi_digits unat_word_of_nat_32)

lemma sound_fun_declaration:
  assumes "(A, rhs) \<in> set productions" and "list_all2 symbol_sound rhs kids" and "A = ''fun-declaration''"
  shows "nt_sound A (node A kids)"
  using assms
  by (auto simp: productions_def production_lists nt_sound_simps gives_def wf_program_def wf_var_declaration_def wf_param_def transform_node_eqs child_node_Nil dest!: elements_dests)

lemma sound_param:
  assumes "(A, rhs) \<in> set productions" and "list_all2 symbol_sound rhs kids" and "A = ''param''"
  shows "nt_sound A (node A kids)"
  using assms
  by (auto simp: productions_def production_lists nt_sound_simps gives_def wf_program_def wf_var_declaration_def wf_param_def transform_node_eqs child_node_Nil)

lemma sound_compound_stmt:
  assumes "(A, rhs) \<in> set productions" and "list_all2 symbol_sound rhs kids" and "A = ''compound-stmt''"
  shows "nt_sound A (node A kids)"
  using assms
  by (auto simp: productions_def production_lists nt_sound_simps gives_def wf_num_def unat_word_of_nat_32 transform_node_eqs child_node_Nil dest!: elements_dests)

lemma sound_statement:
  assumes "(A, rhs) \<in> set productions" and "list_all2 symbol_sound rhs kids" and "A = ''statement''"
  shows "nt_sound A (node A kids)"
  using assms
  by (auto simp: productions_def production_lists nt_sound_simps gives_def wf_num_def unat_word_of_nat_32 transform_node_eqs child_node_Nil)

lemma sound_expression_stmt:
  assumes "(A, rhs) \<in> set productions" and "list_all2 symbol_sound rhs kids" and "A = ''expression-stmt''"
  shows "nt_sound A (node A kids)"
  using assms
  by (auto simp: productions_def production_lists nt_sound_simps gives_def wf_num_def unat_word_of_nat_32 transform_node_eqs child_node_Nil)

lemma sound_selection_stmt:
  assumes "(A, rhs) \<in> set productions" and "list_all2 symbol_sound rhs kids" and "A = ''selection-stmt''"
  shows "nt_sound A (node A kids)"
  using assms
  by (auto simp: productions_def production_lists nt_sound_simps gives_def wf_num_def unat_word_of_nat_32 transform_node_eqs child_node_Nil)

lemma sound_iteration_stmt:
  assumes "(A, rhs) \<in> set productions" and "list_all2 symbol_sound rhs kids" and "A = ''iteration-stmt''"
  shows "nt_sound A (node A kids)"
  using assms
  by (auto simp: productions_def production_lists nt_sound_simps gives_def wf_num_def unat_word_of_nat_32 transform_node_eqs child_node_Nil)

lemma sound_return_stmt:
  assumes "(A, rhs) \<in> set productions" and "list_all2 symbol_sound rhs kids" and "A = ''return-stmt''"
  shows "nt_sound A (node A kids)"
  using assms
  by (auto simp: productions_def production_lists nt_sound_simps gives_def wf_num_def unat_word_of_nat_32 transform_node_eqs child_node_Nil)

lemma sound_expression:
  assumes "(A, rhs) \<in> set productions" and "list_all2 symbol_sound rhs kids" and "A = ''expression''"
  shows "nt_sound A (node A kids)"
  using assms
  by (auto simp: productions_def production_lists nt_sound_simps gives_def wf_num_def unat_word_of_nat_32 transform_node_eqs child_node_Nil)

lemma sound_var:
  assumes "(A, rhs) \<in> set productions" and "list_all2 symbol_sound rhs kids" and "A = ''var''"
  shows "nt_sound A (node A kids)"
  using assms
  by (auto simp: productions_def production_lists nt_sound_simps gives_def wf_num_def unat_word_of_nat_32 transform_node_eqs child_node_Nil)

lemma sound_simple_expression:
  assumes "(A, rhs) \<in> set productions" and "list_all2 symbol_sound rhs kids" and "A = ''simple-expression''"
  shows "nt_sound A (node A kids)"
  using assms
  by (auto simp: productions_def production_lists nt_sound_simps gives_def wf_num_def unat_word_of_nat_32 transform_node_eqs child_node_Nil)

lemma sound_additive_expression:
  assumes "(A, rhs) \<in> set productions" and "list_all2 symbol_sound rhs kids" and "A = ''additive-expression''"
  shows "nt_sound A (node A kids)"
  using assms
  by (auto simp: productions_def production_lists nt_sound_simps gives_def wf_num_def unat_word_of_nat_32 transform_node_eqs child_node_Nil)

lemma sound_term:
  assumes "(A, rhs) \<in> set productions" and "list_all2 symbol_sound rhs kids" and "A = ''term''"
  shows "nt_sound A (node A kids)"
  using assms
  by (auto simp: productions_def production_lists nt_sound_simps gives_def wf_num_def unat_word_of_nat_32 transform_node_eqs child_node_Nil)

lemma sound_factor:
  assumes "(A, rhs) \<in> set productions" and "list_all2 symbol_sound rhs kids" and "A = ''factor''"
  shows "nt_sound A (node A kids)"
  using assms
  by (auto simp: productions_def production_lists nt_sound_simps gives_def wf_num_def unat_word_of_nat_32 transform_node_eqs child_node_Nil)

lemma sound_call:
  assumes "(A, rhs) \<in> set productions" and "list_all2 symbol_sound rhs kids" and "A = ''call''"
  shows "nt_sound A (node A kids)"
  using assms
  by (auto simp: productions_def production_lists nt_sound_simps gives_def wf_num_def unat_word_of_nat_32 transform_node_eqs child_node_Nil dest!: elements_dests)


lemmas production_sound_cases =
  sound_program sound_declaration_list sound_declaration sound_var_declaration sound_type_specifier
  sound_fun_declaration sound_params sound_param_list sound_param sound_compound_stmt
  sound_local_declarations sound_statement_list sound_statement sound_expression_stmt
  sound_selection_stmt sound_iteration_stmt sound_return_stmt sound_expression sound_var
  sound_simple_expression sound_relop sound_additive_expression sound_addop sound_term sound_mulop
  sound_factor sound_integer sound_float sound_call sound_args sound_arg_list

abbreviation nonterminals :: "string set" where
  "nonterminals \<equiv>
    {''program'', ''declaration-list'', ''declaration'', ''var-declaration'', ''type-specifier'',
     ''fun-declaration'', ''params'', ''param-list'', ''param'', ''compound-stmt'', ''local-declarations'',
     ''statement-list'', ''statement'', ''expression-stmt'', ''selection-stmt'', ''iteration-stmt'',
     ''return-stmt'', ''expression'', ''var'', ''simple-expression'', ''relop'', ''additive-expression'',
     ''addop'', ''term'', ''mulop'', ''factor'', ''integer'', ''float'', ''call'', ''args'', ''arg-list''}"

lemma production_nonterminals: "list_all (\<lambda>(A, rhs). A \<in> nonterminals) productions"
  by (simp add: productions_def)

lemma production_sound:
  assumes "(A, rhs) \<in> set productions" and "list_all2 symbol_sound rhs kids"
  shows "nt_sound A (node A kids)"
proof -
  have "\<forall>(A, rhs) \<in> set productions. A \<in> nonterminals"
    using production_nonterminals by (simp only: list_all_iff)
  from bspec [OF this assms(1)] have "A \<in> nonterminals" by (simp only: prod.case)
  then show ?thesis by (elim insertE emptyE) (erule production_sound_cases [OF assms])+
qed

lemma derives_sound: "derives literal_fits X t \<Longrightarrow> symbol_sound X t"
proof (induction rule: derives.induct)
  case (leaf k s)
  then show ?case by (auto intro: some_leafI)
next
  case (inner A rhs kids)
  from inner.IH have "list_all2 symbol_sound rhs kids" by (rule list_all2_mono) simp
  then show ?case by (simp add: production_sound [OF inner.hyps(1)])
qed

text \<open>C4: for every concrete syntax tree of the grammar whose identifiers and literals have fewer
  than 30 characters and whose literals fit their type (an integer below 2147483648, a finite
  float), the AST constructor returns (it reads no missing child, makes no wrong cast, throws
  nothing and does not abort) and the program it returns is well-formed: variables and parameters
  are int or float, array sizes and integer literals are not negative, the operator of a
  one-operand node is the default. Larger literals make the conversion throw, longer texts are not
  terminated in the node.\<close>

theorem AST_of_derivation:
  assumes "derives literal_fits (Nt ''program'') t"
  shows "\<exists>p. AST_of (Some t) = Inr p \<and> wf_program any_float p"
  using derives_sound [OF assms] by (auto simp: nt_sound_simps gives_def AST_of_def)

lemma derives_innerI:
  "(A, map fst xs) \<in> set productions \<Longrightarrow> \<forall>(X, t) \<in> set xs. derives lx X t \<Longrightarrow> kids = map snd xs \<Longrightarrow>
   derives lx (Nt A) (node A kids)"
  by (rule derives.inner) (auto simp: list_all2_conv_all_nth list_all_iff case_prod_beta all_set_conv_all_nth)

definition sample_tree :: syntax_tree_node where
  "sample_tree = node ''program'' [node ''declaration-list'' [node ''declaration'' [node ''var-declaration''
     [node ''type-specifier'' [leaf ''int''], leaf ''x'', leaf ''['', leaf ''10'', leaf '']'', leaf '';'']]]]"

lemma sample_tree_derives: "derives literal_fits (Nt ''program'') sample_tree"
proof -
  have lf: "\<And>k s. literal_fits k s \<Longrightarrow> derives literal_fits (Tok k) (leaf s)"
    by (rule derives.leaf)
  have toks: "derives literal_fits (Tok TK_INT) (leaf ''int'')" "derives literal_fits (Tok TK_ID) (leaf ''x'')"
    "derives literal_fits (Tok TK_LBRACKET) (leaf ''['')" "derives literal_fits (Tok TK_RBRACKET) (leaf '']'')"
    "derives literal_fits (Tok TK_INTEGER) (leaf ''10'')" "derives literal_fits (Tok TK_SEMICOLON) (leaf '';'')"
    by (rule lf; simp add: is_letter_def keyword_texts_def
        is_digit_def digits_val_def digit_val_def)+
  have "derives literal_fits (Nt ''type-specifier'') (node ''type-specifier'' [leaf ''int''])"
    by (rule derives_innerI [where xs = "[(Tok TK_INT, leaf ''int'')]"]) (simp_all add: productions_def toks)
  then have "derives literal_fits (Nt ''var-declaration'') (node ''var-declaration''
     [node ''type-specifier'' [leaf ''int''], leaf ''x'', leaf ''['', leaf ''10'', leaf '']'', leaf '';''])"
    by (intro derives_innerI [where xs = "[(Nt ''type-specifier'', node ''type-specifier'' [leaf ''int'']),
      (Tok TK_ID, leaf ''x''), (Tok TK_LBRACKET, leaf ''[''), (Tok TK_INTEGER, leaf ''10''),
      (Tok TK_RBRACKET, leaf '']''), (Tok TK_SEMICOLON, leaf '';'')]"]) (simp_all add: productions_def toks)
  then show ?thesis unfolding sample_tree_def
    by (auto simp: productions_def intro!: derives.inner)
qed

lemma AST_of_derivation_witness:
  "derives literal_fits (Nt ''program'') sample_tree \<and>
   (\<exists>p. AST_of (Some sample_tree) = Inr p \<and> wf_program any_float p)"
  using sample_tree_derives AST_of_derivation [OF sample_tree_derives] by blast

end
