(* ===== verification/StateR.thy ===== *)
theory StateR
  imports Prelude
begin

text \<open>
  Programs over a state that can fail: what the code does to the objects it shares by
  pointer. The rules at the end carry a property of the states through a program.
\<close>

type_synonym ('s, 'a) prog = "'s \<Rightarrow> ('a \<times> 's) result"

definition returnS :: "'a \<Rightarrow> ('s, 'a) prog" where
  "returnS x s = Inr (x, s)"

definition failS :: "failure \<Rightarrow> ('s, 'a) prog" where
  "failS e s = Inl e"

definition bindS :: "('s, 'a) prog \<Rightarrow> ('a \<Rightarrow> ('s, 'b) prog) \<Rightarrow> ('s, 'b) prog" where
  "bindS m f s = bindR (m s) (\<lambda>(x, s'). f x s')"

definition thenS :: "('s, 'a) prog \<Rightarrow> ('s, 'b) prog \<Rightarrow> ('s, 'b) prog" where
  "thenS m k = bindS m (\<lambda>_. k)"

definition getS :: "('s \<Rightarrow> 'a) \<Rightarrow> ('s, 'a) prog" where
  "getS f s = Inr (f s, s)"

definition modifyS :: "('s \<Rightarrow> 's) \<Rightarrow> ('s, unit) prog" where
  "modifyS f s = Inr ((), f s)"

definition liftR :: "'a result \<Rightarrow> ('s, 'a) prog" where
  "liftR r s = bindR r (\<lambda>x. Inr (x, s))"

definition assertS :: "bool \<Rightarrow> ('s, unit) prog" where
  "assertS b = (if b then returnS () else failS AssertFailed)"

text \<open>A pointer that is about to be dereferenced.\<close>

definition derefS :: "'a option \<Rightarrow> ('s, 'a) prog" where
  "derefS x = (case x of None \<Rightarrow> failS NullDeref | Some y \<Rightarrow> returnS y)"

fun seqS :: "('s, unit) prog list \<Rightarrow> ('s, unit) prog" where
  "seqS [] = returnS ()"
| "seqS (m # ms) = thenS m (seqS ms)"

lemmas prog_defs = returnS_def failS_def bindS_def thenS_def getS_def modifyS_def liftR_def assertS_def derefS_def

lemma prog_simps [simp]:
  "returnS x s = Inr (x, s)"
  "failS e s = Inl e"
  "getS f s = Inr (f s, s)"
  "modifyS g s = Inr ((), g s)"
  "bindS (returnS x) k = k x"
  "bindS (failS e) k = failS e"
  by (simp_all add: prog_defs fun_eq_iff)

lemma bindS_InrE [elim!]:
  assumes "bindS m f s = Inr (y, t)"
  obtains x s' where "m s = Inr (x, s')" and "f x s' = Inr (y, t)"
  using assms by (cases "m s") (auto simp: bindS_def)

lemma thenS_InrE [elim!]:
  assumes "thenS m k s = Inr (y, t)"
  obtains x s' where "m s = Inr (x, s')" and "k s' = Inr (y, t)"
  using assms by (auto simp: thenS_def)

lemma bindS_Inr: "m s = Inr (x, s') \<Longrightarrow> bindS m f s = f x s'"
  by (simp add: bindS_def)

lemma assertS_Inr [simp]: "assertS b s = Inr (u, t) \<longleftrightarrow> b \<and> t = s"
  by (auto simp: assertS_def)

lemma derefS_Inr [simp]: "derefS x s = Inr (y, t) \<longleftrightarrow> x = Some y \<and> t = s"
  by (cases x) (auto simp: derefS_def)

lemma liftR_Inr [simp]: "liftR r s = Inr (y, t) \<longleftrightarrow> r = Inr y \<and> t = s"
  by (cases r) (auto simp: liftR_def)

section \<open>Properties of the states\<close>

text \<open>\<open>hoare P m Q\<close>: when \<open>m\<close> returns from a state of \<open>P\<close>, the result satisfies \<open>Q\<close>.\<close>

definition hoare :: "('s \<Rightarrow> bool) \<Rightarrow> ('s, 'a) prog \<Rightarrow> ('a \<Rightarrow> 's \<Rightarrow> bool) \<Rightarrow> bool" where
  "hoare P m Q \<longleftrightarrow> (\<forall>s x s'. P s \<longrightarrow> m s = Inr (x, s') \<longrightarrow> Q x s')"

lemma hoareI: "(\<And>s x s'. P s \<Longrightarrow> m s = Inr (x, s') \<Longrightarrow> Q x s') \<Longrightarrow> hoare P m Q"
  by (simp add: hoare_def)

lemma hoareD: "hoare P m Q \<Longrightarrow> P s \<Longrightarrow> m s = Inr (x, s') \<Longrightarrow> Q x s'"
  by (simp add: hoare_def)

lemma hoare_bind:
  assumes "hoare P m Q" and "\<And>x. hoare (Q x) (f x) R"
  shows "hoare P (bindS m f) R"
  using assms by (fastforce simp: hoare_def)

lemma hoare_then: "hoare P m (\<lambda>_. Q) \<Longrightarrow> hoare Q k R \<Longrightarrow> hoare P (thenS m k) R"
  unfolding thenS_def by (rule hoare_bind)

lemma hoare_weaken: "hoare P' m Q' \<Longrightarrow> (\<And>s. P s \<Longrightarrow> P' s) \<Longrightarrow> (\<And>x s. Q' x s \<Longrightarrow> Q x s) \<Longrightarrow> hoare P m Q"
  unfolding hoare_def by blast

text \<open>A relation between the states before and after.\<close>

definition relates :: "('s \<Rightarrow> 's \<Rightarrow> bool) \<Rightarrow> ('s, 'a) prog \<Rightarrow> bool" where
  "relates R m \<longleftrightarrow> (\<forall>s x s'. m s = Inr (x, s') \<longrightarrow> R s s')"

lemma relatesD: "relates R m \<Longrightarrow> m s = Inr (x, s') \<Longrightarrow> R s s'"
  by (simp add: relates_def)

lemma relates_bind:
  assumes "transp R" and "relates R m" and "\<And>x. relates R (f x)"
  shows "relates R (bindS m f)"
  unfolding relates_def by (auto dest!: relatesD [OF assms(2)] relatesD [OF assms(3)] intro: transpD [OF assms(1)])

end
