(* ===== verification/IrTypes.thy ===== *)
theory IrTypes
  imports Prelude
begin

text \<open>
  The types of the IR: \<open>lightir/Type.cpp\<close>, and the tables of
  \<open>lightir/Module.cpp\<close> that make each type once, so that the code compares
  types by address. The first part gives the types as terms with their operations; the
  second the table of type objects, with the proof that comparing addresses is comparing
  terms. The rest of the development works with the terms.
\<close>

section \<open>Types\<close>

datatype ty =
    VoidTy
  | LabelTy
  | IntegerTy nat
  | FunctionTy ty "ty list"
  | ArrayTy ty nat
  | PointerTy ty
  | FloatTy

fun is_void_type :: "ty \<Rightarrow> bool" where "is_void_type VoidTy = True" | "is_void_type _ = False"
fun is_integer_type :: "ty \<Rightarrow> bool" where "is_integer_type (IntegerTy _) = True" | "is_integer_type _ = False"
fun is_function_type :: "ty \<Rightarrow> bool" where "is_function_type (FunctionTy _ _) = True" | "is_function_type _ = False"
fun is_array_type :: "ty \<Rightarrow> bool" where "is_array_type (ArrayTy _ _) = True" | "is_array_type _ = False"
fun is_pointer_type :: "ty \<Rightarrow> bool" where "is_pointer_type (PointerTy _) = True" | "is_pointer_type _ = False"
fun is_float_type :: "ty \<Rightarrow> bool" where "is_float_type FloatTy = True" | "is_float_type _ = False"

text \<open>A null pointer for a type that is no pointer (or no array).\<close>

fun get_pointer_element_type :: "ty \<Rightarrow> ty option" where
  "get_pointer_element_type (PointerTy t) = Some t"
| "get_pointer_element_type _ = None"

fun get_array_element_type :: "ty \<Rightarrow> ty option" where
  "get_array_element_type (ArrayTy t _) = Some t"
| "get_array_element_type _ = None"

text \<open>
  The size in bytes, an \<open>int\<close>: the product of an element's size and the
  (unsigned) number of elements wraps around.
\<close>

fun get_size :: "ty \<Rightarrow> i32" where
  "get_size (IntegerTy bits) = (if bits div 8 > 0 then word_of_nat (bits div 8) else 1)"
| "get_size (ArrayTy t n) = get_size t * word_of_nat n"
| "get_size (PointerTy t) = (if is_array_type t then get_size t else 4)"
| "get_size FloatTy = 4"
| "get_size _ = 0"

fun join_comma :: "string list \<Rightarrow> string" where
  "join_comma [] = []"
| "join_comma [s] = s"
| "join_comma (s # r # rs) = s @ '', '' @ join_comma (r # rs)"

fun print_type :: "ty \<Rightarrow> string" where
  "print_type VoidTy = ''void''"
| "print_type LabelTy = ''label''"
| "print_type (IntegerTy bits) = ''i'' @ show_nat bits"
| "print_type (FunctionTy r ps) = print_type r @ '' ('' @ join_comma (map print_type ps) @ '')''"
| "print_type (PointerTy t) = print_type t @ ''*''"
| "print_type (ArrayTy t n) = ''['' @ show_nat n @ '' x '' @ print_type t @ '']''"
| "print_type FloatTy = ''float''"

definition is_valid_return_type :: "ty \<Rightarrow> bool" where
  "is_valid_return_type t \<longleftrightarrow> is_integer_type t \<or> is_void_type t \<or> is_float_type t"

definition is_valid_argument_type :: "ty \<Rightarrow> bool" where
  "is_valid_argument_type t \<longleftrightarrow> is_integer_type t \<or> is_pointer_type t \<or> is_float_type t"

definition is_valid_element_type :: "ty \<Rightarrow> bool" where
  "is_valid_element_type t \<longleftrightarrow> is_integer_type t \<or> is_array_type t \<or> is_float_type t"

definition FunctionType_get :: "ty \<Rightarrow> ty list \<Rightarrow> ty result" where
  "FunctionType_get r ps =
     (if is_valid_return_type r \<and> list_all is_valid_argument_type ps then Inr (FunctionTy r ps)
      else Inl AssertFailed)"

definition ArrayType_get :: "ty \<Rightarrow> nat \<Rightarrow> ty result" where
  "ArrayType_get t n = (if is_valid_element_type t then Inr (ArrayTy t n) else Inl AssertFailed)"

section \<open>The table of type objects\<close>

text \<open>
  A type object refers to others by address; the address is the position in the list of
  all objects made. The module's constructor makes five, the maps remember the others.
\<close>

datatype type_obj =
    O_Void | O_Label | O_Int nat | O_Float
  | O_Pointer nat
  | O_Array nat nat
  | O_Function nat "nat list"

record type_store =
  objs :: "type_obj list"
  pointer_map :: "nat \<Rightarrow> nat option"
  array_map :: "nat \<times> nat \<Rightarrow> nat option"
  function_map :: "nat \<times> nat list \<Rightarrow> nat option"

definition new_type_store :: type_store where
  "new_type_store = \<lparr>objs = [O_Void, O_Label, O_Int 1, O_Int 32, O_Float],
     pointer_map = Map.empty, array_map = Map.empty, function_map = Map.empty\<rparr>"

definition void_ty :: nat where "void_ty = 0"
definition label_ty :: nat where "label_ty = 1"
definition int1_ty :: nat where "int1_ty = 2"
definition int32_ty :: nat where "int32_ty = 3"
definition float32_ty :: nat where "float32_ty = 4"

definition get_pointer_type :: "nat \<Rightarrow> type_store \<Rightarrow> (nat \<times> type_store) result" where
  "get_pointer_type c st = (case pointer_map st c of
     Some a \<Rightarrow> Inr (a, st)
   | None \<Rightarrow> Inr (length (objs st),
       st\<lparr>objs := objs st @ [O_Pointer c], pointer_map := (pointer_map st)(c \<mapsto> length (objs st))\<rparr>))"

fun valid_element_obj :: "type_obj \<Rightarrow> bool" where
  "valid_element_obj (O_Int _) = True" | "valid_element_obj (O_Array _ _) = True"
| "valid_element_obj O_Float = True" | "valid_element_obj _ = False"

fun valid_return_obj :: "type_obj \<Rightarrow> bool" where
  "valid_return_obj (O_Int _) = True" | "valid_return_obj O_Void = True"
| "valid_return_obj O_Float = True" | "valid_return_obj _ = False"

fun valid_argument_obj :: "type_obj \<Rightarrow> bool" where
  "valid_argument_obj (O_Int _) = True" | "valid_argument_obj (O_Pointer _) = True"
| "valid_argument_obj O_Float = True" | "valid_argument_obj _ = False"

definition get_array_type :: "nat \<times> nat \<Rightarrow> type_store \<Rightarrow> (nat \<times> type_store) result" where
  "get_array_type k st = (case array_map st k of
     Some a \<Rightarrow> Inr (a, st)
   | None \<Rightarrow> bindR (nth_checked (objs st) (fst k)) (\<lambda>contained.
       if \<not> valid_element_obj contained then Inl AssertFailed
       else Inr (length (objs st),
         st\<lparr>objs := objs st @ [O_Array (fst k) (snd k)], array_map := (array_map st)(k \<mapsto> length (objs st))\<rparr>)))"

definition get_function_type :: "nat \<times> nat list \<Rightarrow> type_store \<Rightarrow> (nat \<times> type_store) result" where
  "get_function_type k st = (case function_map st k of
     Some a \<Rightarrow> Inr (a, st)
   | None \<Rightarrow> bindR (nth_checked (objs st) (fst k)) (\<lambda>ret.
       bindR (mapR (nth_checked (objs st)) (snd k)) (\<lambda>args.
       if \<not> valid_return_obj ret \<or> \<not> list_all valid_argument_obj args then Inl AssertFailed
       else Inr (length (objs st),
         st\<lparr>objs := objs st @ [O_Function (fst k) (snd k)],
            function_map := (function_map st)(k \<mapsto> length (objs st))\<rparr>))))"

section \<open>The invariant\<close>

fun obj_refs :: "type_obj \<Rightarrow> nat list" where
  "obj_refs (O_Pointer c) = [c]"
| "obj_refs (O_Array c n) = [c]"
| "obj_refs (O_Function r ps) = r # ps"
| "obj_refs _ = []"

definition located :: "type_obj list \<Rightarrow> ('k \<Rightarrow> type_obj) \<Rightarrow> ('k \<Rightarrow> nat option) \<Rightarrow> bool" where
  "located os mk m \<longleftrightarrow> (\<forall>k a. m k = Some a \<longleftrightarrow> a < length os \<and> os ! a = mk k)"

definition mk_pointer :: "nat \<Rightarrow> type_obj" where "mk_pointer c = O_Pointer c"
definition mk_array :: "nat \<times> nat \<Rightarrow> type_obj" where "mk_array k = O_Array (fst k) (snd k)"
definition mk_function :: "nat \<times> nat list \<Rightarrow> type_obj" where "mk_function k = O_Function (fst k) (snd k)"

definition types_wf :: "type_store \<Rightarrow> bool" where
  "types_wf st \<longleftrightarrow>
     distinct (objs st) \<and>
     (\<forall>a < length (objs st). \<forall>c \<in> set (obj_refs (objs st ! a)). c < a) \<and>
     located (objs st) mk_pointer (pointer_map st) \<and>
     located (objs st) mk_array (array_map st) \<and>
     located (objs st) mk_function (function_map st)"

text \<open>The term of an address; references of a well-formed store are to earlier addresses.\<close>

function ty_at :: "type_obj list \<Rightarrow> nat \<Rightarrow> ty" where
  "ty_at os a = (case os ! a of
     O_Void \<Rightarrow> VoidTy
   | O_Label \<Rightarrow> LabelTy
   | O_Int bits \<Rightarrow> IntegerTy bits
   | O_Float \<Rightarrow> FloatTy
   | O_Pointer c \<Rightarrow> PointerTy (if c < a then ty_at os c else VoidTy)
   | O_Array c n \<Rightarrow> ArrayTy (if c < a then ty_at os c else VoidTy) n
   | O_Function r ps \<Rightarrow> FunctionTy (if r < a then ty_at os r else VoidTy)
       (map (\<lambda>p. if p < a then ty_at os p else VoidTy) ps))"
  by pat_completeness auto
termination by (relation "measure snd") auto

declare ty_at.simps [simp del]

abbreviation ty_of :: "type_store \<Rightarrow> nat \<Rightarrow> ty" where
  "ty_of st a \<equiv> ty_at (objs st) a"

lemma types_wf_refs:
  "types_wf st \<Longrightarrow> a < length (objs st) \<Longrightarrow> c \<in> set (obj_refs (objs st ! a)) \<Longrightarrow> c < a"
  by (simp add: types_wf_def)

lemma map_inj_below:
  assumes "map f xs = map f ys" and "\<And>x y. x \<in> set xs \<Longrightarrow> y \<in> set ys \<Longrightarrow> f x = f y \<Longrightarrow> x = y"
  shows "xs = ys"
  using assms
proof (induction xs arbitrary: ys)
  case (Cons x xs)
  then show ?case by (cases ys) auto
qed simp

text \<open>Different addresses are different types.\<close>

lemma ty_of_inj:
  assumes wf: "types_wf st"
  shows "a < length (objs st) \<Longrightarrow> b < length (objs st) \<Longrightarrow> ty_of st a = ty_of st b \<Longrightarrow> a = b"
proof (induction a arbitrary: b rule: less_induct)
  case (less a)
  note refs = types_wf_refs [OF wf less.prems(1)] types_wf_refs [OF wf less.prems(2)]
  have IH: "x = y" if "x \<in> set (obj_refs (objs st ! a))" "y \<in> set (obj_refs (objs st ! b))"
    "ty_of st x = ty_of st y" for x y
    using less.IH [of x y] refs(1) [OF that(1)] refs(2) [OF that(2)] that(3) less.prems(1,2) by simp
  have "objs st ! a = objs st ! b"
  proof (cases "objs st ! a")
    case (O_Function r ps)
    with less.prems refs obtain r' ps' where b: "objs st ! b = O_Function r' ps'"
      and eqs: "ty_of st r = ty_of st r'" "map (ty_of st) ps = map (ty_of st) ps'"
      by (auto simp: ty_at.simps [of _ a] ty_at.simps [of _ b] split: type_obj.splits cong: map_cong)
    from eqs(2) have "ps = ps'" by (rule map_inj_below) (use IH O_Function b in auto)
    moreover have "r = r'" using IH eqs(1) O_Function b by simp
    ultimately show ?thesis using O_Function b by simp
  qed (use less.prems refs IH in \<open>auto simp: ty_at.simps [of _ a] ty_at.simps [of _ b] split: type_obj.splits\<close>)
  with wf less.prems(1,2) show ?case by (simp add: types_wf_def nth_eq_iff_index_eq)
qed

lemma ty_at_append: "a < length os \<Longrightarrow> ty_at (os @ xs) a = ty_at os a"
proof (induction a rule: less_induct)
  case (less a)
  then show ?case
    by (auto simp: ty_at.simps [of _ a] nth_append split: type_obj.splits cong: map_cong)
qed

section \<open>The contract of the three tables\<close>

text \<open>
  Each \<open>Module::get_*_type\<close> looks its key up and makes the object when it is not
  there. What callers rely on follows from four laws.
\<close>

definition refs_below :: "type_store \<Rightarrow> type_obj \<Rightarrow> bool" where
  "refs_below st ob \<longleftrightarrow> (\<forall>c \<in> set (obj_refs ob). c < length (objs st))"

locale interner =
  fixes get :: "'k \<Rightarrow> type_store \<Rightarrow> (nat \<times> type_store) result"
    and mk :: "'k \<Rightarrow> type_obj"
    and tab :: "type_store \<Rightarrow> 'k \<Rightarrow> nat option"
  assumes get_hit: "tab st k = Some a \<Longrightarrow> get k st = Inr (a, st)"
    and get_miss: "tab st k = None \<Longrightarrow> get k st = Inr (a, st') \<Longrightarrow>
      a = length (objs st) \<and> objs st' = objs st @ [mk k] \<and> tab st' k = Some a"
    and get_wf: "types_wf st \<Longrightarrow> refs_below st (mk k) \<Longrightarrow> get k st = Inr (a, st') \<Longrightarrow> types_wf st'"
    and tab_located: "types_wf st \<Longrightarrow> located (objs st) mk (tab st)"
begin

lemma get_result:
  assumes "types_wf st" and "get k st = Inr (a, st')"
  shows "a < length (objs st')" and "objs st' ! a = mk k" and "\<exists>xs. objs st' = objs st @ xs"
proof -
  have "a < length (objs st') \<and> objs st' ! a = mk k \<and> (\<exists>xs. objs st' = objs st @ xs)"
  proof (cases "tab st k")
    case None
    from get_miss [OF None assms(2)] show ?thesis by simp
  next
    case (Some b)
    with assms tab_located [OF assms(1)] get_hit [OF Some] show ?thesis by (auto simp: located_def)
  qed
  then show "a < length (objs st')" "objs st' ! a = mk k" "\<exists>xs. objs st' = objs st @ xs" by auto
qed

lemma get_old: "types_wf st \<Longrightarrow> get k st = Inr (a, st') \<Longrightarrow> c < length (objs st) \<Longrightarrow> ty_of st' c = ty_of st c"
  using get_result(3) ty_at_append by fastforce

lemma get_again: "types_wf st \<Longrightarrow> get k st = Inr (a, st') \<Longrightarrow> get k st' = Inr (a, st')"
  using get_hit [of st' k a] get_hit [of st k] get_miss [of st k a st'] by (cases "tab st k") auto

lemma get_twice:
  assumes "types_wf st" and "refs_below st (mk k)"
    and "get k st = Inr (a, st')" and "get l st' = Inr (b, st'')"
  shows "a = b \<longleftrightarrow> mk k = mk l"
proof -
  have wf': "types_wf st'" by (rule get_wf [OF assms(1-3)])
  from get_result [OF assms(1,3)] have a: "a < length (objs st')" "objs st' ! a = mk k" by auto
  from get_result [OF wf' assms(4)] obtain xs where b: "b < length (objs st'')" "objs st'' ! b = mk l"
    and xs: "objs st'' = objs st' @ xs" by auto
  show ?thesis
  proof
    assume "a = b"
    with a b xs show "mk k = mk l" by (simp add: nth_append)
  next
    assume eq: "mk k = mk l"
    from tab_located [OF wf'] a eq have "tab st' l = Some a" by (simp add: located_def)
    from get_hit [OF this] assms(4) show "a = b" by simp
  qed
qed

end

lemma located_new:
  assumes "located os mk m" and "m k = None"
  shows "mk k \<notin> set os"
proof
  assume "mk k \<in> set os"
  then obtain i where "i < length os" "os ! i = mk k" by (auto simp: in_set_conv_nth)
  with assms(1) have "m k = Some i" by (simp add: located_def)
  with assms(2) show False by simp
qed

lemma located_update:
  assumes "located os mk m" and "m k = None" and "inj mk"
  shows "located (os @ [mk k]) mk (m(k \<mapsto> length os))"
  unfolding located_def
proof (intro allI)
  fix l a
  have "os ! a \<noteq> mk k" if "a < length os" using located_new [OF assms(1,2)] nth_mem [OF that] by metis
  then show "(m(k \<mapsto> length os)) l = Some a \<longleftrightarrow> a < length (os @ [mk k]) \<and> (os @ [mk k]) ! a = mk l"
    using assms by (auto simp: located_def nth_append less_Suc_eq dest: injD)
qed

lemma located_other:
  assumes "located os mk m" and "\<And>k. mk k \<noteq> x"
  shows "located (os @ [x]) mk m"
  using assms by (fastforce simp: located_def nth_append less_Suc_eq)

lemma mk_inj: "inj mk_pointer" "inj mk_array" "inj mk_function"
  by (auto intro!: injI simp: mk_pointer_def mk_array_def mk_function_def prod_eq_iff)

lemma types_wf_snoc:
  assumes "types_wf st" and "x \<notin> set (objs st)" and "refs_below st x"
    and "objs st' = objs st @ [x]"
    and "located (objs st') mk_pointer (pointer_map st')"
    and "located (objs st') mk_array (array_map st')"
    and "located (objs st') mk_function (function_map st')"
  shows "types_wf st'"
  using assms by (auto simp: types_wf_def refs_below_def nth_append less_Suc_eq)

lemma located_others:
  "located os mk_pointer m \<Longrightarrow> located (os @ [mk_array k]) mk_pointer m"
  "located os mk_pointer m \<Longrightarrow> located (os @ [mk_function l]) mk_pointer m"
  "located os mk_array m' \<Longrightarrow> located (os @ [mk_pointer c]) mk_array m'"
  "located os mk_array m' \<Longrightarrow> located (os @ [mk_function l]) mk_array m'"
  "located os mk_function m'' \<Longrightarrow> located (os @ [mk_pointer c]) mk_function m''"
  "located os mk_function m'' \<Longrightarrow> located (os @ [mk_array k]) mk_function m''"
  by (rule located_other; simp add: mk_pointer_def mk_array_def mk_function_def)+

lemma types_wf_located:
  "types_wf st \<Longrightarrow> located (objs st) mk_pointer (pointer_map st)"
  "types_wf st \<Longrightarrow> located (objs st) mk_array (array_map st)"
  "types_wf st \<Longrightarrow> located (objs st) mk_function (function_map st)"
  by (simp_all add: types_wf_def)

interpretation ptr: interner get_pointer_type mk_pointer pointer_map
proof
  fix st k a st'
  assume wf: "types_wf st" and below: "refs_below st (mk_pointer k)" and get: "get_pointer_type k st = Inr (a, st')"
  show "types_wf st'"
  proof (cases "pointer_map st k")
    case None
    note new = located_new [OF types_wf_located(1) [OF wf] None]
    from get None have st': "st' = st\<lparr>objs := objs st @ [mk_pointer k],
        pointer_map := (pointer_map st)(k \<mapsto> length (objs st))\<rparr>"
      by (auto simp: get_pointer_type_def mk_pointer_def)
    show ?thesis
      by (rule types_wf_snoc [OF wf new below])
        (simp_all add: st' located_others types_wf_located wf located_update mk_inj None)
  qed (use wf get in \<open>simp add: get_pointer_type_def\<close>)
qed (auto simp: get_pointer_type_def mk_pointer_def types_wf_def)

interpretation arr: interner get_array_type mk_array array_map
proof
  fix st k a st'
  assume wf: "types_wf st" and below: "refs_below st (mk_array k)" and get: "get_array_type k st = Inr (a, st')"
  show "types_wf st'"
  proof (cases "array_map st k")
    case None
    note new = located_new [OF types_wf_located(2) [OF wf] None]
    from get None have st': "st' = st\<lparr>objs := objs st @ [mk_array k],
        array_map := (array_map st)(k \<mapsto> length (objs st))\<rparr>"
      by (auto simp: get_array_type_def mk_array_def split: if_splits)
    show ?thesis
      by (rule types_wf_snoc [OF wf new below])
        (simp_all add: st' located_others types_wf_located wf located_update mk_inj None)
  qed (use wf get in \<open>simp add: get_array_type_def\<close>)
qed (auto simp: get_array_type_def mk_array_def types_wf_def split: if_splits)

interpretation fn: interner get_function_type mk_function function_map
proof
  fix st k a st'
  assume wf: "types_wf st" and below: "refs_below st (mk_function k)" and get: "get_function_type k st = Inr (a, st')"
  show "types_wf st'"
  proof (cases "function_map st k")
    case None
    note new = located_new [OF types_wf_located(3) [OF wf] None]
    from get None have st': "st' = st\<lparr>objs := objs st @ [mk_function k],
        function_map := (function_map st)(k \<mapsto> length (objs st))\<rparr>"
      by (auto simp: get_function_type_def mk_function_def split: if_splits)
    show ?thesis
      by (rule types_wf_snoc [OF wf new below])
        (simp_all add: st' located_others types_wf_located wf located_update mk_inj None)
  qed (use wf get in \<open>simp add: get_function_type_def\<close>)
qed (auto simp: get_function_type_def mk_function_def types_wf_def split: if_splits)

lemma new_type_store_wf: "types_wf new_type_store"
proof -
  have "\<forall>a < 5. obj_refs ([O_Void, O_Label, O_Int 1, O_Int 32, O_Float] ! a) = []"
    by (simp add: numeral_eq_Suc All_less_Suc)
  moreover have "\<forall>a < 5. [O_Void, O_Label, O_Int 1, O_Int 32, O_Float] ! a \<noteq> mk_pointer c" for c
    by (simp add: numeral_eq_Suc All_less_Suc mk_pointer_def)
  moreover have "\<forall>a < 5. [O_Void, O_Label, O_Int 1, O_Int 32, O_Float] ! a \<noteq> mk_array c" for c
    by (simp add: numeral_eq_Suc All_less_Suc mk_array_def)
  moreover have "\<forall>a < 5. [O_Void, O_Label, O_Int 1, O_Int 32, O_Float] ! a \<noteq> mk_function c" for c
    by (simp add: numeral_eq_Suc All_less_Suc mk_function_def)
  ultimately show ?thesis
    unfolding types_wf_def new_type_store_def located_def by auto
qed

section \<open>Comparing addresses is comparing types\<close>

text \<open>The requests the code makes of the module, in any order.\<close>

datatype type_request = R_Pointer nat | R_Array nat nat | R_Function nat "nat list"

fun request_refs :: "type_request \<Rightarrow> nat list" where
  "request_refs (R_Pointer c) = [c]"
| "request_refs (R_Array c n) = [c]"
| "request_refs (R_Function r ps) = r # ps"

fun serve :: "type_request \<Rightarrow> type_store \<Rightarrow> (nat \<times> type_store) result" where
  "serve (R_Pointer c) st = get_pointer_type c st"
| "serve (R_Array c n) st = get_array_type (c, n) st"
| "serve (R_Function r ps) st = get_function_type (r, ps) st"

inductive type_store_reachable :: "type_store \<Rightarrow> bool" where
  start: "type_store_reachable new_type_store"
| step: "type_store_reachable st \<Longrightarrow> \<forall>c \<in> set (request_refs q). c < length (objs st) \<Longrightarrow>
    serve q st = Inr (a, st') \<Longrightarrow> type_store_reachable st'"

lemma serve_wf:
  assumes "types_wf st" and "\<forall>c \<in> set (request_refs q). c < length (objs st)" and "serve q st = Inr (a, st')"
  shows "types_wf st'"
proof (cases q)
  case (R_Pointer c)
  with assms show ?thesis using ptr.get_wf by (simp add: refs_below_def mk_pointer_def)
next
  case (R_Array c n)
  with assms show ?thesis using arr.get_wf [of st "(c, n)"] by (simp add: refs_below_def mk_array_def)
next
  case (R_Function r ps)
  with assms show ?thesis using fn.get_wf [of st "(r, ps)"] by (simp add: refs_below_def mk_function_def)
qed

lemma type_store_reachable_wf: "type_store_reachable st \<Longrightarrow> types_wf st"
  by (induction rule: type_store_reachable.induct) (auto simp: new_type_store_wf intro: serve_wf)

text \<open>C31: in every type table the module can reach, by any sequence of requests for pointer,
  array and function types that refer to existing types, two type objects have the same address
  exactly when they are the same type; so the code's pointer comparisons of types are
  comparisons of types.\<close>

theorem same_address_iff_same_type:
  assumes "type_store_reachable st" and "a < length (objs st)" and "b < length (objs st)"
  shows "a = b \<longleftrightarrow> ty_of st a = ty_of st b"
  using ty_of_inj [OF type_store_reachable_wf [OF assms(1)] assms(2,3)] by auto

definition request_ty :: "type_store \<Rightarrow> type_request \<Rightarrow> ty" where
  "request_ty st q = (case q of
     R_Pointer c \<Rightarrow> PointerTy (ty_of st c)
   | R_Array c n \<Rightarrow> ArrayTy (ty_of st c) n
   | R_Function r ps \<Rightarrow> FunctionTy (ty_of st r) (map (ty_of st) ps))"

lemma serve_object:
  assumes "types_wf st" and "serve q st = Inr (a, st')"
  shows "a < length (objs st')"
    and "objs st' ! a = (case q of R_Pointer c \<Rightarrow> O_Pointer c | R_Array c n \<Rightarrow> O_Array c n
                          | R_Function r ps \<Rightarrow> O_Function r ps)"
    and "\<exists>xs. objs st' = objs st @ xs"
  using assms ptr.get_result [of st _ a st'] arr.get_result [of st _ a st'] fn.get_result [of st _ a st']
  by (cases q; simp add: mk_pointer_def mk_array_def mk_function_def)+

text \<open>C32: a request answers with an object of the requested type (the pointer, array or function
  type over the types of the addresses given), every type made before keeps its address and
  meaning, and asking again for the same type gives the same address and changes nothing.\<close>

theorem type_request_answered:
  assumes "type_store_reachable st" and "\<forall>c \<in> set (request_refs q). c < length (objs st)"
    and "serve q st = Inr (a, st')"
  shows "ty_of st' a = request_ty st q \<and> (\<forall>c < length (objs st). ty_of st' c = ty_of st c) \<and>
    serve q st' = Inr (a, st')"
proof -
  note wf = type_store_reachable_wf [OF assms(1)]
  note wf' = serve_wf [OF wf assms(2,3)]
  obtain xs where xs: "objs st' = objs st @ xs" using serve_object(3) [OF wf assms(3)] by blast
  have old: "\<forall>c < length (objs st). ty_of st' c = ty_of st c" by (simp add: xs ty_at_append)
  have refs: "\<forall>c \<in> set (obj_refs (objs st' ! a)). c < a"
    using types_wf_refs [OF wf' serve_object(1) [OF wf assms(3)]] by blast
  have "ty_of st' a = request_ty st q"
  proof (cases q)
    case (R_Function r ps)
    have "map (\<lambda>p. if p < a then ty_of st' p else VoidTy) ps = map (ty_of st) ps"
      using serve_object(2) [OF wf assms(3)] refs assms(2) old R_Function by simp
    then show ?thesis
      using serve_object(2) [OF wf assms(3)] refs assms(2) old R_Function
      by (subst ty_at.simps) (simp add: request_ty_def)
  qed (use serve_object(2) [OF wf assms(3)] refs assms(2) old in
      \<open>subst ty_at.simps, simp add: request_ty_def\<close>)+
  moreover have "serve q st' = Inr (a, st')"
    using assms(3) by (cases q) (auto intro: ptr.get_again [OF wf] arr.get_again [OF wf] fn.get_again [OF wf])
  ultimately show ?thesis using old by blast
qed

lemma sample_store_reachable:
  "\<exists>st. type_store_reachable st \<and> objs st = [O_Void, O_Label, O_Int 1, O_Int 32, O_Float, O_Pointer 3, O_Array 4 10]"
proof -
  have 1: "serve (R_Pointer 3) new_type_store = Inr (5, snd (projr (serve (R_Pointer 3) new_type_store)))"
    by (simp add: get_pointer_type_def new_type_store_def)
  let ?s = "snd (projr (serve (R_Pointer 3) new_type_store))"
  have r: "type_store_reachable ?s"
    by (rule type_store_reachable.step [OF start _ 1]) (simp add: new_type_store_def)
  have 2: "serve (R_Array 4 10) ?s = Inr (6, snd (projr (serve (R_Array 4 10) ?s)))"
    by (simp add: get_pointer_type_def get_array_type_def new_type_store_def)
  have "type_store_reachable (snd (projr (serve (R_Array 4 10) ?s)))"
    by (rule type_store_reachable.step [OF r _ 2]) (simp add: get_pointer_type_def new_type_store_def)
  then show ?thesis
    by (intro exI conjI) (assumption, simp add: get_pointer_type_def get_array_type_def new_type_store_def)
qed

lemma same_address_iff_same_type_witness:
  "\<exists>st. type_store_reachable st \<and> length (objs st) = 7 \<and> ty_of st 5 \<noteq> ty_of st 6"
proof -
  obtain st where st: "type_store_reachable st"
    "objs st = [O_Void, O_Label, O_Int 1, O_Int 32, O_Float, O_Pointer 3, O_Array 4 10]"
    using sample_store_reachable by blast
  then show ?thesis using same_address_iff_same_type [OF st(1), of 5 6] by auto
qed

lemma type_request_answered_witness:
  "ty_of (snd (projr (serve (R_Function 0 [3, 4]) new_type_store))) 5 = FunctionTy VoidTy [IntegerTy 32, FloatTy]"
proof -
  have "serve (R_Function 0 [3, 4]) new_type_store = Inr (5, snd (projr (serve (R_Function 0 [3, 4]) new_type_store)))"
    by (simp add: get_function_type_def new_type_store_def)
  from type_request_answered [OF start _ this] show ?thesis
    by (simp add: request_ty_def new_type_store_def ty_at.simps)
qed

end
