(* ===== verification/UseDef.thy ===== *)
theory UseDef
  imports Prelude
begin

text \<open>
  Values and their users: \<open>lightir/Value.cpp\<close> and \<open>lightir/User.cpp\<close>.
  A user holds its operands, a value the list of its uses (the user and the operand's
  position). The two sides are redundant; the invariant says that they agree. The model is
  polymorphic in what identifies a value.
\<close>

section \<open>State and operations\<close>

text \<open>
  A null operand is \<open>None\<close>. The member \<open>num_ops_\<close> always is the size
  of the operand vector, so it is the length of the list.
\<close>

record 'v use_graph =
  operands :: "'v \<Rightarrow> 'v option list"
  use_list :: "'v \<Rightarrow> ('v \<times> nat) list"

text \<open>The constructor of \<open>User\<close>.\<close>

definition new_user :: "'v \<Rightarrow> nat \<Rightarrow> 'v use_graph \<Rightarrow> 'v use_graph" where
  "new_user u n g = g\<lparr>operands := (operands g)(u := replicate n None)\<rparr>"

definition add_use :: "'v \<Rightarrow> 'v \<Rightarrow> nat \<Rightarrow> 'v use_graph \<Rightarrow> 'v use_graph" where
  "add_use v u i g = g\<lparr>use_list := (use_list g)(v := use_list g v @ [(u, i)])\<rparr>"

definition get_operand :: "'v \<Rightarrow> nat \<Rightarrow> 'v use_graph \<Rightarrow> 'v option result" where
  "get_operand u i g = nth_checked (operands g u) i"

definition set_operand :: "'v \<Rightarrow> nat \<Rightarrow> 'v \<Rightarrow> 'v use_graph \<Rightarrow> 'v use_graph result" where
  "set_operand u i v g =
     (if i < length (operands g u)
      then Inr (add_use v u i (g\<lparr>operands := (operands g)(u := (operands g u)[i := Some v])\<rparr>))
      else Inl AssertFailed)"

definition add_operand :: "'v \<Rightarrow> 'v \<Rightarrow> 'v use_graph \<Rightarrow> 'v use_graph" where
  "add_operand u v g =
     add_use v u (length (operands g u)) (g\<lparr>operands := (operands g)(u := operands g u @ [Some v])\<rparr>)"

definition remove_use :: "'v \<Rightarrow> 'v \<Rightarrow> 'v use_graph \<Rightarrow> 'v use_graph" where
  "remove_use v u g = g\<lparr>use_list := (use_list g)(v := filter (\<lambda>(w, _). w \<noteq> u) (use_list g v))\<rparr>"

fun remove_uses :: "'v \<Rightarrow> 'v option list \<Rightarrow> 'v use_graph \<Rightarrow> 'v use_graph result" where
  "remove_uses u [] g = Inr g"
| "remove_uses u (None # ops) g = Inl NullDeref"
| "remove_uses u (Some v # ops) g = remove_uses u ops (remove_use v u g)"

definition remove_use_of_ops :: "'v \<Rightarrow> 'v use_graph \<Rightarrow> 'v use_graph result" where
  "remove_use_of_ops u g = remove_uses u (operands g u) g"

text \<open>\<open>remove_operands (index1, index2)\<close>: both ends are included.\<close>

definition remove_operands :: "'v \<Rightarrow> nat \<Rightarrow> nat \<Rightarrow> 'v use_graph \<Rightarrow> 'v use_graph result" where
  "remove_operands u i j g =
     (if i \<le> j \<and> j < length (operands g u)
      then bindR (remove_uses u (take (Suc j - i) (drop i (operands g u))) g) (\<lambda>g.
           Inr (g\<lparr>operands := (operands g)(u := take i (operands g u) @ drop (Suc j) (operands g u))\<rparr>))
      else if i = Suc j \<and> j < length (operands g u) then Inr g
      else Inl BadIndex)"

text \<open>
  The loops over the use list of \<open>v\<close>: \<open>set_operand\<close> appends to the use
  list of the new value, so the loops do not end when that is \<open>v\<close> itself. The
  position in the list stands for the iterator.
\<close>

partial_function (option) replace_all_loop ::
  "'v \<Rightarrow> 'v \<Rightarrow> nat \<Rightarrow> 'v use_graph \<Rightarrow> 'v use_graph result option" where
  "replace_all_loop v w i g =
     (if i < length (use_list g v)
      then (case set_operand (fst (use_list g v ! i)) (snd (use_list g v ! i)) w g of
              Inl e \<Rightarrow> Some (Inl e)
            | Inr g' \<Rightarrow> replace_all_loop v w (i + 1) g')
      else Some (Inr (g\<lparr>use_list := (use_list g)(v := [])\<rparr>)))"

definition replace_all_use_with :: "'v \<Rightarrow> 'v \<Rightarrow> 'v use_graph \<Rightarrow> 'v use_graph result option" where
  "replace_all_use_with v w g = replace_all_loop v w 0 g"

definition erase_use :: "'v \<Rightarrow> nat \<Rightarrow> 'v use_graph \<Rightarrow> 'v use_graph" where
  "erase_use v i g = g\<lparr>use_list := (use_list g)(v := take i (use_list g v) @ drop (Suc i) (use_list g v))\<rparr>"

partial_function (option) replace_when_loop ::
  "('v \<Rightarrow> bool) \<Rightarrow> 'v \<Rightarrow> 'v \<Rightarrow> nat \<Rightarrow> 'v use_graph \<Rightarrow> 'v use_graph result option" where
  "replace_when_loop pred v w i g =
     (if i < length (use_list g v)
      then (if \<not> pred (fst (use_list g v ! i)) then replace_when_loop pred v w (i + 1) g
            else case set_operand (fst (use_list g v ! i)) (snd (use_list g v ! i)) w g of
                   Inl e \<Rightarrow> Some (Inl e)
                 | Inr g' \<Rightarrow> replace_when_loop pred v w i (erase_use v i g'))
      else Some (Inr g))"

definition replace_use_with_when ::
  "('v \<Rightarrow> bool) \<Rightarrow> 'v \<Rightarrow> 'v \<Rightarrow> 'v use_graph \<Rightarrow> 'v use_graph result option" where
  "replace_use_with_when pred v w g = replace_when_loop pred v w 0 g"

section \<open>The invariant\<close>

text \<open>
  The uses of a value are exactly the operand positions that hold it, each once, except
  those of the users in \<open>D\<close>, the deleted ones, whose operands stay behind.
\<close>

definition uses_agree :: "'v set \<Rightarrow> 'v use_graph \<Rightarrow> bool" where
  "uses_agree D g \<longleftrightarrow> (\<forall>v. distinct (use_list g v)) \<and>
     (\<forall>v u i. (u, i) \<in> set (use_list g v) \<longleftrightarrow>
        u \<notin> D \<and> i < length (operands g u) \<and> operands g u ! i = Some v)"

lemma uses_agreeD:
  assumes "uses_agree D g"
  shows "distinct (use_list g v)"
    and "(u, i) \<in> set (use_list g v) \<longleftrightarrow> u \<notin> D \<and> i < length (operands g u) \<and> operands g u ! i = Some v"
  using assms by (auto simp: uses_agree_def)

lemma new_user_agree:
  assumes "uses_agree D g" and "\<forall>v. u \<notin> fst ` set (use_list g v)" and "u \<notin> D"
  shows "uses_agree D (new_user u n g)"
  unfolding uses_agree_def
proof (intro conjI allI)
  fix v w i
  show "distinct (use_list (new_user u n g) v)"
    using uses_agreeD(1) [OF assms(1)] by (simp add: new_user_def)
  have "(u, i) \<notin> set (use_list g v)" using assms(2) by force
  then show "(w, i) \<in> set (use_list (new_user u n g) v) \<longleftrightarrow>
      w \<notin> D \<and> i < length (operands (new_user u n g) w) \<and> operands (new_user u n g) w ! i = Some v"
    using uses_agreeD(2) [OF assms(1)] by (auto simp: new_user_def)
qed

text \<open>Setting an operand that is null.\<close>

lemma set_operand_agree:
  assumes agree: "uses_agree D g" and "u \<notin> D" and null: "i < length (operands g u) \<Longrightarrow> operands g u ! i = None"
    and set: "set_operand u i v g = Inr g'"
  shows "uses_agree D g'"
proof -
  have i: "i < length (operands g u)" using set by (auto simp: set_operand_def split: if_splits)
  have fresh: "(u, i) \<notin> set (use_list g x)" for x using uses_agreeD(2) [OF agree] null [OF i] by auto
  have g': "g' = add_use v u i (g\<lparr>operands := (operands g)(u := (operands g u)[i := Some v])\<rparr>)"
    using set by (auto simp: set_operand_def split: if_splits)
  show ?thesis unfolding uses_agree_def
  proof (intro conjI allI)
    fix x w j
    show "distinct (use_list g' x)" using uses_agreeD(1) [OF agree] fresh by (auto simp: g' add_use_def)
    show "(w, j) \<in> set (use_list g' x) \<longleftrightarrow> w \<notin> D \<and> j < length (operands g' w) \<and> operands g' w ! j = Some x"
      using uses_agreeD(2) [OF agree, of w j x] i assms(2) fresh [of x] null [OF i]
      by (auto simp: g' add_use_def nth_list_update)
  qed
qed

lemma add_operand_agree:
  assumes agree: "uses_agree D g" and "u \<notin> D"
  shows "uses_agree D (add_operand u v g)"
proof -
  have fresh: "(u, length (operands g u)) \<notin> set (use_list g x)" for x using uses_agreeD(2) [OF agree] by auto
  show ?thesis unfolding uses_agree_def
  proof (intro conjI allI)
    fix x w j
    show "distinct (use_list (add_operand u v g) x)"
      using uses_agreeD(1) [OF agree] fresh by (auto simp: add_operand_def add_use_def)
    show "(w, j) \<in> set (use_list (add_operand u v g) x) \<longleftrightarrow> w \<notin> D \<and>
        j < length (operands (add_operand u v g) w) \<and> operands (add_operand u v g) w ! j = Some x"
      using uses_agreeD(2) [OF agree, of w j x] assms(2) fresh [of x]
      by (auto simp: add_operand_def add_use_def nth_append less_Suc_eq)
  qed
qed

lemma remove_uses_result:
  "remove_uses u ops g = Inr g' \<Longrightarrow> operands g' = operands g \<and>
   (\<forall>v. use_list g' v = (if Some v \<in> set ops then filter (\<lambda>(w, _). w \<noteq> u) (use_list g v) else use_list g v))"
proof (induction u ops g rule: remove_uses.induct)
  case (3 u v ops g)
  then show ?case by (auto simp: remove_use_def)
qed simp_all

lemma remove_uses_total: "None \<notin> set ops \<Longrightarrow> \<exists>g'. remove_uses u ops g = Inr g'"
  by (induction u ops g rule: remove_uses.induct) auto

lemma remove_use_of_ops_agree:
  assumes agree: "uses_agree D g" and rem: "remove_use_of_ops u g = Inr g'"
  shows "uses_agree (insert u D) g'"
proof -
  from rem have ops: "operands g' = operands g"
    and uses: "\<And>v. use_list g' v = (if Some v \<in> set (operands g u)
      then filter (\<lambda>(w, _). w \<noteq> u) (use_list g v) else use_list g v)"
    using remove_uses_result by (fastforce simp: remove_use_of_ops_def)+
  have held: "i < length (operands g u) \<Longrightarrow> operands g u ! i = Some v \<Longrightarrow> Some v \<in> set (operands g u)" for i v
    by (metis nth_mem)
  show ?thesis unfolding uses_agree_def
  proof (intro conjI allI)
    fix v w i
    show "distinct (use_list g' v)" using uses_agreeD(1) [OF agree] by (simp add: uses)
    show "(w, i) \<in> set (use_list g' v) \<longleftrightarrow> w \<notin> insert u D \<and> i < length (operands g' w) \<and> operands g' w ! i = Some v"
      using uses_agreeD(2) [OF agree, of w i v] held [of i v] by (auto simp: uses ops)
  qed
qed

section \<open>Replacing uses\<close>

text \<open>The operands after every position in \<open>S\<close> was set to \<open>w\<close>.\<close>

definition redirect :: "('v \<times> nat) set \<Rightarrow> 'v \<Rightarrow> ('v \<Rightarrow> 'v option list) \<Rightarrow> 'v \<Rightarrow> 'v option list" where
  "redirect S w ops u = map (\<lambda>j. if (u, j) \<in> S then Some w else ops u ! j) [0..<length (ops u)]"

lemma redirect_simps [simp]:
  "length (redirect S w ops u) = length (ops u)"
  "j < length (ops u) \<Longrightarrow> redirect S w ops u ! j = (if (u, j) \<in> S then Some w else ops u ! j)"
  by (simp_all add: redirect_def)

lemma redirect_empty [simp]: "redirect {} w ops = ops"
  by (rule ext, rule nth_equalityI) simp_all

lemma redirect_insert:
  "(redirect S w ops)(u := (redirect S w ops u)[j := Some w]) = redirect (insert (u, j) S) w ops"
  by (rule ext, rule nth_equalityI) (cases "j < length (ops u)"; auto simp: nth_list_update)+

definition replaced :: "'v \<Rightarrow> 'v \<Rightarrow> ('v \<times> nat) list \<Rightarrow> ('v \<times> nat) list \<Rightarrow> 'v use_graph \<Rightarrow> 'v use_graph" where
  "replaced v w moved kept g =
     \<lparr>operands = redirect (set moved) w (operands g),
      use_list = (use_list g)(w := use_list g w @ moved, v := kept)\<rparr>"

lemma use_list_replaced [simp]: "use_list (replaced v w moved kept g) v = kept"
  by (simp add: replaced_def)

lemma set_operand_replaced:
  assumes "v \<noteq> w" and "j < length (operands g u)"
  shows "set_operand u j w (replaced v w moved kept g) = Inr (replaced v w (moved @ [(u, j)]) kept g)"
  using assms redirect_insert [of "set moved" w "operands g" u j]
  by (auto simp: set_operand_def add_use_def replaced_def fun_upd_twist)

lemma replace_all_loop_result:
  assumes "v \<noteq> w" and "\<forall>(u, j) \<in> set (use_list g v). j < length (operands g u)"
  shows "i \<le> length (use_list g v) \<Longrightarrow>
    replace_all_loop v w i (replaced v w (take i (use_list g v)) (use_list g v) g) =
    Some (Inr (replaced v w (use_list g v) [] g))"
proof (induction "length (use_list g v) - i" arbitrary: i)
  case 0
  then show ?case
    by (subst replace_all_loop.simps) (use assms(1) in \<open>simp add: replaced_def fun_upd_twist\<close>)
next
  case (Suc n)
  then have i: "i < length (use_list g v)" by simp
  obtain u j where uj: "use_list g v ! i = (u, j)" by fastforce
  then have j: "j < length (operands g u)" using assms(2) nth_mem [OF i] by auto
  from i have "take i (use_list g v) @ [use_list g v ! i] = take (Suc i) (use_list g v)"
    by (simp add: take_Suc_conv_app_nth)
  with Suc i uj set_operand_replaced [OF assms(1) j] show ?case
    by (subst replace_all_loop.simps) simp
qed

lemma replaced_start: "v \<noteq> w \<Longrightarrow> replaced v w [] (use_list g v) g = g"
  by (simp add: replaced_def fun_upd_idem)

lemma replace_all_use_with_result:
  assumes "v \<noteq> w" and "\<forall>(u, j) \<in> set (use_list g v). j < length (operands g u)"
  shows "replace_all_use_with v w g = Some (Inr (replaced v w (use_list g v) [] g))"
  using replace_all_loop_result [OF assms, of 0] by (simp add: replace_all_use_with_def replaced_start assms(1))

lemma replace_when_loop_result:
  assumes "v \<noteq> w" and "\<forall>(u, j) \<in> set (p @ r). j < length (operands g u)"
  shows "replace_when_loop pred v w (length (filter (\<lambda>x. \<not> pred (fst x)) p))
      (replaced v w (filter (\<lambda>x. pred (fst x)) p) (filter (\<lambda>x. \<not> pred (fst x)) p @ r) g) =
    Some (Inr (replaced v w (filter (\<lambda>x. pred (fst x)) (p @ r)) (filter (\<lambda>x. \<not> pred (fst x)) (p @ r)) g))"
  using assms(2)
proof (induction r arbitrary: p)
  case Nil
  then show ?case by (subst replace_when_loop.simps) (use assms(1) in \<open>simp add: replaced_def\<close>)
next
  case (Cons x r)
  obtain u j where x: "x = (u, j)" by fastforce
  with Cons.prems have j: "j < length (operands g u)" by simp
  let ?k = "filter (\<lambda>x. \<not> pred (fst x)) p" and ?m = "filter (\<lambda>x. pred (fst x)) p"
  have erase: "erase_use v (length ?k) (replaced v w m (?k @ (u, j) # r) g) = replaced v w m (?k @ r) g" for m
    by (simp add: erase_use_def replaced_def)
  from Cons.prems have all: "\<forall>(u, j) \<in> set ((p @ [x]) @ r). j < length (operands g u)" by simp
  show ?case
  proof (cases "pred u")
    case True
    with Cons.IH [OF all] show ?thesis
      by (subst replace_when_loop.simps)
        (simp add: x set_operand_replaced [OF assms(1) j] erase)
  next
    case False
    with Cons.IH [OF all] show ?thesis
      by (subst replace_when_loop.simps) (simp add: x)
  qed
qed

lemma replace_use_with_when_result:
  assumes "v \<noteq> w" and "\<forall>(u, j) \<in> set (use_list g v). j < length (operands g u)"
  shows "replace_use_with_when pred v w g =
    Some (Inr (replaced v w (filter (\<lambda>x. pred (fst x)) (use_list g v)) (filter (\<lambda>x. \<not> pred (fst x)) (use_list g v)) g))"
  using replace_when_loop_result [OF assms(1), of "[]" "use_list g v" g pred] assms(2)
  by (simp add: replace_use_with_when_def replaced_start assms(1))

lemma replaced_agree:
  assumes agree: "uses_agree D g" and "v \<noteq> w" and "distinct (moved @ kept)"
    and "set (moved @ kept) = set (use_list g v)"
  shows "uses_agree D (replaced v w moved kept g)"
  unfolding uses_agree_def
proof (intro conjI allI)
  fix x u i
  have disj: "(u, i) \<notin> set (use_list g v) \<or> (u, i) \<notin> set (use_list g w)" for u i
    using uses_agreeD(2) [OF agree] assms(2) by auto
  then have "set (use_list g w) \<inter> set moved = {}" using assms(4) by auto
  then show "distinct (use_list (replaced v w moved kept g) x)"
    using uses_agreeD(1) [OF agree] assms(3) by (auto simp: replaced_def)
  have mem: "(u, i) \<in> set moved \<or> (u, i) \<in> set kept \<longleftrightarrow> (u, i) \<in> set (use_list g v)"
    and excl: "(u, i) \<notin> set moved \<or> (u, i) \<notin> set kept"
    using assms(3,4) by auto
  show "(u, i) \<in> set (use_list (replaced v w moved kept g) x) \<longleftrightarrow> u \<notin> D \<and>
      i < length (operands (replaced v w moved kept g) u) \<and> operands (replaced v w moved kept g) u ! i = Some x"
    using uses_agreeD(2) [OF agree, of u i x] uses_agreeD(2) [OF agree, of u i v] mem excl assms(2)
    by (auto simp: replaced_def split: if_splits)
qed

section \<open>What the replacements promise\<close>

lemma uses_agree_positions:
  "uses_agree D g \<Longrightarrow> \<forall>(u, j) \<in> set (use_list g v). j < length (operands g u)"
  using uses_agreeD(2) by fastforce

lemma redirect_uses:
  assumes "uses_agree D g" and "u \<notin> D" and "\<And>j. (u, j) \<in> S \<longleftrightarrow> P \<and> (u, j) \<in> set (use_list g v)"
  shows "redirect S w (operands g) u = map (\<lambda>x. if P \<and> x = Some v then Some w else x) (operands g u)"
  using uses_agreeD(2) [OF assms(1), of u _ v] assms(2,3) by (intro nth_equalityI) auto

text \<open>C27: replacing all uses of a value by another value returns, empties the value's use list,
  changes every operand of a live user that was the value into the new value and no other, and
  keeps use lists and operands in agreement.\<close>

theorem replace_all_use_with_correct:
  assumes "uses_agree D g" and "v \<noteq> w"
  shows "\<exists>g'. replace_all_use_with v w g = Some (Inr g') \<and> uses_agree D g' \<and> use_list g' v = [] \<and>
    (\<forall>u. u \<notin> D \<longrightarrow> operands g' u = map (\<lambda>x. if x = Some v then Some w else x) (operands g u))"
proof (intro exI conjI)
  let ?g = "replaced v w (use_list g v) [] g"
  show "replace_all_use_with v w g = Some (Inr ?g)"
    by (rule replace_all_use_with_result [OF assms(2) uses_agree_positions [OF assms(1)]])
  show "uses_agree D ?g"
    by (rule replaced_agree [OF assms]) (simp_all add: uses_agreeD(1) [OF assms(1)])
  show "\<forall>u. u \<notin> D \<longrightarrow> operands ?g u = map (\<lambda>x. if x = Some v then Some w else x) (operands g u)"
    using redirect_uses [OF assms(1), of _ "set (use_list g v)" True v w] by (simp add: replaced_def)
qed simp

text \<open>C28: replacing the uses of a value by those users that satisfy a predicate returns, changes the
  operands of these users only, leaves the uses of the others in the value's use list, and keeps
  use lists and operands in agreement.\<close>

theorem replace_use_with_when_correct:
  assumes "uses_agree D g" and "v \<noteq> w"
  shows "\<exists>g'. replace_use_with_when pred v w g = Some (Inr g') \<and> uses_agree D g' \<and>
    use_list g' v = filter (\<lambda>(u, _). \<not> pred u) (use_list g v) \<and>
    (\<forall>u. u \<notin> D \<longrightarrow> operands g' u = map (\<lambda>x. if pred u \<and> x = Some v then Some w else x) (operands g u))"
proof (intro exI conjI)
  let ?m = "filter (\<lambda>x. pred (fst x)) (use_list g v)" and ?k = "filter (\<lambda>x. \<not> pred (fst x)) (use_list g v)"
  let ?g = "replaced v w ?m ?k g"
  show "replace_use_with_when pred v w g = Some (Inr ?g)"
    by (rule replace_use_with_when_result [OF assms(2) uses_agree_positions [OF assms(1)]])
  show "uses_agree D ?g"
    by (rule replaced_agree [OF assms]) (auto simp: uses_agreeD(1) [OF assms(1)])
  show "use_list ?g v = filter (\<lambda>(u, _). \<not> pred u) (use_list g v)" by (simp add: case_prod_beta')
  show "\<forall>u. u \<notin> D \<longrightarrow> operands ?g u = map (\<lambda>x. if pred u \<and> x = Some v then Some w else x) (operands g u)"
    using redirect_uses [OF assms(1), of _ "set ?m" "pred _" v w] by (auto simp: replaced_def)
qed

text \<open>A value that is replaced by itself: the loop follows the uses it appends.\<close>

lemma self_step:
  assumes "i < length (use_list g v)" and "\<forall>(u, j) \<in> set (use_list g v). j < length (operands g u)"
    and "set_operand (fst (use_list g v ! i)) (snd (use_list g v ! i)) v g = r"
  shows "\<exists>g'. r = Inr g' \<and> i + 1 < length (use_list g' v) \<and> (\<forall>(u, j) \<in> set (use_list g' v). j < length (operands g' u))"
proof -
  obtain u j where uj: "use_list g v ! i = (u, j)" by fastforce
  then have mem: "(u, j) \<in> set (use_list g v)" using nth_mem [OF assms(1)] by simp
  have "\<forall>(a, b) \<in> set (use_list g v). b < length (operands g a)" by (rule assms(2))
  moreover from this mem have "j < length (operands g u)" by auto
  ultimately show ?thesis using assms(1,3) uj
    by (intro exI [of _ "add_use v u j (g\<lparr>operands := (operands g)(u := (operands g u)[j := Some v])\<rparr>)"])
      (auto simp: set_operand_def add_use_def case_prod_beta')
qed

lemma replace_all_loop_self:
  assumes "replace_all_loop v w i g = Some r"
  shows "v = w \<longrightarrow> i < length (use_list g v) \<longrightarrow>
    (\<forall>(u, j) \<in> set (use_list g v). j < length (operands g u)) \<longrightarrow> False"
proof (rule replace_all_loop.raw_induct [where P = "\<lambda>v w i g r. v = w \<longrightarrow> i < length (use_list g v) \<longrightarrow>
    (\<forall>(u, j) \<in> set (use_list g v). j < length (operands g u)) \<longrightarrow> False", OF _ assms], intro impI)
  fix rec :: "'a \<Rightarrow> 'a \<Rightarrow> nat \<Rightarrow> 'a use_graph \<Rightarrow> 'a use_graph result option" and v w i g r
  assume IH: "\<And>v w i g r. rec v w i g = Some r \<Longrightarrow> v = w \<longrightarrow> i < length (use_list g v) \<longrightarrow>
      (\<forall>(u, j) \<in> set (use_list g v). j < length (operands g u)) \<longrightarrow> False"
    and body: "(if i < length (use_list g v)
      then (case set_operand (fst (use_list g v ! i)) (snd (use_list g v ! i)) w g of
              Inl e \<Rightarrow> Some (Inl e) | Inr g' \<Rightarrow> rec v w (i + 1) g')
      else Some (Inr (g\<lparr>use_list := (use_list g)(v := [])\<rparr>))) = Some r"
    and prems: "v = w" "i < length (use_list g v)" "\<forall>(u, j) \<in> set (use_list g v). j < length (operands g u)"
  from self_step [OF prems(2,3) refl] obtain g' where
    "set_operand (fst (use_list g v ! i)) (snd (use_list g v ! i)) v g = Inr g'"
    "i + 1 < length (use_list g' v)" "\<forall>(u, j) \<in> set (use_list g' v). j < length (operands g' u)" by blast
  with IH [of v w "i + 1" g' r] body prems show False by simp
qed

text \<open>C30: replacing all uses of a used value by the value itself never returns: every use that the
  loop redirects is appended to the list it walks.\<close>

theorem replace_all_use_with_self_diverges:
  assumes "uses_agree D g" and "use_list g v \<noteq> []"
  shows "replace_all_use_with v v g = None"
proof (cases "replace_all_use_with v v g")
  case (Some r)
  then show ?thesis
    using replace_all_loop_self [of v v 0 g r] uses_agree_positions [OF assms(1)] assms(2)
    by (simp add: replace_all_use_with_def)
qed simp

section \<open>Every history\<close>

text \<open>
  The ways the compiler edits the graph: it makes a user without uses, fills its null
  operands, appends operands, replaces uses, and drops the operands' uses of a user it
  deletes.
\<close>

inductive graph_history :: "'v set \<Rightarrow> 'v use_graph \<Rightarrow> bool" where
  empty: "graph_history {} \<lparr>operands = \<lambda>_. [], use_list = \<lambda>_. []\<rparr>"
| new: "graph_history D g \<Longrightarrow> operands g u = [] \<Longrightarrow> u \<notin> D \<Longrightarrow> graph_history D (new_user u n g)"
| set: "graph_history D g \<Longrightarrow> u \<notin> D \<Longrightarrow> get_operand u i g = Inr None \<Longrightarrow> set_operand u i v g = Inr g' \<Longrightarrow>
    graph_history D g'"
| add: "graph_history D g \<Longrightarrow> u \<notin> D \<Longrightarrow> graph_history D (add_operand u v g)"
| replace_all: "graph_history D g \<Longrightarrow> v \<noteq> w \<Longrightarrow> replace_all_use_with v w g = Some (Inr g') \<Longrightarrow> graph_history D g'"
| replace_when: "graph_history D g \<Longrightarrow> v \<noteq> w \<Longrightarrow> replace_use_with_when pred v w g = Some (Inr g') \<Longrightarrow>
    graph_history D g'"
| delete: "graph_history D g \<Longrightarrow> remove_use_of_ops u g = Inr g' \<Longrightarrow> graph_history (insert u D) g'"

text \<open>C29: after every history of the edits of \<open>graph_history\<close> (making a user, setting
  a null operand, adding an operand, replacing a value by another one for all or for selected users,
  and removing the uses of a user that is deleted), each value's use list names exactly the operand
  positions of live users that hold the value, each once. Setting an operand that is not null and
  \<open>remove_operands\<close> break that and are no steps of a history, and replacing a value by
  itself does not end.\<close>

theorem graph_history_agrees: "graph_history D g \<Longrightarrow> uses_agree D g"
proof (induction rule: graph_history.induct)
  case (new D g u n)
  have "\<forall>v. u \<notin> fst ` set (use_list g v)"
    using uses_agreeD(2) [OF new.IH, of u] new.hyps(2) by auto
  with new show ?case by (intro new_user_agree)
next
  case (set D g u i v g')
  show ?case
    by (rule set_operand_agree [OF set.IH set.hyps(2) _ set.hyps(4)])
      (use set.hyps(3) in \<open>simp add: get_operand_def nth_checked_def\<close>)
next
  case (replace_all D g v w g')
  have "g' = replaced v w (use_list g v) [] g"
    using replace_all_use_with_result [OF replace_all.hyps(2) uses_agree_positions [OF replace_all.IH]]
      replace_all.hyps(3) by simp
  then show ?case
    using replaced_agree [OF replace_all.IH replace_all.hyps(2)] uses_agreeD(1) [OF replace_all.IH] by simp
next
  case (replace_when D g v w pred g')
  have "g' = replaced v w (filter (\<lambda>x. pred (fst x)) (use_list g v)) (filter (\<lambda>x. \<not> pred (fst x)) (use_list g v)) g"
    using replace_use_with_when_result [OF replace_when.hyps(2) uses_agree_positions [OF replace_when.IH]]
      replace_when.hyps(3) by simp
  moreover have "uses_agree D (replaced v w (filter (\<lambda>x. pred (fst x)) (use_list g v))
      (filter (\<lambda>x. \<not> pred (fst x)) (use_list g v)) g)"
    by (rule replaced_agree [OF replace_when.IH replace_when.hyps(2)])
      (auto simp: uses_agreeD(1) [OF replace_when.IH])
  ultimately show ?case by simp
next
  case (delete D g u g')
  show ?case by (rule remove_use_of_ops_agree [OF delete.IH delete.hyps(2)])
next
  case (add D g u v)
  show ?case by (rule add_operand_agree [OF add.IH add.hyps(2)])
qed (simp add: uses_agree_def)

section \<open>Instances\<close>

definition empty_graph :: "'v use_graph" where
  "empty_graph = \<lparr>operands = \<lambda>_. [], use_list = \<lambda>_. []\<rparr>"

lemma uses_agree_empty: "uses_agree D empty_graph"
  by (simp add: uses_agree_def empty_graph_def)

definition sample_graph :: "nat use_graph" where
  "sample_graph = add_operand 3 4 (add_operand 2 7 (add_operand 2 4 empty_graph))"

lemma sample_graph_agrees: "uses_agree {} sample_graph"
  unfolding sample_graph_def by (intro add_operand_agree uses_agree_empty) simp_all

lemma sample_graph_parts:
  "operands sample_graph 2 = [Some 4, Some 7]" "operands sample_graph 3 = [Some 4]"
  "use_list sample_graph 4 = [(2, 0), (3, 0)]"
  by (simp_all add: sample_graph_def add_operand_def add_use_def empty_graph_def)

lemma replace_all_use_with_correct_witness:
  "\<exists>g'. replace_all_use_with 4 5 sample_graph = Some (Inr g') \<and> operands g' 2 = [Some 5, Some 7]"
  using replace_all_use_with_correct [OF sample_graph_agrees, of 4 5] by (auto simp: sample_graph_parts)

lemma replace_use_with_when_correct_witness:
  "\<exists>g'. replace_use_with_when (\<lambda>u. u = 3) 4 5 sample_graph = Some (Inr g') \<and>
     operands g' 2 = [Some 4, Some 7] \<and> operands g' 3 = [Some 5] \<and> use_list g' 4 = [(2, 0)]"
  using replace_use_with_when_correct [OF sample_graph_agrees, of 4 5 "\<lambda>u. u = 3"]
  by (auto simp: sample_graph_parts)

lemma replace_all_use_with_self_diverges_witness: "replace_all_use_with 4 4 sample_graph = None"
  using replace_all_use_with_self_diverges [OF sample_graph_agrees, of 4] by (simp add: sample_graph_parts)

lemma graph_history_agrees_witness:
  "use_list (add_operand 3 1 (add_operand 2 1 empty_graph)) (1 :: nat) = [(2, 0), (3, 0)] \<and>
   uses_agree {} (add_operand 3 1 (add_operand 2 1 (empty_graph :: nat use_graph)))"
proof -
  have "graph_history {} (add_operand 3 1 (add_operand 2 1 (empty_graph :: nat use_graph)))"
    unfolding empty_graph_def by (intro graph_history.add graph_history.empty) simp_all
  from graph_history_agrees [OF this] show ?thesis by (simp add: add_operand_def add_use_def empty_graph_def)
qed

declare replace_all_loop.simps [code] replace_when_loop.simps [code]

end
