(* ===== verification/Ir.thy ===== *)
theory Ir
  imports StateR CxxStd IrTypes UseDef
begin

text \<open>
  The IR of \<open>lightir/\<close>: modules, functions, basic blocks, instructions and
  constants as objects of one state, with the factories that make them. An object's address
  is its position in the list of the objects of its class; users and operands are in the
  use graph. The constants the code makes once per value are their values; a constant that is
  not a number is made anew by every request.
\<close>

section \<open>Values\<close>

datatype irval =
    V_Int i32 | V_Bool bool | V_FP f32 | V_Zero ty
  | V_NaN f32 nat    \<comment> \<open>a constant that is not a number: its bits and its place in the cache\<close>
  | V_Global nat
  | V_Fun nat
  | V_Arg nat nat    \<comment> \<open>the function and the number of the argument\<close>
  | V_Block nat
  | V_Inst nat

datatype OpID =
    I_ret | I_br
  | I_add | I_sub | I_mul | I_sdiv
  | I_fadd | I_fsub | I_fmul | I_fdiv
  | I_alloca | I_load | I_store
  | I_cmp | I_fcmp | I_phi | I_call | I_getelementptr | I_zext | I_fptosi | I_sitofp

datatype CmpOp = C_EQ | C_NE | C_GT | C_GE | C_LT | C_LE

text \<open>The members of the subclasses of \<open>Instruction\<close>.\<close>

datatype inst_data =
    X_None
  | X_Cmp CmpOp           \<comment> \<open>\<open>cmp_op_\<close>\<close>
  | X_Element ty          \<comment> \<open>\<open>element_ty_\<close>\<close>
  | X_Alloca ty           \<comment> \<open>\<open>alloca_ty_\<close>\<close>
  | X_Dest ty             \<comment> \<open>\<open>dest_ty_\<close>\<close>
  | X_LVal "irval option" \<comment> \<open>\<open>l_val_\<close>\<close>

record instruction =
  i_type :: ty
  i_op :: OpID
  i_data :: inst_data
  i_parent :: "nat option"
  i_name :: string

record basic_block =
  bb_name :: string
  bb_parent :: nat
  pre_bbs :: "nat list"
  succ_bbs :: "nat list"
  instr_list :: "nat list"

record ir_function =
  f_type :: ty
  f_name :: string
  basic_blocks :: "nat list"
  arg_names :: "string list"
  seq_cnt :: nat

record global_variable =
  g_type :: ty
  g_name :: string
  g_is_const :: bool
  g_init :: "irval option"

text \<open>
  The module, with the objects it owns and the cache of float constants, which the code
  keeps in a static map.
\<close>

record ir_module =
  function_list :: "ir_function list"
  global_list :: "global_variable list"
  blocks :: "basic_block list"
  instrs :: "instruction list"
  graph :: "irval use_graph"
  cached_float :: "f32 list"

definition new_module :: ir_module where
  "new_module = \<lparr>function_list = [], global_list = [], blocks = [], instrs = [], graph = empty_graph, cached_float = []\<rparr>"

type_synonym ('b, 'a) ir = "('b ir_module_scheme, 'a) prog"

fun function_return_type :: "ty \<Rightarrow> ty" where
  "function_return_type (FunctionTy r _) = r"
| "function_return_type t = t"

fun function_param_types :: "ty \<Rightarrow> ty list" where
  "function_param_types (FunctionTy _ ps) = ps"
| "function_param_types _ = []"

fun get_type :: "'b ir_module_scheme \<Rightarrow> irval \<Rightarrow> ty" where
  "get_type m (V_Int _) = IntegerTy 32"
| "get_type m (V_Bool _) = IntegerTy 1"
| "get_type m (V_FP _) = FloatTy"
| "get_type m (V_NaN _ _) = FloatTy"
| "get_type m (V_Zero t) = t"
| "get_type m (V_Global g) = g_type (global_list m ! g)"
| "get_type m (V_Fun f) = f_type (function_list m ! f)"
| "get_type m (V_Arg f i) = function_param_types (f_type (function_list m ! f)) ! i"
| "get_type m (V_Block _) = LabelTy"
| "get_type m (V_Inst i) = i_type (instrs m ! i)"

section \<open>Constants\<close>

definition ConstantInt_get :: "i32 \<Rightarrow> ('b, irval) ir" where
  "ConstantInt_get w = returnS (V_Int w)"

definition ConstantInt_get_bool :: "bool \<Rightarrow> ('b, irval) ir" where
  "ConstantInt_get_bool b = returnS (V_Bool b)"

text \<open>
  The cache is keyed by \<open>float\<close> and so compares with \<open>==\<close>: a value is
  found under any equal value, and NaN never: each request for it adds an object of its own,
  named here by its place.
\<close>

definition ConstantFP_get :: "f32 \<Rightarrow> ('b, irval) ir" where
  "ConstantFP_get w = bindS (getS cached_float) (\<lambda>cache.
     case find (\<lambda>v. f32_eq v w) cache of
       Some v \<Rightarrow> returnS (V_FP v)
     | None \<Rightarrow> thenS (modifyS (\<lambda>m. m\<lparr>cached_float := cache @ [w]\<rparr>)) 
         (returnS (if f32_is_nan w then V_NaN w (length cache) else V_FP w)))"

definition ConstantZero_get :: "ty \<Rightarrow> ('b, irval) ir" where
  "ConstantZero_get t = returnS (V_Zero t)"

section \<open>Users\<close>

definition set_operand_ir :: "irval \<Rightarrow> nat \<Rightarrow> irval \<Rightarrow> ('b, unit) ir" where
  "set_operand_ir u i v = bindS (getS graph) (\<lambda>g.
     bindS (liftR (set_operand u i v g)) (\<lambda>g'. modifyS (\<lambda>m. m\<lparr>graph := g'\<rparr>)))"

fun set_operands :: "irval \<Rightarrow> nat \<Rightarrow> irval list \<Rightarrow> ('b, unit) ir" where
  "set_operands u i [] = returnS ()"
| "set_operands u i (v # vs) = thenS (set_operand_ir u i v) (set_operands u (Suc i) vs)"

section \<open>Basic blocks\<close>

definition upd_block :: "nat \<Rightarrow> (basic_block \<Rightarrow> basic_block) \<Rightarrow> ('b, unit) ir" where
  "upd_block b f = modifyS (\<lambda>m. m\<lparr>blocks := (blocks m)[b := f (blocks m ! b)]\<rparr>)"

definition add_instruction :: "nat \<Rightarrow> nat \<Rightarrow> ('b, unit) ir" where
  "add_instruction b i = upd_block b (\<lambda>bb. bb\<lparr>instr_list := instr_list bb @ [i]\<rparr>)"

definition add_instr_begin :: "nat \<Rightarrow> nat \<Rightarrow> ('b, unit) ir" where
  "add_instr_begin b i = upd_block b (\<lambda>bb. bb\<lparr>instr_list := i # instr_list bb\<rparr>)"

definition add_pre_basic_block :: "nat \<Rightarrow> nat \<Rightarrow> ('b, unit) ir" where
  "add_pre_basic_block b p = upd_block b (\<lambda>bb. bb\<lparr>pre_bbs := pre_bbs bb @ [p]\<rparr>)"

definition add_succ_basic_block :: "nat \<Rightarrow> nat \<Rightarrow> ('b, unit) ir" where
  "add_succ_basic_block b s = upd_block b (\<lambda>bb. bb\<lparr>succ_bbs := succ_bbs bb @ [s]\<rparr>)"

text \<open>\<open>std::list::remove\<close> drops every occurrence.\<close>

definition remove_pre_basic_block :: "nat \<Rightarrow> nat \<Rightarrow> ('b, unit) ir" where
  "remove_pre_basic_block b p = upd_block b (\<lambda>bb. bb\<lparr>pre_bbs := removeAll p (pre_bbs bb)\<rparr>)"

definition remove_succ_basic_block :: "nat \<Rightarrow> nat \<Rightarrow> ('b, unit) ir" where
  "remove_succ_basic_block b s = upd_block b (\<lambda>bb. bb\<lparr>succ_bbs := removeAll s (succ_bbs bb)\<rparr>)"

definition is_terminator :: "OpID \<Rightarrow> bool" where
  "is_terminator op \<longleftrightarrow> op = I_ret \<or> op = I_br"

definition get_terminator :: "'b ir_module_scheme \<Rightarrow> nat \<Rightarrow> nat option" where
  "get_terminator m b =
     (let is = instr_list (blocks m ! b)
      in if is = [] then None
         else if is_terminator (i_op (instrs m ! last is)) then Some (last is) else None)"

definition upd_function :: "nat \<Rightarrow> (ir_function \<Rightarrow> ir_function) \<Rightarrow> ('b, unit) ir" where
  "upd_function f h = modifyS (\<lambda>m. m\<lparr>function_list := (function_list m)[f := h (function_list m ! f)]\<rparr>)"

definition add_basic_block :: "nat \<Rightarrow> nat \<Rightarrow> ('b, unit) ir" where
  "add_basic_block f b = upd_function f (\<lambda>fn. fn\<lparr>basic_blocks := basic_blocks fn @ [b]\<rparr>)"

text \<open>The constructor asserts that there is a parent.\<close>

definition BasicBlock_create :: "string \<Rightarrow> nat option \<Rightarrow> ('b, nat) ir" where
  "BasicBlock_create nm parent = (case parent of
     None \<Rightarrow> failS AssertFailed
   | Some f \<Rightarrow> bindS (getS (\<lambda>m. length (blocks m))) (\<lambda>b.
       thenS (modifyS (\<lambda>m. m\<lparr>blocks := blocks m @ [\<lparr>bb_name = (if nm = [] then [] else ''label_'') @ nm,
         bb_parent = f, pre_bbs = [], succ_bbs = [], instr_list = []\<rparr>]\<rparr>))
       (thenS (add_basic_block f b) (returnS b))))"

definition delete_instr :: "nat \<Rightarrow> nat \<Rightarrow> ('b, unit) ir" where
  "delete_instr b i =
     thenS (upd_block b (\<lambda>bb. bb\<lparr>instr_list := removeAll i (instr_list bb)\<rparr>))
     (bindS (getS graph) (\<lambda>g. bindS (liftR (remove_use_of_ops (V_Inst i) g)) (\<lambda>g'.
        modifyS (\<lambda>m. m\<lparr>graph := g'\<rparr>))))"

definition erase_instr :: "nat \<Rightarrow> nat \<Rightarrow> ('b, unit) ir" where
  "erase_instr b i =
     thenS (bindS (getS graph) (\<lambda>g. bindS (liftR (remove_use_of_ops (V_Inst i) g)) (\<lambda>g'.
        modifyS (\<lambda>m. m\<lparr>graph := g'\<rparr>))))
     (upd_block b (\<lambda>bb. bb\<lparr>instr_list := removeAll i (instr_list bb)\<rparr>))"

section \<open>Functions and global variables\<close>

definition Function_create :: "ty \<Rightarrow> string \<Rightarrow> ('b, nat) ir" where
  "Function_create t nm = bindS (getS (\<lambda>m. length (function_list m))) (\<lambda>f.
     thenS (modifyS (\<lambda>m. m\<lparr>function_list := function_list m @ [\<lparr>f_type = t, f_name = nm, basic_blocks = [],
       arg_names = map (\<lambda>_. []) (function_param_types t), seq_cnt = 0\<rparr>]\<rparr>))
     (returnS f))"

text \<open>\<open>Function::remove\<close>: the block leaves the function and the lists of its neighbours.\<close>

definition function_remove :: "nat \<Rightarrow> nat \<Rightarrow> ('b, unit) ir" where
  "function_remove f b =
     thenS (upd_function f (\<lambda>fn. fn\<lparr>basic_blocks := removeAll b (basic_blocks fn)\<rparr>))
     (bindS (getS (\<lambda>m. pre_bbs (blocks m ! b))) (\<lambda>pres.
      thenS (seqS (map (\<lambda>p. remove_succ_basic_block p b) pres))
     (bindS (getS (\<lambda>m. succ_bbs (blocks m ! b))) (\<lambda>succs.
      seqS (map (\<lambda>s. remove_pre_basic_block s b) succs)))))"

definition GlobalVariable_create :: "string \<Rightarrow> ty \<Rightarrow> bool \<Rightarrow> irval option \<Rightarrow> ('b, irval) ir" where
  "GlobalVariable_create nm t is_const init = bindS (getS (\<lambda>m. length (global_list m))) (\<lambda>g.
     thenS (modifyS (\<lambda>m. m\<lparr>
       global_list := global_list m @ [\<lparr>g_type = PointerTy t, g_name = nm, g_is_const = is_const, g_init = init\<rparr>],
       graph := new_user (V_Global g) (if init = None then 0 else 1) (graph m)\<rparr>))
     (thenS (case init of None \<Rightarrow> returnS () | Some v \<Rightarrow> set_operand_ir (V_Global g) 0 v)
     (returnS (V_Global g))))"

section \<open>Instructions\<close>

text \<open>
  The constructor of \<open>Instruction\<close> that inserts, followed by the
  \<open>set_operand\<close> calls of the subclass's constructor.
\<close>

definition new_instruction :: "ty \<Rightarrow> OpID \<Rightarrow> inst_data \<Rightarrow> nat \<Rightarrow> nat option \<Rightarrow> ('b, nat) ir" where
  "new_instruction t op x num_ops parent = bindS (getS (\<lambda>m. length (instrs m))) (\<lambda>i.
     thenS (modifyS (\<lambda>m. m\<lparr>
       instrs := instrs m @ [\<lparr>i_type = t, i_op = op, i_data = x, i_parent = parent, i_name = []\<rparr>],
       graph := new_user (V_Inst i) num_ops (graph m)\<rparr>))
     (returnS i))"

definition create_inst :: "ty \<Rightarrow> OpID \<Rightarrow> inst_data \<Rightarrow> irval list \<Rightarrow> nat option \<Rightarrow> ('b, irval) ir" where
  "create_inst t op x ops parent =
     bindS (new_instruction t op x (length ops) parent) (\<lambda>i.
     bindS (derefS parent) (\<lambda>b.
     thenS (add_instruction b i)
     (thenS (set_operands (V_Inst i) 0 ops)
     (returnS (V_Inst i)))))"

definition create_add :: "irval \<Rightarrow> irval \<Rightarrow> nat option \<Rightarrow> ('b, irval) ir" where
  "create_add v1 v2 bb = create_inst (IntegerTy 32) I_add X_None [v1, v2] bb"

definition create_sub :: "irval \<Rightarrow> irval \<Rightarrow> nat option \<Rightarrow> ('b, irval) ir" where
  "create_sub v1 v2 bb = create_inst (IntegerTy 32) I_sub X_None [v1, v2] bb"

definition create_mul :: "irval \<Rightarrow> irval \<Rightarrow> nat option \<Rightarrow> ('b, irval) ir" where
  "create_mul v1 v2 bb = create_inst (IntegerTy 32) I_mul X_None [v1, v2] bb"

definition create_sdiv :: "irval \<Rightarrow> irval \<Rightarrow> nat option \<Rightarrow> ('b, irval) ir" where
  "create_sdiv v1 v2 bb = create_inst (IntegerTy 32) I_sdiv X_None [v1, v2] bb"

definition create_fadd :: "irval \<Rightarrow> irval \<Rightarrow> nat option \<Rightarrow> ('b, irval) ir" where
  "create_fadd v1 v2 bb = create_inst FloatTy I_fadd X_None [v1, v2] bb"

definition create_fsub :: "irval \<Rightarrow> irval \<Rightarrow> nat option \<Rightarrow> ('b, irval) ir" where
  "create_fsub v1 v2 bb = create_inst FloatTy I_fsub X_None [v1, v2] bb"

definition create_fmul :: "irval \<Rightarrow> irval \<Rightarrow> nat option \<Rightarrow> ('b, irval) ir" where
  "create_fmul v1 v2 bb = create_inst FloatTy I_fmul X_None [v1, v2] bb"

definition create_fdiv :: "irval \<Rightarrow> irval \<Rightarrow> nat option \<Rightarrow> ('b, irval) ir" where
  "create_fdiv v1 v2 bb = create_inst FloatTy I_fdiv X_None [v1, v2] bb"

definition create_cmp :: "CmpOp \<Rightarrow> irval \<Rightarrow> irval \<Rightarrow> nat option \<Rightarrow> ('b, irval) ir" where
  "create_cmp op l r bb = create_inst (IntegerTy 1) I_cmp (X_Cmp op) [l, r] bb"

definition create_fcmp :: "CmpOp \<Rightarrow> irval \<Rightarrow> irval \<Rightarrow> nat option \<Rightarrow> ('b, irval) ir" where
  "create_fcmp op l r bb = create_inst (IntegerTy 1) I_fcmp (X_Cmp op) [l, r] bb"

text \<open>
  The assertion on the number of arguments is in the constructor's body, after the
  instruction was inserted; a failed assertion ends the run.
\<close>

definition CallInst_create :: "nat \<Rightarrow> irval list \<Rightarrow> nat option \<Rightarrow> ('b, irval) ir" where
  "CallInst_create f args bb = bindS (getS (\<lambda>m. f_type (function_list m ! f))) (\<lambda>t.
     thenS (assertS (length (function_param_types t) = length args))
     (create_inst (function_return_type t) I_call X_None (V_Fun f # args) bb))"

definition create_cond_br :: "irval \<Rightarrow> nat \<Rightarrow> nat \<Rightarrow> nat option \<Rightarrow> ('b, irval) ir" where
  "create_cond_br cond if_true if_false bb = bindS (derefS bb) (\<lambda>b.
     thenS (add_pre_basic_block if_true b)
     (thenS (add_pre_basic_block if_false b)
     (thenS (add_succ_basic_block b if_false)
     (thenS (add_succ_basic_block b if_true)
     (create_inst VoidTy I_br X_None [cond, V_Block if_true, V_Block if_false] bb)))))"

definition create_br :: "nat \<Rightarrow> nat option \<Rightarrow> ('b, irval) ir" where
  "create_br if_true bb = bindS (derefS bb) (\<lambda>b.
     thenS (add_pre_basic_block if_true b)
     (thenS (add_succ_basic_block b if_true)
     (create_inst VoidTy I_br X_None [V_Block if_true] bb)))"

definition create_ret :: "irval \<Rightarrow> nat option \<Rightarrow> ('b, irval) ir" where
  "create_ret v bb = create_inst VoidTy I_ret X_None [v] bb"

definition create_void_ret :: "nat option \<Rightarrow> ('b, irval) ir" where
  "create_void_ret bb = create_inst VoidTy I_ret X_None [] bb"

text \<open>
  \<open>GetElementPtrInst::get_element_type\<close>: the loop from the second index on, with
  the number of indices left.
\<close>

fun gep_walk :: "nat \<Rightarrow> ty \<Rightarrow> ty result" where
  "gep_walk 0 t = Inr t"
| "gep_walk (Suc k) (ArrayTy e n) =
     (if k > 0 \<and> \<not> is_array_type e then Inl AssertFailed else gep_walk k e)"
| "gep_walk (Suc k) t = Inl BadCast"

definition gep_element_type :: "'b ir_module_scheme \<Rightarrow> irval \<Rightarrow> irval list \<Rightarrow> ty result" where
  "gep_element_type m ptr idxs = (case get_pointer_element_type (get_type m ptr) of
     None \<Rightarrow> Inl NullDeref
   | Some t \<Rightarrow>
       if \<not> (is_array_type t \<or> is_integer_type t \<or> is_float_type t) then Inl AssertFailed
       else if is_array_type t then gep_walk (length idxs - 1) t
       else Inr t)"

definition create_gep :: "irval \<Rightarrow> irval list \<Rightarrow> nat option \<Rightarrow> ('b, irval) ir" where
  "create_gep ptr idxs bb = bindS (getS (\<lambda>m. gep_element_type m ptr idxs)) (\<lambda>r. bindS (liftR r) (\<lambda>t.
     create_inst (PointerTy t) I_getelementptr (X_Element t) (ptr # idxs) bb))"

definition create_store :: "irval \<Rightarrow> irval \<Rightarrow> nat option \<Rightarrow> ('b, irval) ir" where
  "create_store v ptr bb = create_inst VoidTy I_store X_None [v, ptr] bb"

definition LoadInst_create :: "ty \<Rightarrow> irval \<Rightarrow> nat option \<Rightarrow> ('b, irval) ir" where
  "LoadInst_create t ptr bb = bindS (getS (\<lambda>m. get_type m ptr)) (\<lambda>pt.
     thenS (assertS (is_pointer_type pt))
     (thenS (assertS (get_pointer_element_type pt = Some t))
     (create_inst t I_load X_None [ptr] bb)))"

definition create_alloca :: "ty \<Rightarrow> nat option \<Rightarrow> ('b, irval) ir" where
  "create_alloca t bb = create_inst (PointerTy t) I_alloca (X_Alloca t) [] bb"

definition create_zext :: "irval \<Rightarrow> ty \<Rightarrow> nat option \<Rightarrow> ('b, irval) ir" where
  "create_zext v t bb = create_inst t I_zext (X_Dest t) [v] bb"

definition create_fptosi :: "irval \<Rightarrow> ty \<Rightarrow> nat option \<Rightarrow> ('b, irval) ir" where
  "create_fptosi v t bb = create_inst t I_fptosi (X_Dest t) [v] bb"

definition create_sitofp :: "irval \<Rightarrow> ty \<Rightarrow> nat option \<Rightarrow> ('b, irval) ir" where
  "create_sitofp v t bb = create_inst t I_sitofp (X_Dest t) [v] bb"

text \<open>A phi is not inserted; its block is only its parent.\<close>

definition create_phi :: "ty \<Rightarrow> nat option \<Rightarrow> ('b, irval) ir" where
  "create_phi t bb = bindS (new_instruction t I_phi (X_LVal None) 0 bb) (\<lambda>i. returnS (V_Inst i))"

definition add_phi_pair_operand :: "irval \<Rightarrow> irval \<Rightarrow> irval \<Rightarrow> ('b, unit) ir" where
  "add_phi_pair_operand u v pre_bb =
     modifyS (\<lambda>m. m\<lparr>graph := add_operand u pre_bb (add_operand u v (graph m))\<rparr>)"

definition is_void_inst :: "instruction \<Rightarrow> bool" where
  "is_void_inst i \<longleftrightarrow> i_op i = I_ret \<or> i_op i = I_br \<or> i_op i = I_store \<or>
     (i_op i = I_call \<and> is_void_type (i_type i))"

end
