(* ===== verification/RunOpt.thy ===== *)
theory RunOpt
  imports Prelude
begin

text \<open>
  Runs of loops that may not end: \<open>None\<close> is a run that never returns, and a run
  that returns has a result, a failure or a value.
\<close>

type_synonym 'a run = "'a result option"

definition returnP :: "'a \<Rightarrow> 'a run" where
  "returnP x = Some (Inr x)"

definition failP :: "failure \<Rightarrow> 'a run" where
  "failP e = Some (Inl e)"

definition bindP :: "'a run \<Rightarrow> ('a \<Rightarrow> 'b run) \<Rightarrow> 'b run" where
  "bindP r f = Option.bind r (\<lambda>x. case x of Inl e \<Rightarrow> Some (Inl e) | Inr y \<Rightarrow> f y)"

lemma bindP_simps [simp]:
  "bindP (returnP x) f = f x"
  "bindP (failP e) f = failP e"
  "bindP (Some (Inr x)) f = f x"
  "bindP (Some (Inl e)) f = Some (Inl e)"
  "bindP None f = None"
  by (simp_all add: bindP_def returnP_def failP_def)

lemma returnP_eq [simp]: "returnP x = Some (Inr y) \<longleftrightarrow> x = y" "returnP x \<noteq> None" "failP e \<noteq> None"
    "failP e \<noteq> Some (Inr y)" "returnP x \<noteq> Some (Inl e)"
  by (simp_all add: returnP_def failP_def)

text \<open>A run that ends with a value.\<close>

definition returns :: "'a run \<Rightarrow> bool" where
  "returns r = (case r of Some (Inr _) \<Rightarrow> True | _ \<Rightarrow> False)"

lemma returns_iff: "returns r \<longleftrightarrow> (\<exists>x. r = Some (Inr x))"
  by (cases r; cases "the r") (simp_all add: returns_def)

lemma bindP_InrE [elim!]:
  assumes "bindP r f = Some (Inr y)"
  obtains x where "r = Some (Inr x)" and "f x = Some (Inr y)"
proof (cases r)
  case (Some x)
  with assms that show thesis by (cases x) auto
qed (use assms in simp)

lemma bindP_mono [partial_function_mono]:
  assumes B: "mono_option B" and C: "\<And>y. mono_option (\<lambda>f. C y f)"
  shows "mono_option (\<lambda>f. bindP (B f) (\<lambda>y. C y f))"
proof -
  have "mono_option (\<lambda>f. case x of Inl e \<Rightarrow> Some (Inl e) | Inr y \<Rightarrow> C y f)" for x
    using C by (cases x) (simp_all add: option.const_mono)
  then show ?thesis unfolding bindP_def by (intro bind_mono B)
qed

fun foldP :: "('a \<Rightarrow> 's \<Rightarrow> 's run) \<Rightarrow> 'a list \<Rightarrow> 's \<Rightarrow> 's run" where
  "foldP f [] s = returnP s"
| "foldP f (x # xs) s = bindP (f x s) (foldP f xs)"

text \<open>A run over a list never returns when it always gets to an element where it hangs.\<close>

lemma foldP_hangs:
  assumes "x \<in> set xs" and "P s" and "\<And>s. P s \<Longrightarrow> f x s = None"
    and "\<And>y s r. y \<in> set xs \<Longrightarrow> P s \<Longrightarrow> f y s = Some r \<Longrightarrow> \<exists>s'. r = Inr s' \<and> P s'"
  shows "foldP f xs s = None"
  using assms(1,2,4)
proof (induction xs arbitrary: s)
  case (Cons y xs)
  show ?case
  proof (cases "f y s")
    case (Some r)
    with Cons.prems obtain s' where s': "r = Inr s'" "P s'" by (meson list.set_intros(1))
    have "x \<noteq> y" using Some Cons.prems(2) assms(3) by auto
    with Cons.prems(1) have x: "x \<in> set xs" by simp
    have "foldP f xs s' = None" by (rule Cons.IH [OF x s'(2)]) (use Cons.prems(3) in auto)
    with Some s' show ?thesis by simp
  qed simp
qed simp

lemma foldP_returns:
  assumes "\<And>x s. x \<in> set xs \<Longrightarrow> P s \<Longrightarrow> \<exists>s'. f x s = Some (Inr s') \<and> R {x} s s' \<and> P s'" and "P s"
    and "\<And>s. R {} s s" and "\<And>A B s s' s''. R A s s' \<Longrightarrow> R B s' s'' \<Longrightarrow> R (A \<union> B) s s''"
  shows "\<exists>s'. foldP f xs s = Some (Inr s') \<and> R (set xs) s s' \<and> P s'"
  using assms(1,2)
proof (induction xs arbitrary: s)
  case Nil
  then show ?case using assms(3) by (simp add: returnP_def)
next
  case (Cons x xs)
  then obtain s1 where s1: "f x s = Some (Inr s1)" "R {x} s s1" "P s1" by (meson list.set_intros(1))
  from Cons.IH [OF _ s1(3)] Cons.prems(1) obtain s2 where "foldP f xs s1 = Some (Inr s2)" "R (set xs) s1 s2" "P s2" by auto
  with s1 assms(4) [OF s1(2)] show ?case by fastforce
qed

end
