(* ===== verification/Dominators.thy ===== *)
theory Dominators
  imports Ir RunOpt
begin

text \<open>
  The pass \<open>Dominators\<close> of \<open>optimization/Dominators.cpp\<close>: a depth-first
  numbering, immediate dominators by iterated intersection along the tree built so far,
  dominance frontiers and the successors in the dominator tree. Sets of blocks are lists
  in the order of the addresses, which here is the order in which the blocks were made.
\<close>

section \<open>State\<close>

text \<open>
  A null pointer is a key of the last two maps where the code uses it as one. Reading a
  number that was never stored gives 0.
\<close>

record dominators =
  reverse_post_order :: "nat list"
  post_order_id :: "nat \<Rightarrow> nat option"
  idom :: "nat \<Rightarrow> nat option"
  dom_frontier :: "nat option \<Rightarrow> nat list"
  dom_tree_succ_blocks :: "nat option \<Rightarrow> nat list"

definition new_dominators :: dominators where
  "new_dominators = \<lparr>reverse_post_order = [], post_order_id = Map.empty, idom = Map.empty,
     dom_frontier = (\<lambda>_. []), dom_tree_succ_blocks = (\<lambda>_. [])\<rparr>"

definition po :: "dominators \<Rightarrow> nat \<Rightarrow> nat" where
  "po d b = (case post_order_id d b of Some n \<Rightarrow> n | None \<Rightarrow> 0)"

definition set_idom :: "nat \<Rightarrow> nat option \<Rightarrow> dominators \<Rightarrow> dominators" where
  "set_idom b a d = d\<lparr>idom := (idom d)(b := a)\<rparr>"

definition set_insert :: "nat \<Rightarrow> nat list \<Rightarrow> nat list" where
  "set_insert x xs = (if x \<in> set xs then xs else insort x xs)"

definition add_dominance_frontier :: "nat option \<Rightarrow> nat \<Rightarrow> dominators \<Rightarrow> dominators" where
  "add_dominance_frontier b c d = d\<lparr>dom_frontier := (dom_frontier d)(b := set_insert c (dom_frontier d b))\<rparr>"

definition add_dom_tree_succ_block :: "nat option \<Rightarrow> nat \<Rightarrow> dominators \<Rightarrow> dominators" where
  "add_dom_tree_succ_block b c d =
     d\<lparr>dom_tree_succ_blocks := (dom_tree_succ_blocks d)(b := set_insert c (dom_tree_succ_blocks d b))\<rparr>"

section \<open>The depth-first numbering\<close>

definition finish_block :: "nat \<Rightarrow> dominators \<Rightarrow> dominators" where
  "finish_block b d = d\<lparr>post_order_id := (post_order_id d)(b \<mapsto> length (reverse_post_order d)),
     reverse_post_order := reverse_post_order d @ [b]\<rparr>"

text \<open>
  The loop over the successors with the recursive call in it: a block that was not visited
  is visited, which is the loop over its own successors, and then gets its number.
\<close>

partial_function (option) post_order_visits ::
  "(nat \<Rightarrow> nat list) \<Rightarrow> nat list \<Rightarrow> nat list \<Rightarrow> dominators \<Rightarrow> (nat list \<times> dominators) option" where
  "post_order_visits succ bs visited d = (case bs of
     [] \<Rightarrow> Some (visited, d)
   | b # rest \<Rightarrow>
       if b \<in> set visited then post_order_visits succ rest visited d
       else Option.bind (post_order_visits succ (succ b) (b # visited) d) (\<lambda>r.
            post_order_visits succ rest (fst r) (finish_block b (snd r))))"

definition create_reverse_post_order :: "(nat \<Rightarrow> nat list) \<Rightarrow> nat \<Rightarrow> dominators \<Rightarrow> dominators run" where
  "create_reverse_post_order succ entry d =
     (case post_order_visits succ [entry] [] (d\<lparr>reverse_post_order := [], post_order_id := Map.empty\<rparr>) of
        None \<Rightarrow> None
      | Some (_, d') \<Rightarrow> returnP (d'\<lparr>reverse_post_order := rev (reverse_post_order d')\<rparr>))"

section \<open>Immediate dominators\<close>

text \<open>One of the inner loops of \<open>intersect\<close>.\<close>

partial_function (option) climb :: "dominators \<Rightarrow> nat \<Rightarrow> nat \<Rightarrow> nat run" where
  "climb d b1 b2 =
     (if po d b1 < po d b2
      then (case idom d b1 of None \<Rightarrow> failP AssertFailed | Some b \<Rightarrow> climb d b b2)
      else returnP b1)"

partial_function (option) intersect :: "dominators \<Rightarrow> nat \<Rightarrow> nat \<Rightarrow> nat run" where
  "intersect d b1 b2 =
     (if b1 = b2 then returnP b1
      else bindP (climb d b1 b2) (\<lambda>b1. bindP (climb d b2 b1) (\<lambda>b2. intersect d b1 b2)))"

fun meet_preds :: "dominators \<Rightarrow> nat \<Rightarrow> nat list \<Rightarrow> nat \<Rightarrow> nat run" where
  "meet_preds d pred [] new_idom = returnP new_idom"
| "meet_preds d pred (p # ps) new_idom =
     (if p = pred \<or> idom d p = None then meet_preds d pred ps new_idom
      else bindP (intersect d p new_idom) (meet_preds d pred ps))"

fun idom_sweep :: "(nat \<Rightarrow> nat list) \<Rightarrow> nat \<Rightarrow> nat list \<Rightarrow> bool \<Rightarrow> dominators \<Rightarrow> (bool \<times> dominators) run" where
  "idom_sweep pred root [] changed d = returnP (changed, d)"
| "idom_sweep pred root (bb # bbs) changed d =
     (if bb = root then idom_sweep pred root bbs changed d
      else case find (\<lambda>p. idom d p \<noteq> None) (pred bb) of
             None \<Rightarrow> failP AssertFailed
           | Some p \<Rightarrow> bindP (meet_preds d p (pred bb) p) (\<lambda>new_idom.
               if idom d bb \<noteq> Some new_idom
               then idom_sweep pred root bbs True (set_idom bb (Some new_idom) d)
               else idom_sweep pred root bbs changed d))"

partial_function (option) idom_loop :: "(nat \<Rightarrow> nat list) \<Rightarrow> nat \<Rightarrow> dominators \<Rightarrow> dominators run" where
  "idom_loop pred root d = bindP (idom_sweep pred root (reverse_post_order d) False d) (\<lambda>r.
     if fst r then idom_loop pred root (snd r) else returnP (snd r))"

definition create_idom :: "(nat \<Rightarrow> nat list) \<Rightarrow> nat list \<Rightarrow> nat \<Rightarrow> dominators \<Rightarrow> dominators run" where
  "create_idom pred bbs root d =
     idom_loop pred root (set_idom root (Some root) (fold (\<lambda>b. set_idom b None) bbs d))"

section \<open>Dominance frontiers and the dominator tree\<close>

text \<open>\<open>runner\<close> becomes null at a block without immediate dominator; the one of null is null.\<close>

partial_function (option) frontier_walk ::
  "nat option \<Rightarrow> nat \<Rightarrow> nat option \<Rightarrow> dominators \<Rightarrow> dominators run" where
  "frontier_walk stop bb runner d =
     (if runner \<noteq> stop
      then frontier_walk stop bb (Option.bind runner (idom d)) (add_dominance_frontier runner bb d)
      else returnP d)"

definition frontier_block :: "(nat \<Rightarrow> nat list) \<Rightarrow> nat \<Rightarrow> dominators \<Rightarrow> dominators run" where
  "frontier_block pred bb d =
     (if length (pred bb) \<ge> 2
      then foldP (\<lambda>p d. frontier_walk (idom d bb) bb (Some p) d) (pred bb) d
      else returnP d)"

definition create_dominance_frontier :: "(nat \<Rightarrow> nat list) \<Rightarrow> nat list \<Rightarrow> dominators \<Rightarrow> dominators run" where
  "create_dominance_frontier pred bbs d = foldP (frontier_block pred) bbs d"

definition create_dom_tree_succ :: "nat list \<Rightarrow> dominators \<Rightarrow> dominators" where
  "create_dom_tree_succ bbs d = fold (\<lambda>bb d.
     if idom d bb \<noteq> Some bb then add_dom_tree_succ_block (idom d bb) bb d else d) bbs d"

definition dominators_function :: "'b ir_module_scheme \<Rightarrow> nat \<Rightarrow> dominators \<Rightarrow> dominators run" where
  "dominators_function m f d =
     (let bbs = basic_blocks (function_list m ! f);
          succ = (\<lambda>b. succ_bbs (blocks m ! b));
          pred = (\<lambda>b. pre_bbs (blocks m ! b))
      in if bbs = [] then returnP d
         else bindP (create_reverse_post_order succ (hd bbs) d) (\<lambda>d.
              bindP (create_idom pred bbs (hd bbs) d) (\<lambda>d.
              bindP (create_dominance_frontier pred bbs d) (\<lambda>d.
              returnP (create_dom_tree_succ bbs d)))))"

definition dominators_run :: "'b ir_module_scheme \<Rightarrow> dominators run" where
  "dominators_run m = foldP (dominators_function m) [0..<length (function_list m)] new_dominators"

declare post_order_visits.simps [code] climb.simps [code] intersect.simps [code] idom_loop.simps [code]
  frontier_walk.simps [code]

end
