(* ===== verification/Mem2Reg.thy ===== *)
theory Mem2Reg
  imports Dominators
begin

text \<open>
  The pass \<open>Mem2Reg\<close> of \<open>optimization/Mem2Reg.cpp\<close>: phis at the dominance
  frontiers of the blocks that store to a variable, renaming along the dominator tree, and
  the removal of the scalar variables. A loop that may not end is a run; the stack of
  values is the file's static map and lives through the whole pass.
\<close>

section \<open>Variables\<close>

text \<open>
  The negation of \<open>IS_GLOBAL_VARIABLE\<close> and \<open>IS_GEP_INSTR\<close>; the casts of a
  null pointer are null.
\<close>

fun is_variable :: "'b ir_module_scheme \<Rightarrow> irval option \<Rightarrow> bool" where
  "is_variable m (Some (V_Global _)) = False"
| "is_variable m (Some (V_Inst i)) = (i_op (instrs m ! i) \<noteq> I_getelementptr)"
| "is_variable m _ = True"

definition store_rval :: "'b ir_module_scheme \<Rightarrow> nat \<Rightarrow> irval option result" where
  "store_rval m i = get_operand (V_Inst i) 0 (graph m)"
definition store_lval :: "'b ir_module_scheme \<Rightarrow> nat \<Rightarrow> irval option result" where
  "store_lval m i = get_operand (V_Inst i) 1 (graph m)"
definition load_lval :: "'b ir_module_scheme \<Rightarrow> nat \<Rightarrow> irval option result" where
  "load_lval m i = get_operand (V_Inst i) 0 (graph m)"

definition get_lval :: "'b ir_module_scheme \<Rightarrow> nat \<Rightarrow> irval option" where
  "get_lval m i = (case i_data (instrs m ! i) of X_LVal v \<Rightarrow> v | _ \<Rightarrow> None)"
definition set_lval :: "nat \<Rightarrow> irval option \<Rightarrow> ('b, unit) ir" where
  "set_lval i v = modifyS (\<lambda>m. m\<lparr>instrs := (instrs m)[i := (instrs m ! i)\<lparr>i_data := X_LVal v\<rparr>]\<rparr>)"

definition is_op :: "OpID \<Rightarrow> 'b ir_module_scheme \<Rightarrow> nat \<Rightarrow> bool" where
  "is_op op m i \<longleftrightarrow> i < length (instrs m) \<and> i_op (instrs m ! i) = op"

section \<open>Placing phis\<close>

text \<open>
  The two sets of the first step. A set of blocks has the order in which the blocks were
  made; the variables get the order of their addresses when they are read.
\<close>

record live_vars =
  global_live_var_name :: "irval option list"
  live_var_2blocks :: "irval option \<Rightarrow> nat list"

definition new_live_vars :: live_vars where
  "new_live_vars = \<lparr>global_live_var_name = [], live_var_2blocks = (\<lambda>_. [])\<rparr>"

definition live_store :: "irval option \<Rightarrow> nat \<Rightarrow> live_vars \<Rightarrow> live_vars" where
  "live_store v b lv = \<lparr>global_live_var_name =
       (if v \<in> set (global_live_var_name lv) then global_live_var_name lv else global_live_var_name lv @ [v]),
     live_var_2blocks = (live_var_2blocks lv)(v := set_insert b (live_var_2blocks lv v))\<rparr>"

fun live_block :: "'b ir_module_scheme \<Rightarrow> nat \<Rightarrow> nat list \<Rightarrow> live_vars \<Rightarrow> live_vars result" where
  "live_block m b [] lv = Inr lv"
| "live_block m b (i # is) lv =
     (if is_op I_store m i
      then bindR (store_rval m i) (\<lambda>_. bindR (store_lval m i) (\<lambda>v.
           live_block m b is (if is_variable m v then live_store v b lv else lv)))
      else live_block m b is lv)"

fun live_blocks :: "'b ir_module_scheme \<Rightarrow> nat list \<Rightarrow> live_vars \<Rightarrow> live_vars result" where
  "live_blocks m [] lv = Inr lv"
| "live_blocks m (b # bs) lv = bindR (live_block m b (instr_list (blocks m ! b)) lv) (live_blocks m bs)"

text \<open>A phi for a variable that is null or no pointer would have no type.\<close>

definition insert_phi :: "irval option \<Rightarrow> nat \<Rightarrow> ('b, unit) ir" where
  "insert_phi var b = bindS (derefS var) (\<lambda>v. bindS (getS (\<lambda>m. get_pointer_element_type (get_type m v))) (\<lambda>t.
     bindS (derefS t) (\<lambda>t. bindS (getS (\<lambda>m. length (instrs m))) (\<lambda>i. bindS (create_phi t (Some b)) (\<lambda>_.
     thenS (set_lval i var) (add_instr_begin b i))))))"

text \<open>
  The state of the loops for one variable: the part of \<open>work_list\<close> that is still to
  visit, the blocks that have a phi for the variable, and the module.
\<close>

type_synonym 'b phi_state = "nat list \<times> nat list \<times> 'b ir_module_scheme"

fun phi_frontier :: "irval option \<Rightarrow> nat list \<Rightarrow> 'b phi_state \<Rightarrow> 'b phi_state result" where
  "phi_frontier var [] s = Inr s"
| "phi_frontier var (b # bs) (work, has_phi, m) =
     (if b \<in> set has_phi then phi_frontier var bs (work, has_phi, m)
      else bindR (insert_phi var b m) (\<lambda>(_, m). phi_frontier var bs (work @ [b], has_phi @ [b], m)))"

partial_function (option) phi_loop ::
  "(nat option \<Rightarrow> nat list) \<Rightarrow> irval option \<Rightarrow> 'b phi_state \<Rightarrow> 'b phi_state run" where
  "phi_loop df var s = (case fst s of
     [] \<Rightarrow> returnP s
   | b # rest \<Rightarrow> bindP (Some (phi_frontier var (df (Some b)) (rest, snd s))) (phi_loop df var))"

definition generate_phi :: "(irval option \<Rightarrow> nat) \<Rightarrow> (nat option \<Rightarrow> nat list) \<Rightarrow> nat \<Rightarrow> 'b ir_module_scheme \<Rightarrow>
    'b ir_module_scheme run" where
  "generate_phi address df f m =
     bindP (Some (live_blocks m (basic_blocks (function_list m ! f)) new_live_vars)) (\<lambda>lv.
     foldP (\<lambda>var m. bindP (phi_loop df var (live_var_2blocks lv var, [], m)) (\<lambda>(_, _, m). returnP m))
       (sort_key address (global_live_var_name lv)) m)"

section \<open>Renaming\<close>

type_synonym val_stack = "irval option \<Rightarrow> irval option list option"

text \<open>\<open>back\<close> and \<open>pop_back\<close> of an empty vector are undefined.\<close>

definition push_val :: "irval option \<Rightarrow> irval option \<Rightarrow> val_stack \<Rightarrow> val_stack" where
  "push_val l v st = st(l \<mapsto> (case st l of None \<Rightarrow> [] | Some vs \<Rightarrow> vs) @ [v])"

definition top_val :: "irval option \<Rightarrow> val_stack \<Rightarrow> irval option result" where
  "top_val l st = (case st l of Some (v # vs) \<Rightarrow> Inr (last (v # vs)) | _ \<Rightarrow> Inl BadIndex)"

definition pop_val :: "irval option \<Rightarrow> val_stack \<Rightarrow> val_stack result" where
  "pop_val l st = (case st l of Some (v # vs) \<Rightarrow> Inr (st(l \<mapsto> butlast (v # vs))) | _ \<Rightarrow> Inl BadIndex)"

fun push_phis :: "'b ir_module_scheme \<Rightarrow> nat list \<Rightarrow> val_stack \<Rightarrow> val_stack" where
  "push_phis m [] st = st"
| "push_phis m (i # is) st =
     push_phis m is (if is_op I_phi m i then push_val (get_lval m i) (Some (V_Inst i)) st else st)"

text \<open>\<open>instr->replace_all_use_with (v)\<close>, which dereferences \<open>v\<close> when there is a use.\<close>

definition replace_load :: "nat \<Rightarrow> irval option \<Rightarrow> 'b ir_module_scheme \<Rightarrow> 'b ir_module_scheme run" where
  "replace_load i v m = (case v of
     None \<Rightarrow> if use_list (graph m) (V_Inst i) = [] then returnP m else failP NullDeref
   | Some w \<Rightarrow> bindP (replace_all_use_with (V_Inst i) w (graph m)) (\<lambda>g. returnP (m\<lparr>graph := g\<rparr>)))"

primrec rename_instrs :: "nat list \<Rightarrow> nat list \<Rightarrow> val_stack \<Rightarrow> 'b ir_module_scheme \<Rightarrow>
    (nat list \<times> val_stack \<times> 'b ir_module_scheme) run" where
  "rename_instrs [] wait st m = returnP (wait, st, m)"
| "rename_instrs (i # is) wait st m =
     (if is_op I_load m i
      then bindP (Some (load_lval m i)) (\<lambda>l.
           if is_variable m l \<and> st l \<noteq> None
           then bindP (Some (top_val l st)) (\<lambda>v. bindP (replace_load i v m) (rename_instrs is (wait @ [i]) st))
           else rename_instrs is wait st m)
      else if is_op I_store m i
      then bindP (Some (store_lval m i)) (\<lambda>l. bindP (Some (store_rval m i)) (\<lambda>r.
           if is_variable m l then rename_instrs is (wait @ [i]) (push_val l r st) m
           else rename_instrs is wait st m))
      else rename_instrs is wait st m)"

text \<open>
  The assertion that the stack is not empty, and the pair for the phi. A null value is
  dereferenced by \<open>add_operand\<close>.
\<close>

primrec fill_block :: "nat \<Rightarrow> nat list \<Rightarrow> val_stack \<Rightarrow> 'b ir_module_scheme \<Rightarrow> 'b ir_module_scheme result" where
  "fill_block b [] st m = Inr m"
| "fill_block b (i # is) st m =
     (if is_op I_phi m i \<and> st (get_lval m i) \<noteq> None
      then if st (get_lval m i) = Some [] then Inl AssertFailed
           else bindR (top_val (get_lval m i) st) (\<lambda>v.
                bindR (bindS (derefS v) (\<lambda>w. add_phi_pair_operand (V_Inst i) w (V_Block b)) m) (\<lambda>(_, m).
                fill_block b is st m))
      else fill_block b is st m)"

primrec fill_phis :: "nat \<Rightarrow> nat list \<Rightarrow> val_stack \<Rightarrow> 'b ir_module_scheme \<Rightarrow> 'b ir_module_scheme result" where
  "fill_phis b [] st m = Inr m"
| "fill_phis b (s # ss) st m = bindR (fill_block b (instr_list (blocks m ! s)) st m) (fill_phis b ss st)"

primrec pop_values :: "'b ir_module_scheme \<Rightarrow> nat list \<Rightarrow> val_stack \<Rightarrow> val_stack result" where
  "pop_values m [] st = Inr st"
| "pop_values m (i # is) st =
     (if is_op I_store m i
      then bindR (store_lval m i) (\<lambda>l. bindR (if is_variable m l then pop_val l st else Inr st) (pop_values m is))
      else if is_op I_phi m i
      then bindR (if st (get_lval m i) \<noteq> None then pop_val (get_lval m i) st else Inr st) (pop_values m is)
      else pop_values m is st)"

lemma foldP_mono [partial_function_mono]:
  assumes "\<And>x s. mono_option (\<lambda>f. B f x s)"
  shows "mono_option (\<lambda>f. foldP (B f) xs s)"
proof (induction xs arbitrary: s)
  case (Cons x xs)
  show ?case unfolding foldP.simps by (rule bindP_mono [OF assms]) (rule Cons.IH)
qed (simp add: option.const_mono)

text \<open>The parts of \<open>re_name\<close> before and after the recursion.\<close>

definition enter_block :: "nat \<Rightarrow> val_stack \<times> 'b ir_module_scheme \<Rightarrow> (nat list \<times> val_stack \<times> 'b ir_module_scheme) run" where
  "enter_block b s =
     (let is = instr_list (blocks (snd s) ! b) in
      bindP (rename_instrs is [] (push_phis (snd s) is (fst s)) (snd s)) (\<lambda>(wait, st, m).
      bindP (Some (fill_phis b (succ_bbs (blocks m ! b)) st m)) (\<lambda>m. returnP (wait, st, m))))"

definition leave_block :: "nat \<Rightarrow> nat list \<Rightarrow> val_stack \<times> 'b ir_module_scheme \<Rightarrow> (val_stack \<times> 'b ir_module_scheme) run" where
  "leave_block b wait s =
     bindP (Some (pop_values (snd s) (instr_list (blocks (snd s) ! b)) (fst s))) (\<lambda>st.
     bindP (Some (seqS (map (erase_instr b) wait) (snd s))) (\<lambda>(_, m). returnP (st, m)))"

partial_function (option) re_name ::
  "(nat option \<Rightarrow> nat list) \<Rightarrow> nat \<Rightarrow> val_stack \<times> 'b ir_module_scheme \<Rightarrow> (val_stack \<times> 'b ir_module_scheme) run" where
  "re_name tree b s = bindP (enter_block b s) (\<lambda>r.
     bindP (foldP (\<lambda>c t. re_name tree c t) (tree (Some b)) (snd r)) (\<lambda>t. leave_block b (fst r) t))"

section \<open>Removing the variables\<close>

definition scalar_alloca :: "'b ir_module_scheme \<Rightarrow> nat \<Rightarrow> bool" where
  "scalar_alloca m i \<longleftrightarrow> is_op I_alloca m i \<and> (case get_pointer_element_type (i_type (instrs m ! i)) of
     Some t \<Rightarrow> is_integer_type t \<or> is_float_type t | None \<Rightarrow> False)"

definition remove_alloca_block :: "nat \<Rightarrow> ('b, unit) ir" where
  "remove_alloca_block b = bindS (getS (\<lambda>m. filter (scalar_alloca m) (instr_list (blocks m ! b)))) (\<lambda>wait.
     seqS (map (erase_instr b) wait))"

definition remove_alloca :: "nat \<Rightarrow> ('b, unit) ir" where
  "remove_alloca f = bindS (getS (\<lambda>m. basic_blocks (function_list m ! f))) (\<lambda>bbs. seqS (map remove_alloca_block bbs))"

section \<open>The pass\<close>

definition mem2reg_function :: "(irval option \<Rightarrow> nat) \<Rightarrow> dominators \<Rightarrow> nat \<Rightarrow> val_stack \<times> 'b ir_module_scheme \<Rightarrow>
    (val_stack \<times> 'b ir_module_scheme) run" where
  "mem2reg_function address d f s =
     bindP (if basic_blocks (function_list (snd s) ! f) \<noteq> []
            then bindP (generate_phi address (dom_frontier d) f (snd s)) (\<lambda>m.
                 re_name (dom_tree_succ_blocks d) (hd (basic_blocks (function_list m ! f))) (fst s, m))
            else returnP s) (\<lambda>(st, m).
     bindP (Some (remove_alloca f m)) (\<lambda>(_, m). returnP (st, m)))"

definition mem2reg_run :: "(irval option \<Rightarrow> nat) \<Rightarrow> 'b ir_module_scheme \<Rightarrow> 'b ir_module_scheme run" where
  "mem2reg_run address m = bindP (dominators_run m) (\<lambda>d.
     bindP (foldP (mem2reg_function address d) [0..<length (function_list m)] (Map.empty, m)) (\<lambda>(_, m). returnP m))"

declare phi_loop.simps [code] re_name.simps [code]

end
