(* ===== verification/DomGraph.thy ===== *)
theory DomGraph
  imports Dominators
begin

text \<open>
  Walks from the entry of a function, dominance, and what the depth-first numbering gives:
  exactly the reachable blocks, each but the entry with a predecessor of a higher number.
\<close>

section \<open>Walks and dominance\<close>

inductive walk :: "(nat \<Rightarrow> nat list) \<Rightarrow> nat \<Rightarrow> nat list \<Rightarrow> nat \<Rightarrow> bool" for succ e where
  start: "walk succ e [e] e"
| step: "walk succ e \<pi> a \<Longrightarrow> b \<in> set (succ a) \<Longrightarrow> walk succ e (\<pi> @ [b]) b"

inductive_cases walkE: "walk succ e \<pi> b"

definition reach :: "(nat \<Rightarrow> nat list) \<Rightarrow> nat \<Rightarrow> nat \<Rightarrow> bool" where
  "reach succ e b \<longleftrightarrow> (\<exists>\<pi>. walk succ e \<pi> b)"

definition dominates :: "(nat \<Rightarrow> nat list) \<Rightarrow> nat \<Rightarrow> nat \<Rightarrow> nat \<Rightarrow> bool" where
  "dominates succ e d b \<longleftrightarrow> (\<forall>\<pi>. walk succ e \<pi> b \<longrightarrow> d \<in> set \<pi>)"

definition immediately_dominates :: "(nat \<Rightarrow> nat list) \<Rightarrow> nat \<Rightarrow> nat \<Rightarrow> nat \<Rightarrow> bool" where
  "immediately_dominates succ e a b \<longleftrightarrow> a \<noteq> b \<and> dominates succ e a b \<and>
     (\<forall>d. dominates succ e d b \<and> d \<noteq> b \<longrightarrow> dominates succ e d a)"

definition flow_graph :: "(nat \<Rightarrow> nat list) \<Rightarrow> (nat \<Rightarrow> nat list) \<Rightarrow> nat list \<Rightarrow> nat \<Rightarrow> bool" where
  "flow_graph succ pred V e \<longleftrightarrow> e \<in> set V \<and>
     (\<forall>a \<in> set V. set (succ a) \<subseteq> set V \<and> set (pred a) \<subseteq> set V) \<and>
     (\<forall>a \<in> set V. \<forall>b \<in> set V. b \<in> set (succ a) \<longleftrightarrow> a \<in> set (pred b))"

lemma reach_entry [simp]: "reach succ e e"
  unfolding reach_def by (blast intro: walk.start)

lemma reach_step: "reach succ e a \<Longrightarrow> b \<in> set (succ a) \<Longrightarrow> reach succ e b"
  unfolding reach_def by (blast intro: walk.step)

lemma reach_cases:
  assumes "reach succ e b"
  shows "b = e \<or> (\<exists>a. reach succ e a \<and> b \<in> set (succ a))"
proof -
  from assms obtain \<pi> where "walk succ e \<pi> b" by (auto simp: reach_def)
  then show ?thesis by (cases rule: walk.cases) (auto simp: reach_def)
qed

lemma walk_ends: "walk succ e \<pi> b \<Longrightarrow> e \<in> set \<pi> \<and> b \<in> set \<pi>"
  by (induction rule: walk.induct) auto

lemma walk_prefix: "walk succ e \<pi> b \<Longrightarrow> d \<in> set \<pi> \<Longrightarrow> \<exists>\<rho>. walk succ e \<rho> d \<and> set \<rho> \<subseteq> set \<pi>"
proof (induction rule: walk.induct)
  case start
  then show ?case by (auto intro: walk.start)
next
  case (step \<pi> a b)
  show ?case
  proof (cases "d \<in> set \<pi>")
    case True
    with step.IH show ?thesis by auto
  next
    case False
    with step.prems have "d = b" by simp
    with walk.step [OF step.hyps] show ?thesis by blast
  qed
qed

lemma reach_in_graph:
  assumes "flow_graph succ pred V e" and "reach succ e b"
  shows "b \<in> set V"
proof -
  from assms(2) obtain \<pi> where "walk succ e \<pi> b" by (auto simp: reach_def)
  then show ?thesis using assms(1) by (induction rule: walk.induct) (auto simp: flow_graph_def)
qed

lemma graph_edge:
  assumes "flow_graph succ pred V e" and "b \<in> set V"
  shows "p \<in> set (pred b) \<longleftrightarrow> p \<in> set V \<and> b \<in> set (succ p)"
  using assms unfolding flow_graph_def by blast

lemma dominates_refl [simp]: "dominates succ e b b"
  using walk_ends by (auto simp: dominates_def)

lemma dominates_pred:
  assumes "dominates succ e d b" and "d \<noteq> b" and "b \<in> set (succ a)"
  shows "dominates succ e d a"
  using assms walk.step by (fastforce simp: dominates_def)

lemma dominates_step:
  assumes "b \<noteq> e" and "\<And>a. reach succ e a \<Longrightarrow> b \<in> set (succ a) \<Longrightarrow> dominates succ e d a"
  shows "dominates succ e d b"
  using assms unfolding dominates_def reach_def by (fastforce elim: walkE)

text \<open>A walk through nodes that are not \<open>d\<close> carries a dominator back to where it starts.\<close>

lemma dominates_back:
  assumes "(a, b) \<in> {(x, y). y \<in> set (succ x) \<and> y \<noteq> d}\<^sup>*" and "dominates succ e d b"
  shows "dominates succ e d a"
  using assms by (induction rule: converse_rtrancl_induct) (auto dest: dominates_pred)

section \<open>The numbering\<close>

definition later :: "'a list \<Rightarrow> 'a \<Rightarrow> 'a \<Rightarrow> bool" where
  "later xs a b \<longleftrightarrow> (\<exists>us vs ws. xs = us @ a # vs @ b # ws)"

lemma later_append: "later xs a b \<Longrightarrow> later (us @ xs @ vs) a b"
  unfolding later_def by (metis append.assoc append_Cons)

lemma later_snoc: "a \<in> set xs \<Longrightarrow> later (xs @ b # ys) a b"
  unfolding later_def by (metis append.assoc append_Cons split_list)

lemma later_in: "later xs a b \<Longrightarrow> a \<in> set xs \<and> b \<in> set xs"
  by (auto simp: later_def)

definition numbered :: "dominators \<Rightarrow> bool" where
  "numbered d \<longleftrightarrow> distinct (reverse_post_order d) \<and>
     (\<forall>i < length (reverse_post_order d). post_order_id d (reverse_post_order d ! i) = Some i)"

lemma numbered_later:
  assumes "numbered d" and "later (reverse_post_order d) a b"
  shows "po d a < po d b"
proof -
  from assms(2) obtain us vs ws where eq: "reverse_post_order d = us @ a # vs @ b # ws" by (auto simp: later_def)
  then have "reverse_post_order d ! length us = a" "reverse_post_order d ! (length us + Suc (length vs)) = b"
    by (simp_all add: nth_append)
  moreover have "length us + Suc (length vs) < length (reverse_post_order d)" by (simp add: eq)
  ultimately have "post_order_id d a = Some (length us)" "post_order_id d b = Some (length us + Suc (length vs))"
    using assms(1) unfolding numbered_def by (metis add_lessD1, metis)
  then show ?thesis by (simp add: po_def)
qed

lemma numbered_finish:
  assumes "numbered d" and "b \<notin> set (reverse_post_order d)"
  shows "numbered (finish_block b d)"
proof -
  have "reverse_post_order d ! i \<noteq> b" if "i < length (reverse_post_order d)" for i
    using that assms(2) nth_mem by metis
  then show ?thesis
    using assms by (auto simp: numbered_def finish_block_def nth_append less_Suc_eq)
qed

definition visited_from :: "(nat \<Rightarrow> nat list) \<Rightarrow> nat list \<Rightarrow> nat list \<Rightarrow> dominators \<Rightarrow> nat list \<Rightarrow> dominators \<Rightarrow> bool" where
  "visited_from succ bs vis d vis' d' \<longleftrightarrow> (\<exists>M.
     reverse_post_order d' = reverse_post_order d @ M \<and> numbered d' \<and> idom d' = idom d \<and>
     dom_frontier d' = dom_frontier d \<and> dom_tree_succ_blocks d' = dom_tree_succ_blocks d \<and>
     set vis' = set vis \<union> set M \<and> set M \<inter> set vis = {} \<and> set bs \<subseteq> set vis' \<and>
     (\<forall>b \<in> set M. set (succ b) \<subseteq> set vis' \<and> (\<exists>r \<in> set bs. (r, b) \<in> {(x, y). y \<in> set (succ x)}\<^sup>*) \<and>
        (b \<in> set bs \<or> (\<exists>p. later M b p \<and> b \<in> set (succ p)))))"

lemma post_order_visits_simps [simp]:
  "post_order_visits succ [] vis d = Some (vis, d)"
  "post_order_visits succ (b # rest) vis d =
     (if b \<in> set vis then post_order_visits succ rest vis d
      else Option.bind (post_order_visits succ (succ b) (b # vis) d)
             (\<lambda>r. post_order_visits succ rest (fst r) (finish_block b (snd r))))"
  by (simp_all add: post_order_visits.simps)

lemma post_order_visits_spec:
  assumes "finite U" and closed: "\<forall>b \<in> U. set (succ b) \<subseteq> U"
  shows "set bs \<subseteq> U \<Longrightarrow> set vis \<subseteq> U \<Longrightarrow> numbered d \<Longrightarrow> set (reverse_post_order d) \<subseteq> set vis \<Longrightarrow>
    \<exists>vis' d'. post_order_visits succ bs vis d = Some (vis', d') \<and> visited_from succ bs vis d vis' d' \<and> set vis' \<subseteq> U"
proof (induction "card (U - set vis)" arbitrary: bs vis d rule: less_induct)
  case less
  note outer = less.hyps
  show ?case using less.prems(1)
  proof (induction bs)
    case Nil
    have "visited_from succ [] vis d vis d" using less.prems(3) by (auto simp: visited_from_def)
    then show ?case using less.prems(2) by simp
  next
    case (Cons b rest)
    show ?case
    proof (cases "b \<in> set vis")
      case True
      with Cons obtain vis' d' where "post_order_visits succ rest vis d = Some (vis', d')"
        "visited_from succ rest vis d vis' d'" "set vis' \<subseteq> U" by auto
      moreover from this(2) True have "visited_from succ (b # rest) vis d vis' d'"
        unfolding visited_from_def by fastforce
      ultimately show ?thesis using True by simp
    next
      case False
      have b: "b \<in> U" "set (succ b) \<subseteq> U" using Cons.prems closed by auto
      have smaller: "card (U - set vis') < card (U - set vis)" if "insert b (set vis) \<subseteq> set vis'" for vis'
        using that False b(1) assms(1) by (intro psubset_card_mono) auto
      have "\<exists>vis1 d1. post_order_visits succ (succ b) (b # vis) d = Some (vis1, d1) \<and>
          visited_from succ (succ b) (b # vis) d vis1 d1 \<and> set vis1 \<subseteq> U"
        by (rule outer) (use smaller [of "b # vis"] b less.prems in auto)
      then obtain vis1 d1 where run1: "post_order_visits succ (succ b) (b # vis) d = Some (vis1, d1)"
        and v1: "visited_from succ (succ b) (b # vis) d vis1 d1" and U1: "set vis1 \<subseteq> U" by blast
      from v1 obtain M1 where L1: "reverse_post_order d1 = reverse_post_order d @ M1" and num1: "numbered d1"
        and same1: "idom d1 = idom d" "dom_frontier d1 = dom_frontier d" "dom_tree_succ_blocks d1 = dom_tree_succ_blocks d"
        and vis1: "set vis1 = insert b (set vis) \<union> set M1" "set M1 \<inter> insert b (set vis) = {}" "set (succ b) \<subseteq> set vis1"
        and M1: "\<forall>c \<in> set M1. set (succ c) \<subseteq> set vis1 \<and> (\<exists>r \<in> set (succ b). (r, c) \<in> {(x, y). y \<in> set (succ x)}\<^sup>*) \<and>
          (c \<in> set (succ b) \<or> (\<exists>p. later M1 c p \<and> c \<in> set (succ p)))"
        unfolding visited_from_def by auto
      let ?d2 = "finish_block b d1"
      have num2: "numbered ?d2"
        using numbered_finish [OF num1, of b] L1 less.prems(4) False vis1(2) by auto
      have L2: "reverse_post_order ?d2 = reverse_post_order d @ M1 @ [b]" by (simp add: finish_block_def L1)
      have "\<exists>vis2 d2. post_order_visits succ rest vis1 ?d2 = Some (vis2, d2) \<and>
          visited_from succ rest vis1 ?d2 vis2 d2 \<and> set vis2 \<subseteq> U"
        by (rule outer) (use smaller [of vis1] Cons.prems U1 num2 L2 less.prems(4) vis1(1) in auto)
      then obtain vis2 d2 where run2: "post_order_visits succ rest vis1 ?d2 = Some (vis2, d2)"
        and v2: "visited_from succ rest vis1 ?d2 vis2 d2" and U2: "set vis2 \<subseteq> U" by blast
      from v2 obtain M2 where L3: "reverse_post_order d2 = reverse_post_order d @ M1 @ b # M2" and num3: "numbered d2"
        and same2: "idom d2 = idom d" "dom_frontier d2 = dom_frontier d" "dom_tree_succ_blocks d2 = dom_tree_succ_blocks d"
        and vis2: "set vis2 = set vis1 \<union> set M2" "set M2 \<inter> set vis1 = {}" "set rest \<subseteq> set vis2"
        and M2: "\<forall>c \<in> set M2. set (succ c) \<subseteq> set vis2 \<and> (\<exists>r \<in> set rest. (r, c) \<in> {(x, y). y \<in> set (succ x)}\<^sup>*) \<and>
          (c \<in> set rest \<or> (\<exists>p. later M2 c p \<and> c \<in> set (succ p)))"
        unfolding visited_from_def by (auto simp: L1 same1 finish_block_def)
      have "visited_from succ (b # rest) vis d vis2 d2"
        unfolding visited_from_def
      proof (intro exI [of _ "M1 @ b # M2"] conjI ballI)
        fix c assume c: "c \<in> set (M1 @ b # M2)"
        then consider "c \<in> set M1" | "c = b" | "c \<in> set M2" by auto
        then show "set (succ c) \<subseteq> set vis2" using M1 M2 vis1(3) vis2(1) by cases auto
        from c consider "c \<in> set M1" | "c = b" | "c \<in> set M2" by auto
        then show "\<exists>r \<in> set (b # rest). (r, c) \<in> {(x, y). y \<in> set (succ x)}\<^sup>*"
        proof cases
          case 1
          with M1 obtain r where "r \<in> set (succ b)" "(r, c) \<in> {(x, y). y \<in> set (succ x)}\<^sup>*" by blast
          then have "(b, c) \<in> {(x, y). y \<in> set (succ x)}\<^sup>*" by (auto intro: converse_rtrancl_into_rtrancl)
          then show ?thesis by auto
        next
          case 3
          with M2 show ?thesis by auto
        qed auto
        from c consider "c \<in> set M1" "c \<in> set (succ b)" | p where "c \<in> set M1" "later M1 c p" "c \<in> set (succ p)"
          | "c \<in> set (b # rest)" | p where "c \<in> set M2" "later M2 c p" "c \<in> set (succ p)"
          using M1 M2 by auto
        then show "c \<in> set (b # rest) \<or> (\<exists>p. later (M1 @ b # M2) c p \<and> c \<in> set (succ p))"
        proof cases
          case 1
          with later_snoc [of c M1 b M2] show ?thesis by blast
        next
          case 2
          with later_append [of M1 c p "[]" "b # M2"] show ?thesis by auto
        next
          case 4
          with later_append [of M2 c p "M1 @ [b]" "[]"] show ?thesis by auto
        qed simp
      qed (use L3 num3 same2 vis1 vis2 False in auto)
      with run1 run2 U2 False show ?thesis by simp
    qed
  qed
qed

text \<open>What the passes after the numbering rely on.\<close>

definition numbering_ok :: "(nat \<Rightarrow> nat list) \<Rightarrow> nat \<Rightarrow> dominators \<Rightarrow> bool" where
  "numbering_ok succ e d \<longleftrightarrow>
     set (reverse_post_order d) = {b. reach succ e b} \<and> distinct (reverse_post_order d) \<and>
     sorted_wrt (\<lambda>a b. po d b < po d a) (reverse_post_order d) \<and>
     (\<forall>b. reach succ e b \<longrightarrow> po d b < length (reverse_post_order d)) \<and>
     (\<forall>b. reach succ e b \<and> b \<noteq> e \<longrightarrow> (\<exists>p. reach succ e p \<and> b \<in> set (succ p) \<and> po d b < po d p))"

lemma create_reverse_post_order_spec:
  assumes graph: "flow_graph succ pred V e"
  shows "\<exists>d'. create_reverse_post_order succ e d = Some (Inr d') \<and> numbering_ok succ e d' \<and> idom d' = idom d \<and>
    dom_frontier d' = dom_frontier d \<and> dom_tree_succ_blocks d' = dom_tree_succ_blocks d"
proof -
  let ?d0 = "d\<lparr>reverse_post_order := [], post_order_id := Map.empty\<rparr>"
  have "\<exists>vis' d'. post_order_visits succ [e] [] ?d0 = Some (vis', d') \<and> visited_from succ [e] [] ?d0 vis' d' \<and> set vis' \<subseteq> set V"
    by (rule post_order_visits_spec) (use graph in \<open>auto simp: flow_graph_def numbered_def\<close>)
  then obtain vis1 d1 where run: "post_order_visits succ [e] [] ?d0 = Some (vis1, d1)"
    and v: "visited_from succ [e] [] ?d0 vis1 d1" by blast
  define M where "M = reverse_post_order d1"
  from v have num: "numbered d1" and same: "idom d1 = idom d" "dom_frontier d1 = dom_frontier d"
      "dom_tree_succ_blocks d1 = dom_tree_succ_blocks d"
    and e: "e \<in> set M" and M: "\<forall>b \<in> set M. set (succ b) \<subseteq> set M"
      "\<forall>b \<in> set M. (e, b) \<in> {(x, y). y \<in> set (succ x)}\<^sup>*"
      "\<forall>b \<in> set M. b = e \<or> (\<exists>p. later M b p \<and> b \<in> set (succ p))"
    by (auto simp: visited_from_def M_def)
  let ?d2 = "d1\<lparr>reverse_post_order := rev M\<rparr>"
  have reach: "b \<in> set M \<longleftrightarrow> reach succ e b" for b
  proof
    assume "b \<in> set M"
    with M(2) have "(e, b) \<in> {(x, y). y \<in> set (succ x)}\<^sup>*" by blast
    then show "reach succ e b" by (induction rule: rtrancl_induct) (auto intro: reach_step)
  next
    assume "reach succ e b"
    then obtain \<pi> where "walk succ e \<pi> b" by (auto simp: reach_def)
    then show "b \<in> set M" by (induction rule: walk.induct) (use e M(1) in auto)
  qed
  have id: "post_order_id d1 (M ! i) = Some i" if "i < length M" for i
    using num that by (simp add: numbered_def M_def)
  have dist: "distinct M" using num by (simp add: numbered_def M_def)
  have po2: "po ?d2 b = po d1 b" for b by (simp add: po_def)
  have "sorted_wrt (\<lambda>a b. po d1 a < po d1 b) M" using id by (auto simp: sorted_wrt_iff_nth_less po_def)
  then have sorted: "sorted_wrt (\<lambda>a b. po ?d2 b < po ?d2 a) (rev M)" by (simp add: sorted_wrt_rev po2)
  have bound: "po d1 b < length M" if "reach succ e b" for b
    using that id by (auto simp: reach [symmetric] in_set_conv_nth po_def)
  have parent: "\<exists>p. reach succ e p \<and> b \<in> set (succ p) \<and> po d1 b < po d1 p" if "reach succ e b" "b \<noteq> e" for b
    using that M(3) numbered_later [OF num] later_in [of M b] unfolding M_def [symmetric] reach [symmetric] by blast
  have "numbering_ok succ e ?d2"
    unfolding numbering_ok_def using reach dist sorted bound parent by (auto simp: po2)
  with run same show ?thesis by (auto simp: create_reverse_post_order_def M_def)
qed

end
