(* ===== verification/DomIdom.thy ===== *)
theory DomIdom
  imports DomGraph
begin

text \<open>
  The iteration of \<open>create_idom\<close>: the pointers it holds form a tree towards the
  entry whose branches contain all dominators, a visit of a block moves its pointer to the
  nearest common ancestor of its predecessors, pointers only move up, so the iteration ends,
  and it ends with the immediate dominators.
\<close>

section \<open>The tree of the pointers\<close>

definition idom_tree :: "(nat \<Rightarrow> nat list) \<Rightarrow> nat list \<Rightarrow> nat \<Rightarrow> dominators \<Rightarrow> bool" where
  "idom_tree succ V e d \<longleftrightarrow> idom d e = Some e \<and> (\<forall>b \<in> set V. \<not> reach succ e b \<longrightarrow> idom d b = None) \<and>
     (\<forall>b a. reach succ e b \<and> b \<noteq> e \<and> idom d b = Some a \<longrightarrow>
        reach succ e a \<and> idom d a \<noteq> None \<and> po d b < po d a)"

definition anc :: "dominators \<Rightarrow> nat \<Rightarrow> nat \<Rightarrow> nat \<Rightarrow> bool" where
  "anc d e b a \<longleftrightarrow> (b, a) \<in> {(x, y). x \<noteq> e \<and> idom d x = Some y}\<^sup>*"

definition processed :: "(nat \<Rightarrow> nat list) \<Rightarrow> nat \<Rightarrow> dominators \<Rightarrow> nat \<Rightarrow> bool" where
  "processed succ e d b \<longleftrightarrow> reach succ e b \<and> idom d b \<noteq> None"

lemma po_set_idom [simp]: "po (set_idom b a d) = po d"
  by (simp add: po_def set_idom_def fun_eq_iff)

lemma set_idom_simps [simp]:
  "idom (set_idom b a d) = (idom d)(b := a)"
  "reverse_post_order (set_idom b a d) = reverse_post_order d"
  "post_order_id (set_idom b a d) = post_order_id d"
  "dom_frontier (set_idom b a d) = dom_frontier d"
  "dom_tree_succ_blocks (set_idom b a d) = dom_tree_succ_blocks d"
  by (simp_all add: set_idom_def)

lemma numbering_ok_set_idom [simp]: "numbering_ok succ e (set_idom b a d) = numbering_ok succ e d"
  by (simp add: numbering_ok_def)

lemma anc_refl [simp]: "anc d e b b"
  by (simp add: anc_def)

lemma anc_trans: "anc d e a b \<Longrightarrow> anc d e b c \<Longrightarrow> anc d e a c"
  by (auto simp: anc_def)

lemma anc_parent: "b \<noteq> e \<Longrightarrow> idom d b = Some a \<Longrightarrow> anc d e b a"
  by (auto simp: anc_def)

lemma anc_up: "b \<noteq> e \<Longrightarrow> idom d b = Some a \<Longrightarrow> anc d e a c \<Longrightarrow> anc d e b c"
  using anc_parent anc_trans by metis

lemma anc_cases: "anc d e b c \<longleftrightarrow> b = c \<or> (b \<noteq> e \<and> (\<exists>a. idom d b = Some a \<and> anc d e a c))"
  unfolding anc_def by (auto elim: converse_rtranclE intro: converse_rtrancl_into_rtrancl)

lemma anc_induct [consumes 1, case_names refl up]:
  assumes "anc d e b c" and "P c"
    and "\<And>b a. b \<noteq> e \<Longrightarrow> idom d b = Some a \<Longrightarrow> anc d e a c \<Longrightarrow> P a \<Longrightarrow> P b"
  shows "P b"
  using assms unfolding anc_def by (induction rule: converse_rtrancl_induct) auto

lemma tree_parent:
  assumes "idom_tree succ V e d" and "reach succ e b" and "b \<noteq> e" and "idom d b = Some a"
  shows "processed succ e d a" and "po d b < po d a"
  using assms unfolding idom_tree_def processed_def by blast+

lemma tree_root: "idom_tree succ V e d \<Longrightarrow> idom d e = Some e"
  unfolding idom_tree_def by blast

lemma tree_unreached:
  assumes "idom_tree succ V e d" and "b \<in> set V" and "idom d b \<noteq> None"
  shows "reach succ e b"
proof (rule ccontr)
  from assms(1) have "\<forall>b \<in> set V. \<not> reach succ e b \<longrightarrow> idom d b = None" unfolding idom_tree_def by (elim conjE)
  moreover assume "\<not> reach succ e b"
  ultimately have "idom d b = None" using bspec [OF _ assms(2)] by iprover
  with assms(3) show False by simp
qed

lemma tree_entry: "idom_tree succ V e d \<Longrightarrow> processed succ e d e"
  by (simp add: tree_root processed_def)

lemma anc_processed:
  assumes "idom_tree succ V e d" and "anc d e b c" and "processed succ e d b"
  shows "processed succ e d c"
  using assms(2,3) by (induction rule: anc_induct) (use tree_parent [OF assms(1)] processed_def in blast)+

lemma anc_po:
  assumes "idom_tree succ V e d" and "anc d e b c" and "reach succ e b"
  shows "po d b \<le> po d c" and "b = c \<or> po d b < po d c"
proof -
  have "b = c \<or> po d b < po d c" using assms(2,3)
  proof (induction rule: anc_induct)
    case (up b a)
    with tree_parent [OF assms(1)] show ?case by (fastforce simp: processed_def)
  qed simp
  then show "po d b \<le> po d c" "b = c \<or> po d b < po d c" by auto
qed

lemma anc_linear:
  assumes "idom_tree succ V e d" and "processed succ e d x" and "anc d e x y" and "anc d e x z" and "po d y \<le> po d z"
  shows "anc d e y z"
proof -
  have "single_valued {(x, y). x \<noteq> e \<and> idom d x = Some y}" by (auto simp: single_valued_def)
  from single_valued_confluent [OF this] assms(3,4) have "anc d e y z \<or> anc d e z y" by (simp add: anc_def)
  moreover have "z = y \<or> \<not> anc d e z y"
    using anc_po(2) [OF assms(1), of z y] anc_processed [OF assms(1,4,2)] assms(5) by (auto simp: processed_def)
  ultimately show ?thesis by auto
qed

lemma po_entry:
  assumes "numbering_ok succ e d" and "reach succ e b"
  shows "b = e \<or> po d b < po d e"
proof -
  define N where "N = length (reverse_post_order d)"
  from assms(2) show ?thesis
  proof (induction "N - po d b" arbitrary: b rule: less_induct)
    case less
    show ?case
    proof (cases "b = e")
      case False
      with less.prems assms(1) obtain p where p: "reach succ e p" "po d b < po d p" and "po d p < N"
        unfolding numbering_ok_def N_def by blast
      then have "N - po d p < N - po d b" by simp
      from less.hyps [OF this p(1)] p(2) show ?thesis by auto
    qed simp
  qed
qed

lemma po_inj:
  assumes "numbering_ok succ e d" and "reach succ e a" and "reach succ e b" and "po d a = po d b"
  shows "a = b"
proof -
  let ?L = "reverse_post_order d"
  from assms obtain i j where i: "i < length ?L" "?L ! i = a" and j: "j < length ?L" "?L ! j = b"
    unfolding numbering_ok_def by (metis in_set_conv_nth mem_Collect_eq)
  from assms(1) have "sorted_wrt (\<lambda>a b. po d b < po d a) ?L" by (simp add: numbering_ok_def)
  then show ?thesis using i j assms(4) by (metis less_irrefl linorder_neqE_nat sorted_wrt_nth_less)
qed

section \<open>Nearest common ancestors\<close>

lemma climb_spec:
  assumes tree: "idom_tree succ V e d" and num: "numbering_ok succ e d" and b2: "reach succ e b2"
  shows "processed succ e d b1 \<Longrightarrow> \<exists>r. climb d b1 b2 = Some (Inr r) \<and> anc d e b1 r \<and> po d b2 \<le> po d r \<and>
    (\<forall>c. anc d e b1 c \<and> po d b2 \<le> po d c \<longrightarrow> anc d e r c)"
proof (induction "length (reverse_post_order d) - po d b1" arbitrary: b1 rule: less_induct)
  case less
  show ?case
  proof (cases "po d b1 < po d b2")
    case True
    then have "b1 \<noteq> e" using po_entry [OF num b2] by auto
    from less.prems obtain a where a: "idom d b1 = Some a" by (auto simp: processed_def)
    with \<open>b1 \<noteq> e\<close> less.prems have pa: "processed succ e d a" "po d b1 < po d a"
      using tree_parent [OF tree] by (auto simp: processed_def)
    then have "po d a < length (reverse_post_order d)" using num by (auto simp: numbering_ok_def processed_def)
    with pa(2) have "length (reverse_post_order d) - po d a < length (reverse_post_order d) - po d b1" by simp
    from less.hyps [OF this pa(1)] obtain r where r: "climb d a b2 = Some (Inr r)" "anc d e a r" "po d b2 \<le> po d r"
      "\<forall>c. anc d e a c \<and> po d b2 \<le> po d c \<longrightarrow> anc d e r c" by blast
    have "anc d e r c" if "anc d e b1 c" "po d b2 \<le> po d c" for c
    proof -
      from that True have "b1 \<noteq> c" by auto
      with that(1) a have "anc d e a c" by (auto simp: anc_cases [of d e b1 c])
      with r(4) that(2) show ?thesis by blast
    qed
    with r True a \<open>b1 \<noteq> e\<close> show ?thesis by (subst climb.simps) (auto intro: anc_up)
  next
    case False
    then show ?thesis by (subst climb.simps) (auto simp: returnP_def)
  qed
qed

definition nearest :: "dominators \<Rightarrow> nat \<Rightarrow> nat set \<Rightarrow> nat \<Rightarrow> bool" where
  "nearest d e B r \<longleftrightarrow> (\<forall>b \<in> B. anc d e b r) \<and> (\<forall>c. (\<forall>b \<in> B. anc d e b c) \<longrightarrow> anc d e r c)"

lemma intersect_spec:
  assumes tree: "idom_tree succ V e d" and num: "numbering_ok succ e d"
  shows "processed succ e d b1 \<Longrightarrow> processed succ e d b2 \<Longrightarrow>
    \<exists>r. intersect d b1 b2 = Some (Inr r) \<and> nearest d e {b1, b2} r"
proof (induction "2 * length (reverse_post_order d) - (po d b1 + po d b2)" arbitrary: b1 b2 rule: less_induct)
  case less
  show ?case
  proof (cases "b1 = b2")
    case True
    then show ?thesis by (subst intersect.simps) (auto simp: returnP_def nearest_def)
  next
    case False
    have reach: "reach succ e b1" "reach succ e b2" using less.prems by (auto simp: processed_def)
    note up = anc_po [OF tree] and keep = anc_processed [OF tree]
    from climb_spec [OF tree num reach(2) less.prems(1)] obtain r1 where
      r1: "climb d b1 b2 = Some (Inr r1)" "anc d e b1 r1" "po d b2 \<le> po d r1"
        "\<And>c. anc d e b1 c \<Longrightarrow> po d b2 \<le> po d c \<Longrightarrow> anc d e r1 c" by blast
    have p1: "processed succ e d r1" using keep [OF r1(2) less.prems(1)] .
    then have "reach succ e r1" by (simp add: processed_def)
    from climb_spec [OF tree num this less.prems(2)] obtain r2 where
      r2: "climb d b2 r1 = Some (Inr r2)" "anc d e b2 r2" "po d r1 \<le> po d r2"
        "\<And>c. anc d e b2 c \<Longrightarrow> po d r1 \<le> po d c \<Longrightarrow> anc d e r2 c" by blast
    have p2: "processed succ e d r2" using keep [OF r2(2) less.prems(2)] .
    have "po d b1 < po d r1 \<or> po d b2 < po d r2"
    proof (rule ccontr)
      assume "\<not> ?thesis"
      then have "b1 = r1" "b2 = r2" using up(2) [OF r1(2) reach(1)] up(2) [OF r2(2) reach(2)] by auto
      with r1(3) r2(3) have "po d b1 = po d b2" by simp
      with po_inj [OF num reach] False show False by simp
    qed
    with up(1) [OF r1(2) reach(1)] up(1) [OF r2(2) reach(2)] have "po d b1 + po d b2 < po d r1 + po d r2" by linarith
    moreover have "po d r1 < length (reverse_post_order d)" "po d r2 < length (reverse_post_order d)"
      using p1 p2 num by (auto simp: numbering_ok_def processed_def)
    ultimately have "2 * length (reverse_post_order d) - (po d r1 + po d r2) < 2 * length (reverse_post_order d) - (po d b1 + po d b2)"
      by simp
    from less.hyps [OF this p1 p2] obtain r where r: "intersect d r1 r2 = Some (Inr r)" "nearest d e {r1, r2} r" by blast
    have "anc d e r c" if "anc d e b1 c" "anc d e b2 c" for c
    proof -
      have 1: "anc d e r1 c" by (rule r1(4)) (use that up(1) reach in blast)+
      then have "po d r1 \<le> po d c" using up(1) p1 by (auto simp: processed_def)
      then have "anc d e r2 c" by (rule r2(4) [OF that(2)])
      with 1 r(2) show ?thesis by (auto simp: nearest_def)
    qed
    with r r1(2) r2(2) have "nearest d e {b1, b2} r" by (auto simp: nearest_def intro: anc_trans)
    with r(1) r1(1) r2(1) False show ?thesis by (subst intersect.simps) simp
  qed
qed

lemma nearest_insert:
  assumes "nearest d e A a" and "nearest d e {b, a} r"
  shows "nearest d e (insert b A) r"
  using assms unfolding nearest_def by (auto intro: anc_trans)

lemma meet_preds_spec:
  assumes tree: "idom_tree succ V e d" and num: "numbering_ok succ e d" and ps: "set ps \<subseteq> set V"
  shows "processed succ e d a \<Longrightarrow> nearest d e A a \<Longrightarrow> p \<in> A \<Longrightarrow>
    \<exists>r. meet_preds d p ps a = Some (Inr r) \<and> processed succ e d r \<and>
        nearest d e (A \<union> {q \<in> set ps. processed succ e d q}) r"
  using ps
proof (induction ps arbitrary: a A)
  case Nil
  then show ?case by (auto simp: returnP_def)
next
  case (Cons q ps)
  show ?case
  proof (cases "q = p \<or> idom d q = None")
    case True
    then have "A \<union> {x \<in> set (q # ps). processed succ e d x} = A \<union> {x \<in> set ps. processed succ e d x}"
      using Cons.prems(3) by (auto simp: processed_def)
    with Cons True show ?thesis by auto
  next
    case False
    with Cons.prems(4) have q: "processed succ e d q" using tree_unreached [OF tree] by (auto simp: processed_def)
    from intersect_spec [OF tree num q Cons.prems(1)] obtain r1 where
      r1: "intersect d q a = Some (Inr r1)" "nearest d e {q, a} r1" by blast
    have "processed succ e d r1" using r1(2) anc_processed [OF tree _ q] by (auto simp: nearest_def)
    moreover have "nearest d e (insert q A) r1" by (rule nearest_insert [OF Cons.prems(2) r1(2)])
    moreover have "p \<in> insert q A" "set ps \<subseteq> set V" using Cons.prems by auto
    ultimately obtain r where "meet_preds d p ps r1 = Some (Inr r)" "processed succ e d r"
      "nearest d e (insert q A \<union> {x \<in> set ps. processed succ e d x}) r" using Cons.IH by blast
    moreover have "insert q A \<union> {x \<in> set ps. processed succ e d x} = A \<union> {x \<in> set (q # ps). processed succ e d x}"
      using q by auto
    ultimately show ?thesis using False r1(1) by auto
  qed
qed

section \<open>What a sweep keeps\<close>

text \<open>
  Of the blocks that the sweep still has to visit: either no block but the entry has a
  pointer, or all blocks have one and a forward edge leads between branches that meet there.
  Of the visited blocks: the pointer is a common ancestor of the forward predecessors.
\<close>

definition forward :: "(nat \<Rightarrow> nat list) \<Rightarrow> nat \<Rightarrow> dominators \<Rightarrow> nat \<Rightarrow> nat \<Rightarrow> bool" where
  "forward succ e d p c \<longleftrightarrow> reach succ e p \<and> c \<in> set (succ p) \<and> po d c < po d p"

definition low :: "(nat \<Rightarrow> nat list) \<Rightarrow> dominators \<Rightarrow> nat \<Rightarrow> (nat \<times> nat) set" where
  "low succ d a = {(x, y). y \<in> set (succ x) \<and> po d y < po d a}"

definition idom_sound :: "(nat \<Rightarrow> nat list) \<Rightarrow> nat \<Rightarrow> dominators \<Rightarrow> bool" where
  "idom_sound succ e d \<longleftrightarrow>
     (\<forall>b a. reach succ e b \<and> b \<noteq> e \<and> idom d b = Some a \<longrightarrow> (a, b) \<in> (low succ d a)\<^sup>*) \<and>
     (\<forall>b a. processed succ e d b \<and> dominates succ e a b \<longrightarrow> anc d e b a)"

definition pending :: "(nat \<Rightarrow> nat list) \<Rightarrow> nat \<Rightarrow> nat list \<Rightarrow> dominators \<Rightarrow> bool" where
  "pending succ e rest d \<longleftrightarrow>
     (\<forall>b c a. processed succ e d b \<and> b \<noteq> e \<and> idom d b = Some a \<and>
        (\<forall>p. processed succ e d p \<and> b \<in> set (succ p) \<longrightarrow> anc d e p c) \<longrightarrow> po d a \<le> po d c) \<and>
     ((\<forall>c \<in> set rest. c \<noteq> e \<longrightarrow> idom d c = None) \<or>
      (\<forall>b. reach succ e b \<longrightarrow> idom d b \<noteq> None) \<and>
      (\<forall>c \<in> set rest. \<forall>p a. c \<noteq> e \<and> forward succ e d p c \<and> idom d c = Some a \<longrightarrow>
         (\<forall>z \<in> set rest. anc d e a z \<longrightarrow> anc d e p z) \<and>
         (\<forall>x. anc d e p x \<and> po d a \<le> po d x \<longrightarrow> anc d e a x)))"

definition visited_ok :: "(nat \<Rightarrow> nat list) \<Rightarrow> nat \<Rightarrow> nat list \<Rightarrow> dominators \<Rightarrow> bool" where
  "visited_ok succ e rest d \<longleftrightarrow> (\<forall>c. reach succ e c \<and> c \<notin> set rest \<longrightarrow> idom d c \<noteq> None \<and>
     (\<forall>p a. c \<noteq> e \<and> forward succ e d p c \<and> idom d c = Some a \<longrightarrow> anc d e p a))"

text \<open>One visit: the pointer of \<open>b\<close> becomes \<open>n\<close>.\<close>

definition visit_ok :: "(nat \<Rightarrow> nat list) \<Rightarrow> nat \<Rightarrow> dominators \<Rightarrow> nat \<Rightarrow> nat \<Rightarrow> bool" where
  "visit_ok succ e d b n \<longleftrightarrow> reach succ e b \<and> b \<noteq> e \<and> processed succ e d n \<and> po d b < po d n \<and>
     (\<forall>a. idom d b = Some a \<longrightarrow> anc d e a n) \<and>
     nearest d e {p. processed succ e d p \<and> b \<in> set (succ p)} n"

lemma forward_set_idom [simp]: "forward succ e (set_idom b a d) = forward succ e d"
  by (simp add: forward_def fun_eq_iff)

lemma low_set_idom [simp]: "low succ (set_idom b a d) = low succ d"
  by (simp add: low_def fun_eq_iff)

lemma tree_visit:
  assumes tree: "idom_tree succ V e d" and v: "visit_ok succ e d b n"
  shows "idom_tree succ V e (set_idom b (Some n) d)"
proof -
  have n: "reach succ e n" "idom d n \<noteq> None" "po d b < po d n" and b: "reach succ e b" "b \<noteq> e"
    using v by (simp_all add: visit_ok_def processed_def)
  have old: "reach succ e a \<and> idom d a \<noteq> None \<and> po d x < po d a" if "reach succ e x" "x \<noteq> e" "idom d x = Some a" for x a
    using tree_parent [OF tree that] by (simp add: processed_def)
  show ?thesis
    unfolding idom_tree_def
  proof (intro conjI allI impI ballI)
    fix x a assume x: "reach succ e x \<and> x \<noteq> e \<and> idom (set_idom b (Some n) d) x = Some a"
    then show "reach succ e a" "po (set_idom b (Some n) d) x < po (set_idom b (Some n) d) a"
      using n old [of x a] by (auto split: if_splits)
    from x show "idom (set_idom b (Some n) d) a \<noteq> None"
      using n old [of x a] by (auto split: if_splits)
  next
    show "idom (set_idom b (Some n) d) e = Some e" using tree_root [OF tree] b(2) by simp
  next
    fix x assume "x \<in> set V" and off: "\<not> reach succ e x"
    then have "idom d x = None" using tree_unreached [OF tree] by blast
    moreover have "x \<noteq> b" using off b(1) by auto
    ultimately show "idom (set_idom b (Some n) d) x = None" by simp
  qed
qed

lemma processed_visit:
  assumes "visit_ok succ e d b n"
  shows "processed succ e (set_idom b (Some n) d) x \<longleftrightarrow> processed succ e d x \<or> x = b"
  using assms by (auto simp: processed_def visit_ok_def)

lemma anc_visit_low:
  assumes tree: "idom_tree succ V e d" and "anc d e x y" and "processed succ e d x" and "po d y \<le> po d b"
  shows "anc (set_idom b (Some n) d) e x y"
  using assms(2-4)
proof (induction rule: anc_induct)
  case (up x a)
  have a: "processed succ e d a" "po d x < po d a"
    using up tree_parent [OF tree] by (auto simp: processed_def)
  with up.hyps(3) have "po d a \<le> po d y" using anc_po [OF tree] by (auto simp: processed_def)
  with a up.prems have "x \<noteq> b" by auto
  with up a(1) show ?case by (auto intro: anc_up)
qed simp

lemma anc_visit_off:
  assumes "anc d e x y" and "\<not> anc d e x b"
  shows "anc (set_idom b (Some n) d) e x y"
  using assms
proof (induction rule: anc_induct)
  case (up x a)
  then have "x \<noteq> b" "\<not> anc d e a b" by (auto intro: anc_up)
  with up show ?case by (auto intro: anc_up)
qed simp

lemma anc_visit_back:
  assumes tree: "idom_tree succ V e d" and v: "visit_ok succ e d b n"
    and "anc (set_idom b (Some n) d) e x y" and "processed succ e d x"
  shows "anc d e x y"
  using assms(3,4)
proof (induction rule: anc_induct)
  case (up x a)
  show ?case
  proof (cases "x = b")
    case True
    with up.hyps have "a = n" by simp
    with up v have "anc d e n y" by (simp add: visit_ok_def)
    from up.prems obtain a' where "idom d x = Some a'" by (auto simp: processed_def)
    moreover with v True have "anc d e a' n" by (simp add: visit_ok_def)
    ultimately show ?thesis using \<open>anc d e n y\<close> up.hyps(1) by (meson anc_trans anc_up)
  next
    case False
    with up have "idom d x = Some a" by simp
    moreover from this have "processed succ e d a" using tree_parent [OF tree] up by (auto simp: processed_def)
    ultimately show ?thesis using up by (auto intro: anc_up)
  qed
qed simp

lemma anc_visit_above:
  assumes tree: "idom_tree succ V e d" and "anc d e x y" and "reach succ e x" and "po d b < po d x"
  shows "anc (set_idom b (Some n) d) e x y"
proof (rule anc_visit_off [OF assms(2)])
  show "\<not> anc d e x b" using anc_po [OF tree _ assms(3), of b] assms(4) by auto
qed

lemma chain_low:
  assumes tree: "idom_tree succ V e d" and sound: "idom_sound succ e d"
    and "anc d e x y" and "processed succ e d x"
  shows "(y, x) \<in> (low succ d y)\<^sup>*"
  using assms(3,4)
proof (induction rule: anc_induct)
  case (up x a)
  have a: "processed succ e d a" using up tree_parent [OF tree] by (auto simp: processed_def)
  then have "po d a \<le> po d y" using anc_po [OF tree up.hyps(3)] by (simp add: processed_def)
  then have "low succ d a \<subseteq> low succ d y" by (auto simp: low_def)
  moreover have "(a, x) \<in> (low succ d a)\<^sup>*" using up sound by (auto simp: idom_sound_def processed_def)
  ultimately have "(a, x) \<in> (low succ d y)\<^sup>*" using rtrancl_mono by blast
  with up.IH [OF a] show ?case by auto
qed simp

lemma sound_visit:
  assumes tree: "idom_tree succ V e d" and sound: "idom_sound succ e d" and v: "visit_ok succ e d b n"
    and fw: "forward succ e d p b" "processed succ e d p"
  shows "idom_sound succ e (set_idom b (Some n) d)"
proof -
  let ?d = "set_idom b (Some n) d"
  have path: "(n, b) \<in> (low succ d n)\<^sup>*"
  proof -
    have "anc d e p n" using v fw by (auto simp: visit_ok_def nearest_def forward_def)
    then have "(n, p) \<in> (low succ d n)\<^sup>*" using chain_low [OF tree sound] fw(2) by blast
    moreover have "(p, b) \<in> low succ d n" using fw v by (auto simp: low_def forward_def visit_ok_def)
    ultimately show ?thesis by auto
  qed
  have dom_b: "anc ?d e b a" if dom: "dominates succ e a b" for a
  proof (cases "a = b")
    case False
    have "anc d e q a" if "processed succ e d q" "b \<in> set (succ q)" for q
      using sound dominates_pred [OF dom False that(2)] that(1) by (auto simp: idom_sound_def)
    then have "anc d e n a" using v by (auto simp: visit_ok_def nearest_def)
    then have "anc ?d e n a" using anc_visit_above [OF tree] v by (auto simp: visit_ok_def processed_def)
    then show ?thesis using v by (auto intro: anc_up simp: visit_ok_def)
  qed simp
  have "anc ?d e x a" if x: "processed succ e ?d x" and dom: "dominates succ e a x" for x a
  proof (cases "x = b")
    case False
    with x have px: "processed succ e d x" by (auto simp: processed_def)
    with sound dom have xa: "anc d e x a" by (auto simp: idom_sound_def)
    show ?thesis
    proof (cases "anc d e x b \<and> po d b < po d a")
      case True
      then have "(b, x) \<in> (low succ d b)\<^sup>*" using chain_low [OF tree sound _ px] by blast
      moreover have "low succ d b \<subseteq> {(x, y). y \<in> set (succ x) \<and> y \<noteq> a}" using True by (auto simp: low_def)
      ultimately have "(b, x) \<in> {(x, y). y \<in> set (succ x) \<and> y \<noteq> a}\<^sup>*" using rtrancl_mono by blast
      from dom_b [OF dominates_back [OF this dom]] anc_visit_low [OF tree _ px, of b b n] True
      show ?thesis by (auto intro: anc_trans)
    next
      case False
      then show ?thesis using anc_visit_low [OF tree xa px] anc_visit_off [OF xa] by fastforce
    qed
  qed (use dom dom_b in simp)
  with path sound show ?thesis unfolding idom_sound_def by auto
qed

definition split_order :: "(nat \<Rightarrow> nat list) \<Rightarrow> nat \<Rightarrow> dominators \<Rightarrow> nat \<Rightarrow> nat list \<Rightarrow> bool" where
  "split_order succ e d b rest \<longleftrightarrow> reach succ e b \<and> (\<forall>c \<in> set rest. po d c < po d b) \<and>
     (\<forall>c. reach succ e c \<longrightarrow> c \<in> set rest \<or> c = b \<or> po d b < po d c)"

lemma forward_pred:
  assumes num: "numbering_ok succ e d" and ord: "split_order succ e d b rest" and "b \<noteq> e"
    and vis: "visited_ok succ e (b # rest) d"
  obtains p where "forward succ e d p b" and "processed succ e d p"
proof -
  from ord have "reach succ e b" by (simp add: split_order_def)
  with num \<open>b \<noteq> e\<close> obtain p where p: "reach succ e p" "b \<in> set (succ p)" "po d b < po d p"
    unfolding numbering_ok_def by blast
  then have "p \<notin> set (b # rest)" using ord by (auto simp: split_order_def)
  with p(1) vis have "idom d p \<noteq> None" by (simp add: visited_ok_def)
  with p that show thesis by (auto simp: forward_def processed_def)
qed

lemma visit_ok_meet:
  assumes tree: "idom_tree succ V e d" and num: "numbering_ok succ e d" and ord: "split_order succ e d b rest"
    and be: "b \<noteq> e" and pend: "pending succ e (b # rest) d" and vis: "visited_ok succ e (b # rest) d"
    and n: "processed succ e d n" "nearest d e {p. processed succ e d p \<and> b \<in> set (succ p)} n"
  shows "visit_ok succ e d b n"
proof -
  obtain p where fw: "forward succ e d p b" and p: "processed succ e d p"
    by (rule forward_pred [OF num ord be vis])
  have pn: "anc d e p n" using n(2) fw p by (auto simp: nearest_def forward_def)
  then have "po d p \<le> po d n" using anc_po(1) [OF tree pn] p by (simp add: processed_def)
  with fw have "po d b < po d n" by (simp add: forward_def)
  moreover have "anc d e a n" if a: "idom d b = Some a" for a
  proof -
    have b: "processed succ e d b" using ord a by (auto simp: split_order_def processed_def)
    have "po d a \<le> po d n"
      using pend n(2) b be a unfolding pending_def nearest_def by blast
    with pend fw pn be a show ?thesis unfolding pending_def by fastforce
  qed
  ultimately show ?thesis using ord be n by (auto simp: visit_ok_def split_order_def)
qed

lemma visited_visit:
  assumes tree: "idom_tree succ V e d" and ord: "split_order succ e d b rest" and vis: "visited_ok succ e (b # rest) d"
    and v: "visit_ok succ e d b n"
  shows "visited_ok succ e rest (set_idom b (Some n) d)"
  unfolding visited_ok_def
proof (intro allI impI conjI)
  let ?d = "set_idom b (Some n) d"
  fix c assume c: "reach succ e c \<and> c \<notin> set rest"
  show "idom ?d c \<noteq> None" using vis c by (auto simp: visited_ok_def)
  fix p a assume pa: "c \<noteq> e \<and> forward succ e ?d p c \<and> idom ?d c = Some a"
  then have fw: "reach succ e p" "c \<in> set (succ p)" "po d c < po d p" by (auto simp: forward_def)
  have bc: "po d b \<le> po d c" using ord c by (auto simp: split_order_def)
  with fw(3) have "p \<notin> set (b # rest)" using ord by (auto simp: split_order_def)
  with fw(1) vis have p: "processed succ e d p" by (simp add: visited_ok_def processed_def)
  have "anc d e p a"
  proof (cases "c = b")
    case True
    with pa v p fw(2) show ?thesis by (auto simp: visit_ok_def nearest_def)
  next
    case False
    with pa vis c show ?thesis unfolding visited_ok_def by auto
  qed
  with anc_visit_above [OF tree] fw bc show "anc ?d e p a" by auto
qed

lemma pending_visit:
  assumes tree: "idom_tree succ V e d" and ord: "split_order succ e d b rest" and pend: "pending succ e (b # rest) d"
    and v: "visit_ok succ e d b n"
  shows "pending succ e rest (set_idom b (Some n) d)"
proof -
  let ?d = "set_idom b (Some n) d"
  note treev = tree_visit [OF tree v] and backed = anc_visit_back [OF tree v]
  note near = pend [unfolded pending_def, THEN conjunct1, rule_format]
  have 1: "po ?d a \<le> po ?d c" if "processed succ e ?d x \<and> x \<noteq> e \<and> idom ?d x = Some a \<and>
      (\<forall>p. processed succ e ?d p \<and> x \<in> set (succ p) \<longrightarrow> anc ?d e p c)" for x c a
  proof -
    have old: "anc d e p c" if "processed succ e d p" "x \<in> set (succ p)" for p
      using that \<open>processed succ e ?d x \<and> _\<close> backed [of p c] processed_visit [OF v] by blast
    show ?thesis
    proof (cases "x = b")
      case True
      with old v have "anc d e n c" by (auto simp: visit_ok_def nearest_def)
      with anc_po(1) [OF tree this] v True that show ?thesis by (auto simp: visit_ok_def processed_def)
    next
      case False
      with that have "processed succ e d x" "x \<noteq> e" "idom d x = Some a" by (auto simp: processed_def)
      with near [of x a c] old show ?thesis by auto
    qed
  qed
  from pend consider "\<forall>c \<in> set (b # rest). c \<noteq> e \<longrightarrow> idom d c = None"
    | "\<forall>b. reach succ e b \<longrightarrow> idom d b \<noteq> None"
      "\<forall>c \<in> set (b # rest). \<forall>p a. c \<noteq> e \<and> forward succ e d p c \<and> idom d c = Some a \<longrightarrow>
         (\<forall>z \<in> set (b # rest). anc d e a z \<longrightarrow> anc d e p z) \<and>
         (\<forall>x. anc d e p x \<and> po d a \<le> po d x \<longrightarrow> anc d e a x)"
    unfolding pending_def by (elim conjE disjE)
  then have 2: "(\<forall>c \<in> set rest. c \<noteq> e \<longrightarrow> idom ?d c = None) \<or>
      (\<forall>b. reach succ e b \<longrightarrow> idom ?d b \<noteq> None) \<and>
      (\<forall>c \<in> set rest. \<forall>p a. c \<noteq> e \<and> forward succ e ?d p c \<and> idom ?d c = Some a \<longrightarrow>
         (\<forall>z \<in> set rest. anc ?d e a z \<longrightarrow> anc ?d e p z) \<and>
         (\<forall>x. anc ?d e p x \<and> po ?d a \<le> po ?d x \<longrightarrow> anc ?d e a x))"
  proof cases
    case 1
    then show ?thesis using ord by (auto simp: split_order_def)
  next
    case 2
    show ?thesis
    proof (intro disjI2 conjI ballI allI impI; (elim conjE)?)
      fix x assume "reach succ e x"
      with 2(1) show "idom ?d x \<noteq> None" by auto
    next
      fix c p a z assume c: "c \<in> set rest" and "c \<noteq> e" and fw: "forward succ e ?d p c" and a: "idom ?d c = Some a"
        and z: "z \<in> set rest" "anc ?d e a z"
      have cb: "c \<noteq> b" using c ord by (auto simp: split_order_def)
      with a have a': "idom d c = Some a" by simp
      have rc: "reach succ e c" using fw reach_step by (auto simp: forward_def)
      have pa: "processed succ e d p" "processed succ e d a"
        using fw 2(1) tree_parent(1) [OF tree rc \<open>c \<noteq> e\<close> a'] by (auto simp: forward_def processed_def)
      have "anc d e p z" using 2(2) c z \<open>c \<noteq> e\<close> fw a' backed [OF z(2) pa(2)] by auto
      moreover have "po d z \<le> po d b" using ord z(1) by (auto simp: split_order_def)
      ultimately show "anc ?d e p z" using anc_visit_low [OF tree _ pa(1)] by blast
    next
      fix c p a x assume c: "c \<in> set rest" and "c \<noteq> e" and fw: "forward succ e ?d p c" and a: "idom ?d c = Some a"
        and x: "anc ?d e p x" "po ?d a \<le> po ?d x"
      have cb: "c \<noteq> b" using c ord by (auto simp: split_order_def)
      with a have a': "idom d c = Some a" by simp
      have rc: "reach succ e c" using fw reach_step by (auto simp: forward_def)
      have pa: "processed succ e d p" "processed succ e d a"
        using fw 2(1) tree_parent(1) [OF tree rc \<open>c \<noteq> e\<close> a'] by (auto simp: forward_def processed_def)
      have px: "anc d e p x" using backed [OF x(1) pa(1)] .
      with 2(2) c \<open>c \<noteq> e\<close> fw a' x(2) have ax: "anc d e a x" by auto
      show "anc ?d e a x"
      proof (cases "anc d e a b \<and> po d b < po d x")
        case True
        with 2(2) c \<open>c \<noteq> e\<close> fw a' have "anc d e p b" by auto
        then have "anc ?d e p b" using anc_visit_low [OF tree _ pa(1)] by blast
        moreover have "processed succ e ?d p" using pa(1) processed_visit [OF v] by blast
        ultimately have "anc ?d e b x" using anc_linear [OF treev _ _ x(1)] True by auto
        moreover have "anc ?d e a b" using anc_visit_low [OF tree _ pa(2)] True by blast
        ultimately show ?thesis by (rule anc_trans [rotated])
      next
        case False
        then show ?thesis using anc_visit_low [OF tree ax pa(2)] anc_visit_off [OF ax] by fastforce
      qed
    qed
  qed
  from 1 2 show ?thesis unfolding pending_def by blast
qed

section \<open>A sweep and the iteration\<close>

definition rank :: "dominators \<Rightarrow> nat" where
  "rank d = (\<Sum>b \<in> set (reverse_post_order d). case idom d b of None \<Rightarrow> Suc (length (reverse_post_order d))
     | Some a \<Rightarrow> length (reverse_post_order d) - po d a)"

lemma rank_visit:
  assumes tree: "idom_tree succ V e d" and num: "numbering_ok succ e d" and v: "visit_ok succ e d b n"
    and new: "idom d b \<noteq> Some n"
  shows "rank (set_idom b (Some n) d) < rank d"
proof -
  let ?L = "reverse_post_order d" and ?d = "set_idom b (Some n) d"
  let ?r = "\<lambda>d c. case idom d c of None \<Rightarrow> Suc (length ?L) | Some a \<Rightarrow> length ?L - po d a"
  have b: "b \<in> set ?L" using num v by (simp add: numbering_ok_def visit_ok_def)
  have n: "po d n < length ?L" using num v by (auto simp: numbering_ok_def visit_ok_def processed_def)
  have less: "?r ?d b < ?r d b"
  proof (cases "idom d b")
    case (Some a)
    with v have an: "anc d e a n" and "b \<noteq> e" "reach succ e b" by (auto simp: visit_ok_def)
    then have "reach succ e a" using tree_parent(1) [OF tree _ _ Some] by (simp add: processed_def)
    with anc_po(2) [OF tree an] new Some have "po d a < po d n" by auto
    with Some n show ?thesis by simp
  qed simp
  have "(\<Sum>c \<in> set ?L - {b}. ?r ?d c) = (\<Sum>c \<in> set ?L - {b}. ?r d c)" by (rule sum.cong) (auto split: option.split)
  moreover have "rank ?d = ?r ?d b + (\<Sum>c \<in> set ?L - {b}. ?r ?d c)" "rank d = ?r d b + (\<Sum>c \<in> set ?L - {b}. ?r d c)"
    using b by (simp_all add: rank_def sum.remove cong: option.case_cong)
  ultimately show ?thesis using less by simp
qed

definition same_but_idom :: "dominators \<Rightarrow> dominators \<Rightarrow> bool" where
  "same_but_idom d d' \<longleftrightarrow> d' = d\<lparr>idom := idom d'\<rparr>"

lemma same_but_idomD:
  assumes "same_but_idom d d'"
  shows "reverse_post_order d' = reverse_post_order d" "post_order_id d' = post_order_id d"
    "dom_frontier d' = dom_frontier d" "dom_tree_succ_blocks d' = dom_tree_succ_blocks d"
    "numbering_ok succ e d' = numbering_ok succ e d" "po d' = po d"
proof -
  from assms obtain i where "d' = d\<lparr>idom := i\<rparr>" by (auto simp: same_but_idom_def)
  then show "reverse_post_order d' = reverse_post_order d" "post_order_id d' = post_order_id d"
    "dom_frontier d' = dom_frontier d" "dom_tree_succ_blocks d' = dom_tree_succ_blocks d"
    "numbering_ok succ e d' = numbering_ok succ e d" "po d' = po d"
    by (simp_all add: numbering_ok_def po_def fun_eq_iff)
qed

lemma same_but_idom_set: "same_but_idom d (set_idom b a d)"
  by (simp add: same_but_idom_def set_idom_def)

lemma same_but_idom_refl: "same_but_idom d d"
  by (simp add: same_but_idom_def)

lemma same_but_idom_trans: "same_but_idom d d' \<Longrightarrow> same_but_idom d' d'' \<Longrightarrow> same_but_idom d d''"
  unfolding same_but_idom_def by (metis dominators.update_convs(3) dominators.surjective)

definition sweep_ok :: "(nat \<Rightarrow> nat list) \<Rightarrow> nat list \<Rightarrow> nat \<Rightarrow> nat list \<Rightarrow> dominators \<Rightarrow> bool" where
  "sweep_ok succ V e rest d \<longleftrightarrow> numbering_ok succ e d \<and> idom_tree succ V e d \<and> idom_sound succ e d \<and>
     pending succ e rest d \<and> visited_ok succ e rest d"

definition settled :: "(nat \<Rightarrow> nat list) \<Rightarrow> nat \<Rightarrow> dominators \<Rightarrow> nat \<Rightarrow> bool" where
  "settled succ e d b \<longleftrightarrow> b = e \<or> (\<exists>n. idom d b = Some n \<and> nearest d e {p. processed succ e d p \<and> b \<in> set (succ p)} n)"

lemma visit_meet:
  assumes graph: "flow_graph succ pred V e" and ok: "sweep_ok succ V e (b # rest) d"
    and ord: "split_order succ e d b rest" and be: "b \<noteq> e"
  obtains p n where "find (\<lambda>p. idom d p \<noteq> None) (pred b) = Some p" and "meet_preds d p (pred b) p = Some (Inr n)"
    and "visit_ok succ e d b n" and "sweep_ok succ V e rest (set_idom b (Some n) d)"
proof -
  have tree: "idom_tree succ V e d" and num: "numbering_ok succ e d" and sound: "idom_sound succ e d"
    and pend: "pending succ e (b # rest) d" and vis: "visited_ok succ e (b # rest) d"
    using ok by (simp_all add: sweep_ok_def)
  have bV: "b \<in> set V" using ord reach_in_graph [OF graph] by (simp add: split_order_def)
  have preds: "set (pred b) \<subseteq> set V" using graph bV unfolding flow_graph_def by blast
  obtain q where fw: "forward succ e d q b" and q: "processed succ e d q" by (rule forward_pred [OF num ord be vis])
  have "q \<in> set (pred b)" using fw graph_edge [OF graph bV] reach_in_graph [OF graph] by (auto simp: forward_def)
  with q obtain p where p: "find (\<lambda>p. idom d p \<noteq> None) (pred b) = Some p"
    by (cases "find (\<lambda>p. idom d p \<noteq> None) (pred b)") (auto simp: find_None_iff processed_def)
  then have pp: "p \<in> set (pred b)" "idom d p \<noteq> None" by (auto simp: find_Some_iff)
  then have ppr: "processed succ e d p" using tree_unreached [OF tree, of p] preds by (auto simp: processed_def)
  moreover have "nearest d e {p} p" by (simp add: nearest_def)
  ultimately obtain n where n: "meet_preds d p (pred b) p = Some (Inr n)" "processed succ e d n"
    "nearest d e ({p} \<union> {q \<in> set (pred b). processed succ e d q}) n"
    using meet_preds_spec [OF tree num preds, of p "{p}" p] by auto
  have "{p} \<union> {q \<in> set (pred b). processed succ e d q} = {p. processed succ e d p \<and> b \<in> set (succ p)}"
    using ppr pp(1) graph_edge [OF graph bV] reach_in_graph [OF graph] by (auto simp: processed_def)
  with n have near: "nearest d e {p. processed succ e d p \<and> b \<in> set (succ p)} n" by simp
  have v: "visit_ok succ e d b n" by (rule visit_ok_meet [OF tree num ord be pend vis n(2) near])
  have "sweep_ok succ V e rest (set_idom b (Some n) d)"
    using num tree_visit [OF tree v] sound_visit [OF tree sound v fw q] pending_visit [OF tree ord pend v]
      visited_visit [OF tree ord vis v] by (simp add: sweep_ok_def)
  with p n(1) v that show thesis by blast
qed

lemma sweep_skip_entry: "sweep_ok succ V e (e # rest) d \<Longrightarrow> sweep_ok succ V e rest d"
  using tree_root [of succ V e d] unfolding sweep_ok_def pending_def visited_ok_def by auto

lemma idom_sweep_spec:
  assumes graph: "flow_graph succ pred V e"
  shows "sweep_ok succ V e rest d \<Longrightarrow> reverse_post_order d = us @ rest \<Longrightarrow>
    \<exists>ch' d'. idom_sweep pred e rest ch d = Some (Inr (ch', d')) \<and> sweep_ok succ V e [] d' \<and> same_but_idom d d' \<and>
      rank d' \<le> rank d \<and> (\<forall>b. \<not> reach succ e b \<longrightarrow> idom d' b = idom d b) \<and>
      (if ch' = ch \<and> d' = d then \<forall>b \<in> set rest. settled succ e d b else ch' \<and> rank d' < rank d)"
proof (induction rest arbitrary: us ch d)
  case Nil
  then show ?case by (simp add: returnP_def same_but_idom_refl)
next
  case (Cons b rest)
  show ?case
  proof (cases "b = e")
    case True
    with Cons.prems sweep_skip_entry have "sweep_ok succ V e rest d" "reverse_post_order d = (us @ [b]) @ rest" by auto
    from Cons.IH [OF this, of ch] True show ?thesis by (fastforce simp: settled_def)
  next
    case False
    have num: "numbering_ok succ e d" and tree: "idom_tree succ V e d" using Cons.prems by (simp_all add: sweep_ok_def)
    have ord: "split_order succ e d b rest"
    proof -
      from num have "set (us @ b # rest) = {b. reach succ e b}" "sorted_wrt (\<lambda>a b. po d b < po d a) (us @ b # rest)"
        by (simp_all add: numbering_ok_def Cons.prems(2))
      then show ?thesis unfolding split_order_def by (auto simp: sorted_wrt_append)
    qed
    obtain p n where p: "find (\<lambda>p. idom d p \<noteq> None) (pred b) = Some p" "meet_preds d p (pred b) p = Some (Inr n)"
      and v: "visit_ok succ e d b n" and ok: "sweep_ok succ V e rest (set_idom b (Some n) d)"
      by (rule visit_meet [OF graph Cons.prems(1) ord False])
    show ?thesis
    proof (cases "idom d b = Some n")
      case True
      then have "set_idom b (Some n) d = d" by (simp add: set_idom_def fun_upd_idem)
      with ok have "sweep_ok succ V e rest d" "reverse_post_order d = (us @ [b]) @ rest" using Cons.prems(2) by auto
      from Cons.IH [OF this, of ch] p False True v show ?thesis by (fastforce simp: settled_def visit_ok_def)
    next
      case new: False
      have "reverse_post_order (set_idom b (Some n) d) = (us @ [b]) @ rest" using Cons.prems(2) by simp
      from Cons.IH [OF ok this, of True] obtain ch' d' where
        r: "idom_sweep pred e rest True (set_idom b (Some n) d) = Some (Inr (ch', d'))" "sweep_ok succ V e [] d'"
          "same_but_idom (set_idom b (Some n) d) d'" "rank d' \<le> rank (set_idom b (Some n) d)"
          "\<forall>c. \<not> reach succ e c \<longrightarrow> idom d' c = idom (set_idom b (Some n) d) c"
          "ch'" by (elim exE conjE, intro that) (simp_all split: if_splits)
      have less: "rank d' < rank d" using r(4) rank_visit [OF tree num v new] by simp
      then have "d' \<noteq> d" by auto
      moreover have "idom d' c = idom d c" if "\<not> reach succ e c" for c using r(5) that v by (auto simp: visit_ok_def)
      moreover have "same_but_idom d d'" using r(3) same_but_idom_set same_but_idom_trans by blast
      ultimately show ?thesis using p False new r(1,2,6) less by auto
    qed
  qed
qed

lemma sweep_again:
  assumes ok: "sweep_ok succ V e [] d"
  shows "sweep_ok succ V e rest d"
proof -
  have tree: "idom_tree succ V e d" using ok by (simp add: sweep_ok_def)
  have vis: "idom d c \<noteq> None" "\<And>p a. c \<noteq> e \<Longrightarrow> forward succ e d p c \<Longrightarrow> idom d c = Some a \<Longrightarrow> anc d e p a"
    if "reach succ e c" for c
    using ok that by (simp_all add: sweep_ok_def visited_ok_def)
  have meets: "(\<forall>z \<in> set rest. anc d e a z \<longrightarrow> anc d e p z) \<and> (\<forall>x. anc d e p x \<and> po d a \<le> po d x \<longrightarrow> anc d e a x)"
    if "c \<noteq> e" "forward succ e d p c" "idom d c = Some a" for c p a
  proof -
    have "reach succ e p" "reach succ e c" using that(2) reach_step by (auto simp: forward_def)
    then have "processed succ e d p" "anc d e p a" using vis that by (auto simp: processed_def)
    with anc_linear [OF tree] anc_trans show ?thesis by blast
  qed
  have "pending succ e rest d"
    unfolding pending_def
  proof (rule conjI [OF _ disjI2 [OF conjI]])
    show "\<forall>c \<in> set rest. \<forall>p a. c \<noteq> e \<and> forward succ e d p c \<and> idom d c = Some a \<longrightarrow>
      (\<forall>z \<in> set rest. anc d e a z \<longrightarrow> anc d e p z) \<and> (\<forall>x. anc d e p x \<and> po d a \<le> po d x \<longrightarrow> anc d e a x)"
      using meets by blast
  qed (use ok vis(1) in \<open>simp_all add: sweep_ok_def pending_def\<close>)
  moreover have "visited_ok succ e rest d" unfolding visited_ok_def using vis by blast
  ultimately show ?thesis using ok by (simp add: sweep_ok_def)
qed

lemma idom_loop_spec:
  assumes graph: "flow_graph succ pred V e"
  shows "sweep_ok succ V e (reverse_post_order d) d \<Longrightarrow>
    \<exists>d'. idom_loop pred e d = Some (Inr d') \<and> sweep_ok succ V e [] d' \<and> same_but_idom d d' \<and>
      (\<forall>b. \<not> reach succ e b \<longrightarrow> idom d' b = idom d b) \<and> (\<forall>b. reach succ e b \<longrightarrow> settled succ e d' b)"
proof (induction "rank d" arbitrary: d rule: less_induct)
  case less
  have "reverse_post_order d = [] @ reverse_post_order d" by simp
  from idom_sweep_spec [OF graph less.prems this, of False] obtain ch' d' where
    run: "idom_sweep pred e (reverse_post_order d) False d = Some (Inr (ch', d'))" and ok: "sweep_ok succ V e [] d'"
    and same: "same_but_idom d d'" and off: "\<forall>b. \<not> reach succ e b \<longrightarrow> idom d' b = idom d b"
    and last: "if ch' = False \<and> d' = d then \<forall>b \<in> set (reverse_post_order d). settled succ e d b else ch' \<and> rank d' < rank d"
    by (elim exE conjE) (rule that)
  show ?case
  proof (cases ch')
    case True
    with last have "rank d' < rank d" by simp
    from less.hyps [OF this sweep_again [OF ok]] obtain d'' where "idom_loop pred e d' = Some (Inr d'')"
      "sweep_ok succ V e [] d''" "same_but_idom d' d''" "\<forall>b. \<not> reach succ e b \<longrightarrow> idom d'' b = idom d' b"
      "\<forall>b. reach succ e b \<longrightarrow> settled succ e d'' b" by (elim exE conjE) (rule that)
    moreover from this(3) same have "same_but_idom d d''" using same_but_idom_trans by blast
    ultimately show ?thesis using run True off by (subst idom_loop.simps) auto
  next
    case False
    then have "d' = d" and all: "\<forall>b \<in> set (reverse_post_order d). settled succ e d b" using last by (auto split: if_splits)
    have "set (reverse_post_order d) = {b. reach succ e b}" using less.prems by (simp add: sweep_ok_def numbering_ok_def)
    with all have "\<forall>b. reach succ e b \<longrightarrow> settled succ e d b" by auto
    with run False \<open>d' = d\<close> ok same off show ?thesis by (subst idom_loop.simps) (auto simp: returnP_def)
  qed
qed

lemma settled_dominates:
  assumes ok: "sweep_ok succ V e [] d" and settled: "\<forall>b. reach succ e b \<longrightarrow> settled succ e d b" and b: "reach succ e b"
  shows "anc d e b a \<longleftrightarrow> dominates succ e a b"
proof
  have proc: "processed succ e d c" if "reach succ e c" for c
    using ok that by (simp add: sweep_ok_def visited_ok_def processed_def)
  assume "dominates succ e a b"
  then show "anc d e b a" using ok proc [OF b] by (auto simp: sweep_ok_def idom_sound_def)
next
  have proc: "processed succ e d c" if "reach succ e c" for c
    using ok that by (simp add: sweep_ok_def visited_ok_def processed_def)
  assume ba: "anc d e b a"
  have "a \<in> set \<pi>" if "walk succ e \<pi> b" for \<pi>
    using that ba
  proof (induction rule: walk.induct)
    case start
    then show ?case by (auto simp: anc_cases [of d e e])
  next
    case (step \<pi> p b)
    have p: "reach succ e p" using step.hyps(1) by (auto simp: reach_def)
    have rb: "reach succ e b" by (rule reach_step [OF p step.hyps(2)])
    from step.prems consider "b = a" | i where "b \<noteq> e" "idom d b = Some i" "anc d e i a" by (auto simp: anc_cases [of d e b])
    then show ?case
    proof cases
      case 2
      with settled rb have "anc d e p i" using proc [OF p] step.hyps(2) by (auto simp: settled_def nearest_def)
      with 2 have "anc d e p a" using anc_trans by blast
      with step.IH show ?thesis by simp
    qed simp
  qed
  then show "dominates succ e a b" by (simp add: dominates_def)
qed

definition idom_correct :: "(nat \<Rightarrow> nat list) \<Rightarrow> nat list \<Rightarrow> nat \<Rightarrow> (nat \<Rightarrow> nat option) \<Rightarrow> bool" where
  "idom_correct succ V e i \<longleftrightarrow> i e = Some e \<and> (\<forall>b \<in> set V. \<not> reach succ e b \<longrightarrow> i b = None) \<and>
     (\<forall>b \<in> set V. reach succ e b \<and> b \<noteq> e \<longrightarrow> (\<exists>a. i b = Some a \<and> immediately_dominates succ e a b))"

lemma settled_immediate:
  assumes ok: "sweep_ok succ V e [] d" and settled: "\<forall>b. reach succ e b \<longrightarrow> settled succ e d b"
  shows "idom_correct succ V e (idom d)"
  unfolding idom_correct_def
proof (intro conjI ballI impI)
  have tree: "idom_tree succ V e d" using ok by (simp add: sweep_ok_def)
  show "idom d e = Some e" by (rule tree_root [OF tree])
  show "idom d b = None" if "b \<in> set V" "\<not> reach succ e b" for b
    using tree_unreached [OF tree that(1)] that(2) by blast
  fix b assume b: "reach succ e b \<and> b \<noteq> e"
  with settled obtain a where a: "idom d b = Some a" by (auto simp: settled_def)
  note dom = settled_dominates [OF ok settled]
  have ra: "reach succ e a" "po d b < po d a" using tree_parent [OF tree _ _ a] b by (auto simp: processed_def)
  have "dominates succ e c a" if "dominates succ e c b" "c \<noteq> b" for c
  proof -
    from that b dom have "anc d e b c" by blast
    with a that(2) have "anc d e a c" by (auto simp: anc_cases [of d e b])
    with dom [OF ra(1)] show ?thesis by blast
  qed
  moreover have "dominates succ e a b" using dom b anc_parent a by blast
  ultimately have "immediately_dominates succ e a b" using ra(2) by (auto simp: immediately_dominates_def)
  with a show "\<exists>a. idom d b = Some a \<and> immediately_dominates succ e a b" by blast
qed

lemma fold_clear_idom:
  "idom (fold (\<lambda>b. set_idom b None) bs d) b = (if b \<in> set bs then None else idom d b)"
  "same_but_idom d (fold (\<lambda>b. set_idom b None) bs d)"
proof (induction bs arbitrary: d)
  case (Cons c bs)
  { case 1 then show ?case by (simp add: Cons(1)) }
  { case 2 then show ?case using same_but_idom_trans [OF same_but_idom_set Cons(2)] by simp }
qed (simp_all add: same_but_idom_refl)

lemma create_idom_spec:
  assumes graph: "flow_graph succ pred V e" and num: "numbering_ok succ e d"
  obtains d' where "create_idom pred V e d = Some (Inr d')" and "same_but_idom d d'"
    and "idom_correct succ V e (idom d')" and "\<And>b. b \<notin> set V \<Longrightarrow> idom d' b = idom d b"
    and "\<And>a b. reach succ e b \<Longrightarrow> anc d' e b a \<longleftrightarrow> dominates succ e a b"
    and "idom_tree succ V e d'"
proof -
  define d1 where "d1 = set_idom e (Some e) (fold (\<lambda>b. set_idom b None) V d)"
  have V: "b \<in> set V" if "reach succ e b" for b using reach_in_graph [OF graph that] .
  have id: "idom d1 b = (if b = e then Some e else if b \<in> set V then None else idom d b)" for b
    by (simp add: d1_def fold_clear_idom)
  have same: "same_but_idom d d1"
    unfolding d1_def by (rule same_but_idom_trans [OF fold_clear_idom(2) same_but_idom_set])
  have only: "b = e" if "processed succ e d1 b" for b using that V by (auto simp: processed_def id split: if_splits)
  have "idom_tree succ V e d1" unfolding idom_tree_def using V by (auto simp: id)
  moreover have "idom_sound succ e d1"
  proof -
    have root: "a = e" if "dominates succ e a e" for a using that walk.start [of succ e] by (auto simp: dominates_def)
    have "anc d1 e b a" if "processed succ e d1 b" "dominates succ e a b" for a b
    proof -
      have "b = e" by (rule only [OF that(1)])
      with that(2) root have "a = e" by blast
      with \<open>b = e\<close> show ?thesis by simp
    qed
    with V show ?thesis unfolding idom_sound_def by (auto simp: id)
  qed
  moreover have "pending succ e (reverse_post_order d1) d1"
    unfolding pending_def using only num V by (auto simp: id numbering_ok_def same_but_idomD [OF same])
  moreover have "visited_ok succ e (reverse_post_order d1) d1"
    using num by (simp add: visited_ok_def numbering_ok_def same_but_idomD [OF same])
  ultimately have "sweep_ok succ V e (reverse_post_order d1) d1"
    using num by (simp add: sweep_ok_def same_but_idomD [OF same])
  from idom_loop_spec [OF graph this] obtain d' where run: "idom_loop pred e d1 = Some (Inr d')"
    and ok: "sweep_ok succ V e [] d'" and same': "same_but_idom d1 d'"
    and off: "\<forall>b. \<not> reach succ e b \<longrightarrow> idom d' b = idom d1 b" and all: "\<forall>b. reach succ e b \<longrightarrow> settled succ e d' b"
    by (elim exE conjE) (rule that)
  show thesis
  proof (rule that)
    show "create_idom pred V e d = Some (Inr d')" using run by (simp add: create_idom_def d1_def)
    show "same_but_idom d d'" by (rule same_but_idom_trans [OF same same'])
    show "idom_correct succ V e (idom d')" by (rule settled_immediate [OF ok all])
    show "anc d' e b a \<longleftrightarrow> dominates succ e a b" if "reach succ e b" for a b by (rule settled_dominates [OF ok all that])
    show "idom_tree succ V e d'" using ok by (simp add: sweep_ok_def)
    fix b assume "b \<notin> set V"
    moreover from this V have "\<not> reach succ e b" "b \<noteq> e" by auto
    ultimately show "idom d' b = idom d b" using off by (simp add: id)
  qed
qed

end
