(* ===== verification/DomFrontier.thy ===== *)
theory DomFrontier
  imports DomIdom
begin

text \<open>
  The walks of \<open>create_dominance_frontier\<close>: from a predecessor of a join up to the
  immediate dominator of the join. A walk ends when predecessor and join are both reachable
  or both not; it never ends when a reachable join has an unreachable predecessor.
\<close>

section \<open>One walk\<close>

lemma add_dominance_frontier_simps [simp]:
  "idom (add_dominance_frontier b c d) = idom d"
  "reverse_post_order (add_dominance_frontier b c d) = reverse_post_order d"
  "post_order_id (add_dominance_frontier b c d) = post_order_id d"
  "dom_tree_succ_blocks (add_dominance_frontier b c d) = dom_tree_succ_blocks d"
  "dom_frontier (add_dominance_frontier b c d) = (dom_frontier d)(b := set_insert c (dom_frontier d b))"
  by (simp_all add: add_dominance_frontier_def)

lemma set_set_insert [simp]: "set (set_insert x xs) = insert x (set xs)"
  by (simp add: set_insert_def set_insort_key insert_absorb)

definition frontier_adds :: "(nat option \<times> nat) set \<Rightarrow> dominators \<Rightarrow> dominators \<Rightarrow> bool" where
  "frontier_adds S d d' \<longleftrightarrow> d' = d\<lparr>dom_frontier := dom_frontier d'\<rparr> \<and>
     (\<forall>b. set (dom_frontier d' b) = set (dom_frontier d b) \<union> {y. (b, y) \<in> S})"

lemma frontier_adds_refl: "frontier_adds {} d d"
  by (simp add: frontier_adds_def)

lemma frontier_adds_trans:
  assumes "frontier_adds S d d'" and "frontier_adds T d' d''"
  shows "frontier_adds (S \<union> T) d d''"
proof -
  from assms obtain F G where d': "d' = d\<lparr>dom_frontier := F\<rparr>" and d'': "d'' = d'\<lparr>dom_frontier := G\<rparr>"
    unfolding frontier_adds_def by blast
  show ?thesis using assms unfolding frontier_adds_def d'' d' by auto
qed

lemma frontier_adds_one: "frontier_adds {(b, y)} d (add_dominance_frontier b y d)"
  by (auto simp: frontier_adds_def add_dominance_frontier_def)

lemma frontier_addsD:
  assumes "frontier_adds S d d'"
  shows "idom d' = idom d" "reverse_post_order d' = reverse_post_order d" "post_order_id d' = post_order_id d"
    "dom_tree_succ_blocks d' = dom_tree_succ_blocks d" "po d' = po d"
    "set (dom_frontier d' b) = set (dom_frontier d b) \<union> {y. (b, y) \<in> S}"
proof -
  from assms obtain F where "d' = d\<lparr>dom_frontier := F\<rparr>" by (auto simp: frontier_adds_def)
  then show "idom d' = idom d" "reverse_post_order d' = reverse_post_order d" "post_order_id d' = post_order_id d"
    "dom_tree_succ_blocks d' = dom_tree_succ_blocks d" "po d' = po d" by (simp_all add: po_def fun_eq_iff)
  show "set (dom_frontier d' b) = set (dom_frontier d b) \<union> {y. (b, y) \<in> S}" using assms by (simp add: frontier_adds_def)
qed

lemma anc_cong_idom: "idom d' = idom d \<Longrightarrow> anc d' = anc d"
  by (simp add: anc_def fun_eq_iff)

text \<open>The blocks that a walk from \<open>p\<close> to its ancestor \<open>s\<close> passes.\<close>

lemma frontier_walk_up:
  assumes "anc i e p s" and "idom_tree succ V e i" and "reach succ e p" and "idom d = idom i"
  shows "\<exists>d'. frontier_walk (Some s) y (Some p) d = Some (Inr d') \<and>
    frontier_adds {(Some b, y) |b. anc i e p b \<and> anc i e b s \<and> b \<noteq> s} d d'"
  using assms(1,3,4)
proof (induction arbitrary: d rule: anc_induct)
  case refl
  have "b = s" if "anc i e s b" "anc i e b s" for b
  proof -
    have "reach succ e s" using refl by simp
    then show ?thesis
      using anc_po [OF assms(2) that(1)] anc_po(1) [OF assms(2) that(2)] anc_processed [OF assms(2) that(1)]
      by (metis anc_cases assms(2) leD option.distinct(1) processed_def that(1) tree_root)
  qed
  then have none: "{(Some b, y) |b. anc i e s b \<and> anc i e b s \<and> b \<noteq> s} = {}" by blast
  show ?case unfolding none by (subst frontier_walk.simps) (simp add: returnP_def frontier_adds_refl)
next
  case (up p a)
  let ?d = "add_dominance_frontier (Some p) y d"
  have ra: "reach succ e a" "po i p < po i a"
    using tree_parent [OF assms(2) up.prems(1) up.hyps(1,2)] by (auto simp: processed_def)
  with anc_po(1) [OF assms(2) up.hyps(3)] have ps: "p \<noteq> s" by auto
  have "idom ?d = idom i" using up.prems(2) by simp
  from up.IH [OF ra(1) this] obtain d' where run: "frontier_walk (Some s) y (Some a) ?d = Some (Inr d')"
    and adds: "frontier_adds {(Some b, y) |b. anc i e a b \<and> anc i e b s \<and> b \<noteq> s} ?d d'" by blast
  have "anc i e p s" using up.hyps by (auto intro: anc_up)
  then have "{(Some p, y)} \<union> {(Some b, y) |b. anc i e a b \<and> anc i e b s \<and> b \<noteq> s} =
      {(Some b, y) |b. anc i e p b \<and> anc i e b s \<and> b \<noteq> s}"
    using ps up.hyps(1,2) by (auto simp: anc_cases [of i e p])
  with frontier_adds_trans [OF frontier_adds_one adds] have
    "frontier_adds {(Some b, y) |b. anc i e p b \<and> anc i e b s \<and> b \<noteq> s} d d'" by simp
  moreover have "frontier_walk (Some s) y (Some p) d = Some (Inr d')"
    using run ps up.hyps(2) up.prems(2) by (subst frontier_walk.simps) simp
  ultimately show ?case by blast
qed

text \<open>A walk that has reached null goes on for ever, whatever was inserted before.\<close>

lemma frontier_walk_null_never:
  assumes "frontier_walk stop y runner d = Some r"
  shows "runner = None \<longrightarrow> stop \<noteq> None \<longrightarrow> False"
proof (rule frontier_walk.raw_induct [where P = "\<lambda>stop y runner d r. runner = None \<longrightarrow> stop \<noteq> None \<longrightarrow> False",
      OF _ assms], intro impI)
  fix walk :: "nat option \<Rightarrow> nat \<Rightarrow> nat option \<Rightarrow> dominators \<Rightarrow> dominators run" and stop y runner d r
  assume "\<And>stop y runner d r. walk stop y runner d = Some r \<Longrightarrow> runner = None \<longrightarrow> stop \<noteq> None \<longrightarrow> False"
    and "(if runner \<noteq> stop
      then walk stop y (Option.bind runner (idom d)) (add_dominance_frontier runner y d)
      else returnP d) = Some r"
    and "runner = None" "stop \<noteq> None"
  then show False by simp
qed

lemma frontier_walk_null: "frontier_walk (Some s) y None d = None"
  using frontier_walk_null_never [of "Some s" y None d] by (cases "frontier_walk (Some s) y None d") auto

lemma frontier_walk_unreachable:
  assumes "idom d p = None"
  shows "frontier_walk (Some s) y (Some p) d = (if p = s then returnP d else None)"
  by (subst frontier_walk.simps) (simp add: assms frontier_walk_null)

lemma frontier_walk_both_unreachable:
  assumes "idom d p = None"
  shows "frontier_walk None y (Some p) d = Some (Inr (add_dominance_frontier (Some p) y d))"
  by (subst frontier_walk.simps, subst frontier_walk.simps) (simp add: assms returnP_def)

section \<open>All walks of a function\<close>

definition tree_of :: "(nat \<Rightarrow> nat list) \<Rightarrow> nat list \<Rightarrow> nat \<Rightarrow> dominators \<Rightarrow> bool" where
  "tree_of succ V e i \<longleftrightarrow> idom_tree succ V e i \<and> idom_correct succ V e (idom i) \<and>
     (\<forall>b a. reach succ e b \<longrightarrow> (anc i e b a \<longleftrightarrow> dominates succ e a b))"

definition joins_reachable :: "(nat \<Rightarrow> nat list) \<Rightarrow> (nat \<Rightarrow> nat list) \<Rightarrow> nat list \<Rightarrow> nat \<Rightarrow> bool" where
  "joins_reachable succ pred V e \<longleftrightarrow>
     (\<forall>y \<in> set V. reach succ e y \<and> 2 \<le> length (pred y) \<longrightarrow> (\<forall>p \<in> set (pred y). reach succ e p))"

definition walked :: "(nat \<Rightarrow> nat list) \<Rightarrow> nat \<Rightarrow> dominators \<Rightarrow> nat \<Rightarrow> nat \<Rightarrow> nat \<Rightarrow> bool" where
  "walked succ e i y p b \<longleftrightarrow> (if reach succ e y then \<exists>s. idom i y = Some s \<and> anc i e p b \<and> anc i e b s \<and> b \<noteq> s else b = p)"

definition walked_to :: "(nat \<Rightarrow> nat list) \<Rightarrow> (nat \<Rightarrow> nat list) \<Rightarrow> nat \<Rightarrow> dominators \<Rightarrow> nat set \<Rightarrow> (nat option \<times> nat) set" where
  "walked_to succ pred e i Y = {(Some b, y) |b y. y \<in> Y \<and> 2 \<le> length (pred y) \<and> (\<exists>p \<in> set (pred y). walked succ e i y p b)}"

lemma stop_above:
  assumes tree: "tree_of succ V e i" and graph: "flow_graph succ pred V e"
    and y: "reach succ e y" and p: "p \<in> set (pred y)" "reach succ e p"
  obtains s where "idom i y = Some s" and "anc i e p s" and "reach succ e s"
proof (cases "y = e")
  case True
  have "dominates succ e e p" using walk_ends by (fastforce simp: dominates_def)
  then have "anc i e p e" using tree p(2) by (simp add: tree_of_def)
  moreover have "idom i e = Some e" using tree tree_root unfolding tree_of_def by blast
  ultimately show thesis using that True by simp
next
  case False
  have yV: "y \<in> set V" using reach_in_graph [OF graph y] .
  with tree y False obtain s where s: "idom i y = Some s" "immediately_dominates succ e s y"
    unfolding tree_of_def idom_correct_def by blast
  then have "dominates succ e s p" using dominates_pred graph_edge [OF graph yV] p(1) by (auto simp: immediately_dominates_def)
  then have "anc i e p s" using tree p(2) by (simp add: tree_of_def)
  moreover have "reach succ e s" using tree_parent(1) [OF _ y False s(1)] tree by (auto simp: tree_of_def processed_def)
  ultimately show thesis using that s(1) by blast
qed

lemma frontier_walk_cases:
  assumes tree: "tree_of succ V e i" and graph: "flow_graph succ pred V e" and y: "y \<in> set V" and p: "p \<in> set (pred y)"
    and d: "idom d = idom i"
  shows "if reach succ e y \<and> \<not> reach succ e p then frontier_walk (idom d y) y (Some p) d = None
    else \<exists>d'. frontier_walk (idom d y) y (Some p) d = Some (Inr d') \<and>
      frontier_adds {(Some b, y) |b. walked succ e i y p b} d d'"
proof (cases "reach succ e y")
  case True
  have itree: "idom_tree succ V e i" using tree by (simp add: tree_of_def)
  have pV: "p \<in> set V" using graph_edge [OF graph y] p by blast
  show ?thesis
  proof (cases "reach succ e p")
    case rp: True
    obtain s where s: "idom i y = Some s" "anc i e p s" "reach succ e s" by (rule stop_above [OF tree graph True p rp])
    from frontier_walk_up [OF s(2) itree rp d, of y] s(1) d True rp show ?thesis by (simp add: walked_def)
  next
    case False
    then have "idom i p = None" using tree_unreached [OF itree pV] by blast
    moreover obtain s where s: "idom i y = Some s" "reach succ e s"
    proof (cases "y = e")
      case True
      then show thesis using that tree_root [OF itree] by simp
    next
      case ne: False
      with tree True y obtain s where "idom i y = Some s" by (auto simp: tree_of_def idom_correct_def)
      then show thesis using that tree_parent(1) [OF itree True ne] by (auto simp: processed_def)
    qed
    moreover from s False have "p \<noteq> s" by auto
    ultimately show ?thesis using frontier_walk_unreachable [of d p s y] True False d by simp
  qed
next
  case False
  have itree: "idom_tree succ V e i" using tree by (simp add: tree_of_def)
  have "\<not> reach succ e p" using False graph_edge [OF graph y] p reach_step by blast
  then have "idom d p = None" "idom d y = None"
    using tree_unreached [OF itree] graph_edge [OF graph y] p y False d by (metis, metis)
  then show ?thesis using frontier_walk_both_unreachable [of d p y] frontier_adds_one [of "Some p" y d] False by (simp add: walked_def)
qed

lemma frontier_block_returns:
  assumes tree: "tree_of succ V e i" and graph: "flow_graph succ pred V e" and joins: "joins_reachable succ pred V e"
    and y: "y \<in> set V" and d: "idom d = idom i"
  shows "\<exists>d'. frontier_block pred y d = Some (Inr d') \<and> frontier_adds (walked_to succ pred e i {y}) d d' \<and> idom d' = idom i"
proof (cases "2 \<le> length (pred y)")
  case True
  have "\<exists>d'. foldP (\<lambda>p d. frontier_walk (idom d y) y (Some p) d) (pred y) d = Some (Inr d') \<and>
    frontier_adds {(Some b, y) |b. \<exists>p \<in> set (pred y). walked succ e i y p b} d d' \<and> idom d' = idom i"
  proof (rule foldP_returns [where P = "\<lambda>d' :: dominators. idom d' = idom i" and
        R = "\<lambda>A. frontier_adds {(Some b, y) |b. \<exists>p \<in> A. walked succ e i y p b}"])
    fix p and d1 :: dominators assume p: "p \<in> set (pred y)" and d1: "idom d1 = idom i"
    have "\<not> (reach succ e y \<and> \<not> reach succ e p)" using joins y True p by (auto simp: joins_reachable_def)
    with frontier_walk_cases [OF tree graph y p d1] obtain d' where
      "frontier_walk (idom d1 y) y (Some p) d1 = Some (Inr d')" "frontier_adds {(Some b, y) |b. walked succ e i y p b} d1 d'"
      by (auto split: if_splits)
    with d1 frontier_addsD(1) show "\<exists>d'. frontier_walk (idom d1 y) y (Some p) d1 = Some (Inr d') \<and>
        frontier_adds {(Some b, y) |b. \<exists>p \<in> {p}. walked succ e i y p b} d1 d' \<and> idom d' = idom i" by auto
  next
    fix A B d1 d2 d3
    assume "frontier_adds {(Some b, y) |b. \<exists>p \<in> A. walked succ e i y p b} d1 d2"
      "frontier_adds {(Some b, y) |b. \<exists>p \<in> B. walked succ e i y p b} d2 d3"
    from frontier_adds_trans [OF this]
    show "frontier_adds {(Some b, y) |b. \<exists>p \<in> A \<union> B. walked succ e i y p b} d1 d3"
      by (rule back_subst [where P = "\<lambda>S. frontier_adds S d1 d3"]) auto
  qed (simp_all add: d frontier_adds_refl)
  moreover have "walked_to succ pred e i {y} = {(Some b, y) |b. \<exists>p \<in> set (pred y). walked succ e i y p b}"
    using True by (auto simp: walked_to_def)
  moreover have "frontier_block pred y d = foldP (\<lambda>p d. frontier_walk (idom d y) y (Some p) d) (pred y) d"
    using True by (simp add: frontier_block_def)
  ultimately show ?thesis by simp
next
  case False
  then have "walked_to succ pred e i {y} = {}" by (auto simp: walked_to_def)
  with False d show ?thesis by (simp add: frontier_block_def frontier_adds_refl returnP_def)
qed

lemma frontier_block_hangs:
  assumes tree: "tree_of succ V e i" and graph: "flow_graph succ pred V e" and y: "y \<in> set V" "reach succ e y"
    and two: "2 \<le> length (pred y)" and p: "p \<in> set (pred y)" "\<not> reach succ e p" and d: "idom d = idom i"
  shows "frontier_block pred y d = None"
proof -
  have "foldP (\<lambda>p d. frontier_walk (idom d y) y (Some p) d) (pred y) d = None"
  proof (rule foldP_hangs [OF p(1), where P = "\<lambda>d :: dominators. idom d = idom i"])
    fix d1 :: dominators assume "idom d1 = idom i"
    from frontier_walk_cases [OF tree graph y(1) p(1) this] y(2) p(2)
    show "frontier_walk (idom d1 y) y (Some p) d1 = None" by simp
  next
    fix q and d1 :: dominators and r
    assume q: "q \<in> set (pred y)" and d1: "idom d1 = idom i" and r: "frontier_walk (idom d1 y) y (Some q) d1 = Some r"
    from frontier_walk_cases [OF tree graph y(1) q d1] r obtain d' where "r = Inr d'"
      "frontier_adds {(Some b, y) |b. walked succ e i y q b} d1 d'" by (auto split: if_splits)
    with d1 frontier_addsD(1) show "\<exists>d'. r = Inr d' \<and> idom d' = idom i" by fastforce
  qed (rule d)
  with two show ?thesis by (simp add: frontier_block_def)
qed

lemma frontier_block_result:
  assumes tree: "tree_of succ V e i" and graph: "flow_graph succ pred V e" and y: "y \<in> set V" and d: "idom d = idom i"
    and r: "frontier_block pred y d = Some r"
  shows "\<exists>d'. r = Inr d' \<and> idom d' = idom i"
proof (cases "reach succ e y \<and> 2 \<le> length (pred y) \<and> (\<exists>p \<in> set (pred y). \<not> reach succ e p)")
  case True
  then obtain p where "p \<in> set (pred y)" "\<not> reach succ e p" by blast
  with frontier_block_hangs [OF tree graph y _ _ this d] True r show ?thesis by simp
next
  case False
  have "\<exists>d'. foldP (\<lambda>p d. frontier_walk (idom d y) y (Some p) d) (pred y) d = Some (Inr d') \<and> True \<and> idom d' = idom i"
    if two: "2 \<le> length (pred y)"
  proof (rule foldP_returns [where P = "\<lambda>d :: dominators. idom d = idom i" and R = "\<lambda>_ _ _. True"])
    fix p and d1 :: dominators assume p: "p \<in> set (pred y)" and d1: "idom d1 = idom i"
    from frontier_walk_cases [OF tree graph y p d1] False two p obtain d' where
      "frontier_walk (idom d1 y) y (Some p) d1 = Some (Inr d')" "frontier_adds {(Some b, y) |b. walked succ e i y p b} d1 d'"
      by (auto split: if_splits)
    with d1 frontier_addsD(1) show "\<exists>d'. frontier_walk (idom d1 y) y (Some p) d1 = Some (Inr d') \<and> True \<and> idom d' = idom i"
      by fastforce
  qed (simp_all add: d)
  with r d show ?thesis by (auto simp: frontier_block_def returnP_def split: if_splits)
qed

lemma create_dominance_frontier_spec:
  assumes tree: "tree_of succ V e d" and graph: "flow_graph succ pred V e"
  shows "if joins_reachable succ pred V e
    then \<exists>d'. create_dominance_frontier pred V d = Some (Inr d') \<and> frontier_adds (walked_to succ pred e d (set V)) d d'
    else create_dominance_frontier pred V d = None"
proof (cases "joins_reachable succ pred V e")
  case True
  have "\<exists>d'. foldP (frontier_block pred) V d = Some (Inr d') \<and>
    frontier_adds (walked_to succ pred e d (set V)) d d' \<and> idom d' = idom d"
  proof (rule foldP_returns [where P = "\<lambda>d' :: dominators. idom d' = idom d" and
        R = "\<lambda>A. frontier_adds (walked_to succ pred e d A)"])
    fix y and d1 :: dominators assume "y \<in> set V" "idom d1 = idom d"
    then show "\<exists>d'. frontier_block pred y d1 = Some (Inr d') \<and> frontier_adds (walked_to succ pred e d {y}) d1 d' \<and> idom d' = idom d"
      by (rule frontier_block_returns [OF tree graph True])
  next
    fix d1 show "frontier_adds (walked_to succ pred e d {}) d1 d1" by (simp add: walked_to_def frontier_adds_refl)
  next
    fix A B d1 d2 d3
    assume "frontier_adds (walked_to succ pred e d A) d1 d2" "frontier_adds (walked_to succ pred e d B) d2 d3"
    from frontier_adds_trans [OF this] show "frontier_adds (walked_to succ pred e d (A \<union> B)) d1 d3"
      by (rule back_subst [where P = "\<lambda>S. frontier_adds S d1 d3"]) (auto simp: walked_to_def)
  qed simp
  with True show ?thesis by (auto simp: create_dominance_frontier_def)
next
  case False
  then obtain y p where y: "y \<in> set V" "reach succ e y" "2 \<le> length (pred y)" "p \<in> set (pred y)" "\<not> reach succ e p"
    by (auto simp: joins_reachable_def)
  have "foldP (frontier_block pred) V d = None"
  proof (rule foldP_hangs [OF y(1), where P = "\<lambda>d' :: dominators. idom d' = idom d"])
    fix d1 :: dominators assume "idom d1 = idom d"
    then show "frontier_block pred y d1 = None" by (rule frontier_block_hangs [OF tree graph y])
  next
    fix z and d1 :: dominators and r
    assume "z \<in> set V" "idom d1 = idom d" "frontier_block pred z d1 = Some r"
    then show "\<exists>d'. r = Inr d' \<and> idom d' = idom d" by (rule frontier_block_result [OF tree graph])
  qed simp
  with False show ?thesis by (simp add: create_dominance_frontier_def)
qed

section \<open>The frontiers are the dominance frontiers\<close>

definition in_frontier :: "(nat \<Rightarrow> nat list) \<Rightarrow> (nat \<Rightarrow> nat list) \<Rightarrow> nat \<Rightarrow> nat \<Rightarrow> nat \<Rightarrow> bool" where
  "in_frontier succ pred e b y \<longleftrightarrow> (\<exists>p \<in> set (pred y). reach succ e p \<and> dominates succ e b p) \<and>
     \<not> (dominates succ e b y \<and> b \<noteq> y)"

lemma walked_in_frontier:
  assumes tree: "tree_of succ V e i" and graph: "flow_graph succ pred V e" and ye: "y \<noteq> e" and yV: "y \<in> set V"
    and p: "p \<in> set (pred y)" "reach succ e p"
  shows "walked succ e i y p b \<longleftrightarrow> dominates succ e b p \<and> \<not> (dominates succ e b y \<and> b \<noteq> y)"
proof -
  have itree: "idom_tree succ V e i" and anc: "\<And>b a. reach succ e b \<Longrightarrow> anc i e b a \<longleftrightarrow> dominates succ e a b"
    using tree by (simp_all add: tree_of_def)
  have edge: "y \<in> set (succ p)" using graph_edge [OF graph yV] p(1) by blast
  have ry: "reach succ e y" by (rule reach_step [OF p(2) edge])
  obtain s where s: "idom i y = Some s" and sdom: "immediately_dominates succ e s y"
    using tree ry yV ye unfolding tree_of_def idom_correct_def by blast
  have rs: "reach succ e s" "po i y < po i s" using tree_parent [OF itree ry ye s] by (auto simp: processed_def)
  have ps: "anc i e p s" using anc [OF p(2)] dominates_pred sdom edge by (auto simp: immediately_dominates_def)
  have proc: "processed succ e i p"
  proof (cases "p = e")
    case True
    then show ?thesis using tree_entry [OF itree] by simp
  next
    case False
    with tree p(2) reach_in_graph [OF graph p(2)] show ?thesis by (auto simp: tree_of_def idom_correct_def processed_def)
  qed
  have "walked succ e i y p b \<longleftrightarrow> anc i e p b \<and> anc i e b s \<and> b \<noteq> s" using ry s by (simp add: walked_def)
  also have "\<dots> \<longleftrightarrow> dominates succ e b p \<and> \<not> (dominates succ e b y \<and> b \<noteq> y)"
  proof
    assume a: "anc i e p b \<and> anc i e b s \<and> b \<noteq> s"
    have "\<not> (dominates succ e b y \<and> b \<noteq> y)"
    proof
      assume "dominates succ e b y \<and> b \<noteq> y"
      with sdom have "anc i e s b" using anc [OF rs(1)] by (auto simp: immediately_dominates_def)
      with a anc_po [OF itree] rs(1) anc_processed [OF itree _ proc] show False
        by (metis leD processed_def)
    qed
    with a show "dominates succ e b p \<and> \<not> (dominates succ e b y \<and> b \<noteq> y)" using anc [OF p(2)] by blast
  next
    assume no: "dominates succ e b p \<and> \<not> (dominates succ e b y \<and> b \<noteq> y)"
    then have pb: "anc i e p b" using anc [OF p(2)] by blast
    have "\<not> anc i e s b"
    proof
      assume sb: "anc i e s b"
      then have "anc i e y b" by (rule anc_up [OF ye s])
      then have "dominates succ e b y" using anc [OF ry] by blast
      moreover have "b \<noteq> y" using anc_po(1) [OF itree sb rs(1)] rs(2) by auto
      ultimately show False using no by blast
    qed
    moreover from this have "anc i e b s" using anc_linear [OF itree proc] pb ps nat_le_linear by metis
    ultimately show "anc i e p b \<and> anc i e b s \<and> b \<noteq> s" using pb by auto
  qed
  finally show ?thesis .
qed

text \<open>A block with one predecessor is in no frontier.\<close>

lemma frontier_needs_join:
  assumes num: "numbering_ok succ e i" and tree: "tree_of succ V e i" and graph: "flow_graph succ pred V e"
    and ye: "y \<noteq> e" and yV: "y \<in> set V" and f: "in_frontier succ pred e b y"
  shows "2 \<le> length (pred y)"
proof (rule ccontr)
  assume "\<not> ?thesis"
  with f obtain p where one: "pred y = [p]" and p: "reach succ e p" "dominates succ e b p"
    by (cases "pred y"; cases "tl (pred y)") (auto simp: in_frontier_def)
  have only: "a = p" if "reach succ e a" "y \<in> set (succ a)" for a
    using graph_edge [OF graph yV, of a] that one reach_in_graph [OF graph that(1)] by auto
  then have "dominates succ e b y" using dominates_step [OF ye] p(2) by metis
  with f have "b = y" by (auto simp: in_frontier_def)
  with p tree have py: "anc i e p y" by (simp add: tree_of_def)
  have "y \<in> set (succ p)" using graph_edge [OF graph yV, of p] one by simp
  from reach_step [OF p(1) this] num ye obtain q where "reach succ e q" "y \<in> set (succ q)" "po i y < po i q"
    unfolding numbering_ok_def by blast
  with only have "po i y < po i p" by blast
  with anc_po(1) [OF _ py p(1)] tree show False by (auto simp: tree_of_def)
qed

lemma walked_to_in_frontier:
  assumes num: "numbering_ok succ e i" and tree: "tree_of succ V e i" and graph: "flow_graph succ pred V e"
    and joins: "joins_reachable succ pred V e" and b: "reach succ e b" and y: "y \<noteq> e"
  shows "(Some b, y) \<in> walked_to succ pred e i (set V) \<longleftrightarrow> y \<in> set V \<and> in_frontier succ pred e b y"
proof (cases "y \<in> set V")
  case yV: True
  show ?thesis
  proof
    assume "(Some b, y) \<in> walked_to succ pred e i (set V)"
    then obtain p where two: "2 \<le> length (pred y)" and p: "p \<in> set (pred y)" "walked succ e i y p b" by (auto simp: walked_to_def)
    have rp: "reach succ e p"
    proof (cases "reach succ e y")
      case True
      with joins yV two p(1) show ?thesis by (auto simp: joins_reachable_def)
    next
      case False
      with p(2) b show ?thesis by (simp add: walked_def)
    qed
    with walked_in_frontier [OF tree graph y yV p(1) rp] p yV show "y \<in> set V \<and> in_frontier succ pred e b y"
      by (auto simp: in_frontier_def)
  next
    assume f: "y \<in> set V \<and> in_frontier succ pred e b y"
    then obtain p where p: "p \<in> set (pred y)" "reach succ e p" "dominates succ e b p" by (auto simp: in_frontier_def)
    with walked_in_frontier [OF tree graph y yV p(1,2)] f have "walked succ e i y p b" by (auto simp: in_frontier_def)
    with p(1) yV frontier_needs_join [OF num tree graph y yV] f show "(Some b, y) \<in> walked_to succ pred e i (set V)"
      by (auto simp: walked_to_def)
  qed
qed (auto simp: walked_to_def)

end
