(* ===== verification/Scope.thy ===== *)
theory Scope
  imports Prelude
begin

text \<open>
  \<open>Scope\<close> of \<open>include/cminusf_builder.hpp\<close>: a vector of maps from names to
  values, the innermost scope last. The contract its client (the code generator) relies on
  is a locale; what follows from it for nested blocks is proved there.
\<close>

section \<open>The scope stack\<close>

type_synonym 'v scope = "(string \<Rightarrow> 'v option) list"

definition scope_enter :: "'v scope \<Rightarrow> 'v scope" where
  "scope_enter inner = inner @ [Map.empty]"

text \<open>\<open>pop_back\<close> on an empty vector is undefined.\<close>

definition scope_exit :: "'v scope \<Rightarrow> 'v scope result" where
  "scope_exit inner = (if inner = [] then Inl BadIndex else Inr (butlast inner))"

definition in_global :: "'v scope \<Rightarrow> bool" where
  "in_global inner \<longleftrightarrow> length inner = 1"

text \<open>\<open>map::insert\<close> does nothing when the key is there.\<close>

definition scope_push :: "string \<Rightarrow> 'v \<Rightarrow> 'v scope \<Rightarrow> (bool \<times> 'v scope) result" where
  "scope_push nm v inner =
     (if inner = [] then Inl BadIndex
      else case last inner nm of
             Some _ \<Rightarrow> Inr (False, inner)
           | None \<Rightarrow> Inr (True, butlast inner @ [(last inner)(nm \<mapsto> v)]))"

fun find_from :: "string \<Rightarrow> (string \<Rightarrow> 'v option) list \<Rightarrow> 'v option" where
  "find_from nm [] = None"
| "find_from nm (s # ss) = (case s nm of Some v \<Rightarrow> Some v | None \<Rightarrow> find_from nm ss)"

definition scope_find :: "string \<Rightarrow> 'v scope \<Rightarrow> 'v option" where
  "scope_find nm inner = find_from nm (rev inner)"

definition scope_declared :: "string \<Rightarrow> 'v scope \<Rightarrow> bool" where
  "scope_declared nm inner \<longleftrightarrow> inner \<noteq> [] \<and> last inner nm \<noteq> None"

section \<open>The contract\<close>

locale scoping =
  fixes enter :: "'s \<Rightarrow> 's"
    and leave :: "'s \<Rightarrow> 's result"
    and push :: "string \<Rightarrow> 'v \<Rightarrow> 's \<Rightarrow> (bool \<times> 's) result"
    and lookup :: "string \<Rightarrow> 's \<Rightarrow> 'v option"
    and declared :: "string \<Rightarrow> 's \<Rightarrow> bool"
    and level :: "'s \<Rightarrow> nat"
  assumes leave_enter: "leave (enter s) = Inr s"
    and level_enter: "level (enter s) = Suc (level s)"
    and push_returns: "level s > 0 \<Longrightarrow> \<exists>s'. push x v s = Inr (\<not> declared x s, s')"
    and level_push: "push x v s = Inr (b, s') \<Longrightarrow> level s' = level s"
    and leave_push: "push x v s = Inr (b, s') \<Longrightarrow> leave s' = leave s"
    and lookup_enter: "lookup x (enter s) = lookup x s"
    and lookup_push: "push x v s = Inr (b, s') \<Longrightarrow>
      lookup y s' = (if y = x \<and> \<not> declared x s then Some v else lookup y s)"
    and declared_enter: "\<not> declared x (enter s)"
    and declared_push: "push x v s = Inr (b, s') \<Longrightarrow> declared y s' \<longleftrightarrow> y = x \<or> declared y s"

text \<open>What a block does to its environment: declarations and nested blocks.\<close>

datatype 'v scope_cmd = Declare string 'v | Nested "'v scope_cmd list"

context scoping
begin

fun exec :: "'v scope_cmd \<Rightarrow> 's \<Rightarrow> 's result"
and execs :: "'v scope_cmd list \<Rightarrow> 's \<Rightarrow> 's result" where
  "exec (Declare x v) s = bindR (push x v s) (\<lambda>(_, s'). Inr s')"
| "exec (Nested cs) s = bindR (execs cs (enter s)) leave"
| "execs [] s = Inr s"
| "execs (c # cs) s = bindR (exec c s) (execs cs)"

text \<open>A block is left in the environment it was entered with.\<close>

lemma exec_levels:
  "level s > 0 \<Longrightarrow> \<exists>s'. exec c s = Inr s' \<and> level s' = level s \<and> leave s' = leave s"
  "level s > 0 \<Longrightarrow> \<exists>s'. execs cs s = Inr s' \<and> level s' = level s \<and> leave s' = leave s"
proof (induction c s and cs s rule: exec_execs.induct)
  case (1 x v s)
  from push_returns [OF 1] obtain s' where s': "push x v s = Inr (\<not> declared x s, s')" by blast
  with level_push [OF s'] leave_push [OF s'] show ?case by simp
next
  case (2 cs s)
  from "2.IH" obtain s' where "execs cs (enter s) = Inr s'" "leave s' = Inr s"
    by (auto simp: level_enter leave_enter)
  then show ?case by simp
next
  case (4 c cs s)
  from "4.IH"(1) [OF "4.prems"] obtain s1 where s1: "exec c s = Inr s1" "level s1 = level s" "leave s1 = leave s"
    by blast
  with "4.IH"(2) [OF s1(1)] "4.prems" show ?case by auto
qed simp

lemma nested_restores: "exec (Nested cs) s = Inr s"
  using exec_levels(2) [of "enter s" cs] by (auto simp: level_enter leave_enter)

text \<open>The names a list of commands adds to its own scope, the first declaration of a name counting.\<close>

fun first_binding :: "string \<Rightarrow> 'v scope_cmd list \<Rightarrow> 'v option" where
  "first_binding x [] = None"
| "first_binding x (Declare y v # cs) = (if x = y then Some v else first_binding x cs)"
| "first_binding x (Nested _ # cs) = first_binding x cs"

lemma execs_lookup:
  "level s > 0 \<Longrightarrow> execs cs s = Inr s' \<Longrightarrow>
   lookup x s' = (if declared x s then lookup x s
     else case first_binding x cs of Some v \<Rightarrow> Some v | None \<Rightarrow> lookup x s)"
proof (induction cs arbitrary: s)
  case (Cons c cs)
  show ?case
  proof (cases c)
    case (Declare y v)
    with Cons.prems obtain b s1 where push: "push y v s = Inr (b, s1)" and rest: "execs cs s1 = Inr s'" by auto
    from Cons.IH [OF _ rest] level_push [OF push] Cons.prems(1) show ?thesis
      using lookup_push [OF push, of x] declared_push [OF push, of x] Declare by (auto split: option.splits)
  next
    case (Nested ds)
    with Cons nested_restores [of ds s] show ?thesis by simp
  qed
qed (simp split: option.split)

end

interpretation sc: scoping scope_enter scope_exit scope_push scope_find scope_declared length
proof
  fix s s' :: "'v scope" and x y v b
  show "length s > 0 \<Longrightarrow> \<exists>s'. scope_push x v s = Inr (\<not> scope_declared x s, s')"
    by (auto simp: scope_push_def scope_declared_def split: option.splits)
  assume push: "scope_push x v s = Inr (b, s')"
  then obtain ss top where s: "s = ss @ [top]"
    by (cases s rule: rev_exhaust) (auto simp: scope_push_def)
  show "length s' = length s" "scope_exit s' = scope_exit s"
    "scope_find y s' = (if y = x \<and> \<not> scope_declared x s then Some v else scope_find y s)"
    "scope_declared y s' \<longleftrightarrow> y = x \<or> scope_declared y s"
    using push by (auto simp: s scope_push_def scope_exit_def scope_find_def scope_declared_def split: option.splits)
qed (simp_all add: scope_enter_def scope_exit_def scope_find_def scope_declared_def)

text \<open>C35: a block's scope, entered, filled with any declarations and nested blocks and left again, is
  gone without a trace: no step fails and the stack is the one before.\<close>

theorem block_leaves_no_trace: "sc.exec (Nested cs) s = Inr s"
  by (rule sc.nested_restores)

text \<open>C34: inside a scope with at least one level, looking a name up after any declarations and nested
  blocks gives what the name meant if the current scope declared it already (a second
  declaration is ignored), otherwise the first of the new declarations of that name, otherwise
  what it meant in the enclosing scopes; declarations of nested blocks are never seen.\<close>

theorem lookup_after_block_items:
  assumes "s \<noteq> []" and "sc.execs cs s = Inr s'"
  shows "scope_find x s' = (if scope_declared x s then scope_find x s
    else case sc.first_binding x cs of Some v \<Rightarrow> Some v | None \<Rightarrow> scope_find x s)"
  using sc.execs_lookup [OF _ assms(2)] assms(1) by simp

lemma lookup_after_block_items_witness:
  "scope_find ''x'' (projr (sc.execs [Declare ''x'' (1 :: nat), Nested [Declare ''x'' 2], Declare ''x'' 3]
     [Map.empty])) = Some 1"
proof -
  have "sc.execs [Declare ''x'' (1 :: nat), Nested [Declare ''x'' 2], Declare ''x'' 3] [Map.empty] =
      Inr [[''x'' \<mapsto> 1]]"
    by (simp add: scope_push_def scope_enter_def scope_exit_def)
  from lookup_after_block_items [OF _ this, of "''x''"] show ?thesis
    by (simp add: scope_push_def scope_enter_def scope_exit_def scope_declared_def)
qed

end
