(* ===== verification/Codegen.thy ===== *)
theory Codegen
  imports Ir Ast Scope
begin

text \<open>
  \<open>CminusfBuilder\<close>: the visitor of \<open>cminusfc/cminusf_builder.cpp\<close> that
  turns the AST into IR, with \<open>IRBuilder\<close> of \<open>lightir/IRBuilder.h\<close>.
  Each \<open>visit\<close> is a definition \<open>gen_*\<close> that takes what \<open>accept\<close>
  does on its children as arguments; the \<open>accept\<close> functions tie them together. The
  file's global variables are part of the state.
\<close>

section \<open>State\<close>

record cg_state = ir_module +
  BB :: "nat option"               \<comment> \<open>\<open>IRBuilder::BB_\<close>\<close>
  cur_fun :: "nat option"
  cur_value :: "irval option"
  cur_lvalue :: bool
  scope :: "irval scope"

type_synonym 'a cg = "(cg_state, 'a) prog"

definition initial_state :: cg_state where
  "initial_state = ir_module.extend new_module
     \<lparr>BB = None, cur_fun = None, cur_value = None, cur_lvalue = False, scope = []\<rparr>"

definition set_value :: "irval \<Rightarrow> unit cg" where
  "set_value v = modifyS (\<lambda>s. s\<lparr>cur_value := Some v\<rparr>)"

text \<open>\<open>cur_value\<close>, about to be used as an object.\<close>

definition current :: "irval cg" where
  "current = bindS (getS cur_value) derefS"

definition type_of :: "irval \<Rightarrow> ty cg" where
  "type_of v = getS (\<lambda>s. get_type s v)"

definition enterS :: "unit cg" where
  "enterS = modifyS (\<lambda>s. s\<lparr>scope := scope_enter (scope s)\<rparr>)"

definition exitS :: "unit cg" where
  "exitS = bindS (getS scope) (\<lambda>sc. bindS (liftR (scope_exit sc)) (\<lambda>sc'. modifyS (\<lambda>s. s\<lparr>scope := sc'\<rparr>)))"

definition pushS :: "string \<Rightarrow> irval \<Rightarrow> unit cg" where
  "pushS nm v = bindS (getS scope) (\<lambda>sc. bindS (liftR (scope_push nm v sc)) (\<lambda>(_, sc').
     modifyS (\<lambda>s. s\<lparr>scope := sc'\<rparr>)))"

definition findS :: "string \<Rightarrow> irval option cg" where
  "findS nm = getS (\<lambda>s. scope_find nm (scope s))"

section \<open>\<open>IRBuilder\<close>\<close>

definition set_insert_point :: "nat \<Rightarrow> unit cg" where
  "set_insert_point b = modifyS (\<lambda>s. s\<lparr>BB := Some b\<rparr>)"

definition at_bb :: "(nat option \<Rightarrow> irval cg) \<Rightarrow> irval cg" where
  "at_bb f = bindS (getS BB) f"

definition b_iadd where "b_iadd l r = at_bb (create_add l r)"
definition b_isub where "b_isub l r = at_bb (create_sub l r)"
definition b_imul where "b_imul l r = at_bb (create_mul l r)"
definition b_isdiv where "b_isdiv l r = at_bb (create_sdiv l r)"
definition b_fadd where "b_fadd l r = at_bb (create_fadd l r)"
definition b_fsub where "b_fsub l r = at_bb (create_fsub l r)"
definition b_fmul where "b_fmul l r = at_bb (create_fmul l r)"
definition b_fdiv where "b_fdiv l r = at_bb (create_fdiv l r)"
definition b_icmp where "b_icmp op l r = at_bb (create_cmp op l r)"
definition b_fcmp where "b_fcmp op l r = at_bb (create_fcmp op l r)"
definition b_br where "b_br b = at_bb (create_br b)"
definition b_cond_br where "b_cond_br c t f = at_bb (create_cond_br c t f)"
definition b_ret where "b_ret v = at_bb (create_ret v)"
definition b_void_ret where "b_void_ret = at_bb create_void_ret"
definition b_gep where "b_gep p idxs = at_bb (create_gep p idxs)"
definition b_store where "b_store v p = at_bb (create_store v p)"
definition b_alloca where "b_alloca t = at_bb (create_alloca t)"
definition b_zext where "b_zext v t = at_bb (create_zext v t)"
definition b_sitofp where "b_sitofp v t = at_bb (create_sitofp v t)"
definition b_fptosi where "b_fptosi v t = at_bb (create_fptosi v t)"

text \<open>\<open>dynamic_cast<Function *>\<close> of a null pointer is null: the assertion fails.\<close>

definition b_call :: "irval option \<Rightarrow> irval list \<Rightarrow> irval cg" where
  "b_call func args = (case func of Some (V_Fun f) \<Rightarrow> at_bb (CallInst_create f args) | _ \<Rightarrow> failS AssertFailed)"

definition b_load :: "irval \<Rightarrow> irval cg" where
  "b_load p = bindS (type_of p) (\<lambda>t. case get_pointer_element_type t of
     None \<Rightarrow> failS AssertFailed
   | Some e \<Rightarrow> at_bb (LoadInst_create e p))"

definition insert_block_terminated :: "bool cg" where
  "insert_block_terminated = bindS (getS BB) (\<lambda>b. bindS (derefS b) (\<lambda>b. getS (\<lambda>s. get_terminator s b \<noteq> None)))"

section \<open>Declarations\<close>

abbreviation INT32_T :: ty where "INT32_T \<equiv> IntegerTy 32"
abbreviation FLOAT_T :: ty where "FLOAT_T \<equiv> FloatTy"

definition gen_ASTNum :: "ASTNum \<Rightarrow> unit cg" where
  "gen_ASTNum n =
     (if num_type n = TYPE_INT then bindS (ConstantInt_get (i_val n)) set_value
      else bindS (ConstantFP_get (f_val n)) set_value)"

definition gen_ASTVarDeclaration :: "ASTVarDeclaration \<Rightarrow> unit cg" where
  "gen_ASTVarDeclaration d =
     bindS (case vd_num d of
              None \<Rightarrow> returnS (if vd_type d = TYPE_INT then INT32_T else FLOAT_T)
            | Some n \<Rightarrow> liftR (if vd_type d = TYPE_INT then ArrayType_get INT32_T (unat (i_val n))
                              else ArrayType_get FLOAT_T (unat (i_val n)))) (\<lambda>type.
     bindS (getS scope) (\<lambda>sc.
     bindS (if in_global sc
            then bindS (ConstantZero_get type) (\<lambda>z. GlobalVariable_create (vd_id d) type False (Some z))
            else b_alloca type) (\<lambda>varAlloca.
     pushS (vd_id d) varAlloca)))"

definition param_type :: "ASTParam \<Rightarrow> ty" where
  "param_type p =
     (if p_type p = TYPE_INT then (if p_isarray p then PointerTy INT32_T else INT32_T)
      else (if p_isarray p then PointerTy FLOAT_T else FLOAT_T))"

fun gen_params :: "nat \<Rightarrow> nat \<Rightarrow> ASTParam list \<Rightarrow> unit cg" where
  "gen_params f i [] = returnS ()"
| "gen_params f i (p # ps) =
     bindS (b_alloca (param_type p)) (\<lambda>arg_Alloca.
     bindS (b_store (V_Arg f i) arg_Alloca) (\<lambda>_.
     thenS (pushS (p_id p) arg_Alloca)
     (gen_params f (Suc i) ps)))"

definition gen_default_return :: "unit cg" where
  "gen_default_return =
     bindS (getS cur_fun) (\<lambda>f. bindS (derefS f) (\<lambda>f.
     bindS (getS (\<lambda>s. function_return_type (f_type (function_list s ! f)))) (\<lambda>ret_type.
     if is_void_type ret_type then bindS b_void_ret (\<lambda>_. returnS ())
     else if is_float_type ret_type then bindS (ConstantFP_get 0) (\<lambda>c. bindS (b_ret c) (\<lambda>_. returnS ()))
     else bindS (ConstantInt_get 0) (\<lambda>c. bindS (b_ret c) (\<lambda>_. returnS ())))))"

definition gen_ASTFunDeclaration :: "CminusType \<Rightarrow> string \<Rightarrow> ASTParam list \<Rightarrow> unit cg \<Rightarrow> unit cg" where
  "gen_ASTFunDeclaration type nm params compound_stmt =
     (let ret_type = (if type = TYPE_INT then INT32_T else if type = TYPE_FLOAT then FLOAT_T else VoidTy)
      in bindS (liftR (FunctionType_get ret_type (map param_type params))) (\<lambda>fun_type.
         bindS (Function_create fun_type nm) (\<lambda>fn.
         thenS (pushS nm (V_Fun fn))
         (thenS (modifyS (\<lambda>s. s\<lparr>cur_fun := Some fn\<rparr>))
         (bindS (BasicBlock_create ''entry'' (Some fn)) (\<lambda>funBB.
         thenS (set_insert_point funBB)
         (thenS enterS
         (thenS (gen_params fn 0 params)
         (thenS compound_stmt
         (bindS insert_block_terminated (\<lambda>t.
         thenS (if t then returnS () else gen_default_return)
         exitS)))))))))))"

definition gen_ASTParam :: "ASTParam \<Rightarrow> unit cg" where
  "gen_ASTParam p = returnS ()"

section \<open>Statements\<close>

fun gen_statement_list :: "unit cg list \<Rightarrow> unit cg" where
  "gen_statement_list [] = returnS ()"
| "gen_statement_list (stmt # stmts) =
     thenS stmt (bindS insert_block_terminated (\<lambda>t. if t then returnS () else gen_statement_list stmts))"

definition gen_ASTCompoundStmt :: "unit cg list \<Rightarrow> unit cg list \<Rightarrow> unit cg" where
  "gen_ASTCompoundStmt local_declarations statement_list =
     thenS enterS (thenS (seqS local_declarations) (thenS (gen_statement_list statement_list) exitS))"

definition gen_ASTExpressionStmt :: "unit cg option \<Rightarrow> unit cg" where
  "gen_ASTExpressionStmt expression = (case expression of None \<Rightarrow> returnS () | Some e \<Rightarrow> e)"

definition new_block :: "nat cg" where
  "new_block = bindS (getS cur_fun) (BasicBlock_create [])"

text \<open>\<open>create_br\<close> where the insert block has no terminator.\<close>

definition br_unless_terminated :: "nat \<Rightarrow> unit cg" where
  "br_unless_terminated b = bindS insert_block_terminated (\<lambda>t.
     if t then returnS () else bindS (b_br b) (\<lambda>_. returnS ()))"

definition gen_ASTSelectionStmt :: "unit cg \<Rightarrow> unit cg \<Rightarrow> unit cg option \<Rightarrow> unit cg" where
  "gen_ASTSelectionStmt expression if_statement else_statement =
     bindS new_block (\<lambda>trueBB.
     bindS new_block (\<lambda>falseBB.
     bindS new_block (\<lambda>endBB.
     thenS expression
     (bindS current (\<lambda>v.
     bindS (type_of v) (\<lambda>t.
     bindS (if is_integer_type t then bindS (ConstantInt_get 0) (b_icmp C_NE v)
            else bindS (ConstantFP_get 0) (b_fcmp C_NE v)) (\<lambda>c.
     thenS (set_value c)
     (bindS (b_cond_br c trueBB falseBB) (\<lambda>_.
     thenS (set_insert_point trueBB)
     (thenS enterS
     (thenS if_statement
     (thenS exitS
     (thenS (br_unless_terminated endBB)
     (thenS (set_insert_point falseBB)
     (thenS (case else_statement of
               Some els \<Rightarrow> thenS enterS (thenS els (thenS exitS (br_unless_terminated endBB)))
             | None \<Rightarrow> bindS (b_br endBB) (\<lambda>_. returnS ()))
     (set_insert_point endBB))))))))))))))))"

definition gen_ASTIterationStmt :: "unit cg \<Rightarrow> unit cg \<Rightarrow> unit cg" where
  "gen_ASTIterationStmt expression statement =
     bindS new_block (\<lambda>testBB.
     bindS new_block (\<lambda>trueBB.
     bindS new_block (\<lambda>falseBB.
     bindS (b_br testBB) (\<lambda>_.
     thenS (set_insert_point testBB)
     (thenS expression
     (bindS current (\<lambda>v.
     bindS (bindS (ConstantInt_get 0) (b_icmp C_NE v)) (\<lambda>c.
     thenS (set_value c)
     (bindS (b_cond_br c trueBB falseBB) (\<lambda>_.
     thenS (set_insert_point trueBB)
     (thenS enterS
     (thenS statement
     (thenS exitS
     (thenS (br_unless_terminated testBB)
     (set_insert_point falseBB)))))))))))))))"

text \<open>Converting \<open>v\<close>: an integer to float, anything else to int.\<close>

definition convert :: "irval \<Rightarrow> ty \<Rightarrow> ty \<Rightarrow> irval cg" where
  "convert v to_float to_int = bindS (type_of v) (\<lambda>t.
     if is_integer_type t then b_sitofp v to_float else b_fptosi v to_int)"

definition gen_ASTReturnStmt :: "unit cg option \<Rightarrow> unit cg" where
  "gen_ASTReturnStmt expression = (case expression of
     None \<Rightarrow> bindS b_void_ret (\<lambda>_. returnS ())
   | Some e \<Rightarrow>
       thenS e
       (bindS (getS cur_fun) (\<lambda>f. bindS (derefS f) (\<lambda>f.
       bindS (getS (\<lambda>s. function_return_type (f_type (function_list s ! f)))) (\<lambda>ret_type.
       bindS current (\<lambda>v.
       bindS (type_of v) (\<lambda>t.
       bindS (if ret_type \<noteq> t
              then bindS (convert v FLOAT_T INT32_T) (\<lambda>c. thenS (set_value c) (returnS c))
              else returnS v) (\<lambda>v.
       bindS (b_ret v) (\<lambda>_. returnS ())))))))))"

section \<open>Expressions\<close>

text \<open>\<open>p->get_type ()->get_pointer_element_type ()\<close>, about to be dereferenced.\<close>

definition pointee :: "irval \<Rightarrow> ty cg" where
  "pointee v = bindS (type_of v) (\<lambda>t. derefS (get_pointer_element_type t))"

definition gen_scalar_var :: "unit cg" where
  "gen_scalar_var = bindS (getS cur_lvalue) (\<lambda>lvalue.
     if lvalue then returnS ()
     else bindS current (\<lambda>v. bindS (pointee v) (\<lambda>t.
          if is_array_type t
          then bindS (ConstantInt_get 0) (\<lambda>z. bindS (b_gep v [z, z]) set_value)
          else bindS (b_load v) set_value)))"

definition gen_element_address :: "irval \<Rightarrow> irval \<Rightarrow> irval cg" where
  "gen_element_address var1 var2 = bindS (pointee var1) (\<lambda>t.
     if is_integer_type t \<or> is_float_type t then b_gep var1 [var2]
     else if is_pointer_type t then bindS (b_load var1) (\<lambda>p. b_gep p [var2])
     else bindS (ConstantInt_get 0) (\<lambda>z. b_gep var1 [z, var2]))"

text \<open>The check of the index, and the access in the block where it is not negative.\<close>

definition gen_checked_access :: "irval option \<Rightarrow> irval \<Rightarrow> bool \<Rightarrow> unit cg" where
  "gen_checked_access var1 var2 lvalue =
     bindS new_block (\<lambda>trueBB.
     bindS new_block (\<lambda>falseBB.
     bindS new_block (\<lambda>endBB.
     bindS (bindS (ConstantInt_get 0) (b_icmp C_GE var2)) (\<lambda>icmp.
     bindS (b_cond_br icmp trueBB falseBB) (\<lambda>_.
     thenS (set_insert_point trueBB)
     (bindS (derefS var1) (\<lambda>var1.
     bindS (gen_element_address var1 var2) (\<lambda>address.
     thenS (set_value address)
     (thenS (if lvalue then returnS () else bindS (b_load address) set_value)
     (bindS (b_br endBB) (\<lambda>_.
     thenS (set_insert_point falseBB)
     (bindS (findS ''neg_idx_except'') (\<lambda>handler.
     bindS (b_call handler []) (\<lambda>_.
     bindS (b_br endBB) (\<lambda>_.
     set_insert_point endBB)))))))))))))))"

definition gen_element :: "irval option \<Rightarrow> unit cg \<Rightarrow> unit cg" where
  "gen_element var1 expression =
     bindS (getS cur_lvalue) (\<lambda>post_lvalue.
     thenS (modifyS (\<lambda>s. s\<lparr>cur_lvalue := False\<rparr>))
     (thenS expression
     (thenS (modifyS (\<lambda>s. s\<lparr>cur_lvalue := post_lvalue\<rparr>))
     (bindS current (\<lambda>var2.
     bindS (type_of var2) (\<lambda>t2.
     bindS (if is_float_type t2 then b_fptosi var2 INT32_T else returnS var2) (\<lambda>var2.
     gen_checked_access var1 var2 post_lvalue)))))))"

definition gen_ASTVar :: "string \<Rightarrow> unit cg option \<Rightarrow> unit cg" where
  "gen_ASTVar nm expression =
     bindS (findS nm) (\<lambda>found.
     thenS (modifyS (\<lambda>s. s\<lparr>cur_value := found\<rparr>))
     (case expression of None \<Rightarrow> gen_scalar_var | Some e \<Rightarrow> gen_element found e))"

definition gen_ASTAssignExpression :: "unit cg \<Rightarrow> unit cg \<Rightarrow> unit cg" where
  "gen_ASTAssignExpression var expression =
     thenS (modifyS (\<lambda>s. s\<lparr>cur_lvalue := True\<rparr>))
     (thenS var
     (thenS (modifyS (\<lambda>s. s\<lparr>cur_lvalue := False\<rparr>))
     (bindS (getS cur_value) (\<lambda>var1.
     thenS expression
     (bindS current (\<lambda>var2.
     bindS (derefS var1) (\<lambda>var1.
     bindS (type_of var1) (\<lambda>t1.
     bindS (type_of var2) (\<lambda>t2.
     thenS (if get_pointer_element_type t1 \<noteq> Some t2
            then bindS (convert var2 FLOAT_T INT32_T) set_value else returnS ())
     (bindS current (\<lambda>v.
     bindS (b_store v var1) (\<lambda>_. returnS ()))))))))))))"

text \<open>Both operands become floats when one is a float; the type of the operation.\<close>

definition promote :: "irval \<Rightarrow> irval \<Rightarrow> (CminusType \<times> irval \<times> irval) cg" where
  "promote var1 var2 =
     bindS (type_of var1) (\<lambda>t1. bindS (type_of var2) (\<lambda>t2.
     if is_float_type t1 \<or> is_float_type t2
     then bindS (if is_integer_type t1 then b_sitofp var1 FLOAT_T else returnS var1) (\<lambda>var1.
          bindS (if is_integer_type t2 then b_sitofp var2 FLOAT_T else returnS var2) (\<lambda>var2.
          returnS (TYPE_FLOAT, var1, var2)))
     else returnS (TYPE_INT, var1, var2)))"

fun relop_cmp :: "RelOp \<Rightarrow> CmpOp" where
  "relop_cmp OP_LE = C_LE" | "relop_cmp OP_LT = C_LT" | "relop_cmp OP_GT = C_GT"
| "relop_cmp OP_GE = C_GE" | "relop_cmp OP_EQ = C_EQ" | "relop_cmp OP_NEQ = C_NE"

definition gen_ASTSimpleExpression :: "unit cg \<Rightarrow> unit cg option \<Rightarrow> RelOp \<Rightarrow> unit cg" where
  "gen_ASTSimpleExpression l r op = (case r of
     None \<Rightarrow> l
   | Some r \<Rightarrow>
       thenS l (bindS current (\<lambda>var1.
       thenS r (bindS current (\<lambda>var2.
       bindS (promote var1 var2) (\<lambda>(type, var1, var2).
       bindS (if type = TYPE_INT then b_icmp (relop_cmp op) var1 var2
              else b_fcmp (relop_cmp op) var1 var2) (\<lambda>c.
       bindS (b_zext c INT32_T) set_value)))))))"

definition gen_ASTAdditiveExpression :: "unit cg option \<Rightarrow> AddOp \<Rightarrow> unit cg \<Rightarrow> unit cg" where
  "gen_ASTAdditiveExpression additive_expression op term = (case additive_expression of
     None \<Rightarrow> term
   | Some l \<Rightarrow>
       thenS l (bindS current (\<lambda>var1.
       thenS term (bindS current (\<lambda>var2.
       bindS (promote var1 var2) (\<lambda>(type, var1, var2).
       bindS (if op = OP_PLUS
              then (if type = TYPE_INT then b_iadd var1 var2 else b_fadd var1 var2)
              else (if type = TYPE_INT then b_isub var1 var2 else b_fsub var1 var2)) set_value))))))"

definition gen_ASTTerm :: "unit cg option \<Rightarrow> MulOp \<Rightarrow> unit cg \<Rightarrow> unit cg" where
  "gen_ASTTerm term op factor = (case term of
     None \<Rightarrow> factor
   | Some l \<Rightarrow>
       thenS l (bindS current (\<lambda>var1.
       thenS factor (bindS current (\<lambda>var2.
       bindS (promote var1 var2) (\<lambda>(type, var1, var2).
       bindS (if op = OP_MUL
              then (if type = TYPE_INT then b_imul var1 var2 else b_fmul var1 var2)
              else (if type = TYPE_INT then b_isdiv var1 var2 else b_fdiv var1 var2)) set_value))))))"

text \<open>
  The loop over the arguments, with what \<open>param_it\<close> has still to visit: reading it
  at its end is undefined.
\<close>

fun gen_args :: "unit cg list \<Rightarrow> ty list \<Rightarrow> irval list \<Rightarrow> irval list cg" where
  "gen_args [] param_it args = returnS args"
| "gen_args (arg # rest) param_it args =
     thenS arg (bindS current (\<lambda>v.
     case param_it of
       [] \<Rightarrow> failS BadIndex
     | param # params \<Rightarrow>
         bindS (type_of v) (\<lambda>t.
         bindS (if t \<noteq> param
                then bindS (convert v param param) (\<lambda>c. thenS (set_value c) (returnS c))
                else returnS v) (\<lambda>v.
         gen_args rest params (args @ [v])))))"

definition gen_ASTCall :: "string \<Rightarrow> unit cg list \<Rightarrow> unit cg" where
  "gen_ASTCall nm args =
     bindS (findS nm) (\<lambda>found. bindS (derefS found) (\<lambda>v. case v of
       V_Fun f \<Rightarrow>
         bindS (getS (\<lambda>s. function_param_types (f_type (function_list s ! f)))) (\<lambda>param_it.
         bindS (gen_args args param_it []) (\<lambda>vs.
         bindS (b_call (Some (V_Fun f)) vs) set_value))
     | _ \<Rightarrow> failS BadCast))"

section \<open>\<open>accept\<close>\<close>

fun cg_ASTFactor :: "ASTFactor \<Rightarrow> unit cg"
and cg_ASTExpression :: "ASTExpression \<Rightarrow> unit cg"
and cg_ASTVar :: "ASTVar \<Rightarrow> unit cg"
and cg_ASTAdditiveExpression :: "ASTAdditiveExpression \<Rightarrow> unit cg"
and cg_ASTTerm :: "ASTTerm \<Rightarrow> unit cg"
and cg_ASTCall :: "ASTCall \<Rightarrow> unit cg" where
  "cg_ASTFactor (F_Expression e) = cg_ASTExpression e"
| "cg_ASTFactor (F_Var v) = cg_ASTVar v"
| "cg_ASTFactor (F_Call c) = cg_ASTCall c"
| "cg_ASTFactor (F_Num n) = gen_ASTNum n"
| "cg_ASTExpression (SimpleExpression l r op) =
     gen_ASTSimpleExpression (cg_ASTAdditiveExpression l) (map_option cg_ASTAdditiveExpression r) op"
| "cg_ASTExpression (AssignExpression v e) = gen_ASTAssignExpression (cg_ASTVar v) (cg_ASTExpression e)"
| "cg_ASTVar (Var nm e) = gen_ASTVar nm (map_option cg_ASTExpression e)"
| "cg_ASTAdditiveExpression (AdditiveExpression a op t) =
     gen_ASTAdditiveExpression (map_option cg_ASTAdditiveExpression a) op (cg_ASTTerm t)"
| "cg_ASTTerm (Term t op f) = gen_ASTTerm (map_option cg_ASTTerm t) op (cg_ASTFactor f)"
| "cg_ASTCall (Call nm args) = gen_ASTCall nm (map cg_ASTExpression args)"

fun cg_ASTStatement :: "ASTStatement \<Rightarrow> unit cg"
and cg_ASTCompoundStmt :: "ASTCompoundStmt \<Rightarrow> unit cg" where
  "cg_ASTStatement (S_Compound c) = cg_ASTCompoundStmt c"
| "cg_ASTStatement (ExpressionStmt e) = gen_ASTExpressionStmt (map_option cg_ASTExpression e)"
| "cg_ASTStatement (SelectionStmt e s s') =
     gen_ASTSelectionStmt (cg_ASTExpression e) (cg_ASTStatement s) (map_option cg_ASTStatement s')"
| "cg_ASTStatement (IterationStmt e s) = gen_ASTIterationStmt (cg_ASTExpression e) (cg_ASTStatement s)"
| "cg_ASTStatement (ReturnStmt e) = gen_ASTReturnStmt (map_option cg_ASTExpression e)"
| "cg_ASTCompoundStmt (CompoundStmt ds ss) =
     gen_ASTCompoundStmt (map gen_ASTVarDeclaration ds) (map cg_ASTStatement ss)"

fun cg_ASTDeclaration :: "ASTDeclaration \<Rightarrow> unit cg" where
  "cg_ASTDeclaration (D_Var d) = gen_ASTVarDeclaration d"
| "cg_ASTDeclaration (D_Fun d) =
     gen_ASTFunDeclaration (fd_type d) (fd_id d) (fd_params d) (cg_ASTCompoundStmt (fd_compound_stmt d))"

definition gen_ASTProgram :: "unit cg list \<Rightarrow> unit cg" where
  "gen_ASTProgram decls = seqS decls"

text \<open>The constructor of \<open>CminusfBuilder\<close> declares the library functions.\<close>

definition CminusfBuilder_new :: "unit cg" where
  "CminusfBuilder_new =
     bindS (liftR (FunctionType_get INT32_T [])) (\<lambda>input_type.
     bindS (Function_create input_type ''input'') (\<lambda>input_fun.
     bindS (liftR (FunctionType_get VoidTy [INT32_T])) (\<lambda>output_type.
     bindS (Function_create output_type ''output'') (\<lambda>output_fun.
     bindS (liftR (FunctionType_get VoidTy [FLOAT_T])) (\<lambda>output_float_type.
     bindS (Function_create output_float_type ''outputFloat'') (\<lambda>output_float_fun.
     bindS (liftR (FunctionType_get VoidTy [])) (\<lambda>neg_idx_except_type.
     bindS (Function_create neg_idx_except_type ''neg_idx_except'') (\<lambda>neg_idx_except_fun.
     thenS enterS
     (thenS (pushS ''input'' (V_Fun input_fun))
     (thenS (pushS ''output'' (V_Fun output_fun))
     (thenS (pushS ''outputFloat'' (V_Fun output_float_fun))
     (pushS ''neg_idx_except'' (V_Fun neg_idx_except_fun)))))))))))))"

definition codegen :: "ASTProgram \<Rightarrow> cg_state result" where
  "codegen prog = bindR (thenS CminusfBuilder_new
     (gen_ASTProgram (map cg_ASTDeclaration (declarations prog))) initial_state) (\<lambda>(_, s). Inr s)"

end
