(* ===== verification/IrInv.thy ===== *)
theory IrInv
  imports Ir
begin

text \<open>
  What every module the code generator builds satisfies, and the effect of the factories on
  it: instructions sit in the list of their block in the order they were made, a block is
  either still open or ends with its only terminator, the lists of predecessors and
  successors agree with the terminators and with each other, the lists of blocks with the
  parents, and use lists with operands.
\<close>

section \<open>The invariant\<close>

abbreviation nb :: "'b ir_module_scheme \<Rightarrow> nat" where "nb m \<equiv> length (blocks m)"
abbreviation ni :: "'b ir_module_scheme \<Rightarrow> nat" where "ni m \<equiv> length (instrs m)"
abbreviation nf :: "'b ir_module_scheme \<Rightarrow> nat" where "nf m \<equiv> length (function_list m)"
abbreviation ng :: "'b ir_module_scheme \<Rightarrow> nat" where "ng m \<equiv> length (global_list m)"

definition tflags :: "'b ir_module_scheme \<Rightarrow> nat \<Rightarrow> bool list" where
  "tflags m b = map (\<lambda>i. is_terminator (i_op (instrs m ! i))) (instr_list (blocks m ! b))"

definition open_block :: "'b ir_module_scheme \<Rightarrow> nat \<Rightarrow> bool" where
  "open_block m b \<longleftrightarrow> True \<notin> set (tflags m b)"

definition closed_block :: "'b ir_module_scheme \<Rightarrow> nat \<Rightarrow> bool" where
  "closed_block m b \<longleftrightarrow> (\<exists>fs. tflags m b = fs @ [True] \<and> True \<notin> set fs)"

text \<open>The blocks a branch goes to, in the order \<open>create_cond_br\<close> lists them.\<close>

definition block_operand :: "irval option \<Rightarrow> nat list" where
  "block_operand v = (case v of Some (V_Block b) \<Rightarrow> [b] | _ \<Rightarrow> [])"

definition br_targets :: "irval option list \<Rightarrow> nat list" where
  "br_targets ops = (case ops of
     [t] \<Rightarrow> block_operand t
   | [c, t, f] \<Rightarrow> block_operand f @ block_operand t
   | _ \<Rightarrow> [])"

lemma br_targets_simps [simp]:
  "br_targets [Some (V_Block t)] = [t]"
  "br_targets [c, Some (V_Block t), Some (V_Block f)] = [f, t]"
  by (simp_all add: br_targets_def block_operand_def)

definition term_succs :: "'b ir_module_scheme \<Rightarrow> nat \<Rightarrow> nat list" where
  "term_succs m b = (case get_terminator m b of
     None \<Rightarrow> []
   | Some i \<Rightarrow> if i_op (instrs m ! i) = I_br then br_targets (operands (graph m) (V_Inst i)) else [])"

definition instrs_placed :: "'b ir_module_scheme \<Rightarrow> bool" where
  "instrs_placed m \<longleftrightarrow> (\<forall>i < ni m. \<exists>b < nb m. i_parent (instrs m ! i) = Some b) \<and>
     (\<forall>b < nb m. instr_list (blocks m ! b) = filter (\<lambda>i. i_parent (instrs m ! i) = Some b) [0..<ni m])"

definition blocks_shaped :: "'b ir_module_scheme \<Rightarrow> bool" where
  "blocks_shaped m \<longleftrightarrow> (\<forall>b < nb m. open_block m b \<or> closed_block m b)"

definition succs_agree :: "'b ir_module_scheme \<Rightarrow> bool" where
  "succs_agree m \<longleftrightarrow> (\<forall>b < nb m. succ_bbs (blocks m ! b) = term_succs m b)"

definition preds_agree :: "'b ir_module_scheme \<Rightarrow> bool" where
  "preds_agree m \<longleftrightarrow> (\<forall>b < nb m. \<forall>c < nb m.
     count_list (pre_bbs (blocks m ! c)) b = count_list (succ_bbs (blocks m ! b)) c)"

definition edges_inside :: "'b ir_module_scheme \<Rightarrow> bool" where
  "edges_inside m \<longleftrightarrow> (\<forall>b < nb m. \<forall>c \<in> set (succ_bbs (blocks m ! b)) \<union> set (pre_bbs (blocks m ! b)).
     c < nb m \<and> bb_parent (blocks m ! c) = bb_parent (blocks m ! b))"

definition blocks_placed :: "'b ir_module_scheme \<Rightarrow> bool" where
  "blocks_placed m \<longleftrightarrow> (\<forall>b < nb m. bb_parent (blocks m ! b) < nf m) \<and>
     (\<forall>f < nf m. basic_blocks (function_list m ! f) = filter (\<lambda>b. bb_parent (blocks m ! b) = f) [0..<nb m])"

fun existing_user :: "'b ir_module_scheme \<Rightarrow> irval \<Rightarrow> bool" where
  "existing_user m (V_Inst i) = (i < ni m)"
| "existing_user m (V_Global g) = (g < ng m)"
| "existing_user m _ = False"

definition users_agree :: "'b ir_module_scheme \<Rightarrow> bool" where
  "users_agree m \<longleftrightarrow> uses_agree {} (graph m) \<and> (\<forall>u. \<not> existing_user m u \<longrightarrow> operands (graph m) u = [])"

definition ir_ok :: "'b ir_module_scheme \<Rightarrow> bool" where
  "ir_ok m \<longleftrightarrow> instrs_placed m \<and> blocks_shaped m \<and> succs_agree m \<and> preds_agree m \<and>
     edges_inside m \<and> blocks_placed m \<and> users_agree m"

lemmas ir_ok_parts = instrs_placed_def blocks_shaped_def succs_agree_def preds_agree_def
  edges_inside_def blocks_placed_def users_agree_def

lemma open_not_closed: "open_block m b \<Longrightarrow> \<not> closed_block m b"
  by (auto simp: open_block_def closed_block_def)

lemma get_terminator_iff:
  assumes "open_block m b \<or> closed_block m b"
  shows "get_terminator m b = None \<longleftrightarrow> open_block m b"
proof -
  have "get_terminator m b = None \<longleftrightarrow> \<not> (tflags m b \<noteq> [] \<and> last (tflags m b))"
    by (auto simp: get_terminator_def tflags_def Let_def last_map)
  with assms show ?thesis
    by (auto simp: open_block_def closed_block_def) (metis last_in_set)
qed

lemma ir_ok_new_module: "ir_ok (ir_module.extend new_module x)"
  by (simp add: ir_ok_def ir_ok_parts new_module_def uses_agree_empty ir_module.defs, simp add: empty_graph_def)

section \<open>Making an instruction\<close>

lemma set_operands_result:
  "i + length vs = length (operands (graph s) u) \<Longrightarrow>
   \<exists>g'. set_operands u i vs s = Inr ((), s\<lparr>graph := g'\<rparr>) \<and>
     operands g' = (operands (graph s))(u := take i (operands (graph s) u) @ map Some vs) \<and>
     (uses_agree {} (graph s) \<longrightarrow> (\<forall>j. i \<le> j \<longrightarrow> j < length (operands (graph s) u) \<longrightarrow> operands (graph s) u ! j = None) \<longrightarrow>
        uses_agree {} g')"
proof (induction vs arbitrary: i s)
  case Nil
  then show ?case by (intro exI [of _ "graph s"]) simp
next
  case (Cons v vs)
  let ?g1 = "add_use v u i (graph s\<lparr>operands := (operands (graph s))(u := (operands (graph s) u)[i := Some v])\<rparr>)"
  let ?s1 = "s\<lparr>graph := ?g1\<rparr>"
  have i: "i < length (operands (graph s) u)" using Cons.prems by simp
  have set: "set_operand u i v (graph s) = Inr ?g1" using i by (simp add: set_operand_def)
  have ops1: "operands ?g1 = (operands (graph s))(u := (operands (graph s) u)[i := Some v])"
    by (simp add: add_use_def)
  have step: "set_operand_ir u i v s = Inr ((), ?s1)"
    by (simp add: set_operand_ir_def bindS_def set liftR_def)
  have "Suc i + length vs = length (operands (graph ?s1) u)" using Cons.prems by (simp add: ops1)
  from Cons.IH [OF this] obtain g' where IH: "set_operands u (Suc i) vs ?s1 = Inr ((), ?s1\<lparr>graph := g'\<rparr>)"
    "operands g' = (operands (graph ?s1))(u := take (Suc i) (operands (graph ?s1) u) @ map Some vs)"
    "uses_agree {} (graph ?s1) \<longrightarrow> (\<forall>j. Suc i \<le> j \<longrightarrow> j < length (operands (graph ?s1) u) \<longrightarrow>
       operands (graph ?s1) u ! j = None) \<longrightarrow> uses_agree {} g'"
    by blast
  then have g': "set_operands u (Suc i) vs ?s1 = Inr ((), s\<lparr>graph := g'\<rparr>)"
    "operands g' = (operands ?g1)(u := take (Suc i) (operands ?g1 u) @ map Some vs)"
    "uses_agree {} ?g1 \<longrightarrow> (\<forall>j. Suc i \<le> j \<longrightarrow> j < length (operands ?g1 u) \<longrightarrow> operands ?g1 u ! j = None) \<longrightarrow> uses_agree {} g'"
    by simp_all
  have "uses_agree {} ?g1" if "uses_agree {} (graph s)" "operands (graph s) u ! i = None"
    using set_operand_agree [OF that(1) _ _ set] that(2) by simp
  with g' i show ?case
    by (intro exI [of _ g'])
      (simp add: thenS_def bindS_def step ops1 take_Suc_conv_app_nth add_use_def)
qed

text \<open>The state after an instruction was made and appended to block \<open>b\<close>.\<close>

definition emitted :: "nat \<Rightarrow> ty \<Rightarrow> OpID \<Rightarrow> inst_data \<Rightarrow> irval list \<Rightarrow>
    'b ir_module_scheme \<Rightarrow> 'b ir_module_scheme \<Rightarrow> bool" where
  "emitted b t op x ops s s' \<longleftrightarrow> (\<exists>g'.
     s' = s\<lparr>instrs := instrs s @ [\<lparr>i_type = t, i_op = op, i_data = x, i_parent = Some b, i_name = []\<rparr>],
            graph := g',
            blocks := (blocks s)[b := (blocks s ! b)\<lparr>instr_list := instr_list (blocks s ! b) @ [ni s]\<rparr>]\<rparr> \<and>
     operands g' = (operands (graph s))(V_Inst (ni s) := map Some ops) \<and>
     (users_agree s \<longrightarrow> uses_agree {} g'))"

lemma create_inst_emitted:
  assumes "create_inst t op x ops bb s = Inr (v, s')"
  shows "\<exists>b. bb = Some b \<and> v = V_Inst (ni s) \<and> emitted b t op x ops s s'"
proof -
  let ?i = "V_Inst (ni s)"
  let ?g0 = "new_user ?i (length ops) (graph s)"
  from assms obtain b where bb: "bb = Some b" by (auto simp: create_inst_def new_instruction_def)
  let ?s1 = "s\<lparr>instrs := instrs s @ [\<lparr>i_type = t, i_op = op, i_data = x, i_parent = Some b, i_name = []\<rparr>],
     graph := ?g0, blocks := (blocks s)[b := (blocks s ! b)\<lparr>instr_list := instr_list (blocks s ! b) @ [ni s]\<rparr>]\<rparr>"
  have "0 + length ops = length (operands (graph ?s1) ?i)" by (simp add: new_user_def)
  from set_operands_result [OF this] obtain g' where g': "set_operands ?i 0 ops ?s1 = Inr ((), ?s1\<lparr>graph := g'\<rparr>)"
    "operands g' = (operands ?g0)(?i := map Some ops)" "uses_agree {} ?g0 \<longrightarrow> uses_agree {} g'"
    by (auto simp: new_user_def)
  have run: "create_inst t op x ops bb s = Inr (?i, ?s1\<lparr>graph := g'\<rparr>)"
    using g'(1) by (simp add: create_inst_def new_instruction_def add_instruction_def upd_block_def bindS_def thenS_def bb derefS_def)
  have "uses_agree {} ?g0" if "users_agree s"
  proof (rule new_user_agree)
    from that show agree: "uses_agree {} (graph s)" by (simp add: users_agree_def)
    from that have "operands (graph s) ?i = []" by (simp add: users_agree_def)
    then show "\<forall>v. ?i \<notin> fst ` set (use_list (graph s) v)" using uses_agreeD(2) [OF agree, of ?i] by auto
  qed simp
  then have agree: "users_agree s \<longrightarrow> uses_agree {} g'" using g'(3) by blast
  from assms run have "v = ?i" "s' = ?s1\<lparr>graph := g'\<rparr>" by simp_all
  with g'(2) agree show ?thesis
    by (intro exI [of _ b]) (simp add: bb emitted_def new_user_def exI [of _ g'])
qed

lemma emitted_parts:
  assumes "emitted b t op x ops s s'"
  shows "nb s' = nb s" "ni s' = Suc (ni s)" "function_list s' = function_list s" "global_list s' = global_list s"
    and "i < ni s \<Longrightarrow> instrs s' ! i = instrs s ! i"
    and "i_op (instrs s' ! ni s) = op" "i_type (instrs s' ! ni s) = t" "i_parent (instrs s' ! ni s) = Some b"
    and "operands (graph s') = (operands (graph s))(V_Inst (ni s) := map Some ops)"
    and "c < nb s \<Longrightarrow> blocks s' ! c = (if c = b then (blocks s ! b)\<lparr>instr_list := instr_list (blocks s ! b) @ [ni s]\<rparr>
           else blocks s ! c)"
  using assms by (auto simp: emitted_def nth_append nth_list_update)

lemma filter_upt_cong: "(\<And>i. i < n \<Longrightarrow> P i = Q i) \<Longrightarrow> filter P [0..<n] = filter Q [0..<n]"
  by (rule filter_cong) auto

lemma emitted_placed:
  assumes "emitted b t op x ops s s'" and "instrs_placed s" and "b < nb s"
  shows "instrs_placed s'"
  unfolding instrs_placed_def
proof (intro conjI allI impI)
  show "\<exists>b < nb s'. i_parent (instrs s' ! i) = Some b" if "i < ni s'" for i
    using that assms(2,3) emitted_parts [OF assms(1)] by (auto simp: instrs_placed_def less_Suc_eq)
  fix c assume "c < nb s'"
  then have c: "c < nb s" by (simp add: emitted_parts(1) [OF assms(1)])
  have "filter (\<lambda>i. i_parent (instrs s' ! i) = Some c) [0..<ni s] =
      filter (\<lambda>i. i_parent (instrs s ! i) = Some c) [0..<ni s]"
    by (rule filter_upt_cong) (simp add: emitted_parts(5) [OF assms(1)])
  with assms(2) c show "instr_list (blocks s' ! c) = filter (\<lambda>i. i_parent (instrs s' ! i) = Some c) [0..<ni s']"
    using emitted_parts [OF assms(1)] by (simp add: instrs_placed_def)
qed

lemma placed_ids: "instrs_placed s \<Longrightarrow> b < nb s \<Longrightarrow> i \<in> set (instr_list (blocks s ! b)) \<Longrightarrow> i < ni s"
  by (simp add: instrs_placed_def)

lemma emitted_tflags:
  assumes "emitted b t op x ops s s'" and "instrs_placed s" and "c < nb s"
  shows "tflags s' c = (if c = b then tflags s b @ [is_terminator op] else tflags s c)"
  using emitted_parts [OF assms(1)] assms(3) placed_ids [OF assms(2,3)] by (auto simp: tflags_def)

lemma emitted_users:
  assumes "emitted b t op x ops s s'" and "users_agree s"
  shows "users_agree s'"
  unfolding users_agree_def
proof
  show "uses_agree {} (graph s')" using assms by (auto simp: emitted_def)
  have ex: "existing_user s' u \<longleftrightarrow> existing_user s u \<or> u = V_Inst (ni s)" for u
    using emitted_parts [OF assms(1)] by (cases u) auto
  show "\<forall>u. \<not> existing_user s' u \<longrightarrow> operands (graph s') u = []"
    using assms(2) by (simp add: emitted_parts(9) [OF assms(1)] users_agree_def ex)
qed

lemma emitted_term_succs_other:
  assumes "emitted b t op x ops s s'" and "instrs_placed s" and "c < nb s" and "c \<noteq> b"
  shows "term_succs s' c = term_succs s c"
proof -
  have "last (instr_list (blocks s ! c)) < ni s" if "instr_list (blocks s ! c) \<noteq> []"
    using placed_ids [OF assms(2,3) last_in_set [OF that]] .
  then show ?thesis
    using emitted_parts [OF assms(1)] assms(3,4)
    by (auto simp: term_succs_def get_terminator_def Let_def)
qed

lemma emitted_term_succs_new:
  assumes "emitted b t op x ops s s'" and "b < nb s"
  shows "term_succs s' b = (if op = I_br then br_targets (map Some ops) else [])"
  using emitted_parts [OF assms(1)] assms(2)
  by (auto simp: term_succs_def get_terminator_def Let_def is_terminator_def)

lemma blocks_placed_cong:
  assumes "blocks_placed s" and "nb s' = nb s" and "function_list s' = function_list s"
    and "\<And>c. c < nb s \<Longrightarrow> bb_parent (blocks s' ! c) = bb_parent (blocks s ! c)"
  shows "blocks_placed s'"
proof -
  have "filter (\<lambda>b. bb_parent (blocks s' ! b) = f) [0..<nb s] = filter (\<lambda>b. bb_parent (blocks s ! b) = f) [0..<nb s]" for f
    by (rule filter_upt_cong) (simp add: assms(4))
  with assms show ?thesis by (simp add: blocks_placed_def)
qed

text \<open>Making an instruction that is no branch.\<close>

lemma emitted_ok:
  assumes em: "emitted b t op x ops s s'" and ok: "ir_ok s" and b: "b < nb s" "open_block s b" and op: "op \<noteq> I_br"
  shows "ir_ok s'" and "is_terminator op \<Longrightarrow> closed_block s' b" and "\<not> is_terminator op \<Longrightarrow> open_block s' b"
proof -
  note parts = emitted_parts [OF em] and pl = ok [unfolded ir_ok_def, THEN conjunct1]
  note flags = emitted_tflags [OF em pl]
  show new: "is_terminator op \<Longrightarrow> closed_block s' b" "\<not> is_terminator op \<Longrightarrow> open_block s' b"
    using b by (auto simp: open_block_def closed_block_def flags)
  have shaped: "blocks_shaped s'"
    using ok new b flags parts(1)
    by (auto simp: ir_ok_def blocks_shaped_def open_block_def closed_block_def)
  have "term_succs s b = []"
    using get_terminator_iff [of s b] b(2) by (simp add: term_succs_def)
  then have succs: "succs_agree s'"
    using ok b emitted_term_succs_new [OF em b(1)] emitted_term_succs_other [OF em pl] op parts(1,10)
    by (auto simp: ir_ok_def succs_agree_def)
  have "preds_agree s'" "edges_inside s'"
    using ok parts(1,10) by (auto simp: ir_ok_def preds_agree_def edges_inside_def)
  moreover have "blocks_placed s'"
    by (rule blocks_placed_cong [of s]) (use ok parts in \<open>auto simp: ir_ok_def\<close>)
  ultimately show "ir_ok s'"
    using ok emitted_placed [OF em pl b(1)] emitted_users [OF em] shaped succs by (simp add: ir_ok_def)
qed

section \<open>Making a branch\<close>

text \<open>The edges are added before the instruction is made.\<close>

definition edges_added :: "nat \<Rightarrow> nat list \<Rightarrow> 'b ir_module_scheme \<Rightarrow> 'b ir_module_scheme \<Rightarrow> bool" where
  "edges_added b ts s s1 \<longleftrightarrow> (\<exists>bs. s1 = s\<lparr>blocks := bs\<rparr> \<and> length bs = nb s \<and>
     (\<forall>c < nb s. instr_list (bs ! c) = instr_list (blocks s ! c) \<and> bb_parent (bs ! c) = bb_parent (blocks s ! c) \<and>
        succ_bbs (bs ! c) = succ_bbs (blocks s ! c) @ (if c = b then ts else []) \<and>
        (\<forall>d. count_list (pre_bbs (bs ! c)) d = count_list (pre_bbs (blocks s ! c)) d + (if d = b then count_list ts c else 0))))"

lemma edges_added_parts:
  assumes "edges_added b ts s s1"
  shows "nb s1 = nb s" "instrs s1 = instrs s" "graph s1 = graph s" "function_list s1 = function_list s"
    "global_list s1 = global_list s"
    and "c < nb s \<Longrightarrow> instr_list (blocks s1 ! c) = instr_list (blocks s ! c)"
    and "c < nb s \<Longrightarrow> bb_parent (blocks s1 ! c) = bb_parent (blocks s ! c)"
    and "c < nb s \<Longrightarrow> succ_bbs (blocks s1 ! c) = succ_bbs (blocks s ! c) @ (if c = b then ts else [])"
    and "c < nb s \<Longrightarrow> count_list (pre_bbs (blocks s1 ! c)) d =
      count_list (pre_bbs (blocks s ! c)) d + (if d = b then count_list ts c else 0)"
  using assms by (auto simp: edges_added_def)

lemma in_set_count: "x \<in> set xs \<longleftrightarrow> 0 < count_list xs x"
  using count_notin [of x xs] by (metis count_list_0_iff gr0I less_irrefl)

lemma edges_added_same:
  assumes "edges_added b ts s s1"
  shows "instrs_placed s \<Longrightarrow> instrs_placed s1" and "users_agree s \<Longrightarrow> users_agree s1"
    and "blocks_placed s \<Longrightarrow> blocks_placed s1" and "c < nb s \<Longrightarrow> tflags s1 c = tflags s c"
    and "c < nb s \<Longrightarrow> term_succs s1 c = term_succs s c"
proof -
  note parts = edges_added_parts [OF assms]
  show "instrs_placed s \<Longrightarrow> instrs_placed s1" using parts by (simp add: instrs_placed_def)
  have "existing_user s1 u = existing_user s u" for u using parts by (cases u) auto
  then show "users_agree s \<Longrightarrow> users_agree s1" using parts by (simp add: users_agree_def)
  show "blocks_placed s \<Longrightarrow> blocks_placed s1" by (rule blocks_placed_cong [of s]) (use parts in auto)
  show "c < nb s \<Longrightarrow> tflags s1 c = tflags s c" using parts by (simp add: tflags_def)
  show "c < nb s \<Longrightarrow> term_succs s1 c = term_succs s c"
    using parts by (simp add: term_succs_def get_terminator_def Let_def)
qed

lemma branch_ok:
  assumes edges: "edges_added b ts s s1" and em: "emitted b VoidTy I_br x ops s1 s'"
    and targets: "br_targets (map Some ops) = ts"
    and inside: "\<forall>t \<in> set ts. t < nb s \<and> bb_parent (blocks s ! t) = bb_parent (blocks s ! b)"
    and ok: "ir_ok s" and b: "b < nb s" "open_block s b"
  shows "ir_ok s'" and "closed_block s' b"
proof -
  note e = edges_added_parts [OF edges] and same = edges_added_same [OF edges]
  have pl: "instrs_placed s" "instrs_placed s1" using ok same(1) by (auto simp: ir_ok_def)
  note parts = emitted_parts [OF em, unfolded e(1)]
  have b1: "b < nb s1" using b(1) e(1) by simp
  have flags: "c < nb s \<Longrightarrow> tflags s' c = (if c = b then tflags s b @ [True] else tflags s c)" for c
    using emitted_tflags [OF em pl(2)] same(4) b(1) e(1) by (simp add: is_terminator_def)
  show closed: "closed_block s' b" using b flags by (auto simp: open_block_def closed_block_def)
  have shaped: "blocks_shaped s'"
    using ok closed b flags parts(1)
    by (auto simp: ir_ok_def blocks_shaped_def open_block_def closed_block_def)
  have "term_succs s b = []"
    using get_terminator_iff [of s b] b(2) by (simp add: term_succs_def)
  moreover have "term_succs s' b = ts" using emitted_term_succs_new [OF em b1] targets by simp
  moreover have "c < nb s \<Longrightarrow> c \<noteq> b \<Longrightarrow> term_succs s' c = term_succs s c" for c
    using emitted_term_succs_other [OF em pl(2)] same(5) e(1) by simp
  ultimately have succs: "succs_agree s'"
    using ok b parts(1,10) e(8) by (auto simp: ir_ok_def succs_agree_def)
  have succ': "c < nb s \<Longrightarrow> succ_bbs (blocks s' ! c) = succ_bbs (blocks s ! c) @ (if c = b then ts else [])" for c
    using parts(10) e(8) by auto
  have pre': "c < nb s \<Longrightarrow> count_list (pre_bbs (blocks s' ! c)) d =
      count_list (pre_bbs (blocks s ! c)) d + (if d = b then count_list ts c else 0)" for c d
    using parts(10) e(9) by auto
  have preds: "preds_agree s'"
    using ok succ' pre' parts(1) by (auto simp: ir_ok_def preds_agree_def)
  have parent: "c < nb s \<Longrightarrow> bb_parent (blocks s' ! c) = bb_parent (blocks s ! c)" for c
    using parts(10) e(7) b by auto
  have "edges_inside s'"
    unfolding edges_inside_def parts(1)
  proof (intro allI impI ballI)
    fix c d assume c: "c < nb s" and d: "d \<in> set (succ_bbs (blocks s' ! c)) \<union> set (pre_bbs (blocks s' ! c))"
    have "d \<in> set (succ_bbs (blocks s ! c)) \<union> set (pre_bbs (blocks s ! c)) \<or> c = b \<and> d \<in> set ts \<or> d = b \<and> c \<in> set ts"
      using d succ' [OF c] pre' [OF c, of d]
      by (auto simp: in_set_count [of _ "pre_bbs _"] in_set_count [of c ts] split: if_splits)
    moreover have "d < nb s \<and> bb_parent (blocks s ! d) = bb_parent (blocks s ! c)"
      if "d \<in> set (succ_bbs (blocks s ! c)) \<union> set (pre_bbs (blocks s ! c))"
      using ok c that by (auto simp: ir_ok_def edges_inside_def)
    ultimately have "d < nb s \<and> bb_parent (blocks s ! d) = bb_parent (blocks s ! c)"
      using inside b(1) by auto
    then show "d < nb s \<and> bb_parent (blocks s' ! d) = bb_parent (blocks s' ! c)" using c parent by simp
  qed
  moreover have "blocks_placed s'"
    by (rule blocks_placed_cong [of s]) (use ok parts parent e in \<open>auto simp: ir_ok_def\<close>)
  ultimately show "ir_ok s'"
    using ok emitted_placed [OF em pl(2) b1] emitted_users [OF em same(2)] shaped succs preds
    by (simp add: ir_ok_def)
qed

lemma add_pre_edges:
  assumes "t < nb s"
  shows "add_pre_basic_block t b s = Inr ((), s\<lparr>blocks := (blocks s)[t := (blocks s ! t)\<lparr>pre_bbs := pre_bbs (blocks s ! t) @ [b]\<rparr>]\<rparr>)"
    and "add_succ_basic_block t b s = Inr ((), s\<lparr>blocks := (blocks s)[t := (blocks s ! t)\<lparr>succ_bbs := succ_bbs (blocks s ! t) @ [b]\<rparr>]\<rparr>)"
  by (simp_all add: add_pre_basic_block_def add_succ_basic_block_def upd_block_def)

lemma create_br_emitted:
  assumes "create_br t (Some b) s = Inr (v, s')" and "t < nb s" and "b < nb s"
  shows "\<exists>s1. edges_added b [t] s s1 \<and> emitted b VoidTy I_br X_None [V_Block t] s1 s'"
proof -
  let ?s1 = "s\<lparr>blocks := (blocks s)[t := (blocks s ! t)\<lparr>pre_bbs := pre_bbs (blocks s ! t) @ [b]\<rparr>]\<rparr>"
  let ?s2 = "?s1\<lparr>blocks := (blocks ?s1)[b := (blocks ?s1 ! b)\<lparr>succ_bbs := succ_bbs (blocks ?s1 ! b) @ [t]\<rparr>]\<rparr>"
  have "create_inst VoidTy I_br X_None [V_Block t] (Some b) ?s2 = Inr (v, s')"
    using assms(1) add_pre_edges(1) [OF assms(2), of b] add_pre_edges(2) [of b ?s1 t] assms(3)
    by (simp add: create_br_def bindS_def thenS_def derefS_def)
  moreover have "edges_added b [t] s ?s2"
    unfolding edges_added_def using assms(2,3)
    by (intro exI [of _ "blocks ?s2"]) (auto simp: nth_list_update)
  ultimately show ?thesis using create_inst_emitted by fastforce
qed

lemma create_cond_br_emitted:
  assumes "create_cond_br c t f (Some b) s = Inr (v, s')" and "t < nb s" and "f < nb s" and "b < nb s"
  shows "\<exists>s1. edges_added b [f, t] s s1 \<and> emitted b VoidTy I_br X_None [c, V_Block t, V_Block f] s1 s'"
proof -
  let ?s1 = "s\<lparr>blocks := (blocks s)[t := (blocks s ! t)\<lparr>pre_bbs := pre_bbs (blocks s ! t) @ [b]\<rparr>]\<rparr>"
  let ?s2 = "?s1\<lparr>blocks := (blocks ?s1)[f := (blocks ?s1 ! f)\<lparr>pre_bbs := pre_bbs (blocks ?s1 ! f) @ [b]\<rparr>]\<rparr>"
  let ?s3 = "?s2\<lparr>blocks := (blocks ?s2)[b := (blocks ?s2 ! b)\<lparr>succ_bbs := succ_bbs (blocks ?s2 ! b) @ [f]\<rparr>]\<rparr>"
  let ?s4 = "?s3\<lparr>blocks := (blocks ?s3)[b := (blocks ?s3 ! b)\<lparr>succ_bbs := succ_bbs (blocks ?s3 ! b) @ [t]\<rparr>]\<rparr>"
  have "create_inst VoidTy I_br X_None [c, V_Block t, V_Block f] (Some b) ?s4 = Inr (v, s')"
    using assms(1) add_pre_edges(1) [OF assms(2), of b] add_pre_edges(1) [of f ?s1 b] assms(3)
      add_pre_edges(2) [of b ?s2 f] add_pre_edges(2) [of b ?s3 t] assms(4)
    by (simp add: create_cond_br_def bindS_def thenS_def derefS_def)
  moreover have "edges_added b [f, t] s ?s4"
    unfolding edges_added_def using assms(2-4)
    by (intro exI [of _ "blocks ?s4"]) (auto simp: nth_list_update)
  ultimately show ?thesis using create_inst_emitted by fastforce
qed

section \<open>Making blocks, functions and global variables\<close>

lemma BasicBlock_create_ok:
  assumes run: "BasicBlock_create nm (Some f) s = Inr (b, s')" and ok: "ir_ok s" and f: "f < nf s"
  shows "ir_ok s'" and "b = nb s" and "open_block s' b"
    and "s' = s\<lparr>blocks := blocks s @ [\<lparr>bb_name = (if nm = [] then [] else ''label_'') @ nm,
         bb_parent = f, pre_bbs = [], succ_bbs = [], instr_list = []\<rparr>],
       function_list := (function_list s)[f := (function_list s ! f)\<lparr>basic_blocks := basic_blocks (function_list s ! f) @ [nb s]\<rparr>]\<rparr>"
proof -
  let ?B = "\<lparr>bb_name = (if nm = [] then [] else ''label_'') @ nm,
         bb_parent = f, pre_bbs = [], succ_bbs = [], instr_list = []\<rparr>"
  show b: "b = nb s" and s': "s' = s\<lparr>blocks := blocks s @ [?B],
       function_list := (function_list s)[f := (function_list s ! f)\<lparr>basic_blocks := basic_blocks (function_list s ! f) @ [nb s]\<rparr>]\<rparr>"
    using run by (auto simp: BasicBlock_create_def add_basic_block_def upd_function_def bindS_def thenS_def)
  have parts: "nb s' = Suc (nb s)" "instrs s' = instrs s" "graph s' = graph s" "nf s' = nf s" "global_list s' = global_list s"
    and old: "\<And>c. c < nb s \<Longrightarrow> blocks s' ! c = blocks s ! c" and new: "blocks s' ! nb s = ?B"
    and fns: "\<And>h. h < nf s \<Longrightarrow> basic_blocks (function_list s' ! h) =
      basic_blocks (function_list s ! h) @ (if h = f then [nb s] else [])"
    by (auto simp: s' nth_append nth_list_update)
  show "open_block s' b" by (simp add: open_block_def tflags_def b new)
  have flags: "tflags s' c = tflags s c" and succs: "term_succs s' c = term_succs s c" if "c < nb s" for c
    using that by (simp_all add: tflags_def term_succs_def get_terminator_def Let_def old parts)
  have new_succs: "term_succs s' (nb s) = []" by (simp add: term_succs_def get_terminator_def new)
  have new_flags: "tflags s' (nb s) = []" by (simp add: tflags_def new)
  have edges: "c \<in> set (succ_bbs (blocks s ! d)) \<union> set (pre_bbs (blocks s ! d)) \<Longrightarrow> c < nb s" if "d < nb s" for c d
    using ok that by (auto simp: ir_ok_def edges_inside_def)
  have "instrs_placed s'"
  proof -
    have "filter (\<lambda>i. i_parent (instrs s ! i) = Some (nb s)) [0..<ni s] = []"
      using ok by (fastforce simp: ir_ok_def instrs_placed_def filter_empty_conv)
    then show ?thesis using ok by (fastforce simp: ir_ok_def instrs_placed_def parts less_Suc_eq old new)
  qed
  moreover have "blocks_shaped s'"
    using ok by (auto simp: ir_ok_def blocks_shaped_def open_block_def closed_block_def parts less_Suc_eq flags new_flags)
  moreover have "succs_agree s'"
    using ok by (auto simp: ir_ok_def succs_agree_def parts less_Suc_eq old new succs new_succs)
  moreover have "preds_agree s'"
  proof -
    have "count_list (pre_bbs (blocks s ! d)) (nb s) = 0" "count_list (succ_bbs (blocks s ! d)) (nb s) = 0"
      if "d < nb s" for d
      using edges [OF that, of "nb s"] by (auto simp: count_list_0_iff)
    then show ?thesis using ok by (auto simp: ir_ok_def preds_agree_def parts less_Suc_eq old new)
  qed
  moreover have "edges_inside s'"
    using ok by (fastforce simp: ir_ok_def edges_inside_def parts less_Suc_eq old new)
  moreover have "blocks_placed s'"
  proof -
    have "filter (\<lambda>b. bb_parent (blocks s' ! b) = h) [0..<nb s] = filter (\<lambda>b. bb_parent (blocks s ! b) = h) [0..<nb s]" for h
      by (rule filter_upt_cong) (simp add: old)
    then show ?thesis using ok f by (auto simp: ir_ok_def blocks_placed_def parts less_Suc_eq old new fns)
  qed
  moreover have "users_agree s'"
  proof -
    have "existing_user s' u = existing_user s u" for u by (cases u) (simp_all add: parts)
    then show ?thesis using ok by (simp add: ir_ok_def users_agree_def parts)
  qed
  ultimately show "ir_ok s'" by (simp add: ir_ok_def)
qed

text \<open>States with the same instructions and blocks.\<close>

lemma ir_ok_same_code:
  assumes "instrs s' = instrs s" and "blocks s' = blocks s"
    and "\<And>i. operands (graph s') (V_Inst i) = operands (graph s) (V_Inst i)"
    and "blocks_placed s'" and "users_agree s'" and ok: "ir_ok s"
  shows "ir_ok s'"
proof -
  have flags: "tflags s' b = tflags s b" and succs: "term_succs s' b = term_succs s b" for b
    by (simp_all add: tflags_def term_succs_def get_terminator_def Let_def assms(1-3))
  have "instrs_placed s' = instrs_placed s" "preds_agree s' = preds_agree s" "edges_inside s' = edges_inside s"
    by (simp_all only: instrs_placed_def preds_agree_def edges_inside_def assms(1,2))
  moreover have "blocks_shaped s' = blocks_shaped s" "succs_agree s' = succs_agree s"
    by (simp_all only: blocks_shaped_def open_block_def closed_block_def succs_agree_def assms(1,2) flags succs)
  ultimately show ?thesis using assms by (simp add: ir_ok_def)
qed

lemma Function_create_ok:
  assumes run: "Function_create t nm s = Inr (f, s')" and ok: "ir_ok s"
  shows "ir_ok s'" and "f = nf s"
    and "s' = s\<lparr>function_list := function_list s @ [\<lparr>f_type = t, f_name = nm, basic_blocks = [],
       arg_names = map (\<lambda>_. []) (function_param_types t), seq_cnt = 0\<rparr>]\<rparr>"
proof -
  show f: "f = nf s" and s': "s' = s\<lparr>function_list := function_list s @ [\<lparr>f_type = t, f_name = nm, basic_blocks = [],
       arg_names = map (\<lambda>_. []) (function_param_types t), seq_cnt = 0\<rparr>]\<rparr>"
    using run by (auto simp: Function_create_def bindS_def thenS_def)
  have parts: "blocks s' = blocks s" "instrs s' = instrs s" "graph s' = graph s" "nf s' = Suc (nf s)" "global_list s' = global_list s"
    "\<And>h. h < nf s \<Longrightarrow> function_list s' ! h = function_list s ! h" "basic_blocks (function_list s' ! nf s) = []"
    by (simp_all add: s' nth_append)
  have ex: "existing_user s' u = existing_user s u" for u by (cases u) (simp_all add: parts)
  have "filter (\<lambda>b. bb_parent (blocks s ! b) = nf s) [0..<nb s] = []"
    using ok by (fastforce simp: ir_ok_def blocks_placed_def filter_empty_conv)
  then have "blocks_placed s'" using ok by (fastforce simp: ir_ok_def blocks_placed_def parts less_Suc_eq)
  moreover have "users_agree s'" using ok by (simp add: ir_ok_def users_agree_def parts ex)
  ultimately show "ir_ok s'" by (intro ir_ok_same_code [OF _ _ _ _ _ ok]) (simp_all add: parts)
qed

lemma GlobalVariable_create_ok:
  assumes run: "GlobalVariable_create nm t is_const (Some v) s = Inr (g, s')" and ok: "ir_ok s"
  shows "ir_ok s'" and "\<exists>gs g'. s' = s\<lparr>global_list := gs, graph := g'\<rparr>"
proof -
  let ?u = "V_Global (ng s)"
  let ?g0 = "new_user ?u 1 (graph s)"
  let ?s1 = "s\<lparr>global_list := global_list s @ [\<lparr>g_type = PointerTy t, g_name = nm, g_is_const = is_const, g_init = Some v\<rparr>],
     graph := ?g0\<rparr>"
  have "set_operands ?u 0 [v] ?s1 = Inr ((), s')"
    using run by (auto simp: GlobalVariable_create_def bindS_def thenS_def split: sum.splits)
  moreover have len: "0 + length [v] = length (operands (graph ?s1) ?u)" by (simp add: new_user_def)
  from set_operands_result [OF len] obtain g' where raw: "set_operands ?u 0 [v] ?s1 = Inr ((), ?s1\<lparr>graph := g'\<rparr>)"
    "operands g' = (operands (graph ?s1))(?u := take 0 (operands (graph ?s1) ?u) @ map Some [v])"
    "uses_agree {} (graph ?s1) \<longrightarrow> (\<forall>j. 0 \<le> j \<longrightarrow> j < length (operands (graph ?s1) ?u) \<longrightarrow>
       operands (graph ?s1) ?u ! j = None) \<longrightarrow> uses_agree {} g'"
    by blast
  ultimately have s': "s' = ?s1\<lparr>graph := g'\<rparr>" by simp
  from raw(2,3) have g': "operands g' = (operands (graph s))(?u := [Some v])" "uses_agree {} ?g0 \<longrightarrow> uses_agree {} g'"
    by (simp_all add: new_user_def)
  from s' show "\<exists>gs g'. s' = s\<lparr>global_list := gs, graph := g'\<rparr>" by auto
  have agree: "uses_agree {} (graph s)" "operands (graph s) ?u = []" using ok by (simp_all add: ir_ok_def users_agree_def)
  have "uses_agree {} ?g0"
    by (rule new_user_agree [OF agree(1)]) (use uses_agreeD(2) [OF agree(1), of ?u] agree(2) in auto)
  moreover have "existing_user s' u \<longleftrightarrow> existing_user s u \<or> u = ?u" for u by (cases u) (auto simp: s')
  ultimately have "users_agree s'" using ok g' by (auto simp: ir_ok_def users_agree_def s')
  moreover have "blocks_placed s'" using ok by (simp add: s' ir_ok_def blocks_placed_def)
  ultimately show "ir_ok s'" by (intro ir_ok_same_code [OF _ _ _ _ _ ok]) (simp_all add: s' g'(1))
qed

end
