(* ===== verification/CodegenCfg.thy ===== *)
theory CodegenCfg
  imports Codegen IrInv
begin

text \<open>
  The control flow the code generator builds. A visit starts in an open insert block; the
  blocks it makes are closed when it ends, except the insert block an expression (and most
  statements) leaves open, and it touches no other block than the insert block it started
  in. The blocks that are still open along the way are kept as a set.
\<close>

section \<open>Ready states and what a visit may change\<close>

definition ready :: "cg_state \<Rightarrow> bool" where
  "ready s \<longleftrightarrow> ir_ok s \<and> (\<exists>b f. BB s = Some b \<and> b < nb s \<and> open_block s b \<and>
     cur_fun s = Some f \<and> f < nf s \<and> bb_parent (blocks s ! b) = f)"

text \<open>The blocks a visit from \<open>s0\<close> owns in \<open>s\<close>: its insert block and the new ones.\<close>

definition owned :: "cg_state \<Rightarrow> cg_state \<Rightarrow> nat set" where
  "owned s0 s = {c. c < nb s \<and> (nb s0 \<le> c \<or> BB s0 = Some c)}"

definition pend :: "cg_state \<Rightarrow> nat set \<Rightarrow> cg_state \<Rightarrow> bool" where
  "pend s0 W s \<longleftrightarrow> ir_ok s \<and> nb s0 \<le> nb s \<and> cur_fun s = cur_fun s0 \<and>
     map f_type (function_list s) = map f_type (function_list s0) \<and>
     (\<exists>xs. instrs s = instrs s0 @ xs) \<and>
     (\<forall>c < nb s0. bb_parent (blocks s ! c) = bb_parent (blocks s0 ! c)) \<and>
     (\<forall>c < nb s0. BB s0 \<noteq> Some c \<longrightarrow> instr_list (blocks s ! c) = instr_list (blocks s0 ! c)) \<and>
     (\<forall>c < nb s. nb s0 \<le> c \<longrightarrow> cur_fun s0 = Some (bb_parent (blocks s ! c))) \<and>
     W \<subseteq> owned s0 s \<and>
     (\<forall>c \<in> owned s0 s. if c \<in> W then open_block s c else closed_block s c)"

lemma pendD:
  assumes "pend s0 W s"
  shows "ir_ok s" "nb s0 \<le> nb s" "cur_fun s = cur_fun s0" "map f_type (function_list s) = map f_type (function_list s0)"
    "nf s = nf s0"
    and "\<exists>xs. instrs s = instrs s0 @ xs" "c < nb s0 \<Longrightarrow> bb_parent (blocks s ! c) = bb_parent (blocks s0 ! c)"
    and "c < nb s0 \<Longrightarrow> BB s0 \<noteq> Some c \<Longrightarrow> instr_list (blocks s ! c) = instr_list (blocks s0 ! c)"
    and "c < nb s \<Longrightarrow> nb s0 \<le> c \<Longrightarrow> cur_fun s0 = Some (bb_parent (blocks s ! c))"
    and "W \<subseteq> owned s0 s" and "c \<in> W \<Longrightarrow> open_block s c" and "c \<in> W \<Longrightarrow> c < nb s"
    and "c \<in> owned s0 s \<Longrightarrow> c \<notin> W \<Longrightarrow> closed_block s c"
  using assms by (auto simp: pend_def owned_def dest: map_eq_imp_length_eq split: if_splits)

lemma readyE:
  assumes "ready s"
  obtains b f where "ir_ok s" "BB s = Some b" "b < nb s" "open_block s b" "cur_fun s = Some f" "f < nf s"
    "bb_parent (blocks s ! b) = f"
  using assms by (auto simp: ready_def)

lemma pend_refl: "ready s \<Longrightarrow> BB s = Some b \<Longrightarrow> pend s {b} s"
  by (auto simp: ready_def pend_def owned_def)

text \<open>A block of the pending set is in the current function.\<close>

lemma pend_parent:
  assumes "ready s0" and "pend s0 W s" and "c \<in> W"
  shows "cur_fun s = Some (bb_parent (blocks s ! c))"
proof -
  from assms(1) obtain b f where b: "BB s0 = Some b" "b < nb s0" "cur_fun s0 = Some f" "bb_parent (blocks s0 ! b) = f"
    by (rule readyE) blast
  note p = pendD [OF assms(2)]
  from p(10) assms(3) have "c < nb s" "nb s0 \<le> c \<or> c = b" using b by (auto simp: owned_def)
  then show ?thesis using p(3,7,9) b by auto
qed

lemma pend_ready:
  assumes "ready s0" and "pend s0 W s" and "BB s = Some b" and "b \<in> W"
  shows "ready s"
proof -
  from assms(1) obtain f where "cur_fun s0 = Some f" "f < nf s0" by (rule readyE) blast
  then show ?thesis
    using pendD(1,3,5) [OF assms(2)] pendD(11,12) [OF assms(2,4)] pend_parent [OF assms(1,2,4)] assms(3)
    by (auto simp: ready_def)
qed

lemma tflags_same:
  assumes "instrs_placed s" and "c < nb s" and "instr_list (blocks s' ! c) = instr_list (blocks s ! c)"
    and "instrs s' = instrs s @ xs"
  shows "tflags s' c = tflags s c"
  using placed_ids [OF assms(1,2)] assms(3,4) by (auto simp: tflags_def nth_append)

text \<open>A visit inside a visit.\<close>

lemma pend_frame:
  assumes p: "pend s0 W s" and b: "BB s = Some b" "b \<in> W" and q: "pend s V s'"
  shows "pend s0 (W - {b} \<union> V) s'"
proof -
  note P = pendD [OF p] and Q = pendD [OF q]
  have own: "c \<in> owned s0 s' \<longleftrightarrow> c \<in> owned s s' \<or> c \<in> owned s0 s" for c
    using P(2,10,12) Q(2) b by (auto simp: owned_def)
  have other: "tflags s' c = tflags s c" if "c < nb s" "c \<noteq> b" for c
  proof -
    obtain xs where "instrs s' = instrs s @ xs" using Q(6) by blast
    from tflags_same [OF _ that(1) Q(8) [OF that(1)] this] P(1) b that(2) show ?thesis
      by (simp add: ir_ok_def)
  qed
  have "if c \<in> W - {b} \<union> V then open_block s' c else closed_block s' c" if c: "c \<in> owned s0 s'" for c
  proof (cases "c \<in> owned s s'")
    case True
    then have "c \<in> W - {b} \<longrightarrow> c \<in> V" using b P(12) [of c] by (auto simp: owned_def)
    with True Q(11,13) show ?thesis by auto
  next
    case False
    then have "c \<in> owned s0 s" "c < nb s" "c \<noteq> b" using c own b Q(2) by (auto simp: owned_def)
    then have "if c \<in> W then open_block s c else closed_block s c" and eq: "tflags s' c = tflags s c"
      using P(11,13) other by auto
    moreover have "c \<notin> V" using False Q(10) by auto
    ultimately show ?thesis using \<open>c \<noteq> b\<close>
      by (auto simp: open_block_def closed_block_def split: if_splits)
  qed
  moreover have "W - {b} \<union> V \<subseteq> owned s0 s'" using P(10) Q(10) own by (auto simp: owned_def)
  moreover have "\<exists>xs. instrs s' = instrs s0 @ xs" using P(6) Q(6) by (metis append.assoc)
  moreover have "cur_fun s0 = Some (bb_parent (blocks s' ! c))" if "c < nb s'" "nb s0 \<le> c" for c
    using P(3,9) Q(7,9) that by (cases "c < nb s") auto
  moreover have "instr_list (blocks s' ! c) = instr_list (blocks s0 ! c)" if "c < nb s0" "BB s0 \<noteq> Some c" for c
  proof -
    have "c \<noteq> b" using P(10) b(2) that by (auto simp: owned_def)
    then show ?thesis using P(2,8) Q(8) that b(1) by auto
  qed
  ultimately show ?thesis
    using P(1-4,7) Q(1-4,7) by (auto simp: pend_def)
qed

text \<open>A change of other members of the state.\<close>

definition same_ir :: "cg_state \<Rightarrow> cg_state \<Rightarrow> bool" where
  "same_ir s s' \<longleftrightarrow> function_list s' = function_list s \<and> global_list s' = global_list s \<and>
     blocks s' = blocks s \<and> instrs s' = instrs s \<and> graph s' = graph s"

lemma same_ir_ok:
  assumes "same_ir s s'" and "ir_ok s"
  shows "ir_ok s'"
proof -
  have "existing_user s' u = existing_user s u" for u using assms(1) by (cases u) (simp_all add: same_ir_def)
  then have "users_agree s'" using assms by (simp add: ir_ok_def users_agree_def same_ir_def)
  moreover have "blocks_placed s'" using assms by (simp add: ir_ok_def blocks_placed_def same_ir_def)
  ultimately show ?thesis using assms by (intro ir_ok_same_code [of s' s]) (simp_all add: same_ir_def)
qed

lemma pend_same_ir:
  assumes "pend s0 W s" and "same_ir s s'" and "cur_fun s' = cur_fun s"
  shows "pend s0 W s'"
proof -
  have "open_block s' c = open_block s c" "closed_block s' c = closed_block s c" for c
    using assms(2) by (simp_all add: open_block_def closed_block_def tflags_def same_ir_def)
  moreover have "owned s0 s' = owned s0 s" using assms(2) by (simp add: owned_def same_ir_def)
  ultimately show ?thesis using assms same_ir_ok [OF assms(2)] by (simp add: pend_def same_ir_def)
qed

section \<open>Visits that end in an open block\<close>

definition runs_open :: "'a cg \<Rightarrow> bool" where
  "runs_open m \<longleftrightarrow> (\<forall>s u s'. ready s \<longrightarrow> m s = Inr (u, s') \<longrightarrow> (\<exists>b. BB s' = Some b \<and> pend s {b} s'))"

named_theorems runs_open_intros

lemma runs_openI:
  "(\<And>s u s'. ready s \<Longrightarrow> m s = Inr (u, s') \<Longrightarrow> \<exists>b. BB s' = Some b \<and> pend s {b} s') \<Longrightarrow> runs_open m"
  by (simp add: runs_open_def)

lemma runs_openE:
  assumes "runs_open m" and "ready s" and "m s = Inr (u, s')"
  obtains b where "BB s' = Some b" and "pend s {b} s'" and "ready s'"
  using assms pend_ready unfolding runs_open_def by blast

lemma runs_open_bind [runs_open_intros]:
  assumes "runs_open m" and "\<And>x. runs_open (f x)"
  shows "runs_open (bindS m f)"
proof (rule runs_openI, elim bindS_InrE)
  fix s u s' x s1
  assume s: "ready s" "m s = Inr (x, s1)" and f: "f x s1 = Inr (u, s')"
  from runs_openE [OF assms(1) s] obtain b1 where b1: "BB s1 = Some b1" "pend s {b1} s1" "ready s1" .
  from runs_openE [OF assms(2) b1(3) f] obtain b where b: "BB s' = Some b" "pend s1 {b} s'" .
  from pend_frame [OF b1(2,1) _ b(2)] b(1) show "\<exists>b. BB s' = Some b \<and> pend s {b} s'" by simp
qed

lemma runs_open_then [runs_open_intros]: "runs_open m \<Longrightarrow> runs_open k \<Longrightarrow> runs_open (thenS m k)"
  unfolding thenS_def by (rule runs_open_bind)

lemma runs_open_if [runs_open_intros]:
  "(P \<Longrightarrow> runs_open m) \<Longrightarrow> (\<not> P \<Longrightarrow> runs_open k) \<Longrightarrow> runs_open (if P then m else k)"
  by simp

lemma runs_open_option [runs_open_intros]:
  "(x = None \<Longrightarrow> runs_open m) \<Longrightarrow> (\<And>y. x = Some y \<Longrightarrow> runs_open (f y)) \<Longrightarrow>
   runs_open (case x of None \<Rightarrow> m | Some y \<Rightarrow> f y)"
  by (cases x) simp_all

lemma runs_open_list [runs_open_intros]:
  "(x = [] \<Longrightarrow> runs_open m) \<Longrightarrow> (\<And>y ys. x = y # ys \<Longrightarrow> runs_open (f y ys)) \<Longrightarrow>
   runs_open (case x of [] \<Rightarrow> m | y # ys \<Rightarrow> f y ys)"
  by (cases x) simp_all

lemma runs_open_prod [runs_open_intros]: "(\<And>a b. runs_open (f a b)) \<Longrightarrow> runs_open (case x of (a, b) \<Rightarrow> f a b)"
  by (cases x) simp

text \<open>Programs that leave the IR, the insert block and the current function alone.\<close>

lemma runs_open_same_ir:
  assumes "\<And>s u s'. m s = Inr (u, s') \<Longrightarrow> same_ir s s' \<and> BB s' = BB s \<and> cur_fun s' = cur_fun s"
  shows "runs_open m"
proof (rule runs_openI)
  fix s u s' assume s: "ready s" and m: "m s = Inr (u, s')"
  then obtain b where "BB s = Some b" by (auto elim: readyE)
  with assms [OF m] pend_refl [OF s] show "\<exists>b. BB s' = Some b \<and> pend s {b} s'"
    by (auto intro: pend_same_ir)
qed

lemma same_ir_refl [simp]: "same_ir s s"
  by (simp add: same_ir_def)

lemma runs_open_basic [runs_open_intros]:
  "runs_open (returnS x)" "runs_open (failS e)" "runs_open (getS h)" "runs_open (liftR r)" "runs_open (assertS P)"
  "runs_open (derefS y)" "runs_open (set_value v)" "runs_open (type_of v)" "runs_open current" "runs_open (findS nm)"
  "runs_open (ConstantInt_get i)" "runs_open (ConstantZero_get t)" "runs_open (pointee v)"
  "runs_open (modifyS (\<lambda>s. s\<lparr>cur_lvalue := lv\<rparr>))" "runs_open (modifyS (\<lambda>s. s\<lparr>cur_value := cv\<rparr>))"
  "runs_open enterS" "runs_open exitS" "runs_open (pushS nm v)" "runs_open insert_block_terminated"
  by (rule runs_open_same_ir;
      auto simp: set_value_def type_of_def current_def findS_def ConstantInt_get_def ConstantZero_get_def pointee_def
        enterS_def exitS_def pushS_def insert_block_terminated_def same_ir_def bindS_def liftR_def derefS_def assertS_def
        split: option.splits sum.splits prod.splits if_splits)+

lemma runs_open_ConstantFP_get [runs_open_intros]: "runs_open (ConstantFP_get w)"
  by (rule runs_open_same_ir)
    (auto simp: ConstantFP_get_def same_ir_def bindS_def thenS_def split: option.splits)

text \<open>Programs that make one instruction in the block they are given.\<close>

definition inst_only :: "OpID \<Rightarrow> (nat option \<Rightarrow> irval cg) \<Rightarrow> bool" where
  "inst_only op f \<longleftrightarrow> (\<forall>bb s v s'. f bb s = Inr (v, s') \<longrightarrow> (\<exists>t x ops. create_inst t op x ops bb s = Inr (v, s')))"

lemma inst_only_create:
  "inst_only I_add (create_add v1 v2)" "inst_only I_sub (create_sub v1 v2)" "inst_only I_mul (create_mul v1 v2)"
  "inst_only I_sdiv (create_sdiv v1 v2)" "inst_only I_fadd (create_fadd v1 v2)" "inst_only I_fsub (create_fsub v1 v2)"
  "inst_only I_fmul (create_fmul v1 v2)" "inst_only I_fdiv (create_fdiv v1 v2)"
  "inst_only I_cmp (create_cmp c v1 v2)" "inst_only I_fcmp (create_fcmp c v1 v2)"
  "inst_only I_call (CallInst_create fn args)" "inst_only I_ret (create_ret v1)" "inst_only I_ret create_void_ret"
  "inst_only I_getelementptr (create_gep p idxs)" "inst_only I_store (create_store v1 v2)"
  "inst_only I_load (LoadInst_create t p)" "inst_only I_alloca (create_alloca t)" "inst_only I_zext (create_zext v1 t)"
  "inst_only I_fptosi (create_fptosi v1 t)" "inst_only I_sitofp (create_sitofp v1 t)"
  unfolding inst_only_def create_add_def create_sub_def create_mul_def create_sdiv_def create_fadd_def create_fsub_def
    create_fmul_def create_fdiv_def create_cmp_def create_fcmp_def CallInst_create_def create_ret_def create_void_ret_def
    create_gep_def create_store_def LoadInst_create_def create_alloca_def create_zext_def create_fptosi_def create_sitofp_def
  by (auto simp: bindS_def liftR_def split: sum.splits) blast+

lemma create_inst_pend:
  assumes s: "ready s" "BB s = Some b" and c: "create_inst t op x ops (Some b) s = Inr (v, s')" and op: "op \<noteq> I_br"
  shows "BB s' = Some b" and "pend s (if is_terminator op then {} else {b}) s'"
proof -
  from create_inst_emitted [OF c] have em: "emitted b t op x ops s s'" by blast
  from s obtain f where f: "ir_ok s" "b < nb s" "open_block s b" "cur_fun s = Some f" "bb_parent (blocks s ! b) = f"
    by (auto elim: readyE)
  note ok = emitted_ok [OF em f(1-3) op] and parts = emitted_parts [OF em]
  have fields: "BB s' = BB s" "cur_fun s' = cur_fun s" "\<exists>xs. instrs s' = instrs s @ xs"
    using em by (auto simp: emitted_def)
  with s(2) show "BB s' = Some b" by simp
  have "owned s s' = {b}" using s(2) f(2) parts(1) by (auto simp: owned_def)
  with ok parts fields f s(2) show "pend s (if is_terminator op then {} else {b}) s'"
    by (auto simp: pend_def)
qed

lemma runs_open_inst:
  assumes "inst_only op f" and "op \<noteq> I_br" and "\<not> is_terminator op"
  shows "runs_open (at_bb f)"
proof (rule runs_openI)
  fix s u s' assume s: "ready s" and m: "at_bb f s = Inr (u, s')"
  from s obtain b where b: "BB s = Some b" by (auto elim: readyE)
  from m b have "f (Some b) s = Inr (u, s')" by (auto simp: at_bb_def bindS_def)
  then obtain t x ops where "create_inst t op x ops (Some b) s = Inr (u, s')"
    using assms(1) unfolding inst_only_def by blast
  from create_inst_pend [OF s b this assms(2)] assms(3) show "\<exists>b. BB s' = Some b \<and> pend s {b} s'" by auto
qed

lemma runs_open_builder [runs_open_intros]:
  "runs_open (b_iadd l r)" "runs_open (b_isub l r)" "runs_open (b_imul l r)" "runs_open (b_isdiv l r)"
  "runs_open (b_fadd l r)" "runs_open (b_fsub l r)" "runs_open (b_fmul l r)" "runs_open (b_fdiv l r)"
  "runs_open (b_icmp op l r)" "runs_open (b_fcmp op l r)" "runs_open (b_gep l idxs)" "runs_open (b_store l r)"
  "runs_open (b_alloca t)" "runs_open (b_zext l t)" "runs_open (b_sitofp l t)" "runs_open (b_fptosi l t)"
  unfolding b_iadd_def b_isub_def b_imul_def b_isdiv_def b_fadd_def b_fsub_def b_fmul_def b_fdiv_def b_icmp_def
    b_fcmp_def b_gep_def b_store_def b_alloca_def b_zext_def b_sitofp_def b_fptosi_def
  by (rule runs_open_inst, rule inst_only_create, simp, simp add: is_terminator_def)+

lemma runs_open_load [runs_open_intros]: "runs_open (b_load p)"
  unfolding b_load_def
  by (intro runs_open_intros runs_open_inst [OF inst_only_create(16)]) (simp_all add: is_terminator_def)

lemma runs_open_call [runs_open_intros]: "runs_open (b_call func args)"
  unfolding b_call_def
  by (auto split: option.splits irval.splits intro!: runs_open_intros runs_open_inst [OF inst_only_create(11)]
      simp: is_terminator_def)

section \<open>Steps inside a visit\<close>

definition at :: "cg_state \<Rightarrow> nat set \<Rightarrow> nat \<Rightarrow> cg_state \<Rightarrow> bool" where
  "at s0 W b s \<longleftrightarrow> ready s0 \<and> pend s0 W s \<and> BB s = Some b"

lemma at_start: "ready s \<Longrightarrow> BB s = Some b \<Longrightarrow> at s {b} b s"
  by (simp add: at_def pend_refl)

lemma at_ready: "at s0 W b s \<Longrightarrow> b \<in> W \<Longrightarrow> ready s"
  by (auto simp: at_def intro: pend_ready)

lemma at_below: "at s0 W b s \<Longrightarrow> c \<in> W \<Longrightarrow> c < nb s"
  by (auto simp: at_def dest: pendD(12))

lemma at_open:
  assumes at: "at s0 W b s" "b \<in> W" and m: "runs_open m" "m s = Inr (u, s')"
  obtains b' where "at s0 (insert b' (W - {b})) b' s'" and "b' \<notin> W - {b}" and "nb s \<le> nb s'"
proof -
  from runs_openE [OF m(1) at_ready [OF at] m(2)] obtain b' where b': "BB s' = Some b'" "pend s {b'} s'" .
  from at have s0: "ready s0" "pend s0 W s" "BB s = Some b" by (simp_all add: at_def)
  from pend_frame [OF s0(2,3) at(2) b'(2)] have "at s0 (insert b' (W - {b})) b' s'" using s0 b' by (simp add: at_def)
  moreover have "b' \<notin> W - {b}"
    using pendD(10) [OF b'(2)] s0(3) at_below [OF at(1), of b'] by (auto simp: owned_def)
  ultimately show ?thesis using that pendD(2) [OF b'(2)] by blast
qed

lemma at_new_block:
  assumes at: "at s0 W b s" "b \<in> W" and m: "new_block s = Inr (n, s')"
  shows "at s0 (insert n W) b s'" and "n = nb s" and "nb s' = Suc (nb s)"
proof -
  from at have s0: "ready s0" "pend s0 W s" "BB s = Some b" by (simp_all add: at_def)
  from at_ready [OF at] s0(3) obtain f where f: "ir_ok s" "b < nb s" "open_block s b" "cur_fun s = Some f" "f < nf s"
    "bb_parent (blocks s ! b) = f" by (auto elim: readyE)
  from m f have run: "BasicBlock_create [] (Some f) s = Inr (n, s')" by (simp add: new_block_def bindS_def)
  note new = BasicBlock_create_ok [OF run f(1,5)]
  show n: "n = nb s" and nb: "nb s' = Suc (nb s)" using new(2,4) by simp_all
  have old: "tflags s' b = tflags s b" using f(2) new(4) by (simp add: tflags_def nth_append)
  have "owned s s' = {b, n}" using s0(3) f(2) by (auto simp: owned_def nb n)
  moreover have "map f_type (function_list s') = map f_type (function_list s)"
    using f(5) new(4) by (simp add: list_eq_iff_nth_eq nth_list_update)
  ultimately have "pend s {b, n} s'"
    using new f s0(3) old by (auto simp: pend_def open_block_def nth_append less_Suc_eq)
  from pend_frame [OF s0(2,3) at(2) this] have p: "pend s0 (W - {b} \<union> {b, n}) s'" .
  have "W - {b} \<union> {b, n} = insert n W" using at(2) by auto
  with p have "pend s0 (insert n W) s'" by simp
  moreover have "BB s' = Some b" using s0(3) new(4) by simp
  ultimately show "at s0 (insert n W) b s'" using s0(1) by (simp add: at_def)
qed

lemma branch_pend:
  assumes s: "ready s" "BB s = Some b" and edges: "edges_added b ts s s1" "emitted b VoidTy I_br x ops s1 s'"
    and targets: "br_targets (map Some ops) = ts" "\<forall>t \<in> set ts. t < nb s \<and> cur_fun s = Some (bb_parent (blocks s ! t))"
  shows "pend s {} s'" and "BB s' = Some b" and "nb s' = nb s"
proof -
  from s obtain f where f: "ir_ok s" "b < nb s" "open_block s b" "cur_fun s = Some f" "bb_parent (blocks s ! b) = f"
    by (auto elim: readyE)
  have "\<forall>t \<in> set ts. t < nb s \<and> bb_parent (blocks s ! t) = bb_parent (blocks s ! b)" using targets(2) f by auto
  note ok = branch_ok [OF edges targets(1) this f(1-3)]
  note e = edges_added_parts [OF edges(1)] and parts = emitted_parts [OF edges(2)]
  show nb: "nb s' = nb s" using parts(1) e(1) by simp
  have fields: "BB s1 = BB s" "cur_fun s1 = cur_fun s" "BB s' = BB s1" "cur_fun s' = cur_fun s1" "\<exists>xs. instrs s' = instrs s1 @ xs"
    using edges by (auto simp: emitted_def edges_added_def)
  then show "BB s' = Some b" using s(2) by simp
  have "owned s s' = {b}" using s(2) f(2) nb by (auto simp: owned_def)
  then show "pend s {} s'" using ok fields e parts s(2) f(2,5) by (auto simp: pend_def)
qed

lemma at_targets:
  assumes "at s0 W b s" and "nb s0 \<le> t" and "t < nb s"
  shows "cur_fun s = Some (bb_parent (blocks s ! t))"
  using assms pendD(3) [of s0 W s] pendD(9) [of s0 W s t] by (simp add: at_def)

lemma at_br:
  assumes at: "at s0 W b s" "b \<in> W" and m: "b_br t s = Inr (v, s')" and t: "nb s0 \<le> t" "t < nb s"
  shows "at s0 (W - {b}) b s'" and "nb s' = nb s"
proof -
  note s = at_ready [OF at]
  from at have s0: "ready s0" "pend s0 W s" "BB s = Some b" by (simp_all add: at_def)
  from m s0(3) have "create_br t (Some b) s = Inr (v, s')" by (auto simp: b_br_def at_bb_def bindS_def)
  from create_br_emitted [OF this t(2)] at_below [OF at] obtain s1 where
    "edges_added b [t] s s1" "emitted b VoidTy I_br X_None [V_Block t] s1 s'" by blast
  from branch_pend [OF s s0(3) this] at_targets [OF at(1) t] t(2)
  have p: "pend s {} s'" "BB s' = Some b" "nb s' = nb s" by simp_all
  from pend_frame [OF s0(2,3) at(2) p(1)] p s0(1) show "at s0 (W - {b}) b s'" "nb s' = nb s" by (simp_all add: at_def)
qed

lemma at_cond_br:
  assumes at: "at s0 W b s" "b \<in> W" and m: "b_cond_br c t f s = Inr (v, s')"
    and t: "nb s0 \<le> t" "t < nb s" and f: "nb s0 \<le> f" "f < nb s"
  shows "at s0 (W - {b}) b s'" and "nb s' = nb s"
proof -
  note s = at_ready [OF at]
  from at have s0: "ready s0" "pend s0 W s" "BB s = Some b" by (simp_all add: at_def)
  from m s0(3) have "create_cond_br c t f (Some b) s = Inr (v, s')" by (auto simp: b_cond_br_def at_bb_def bindS_def)
  from create_cond_br_emitted [OF this t(2) f(2)] at_below [OF at] obtain s1 where
    "edges_added b [f, t] s s1" "emitted b VoidTy I_br X_None [c, V_Block t, V_Block f] s1 s'" by blast
  from branch_pend [OF s s0(3) this] at_targets [OF at(1) t] at_targets [OF at(1) f] t(2) f(2)
  have p: "pend s {} s'" "BB s' = Some b" "nb s' = nb s" by simp_all
  from pend_frame [OF s0(2,3) at(2) p(1)] p s0(1) show "at s0 (W - {b}) b s'" "nb s' = nb s" by (simp_all add: at_def)
qed

lemma at_set:
  assumes "at s0 W b s" and "set_insert_point c s = Inr (u, s')"
  shows "at s0 W c s'" and "nb s' = nb s"
  using assms pend_same_ir [of s0 W s s'] by (auto simp: at_def set_insert_point_def same_ir_def)

lemma at_ret:
  assumes at: "at s0 W b s" "b \<in> W" and f: "inst_only I_ret f" and m: "at_bb f s = Inr (v, s')"
  shows "at s0 (W - {b}) b s'"
proof -
  note s = at_ready [OF at]
  from at have s0: "ready s0" "pend s0 W s" "BB s = Some b" by (simp_all add: at_def)
  from m s0(3) have "f (Some b) s = Inr (v, s')" by (auto simp: at_bb_def bindS_def)
  then obtain t x ops where "create_inst t I_ret x ops (Some b) s = Inr (v, s')"
    using f unfolding inst_only_def by blast
  from create_inst_pend [OF s s0(3) this] have p: "BB s' = Some b" "pend s {} s'" by (simp_all add: is_terminator_def)
  from pend_frame [OF s0(2,3) at(2) p(2)] p s0(1) show ?thesis by (simp add: at_def)
qed

section \<open>Rules for the visits that make blocks\<close>

text \<open>
  \<open>tail s0 W K b m Q\<close>: when the visit that started in \<open>s0\<close> has the open blocks
  \<open>W\<close>, knows the new blocks \<open>K\<close> and goes on in \<open>b\<close> with \<open>m\<close>, it ends in \<open>Q\<close>.
\<close>

definition tail :: "cg_state \<Rightarrow> nat set \<Rightarrow> nat set \<Rightarrow> nat \<Rightarrow> 'a cg \<Rightarrow> (cg_state \<Rightarrow> bool) \<Rightarrow> bool" where
  "tail s0 W K b m Q \<longleftrightarrow> (\<forall>s u s'. at s0 W b s \<longrightarrow> (\<forall>t \<in> K. nb s0 \<le> t \<and> t < nb s) \<longrightarrow> m s = Inr (u, s') \<longrightarrow> Q s')"

definition ends_open :: "cg_state \<Rightarrow> cg_state \<Rightarrow> bool" where
  "ends_open s0 s \<longleftrightarrow> (\<exists>b. BB s = Some b \<and> pend s0 {b} s)"

lemma tailI:
  "(\<And>s u s'. at s0 W b s \<Longrightarrow> \<forall>t \<in> K. nb s0 \<le> t \<and> t < nb s \<Longrightarrow> m s = Inr (u, s') \<Longrightarrow> Q s') \<Longrightarrow> tail s0 W K b m Q"
  by (simp add: tail_def)

lemma tailD:
  "tail s0 W K b m Q \<Longrightarrow> at s0 W b s \<Longrightarrow> \<forall>t \<in> K. nb s0 \<le> t \<and> t < nb s \<Longrightarrow> m s = Inr (u, s') \<Longrightarrow> Q s'"
  by (auto simp: tail_def)

lemma tail_runs_open:
  assumes "\<And>s0 b. ready s0 \<Longrightarrow> BB s0 = Some b \<Longrightarrow> tail s0 {b} {} b m (ends_open s0)"
  shows "runs_open m"
proof (rule runs_openI)
  fix s u s' assume s: "ready s" and m: "m s = Inr (u, s')"
  then obtain b where b: "BB s = Some b" by (auto elim: readyE)
  from tailD [OF assms [OF s b] at_start [OF s b] _ m] show "\<exists>b. BB s' = Some b \<and> pend s {b} s'"
    by (simp add: ends_open_def)
qed

lemma tail_open:
  assumes "b \<notin> V" and "runs_open m" and "\<And>x c. c \<notin> V \<Longrightarrow> tail s0 (insert c V) K c (f x) Q"
  shows "tail s0 (insert b V) K b (bindS m f) Q"
proof (rule tailI, elim bindS_InrE)
  fix s u s' x s1
  assume at: "at s0 (insert b V) b s" and K: "\<forall>t \<in> K. nb s0 \<le> t \<and> t < nb s"
    and m: "m s = Inr (x, s1)" and f: "f x s1 = Inr (u, s')"
  from at_open [OF at _ assms(2) m] obtain c where
    "at s0 (insert c (insert b V - {b})) c s1" "c \<notin> insert b V - {b}" "nb s \<le> nb s1" by blast
  with tailD [OF assms(3) _ _ f] K assms(1) show "Q s'" by fastforce
qed

lemma tail_open_then:
  assumes "b \<notin> V" and "runs_open m" and "\<And>c. c \<notin> V \<Longrightarrow> tail s0 (insert c V) K c k Q"
  shows "tail s0 (insert b V) K b (thenS m k) Q"
  unfolding thenS_def by (rule tail_open) (use assms in auto)

lemma tail_new_block:
  assumes "\<And>n. n \<notin> insert b V \<Longrightarrow> n \<notin> K \<Longrightarrow> tail s0 (insert b (insert n V)) (insert n K) b (f n) Q"
  shows "tail s0 (insert b V) K b (bindS new_block f) Q"
proof (rule tailI, elim bindS_InrE)
  fix s u s' n s1
  assume at: "at s0 (insert b V) b s" and K: "\<forall>t \<in> K. nb s0 \<le> t \<and> t < nb s"
    and m: "new_block s = Inr (n, s1)" and f: "f n s1 = Inr (u, s')"
  note new = at_new_block [OF at _ m, simplified]
  have le: "nb s0 \<le> nb s" using at pendD(2) by (auto simp: at_def)
  have "n \<notin> insert b V" "n \<notin> K" using at_below [OF at, of n] new(2) K by auto
  moreover have "\<forall>t \<in> insert n K. nb s0 \<le> t \<and> t < nb s1" using K new(2,3) le by auto
  ultimately show "Q s'" using tailD [OF assms _ _ f] new(1) by (simp add: insert_commute)
qed

lemma tail_br:
  assumes "b \<notin> V" and "t \<in> K" and "\<And>x. tail s0 V K b (f x) Q"
  shows "tail s0 (insert b V) K b (bindS (b_br t) f) Q"
proof (rule tailI, elim bindS_InrE)
  fix s u s' x s1
  assume at: "at s0 (insert b V) b s" and K: "\<forall>t \<in> K. nb s0 \<le> t \<and> t < nb s"
    and m: "b_br t s = Inr (x, s1)" and f: "f x s1 = Inr (u, s')"
  have t: "nb s0 \<le> t" "t < nb s" using K assms(2) by auto
  have "at s0 V b s1" "nb s1 = nb s" using at_br [OF at _ m t] assms(1) by simp_all
  with tailD [OF assms(3) _ _ f] K show "Q s'" by simp
qed

lemma tail_cond_br:
  assumes "b \<notin> V" and "t \<in> K" and "h \<in> K" and "\<And>x. tail s0 V K b (f x) Q"
  shows "tail s0 (insert b V) K b (bindS (b_cond_br c t h) f) Q"
proof (rule tailI, elim bindS_InrE)
  fix s u s' x s1
  assume at: "at s0 (insert b V) b s" and K: "\<forall>t \<in> K. nb s0 \<le> t \<and> t < nb s"
    and m: "b_cond_br c t h s = Inr (x, s1)" and f: "f x s1 = Inr (u, s')"
  have t: "nb s0 \<le> t" "t < nb s" "nb s0 \<le> h" "h < nb s" using K assms(2,3) by auto
  have "at s0 V b s1" "nb s1 = nb s" using at_cond_br [OF at _ m t] assms(1) by simp_all
  with tailD [OF assms(4) _ _ f] K show "Q s'" by simp
qed

lemma tail_set_then:
  assumes "W = insert c V" and "tail s0 (insert c V) K c k Q"
  shows "tail s0 W K b (thenS (set_insert_point c) k) Q"
proof (rule tailI, elim thenS_InrE)
  fix s u s' x s1
  assume at: "at s0 W b s" and K: "\<forall>t \<in> K. nb s0 \<le> t \<and> t < nb s"
    and m: "set_insert_point c s = Inr (x, s1)" and f: "k s1 = Inr (u, s')"
  have "at s0 (insert c V) c s1" "nb s1 = nb s" using at_set [OF at m] assms(1) by simp_all
  with tailD [OF assms(2) _ _ f] K show "Q s'" by simp
qed

lemma tail_set_end: "W = {c} \<Longrightarrow> tail s0 W K b (set_insert_point c) (ends_open s0)"
proof (rule tailI)
  fix s u s' assume "W = {c}" "at s0 W b s" "set_insert_point c s = Inr (u, s')"
  from this(1) at_set(1) [OF this(2,3)] show "ends_open s0 s'" by (auto simp: ends_open_def at_def)
qed

section \<open>Expressions\<close>

lemma runs_open_element_address [runs_open_intros]: "runs_open (gen_element_address v i)"
  unfolding gen_element_address_def by (intro runs_open_intros)

lemma runs_open_checked_access [runs_open_intros]: "runs_open (gen_checked_access v i lv)"
proof (rule tail_runs_open)
  fix s0 b
  have "tail s0 (insert b {}) {} b (gen_checked_access v i lv) (ends_open s0)"
    unfolding gen_checked_access_def
    apply (rule tail_new_block)+
    apply (rule tail_open, blast, (intro runs_open_intros)[1])
    apply (rule tail_cond_br, blast, simp, simp)
    subgoal for t f e
      apply (rule tail_set_then [where V = "{f, e}"], fast)
      apply (rule tail_open, blast, (intro runs_open_intros)[1])+
      apply (rule tail_open_then, blast, (intro runs_open_intros)[1])+
      apply (rule tail_br, blast, simp)
      apply (rule tail_set_then [where V = "{e}"], fast)
      apply (rule tail_open, blast, (intro runs_open_intros)[1])+
      apply (rule tail_br, blast, simp)
      apply (rule tail_set_end, simp)
      done
    done
  then show "tail s0 {b} {} b (gen_checked_access v i lv) (ends_open s0)" .
qed

lemma runs_open_element [runs_open_intros]: "runs_open e \<Longrightarrow> runs_open (gen_element v e)"
  unfolding gen_element_def by (intro runs_open_intros)

lemma runs_open_convert [runs_open_intros]: "runs_open (convert v t t')"
  unfolding convert_def by (intro runs_open_intros)

lemma runs_open_promote [runs_open_intros]: "runs_open (promote v w)"
  unfolding promote_def by (intro runs_open_intros)

lemma runs_open_gen [runs_open_intros]:
  "runs_open (gen_ASTNum n)"
  "(\<And>x. e = Some x \<Longrightarrow> runs_open x) \<Longrightarrow> runs_open (gen_ASTVar nm e)"
  "runs_open m \<Longrightarrow> runs_open k \<Longrightarrow> runs_open (gen_ASTAssignExpression m k)"
  "runs_open m \<Longrightarrow> (\<And>x. e = Some x \<Longrightarrow> runs_open x) \<Longrightarrow> runs_open (gen_ASTSimpleExpression m e rop)"
  "(\<And>x. e = Some x \<Longrightarrow> runs_open x) \<Longrightarrow> runs_open m \<Longrightarrow> runs_open (gen_ASTAdditiveExpression e aop m)"
  "(\<And>x. e = Some x \<Longrightarrow> runs_open x) \<Longrightarrow> runs_open m \<Longrightarrow> runs_open (gen_ASTTerm e mop m)"
  unfolding gen_ASTNum_def gen_ASTVar_def gen_scalar_var_def gen_ASTAssignExpression_def
    gen_ASTSimpleExpression_def gen_ASTAdditiveExpression_def gen_ASTTerm_def
  by ((intro runs_open_intros; simp)+)

lemma runs_open_args: "(\<And>a. a \<in> set args \<Longrightarrow> runs_open a) \<Longrightarrow> runs_open (gen_args args ps vs)"
proof (induction args ps vs rule: gen_args.induct)
  case (1 ps vs)
  show ?case unfolding gen_args.simps by (rule runs_open_basic)
next
  case (2 a rest ps vs)
  show ?case
    unfolding gen_args.simps
    by (intro runs_open_intros "2.IH") (use 2 in auto)
qed

lemma runs_open_call_visit [runs_open_intros]: "(\<And>a. a \<in> set args \<Longrightarrow> runs_open a) \<Longrightarrow> runs_open (gen_ASTCall nm args)"
  unfolding gen_ASTCall_def
  by (auto split: irval.splits intro!: runs_open_intros runs_open_args)

lemma runs_open_expressions:
  "runs_open (cg_ASTFactor f)" "runs_open (cg_ASTExpression e)" "runs_open (cg_ASTVar v)"
  "runs_open (cg_ASTAdditiveExpression a)" "runs_open (cg_ASTTerm t)" "runs_open (cg_ASTCall c)"
proof (induction f and e and v and a and t and c
    rule: cg_ASTFactor_cg_ASTExpression_cg_ASTVar_cg_ASTAdditiveExpression_cg_ASTTerm_cg_ASTCall.induct)
qed (auto intro!: runs_open_intros)

section \<open>Statements\<close>

text \<open>A statement may end in a closed block: everything it owns is closed then.\<close>

definition ends_stmt :: "cg_state \<Rightarrow> cg_state \<Rightarrow> bool" where
  "ends_stmt s0 s \<longleftrightarrow> (\<exists>b. BB s = Some b \<and> b \<in> owned s0 s \<and> (pend s0 {b} s \<or> pend s0 {} s))"

definition runs_stmt :: "'a cg \<Rightarrow> bool" where
  "runs_stmt m \<longleftrightarrow> (\<forall>s u s'. ready s \<longrightarrow> m s = Inr (u, s') \<longrightarrow> ends_stmt s s')"

named_theorems runs_stmt_intros

lemma runs_stmtI: "(\<And>s u s'. ready s \<Longrightarrow> m s = Inr (u, s') \<Longrightarrow> ends_stmt s s') \<Longrightarrow> runs_stmt m"
  by (simp add: runs_stmt_def)

lemma runs_stmtD: "runs_stmt m \<Longrightarrow> ready s \<Longrightarrow> m s = Inr (u, s') \<Longrightarrow> ends_stmt s s'"
  by (auto simp: runs_stmt_def)

lemma ends_open_stmt: "ends_open s0 s \<Longrightarrow> ends_stmt s0 s"
  by (auto simp: ends_open_def ends_stmt_def dest: pendD(10))

lemma runs_open_stmt: "runs_open m \<Longrightarrow> runs_stmt m"
  unfolding runs_open_def runs_stmt_def ends_open_def [symmetric] using ends_open_stmt by blast

lemma ends_stmt_trans:
  assumes "pend s0 {b} s" and "BB s = Some b" and "ends_stmt s s'"
  shows "ends_stmt s0 s'"
proof -
  from assms(3) obtain c where c: "BB s' = Some c" "c \<in> owned s s'" "pend s {c} s' \<or> pend s {} s'"
    by (auto simp: ends_stmt_def)
  have "pend s0 {c} s' \<or> pend s0 {} s'"
    using c(3) pend_frame [OF assms(1,2)] by fastforce
  moreover have "c \<in> owned s0 s'"
    using c(2) assms(2) pendD(2,10) [OF assms(1)] by (auto simp: owned_def)
  ultimately show ?thesis using c(1) by (auto simp: ends_stmt_def)
qed

lemma runs_stmt_bind [runs_stmt_intros]:
  assumes "runs_open m" and "\<And>x. runs_stmt (f x)"
  shows "runs_stmt (bindS m f)"
proof (rule runs_stmtI, elim bindS_InrE)
  fix s u s' x s1
  assume s: "ready s" "m s = Inr (x, s1)" and f: "f x s1 = Inr (u, s')"
  from runs_openE [OF assms(1) s] obtain b where b: "BB s1 = Some b" "pend s {b} s1" "ready s1" .
  from ends_stmt_trans [OF b(2,1) runs_stmtD [OF assms(2) b(3) f]] show "ends_stmt s s'" .
qed

lemma runs_stmt_then [runs_stmt_intros]: "runs_open m \<Longrightarrow> runs_stmt k \<Longrightarrow> runs_stmt (thenS m k)"
  unfolding thenS_def by (rule runs_stmt_bind)

lemma ends_stmt_same_ir:
  assumes "ends_stmt s0 s" and "same_ir s s'" and "BB s' = BB s" and "cur_fun s' = cur_fun s"
  shows "ends_stmt s0 s'"
proof -
  have "owned s0 s' = owned s0 s" using assms(2) by (simp add: owned_def same_ir_def)
  with assms show ?thesis unfolding ends_stmt_def using pend_same_ir [OF _ assms(2,4)] by auto
qed

lemma exitS_same: "exitS s = Inr (u, s') \<Longrightarrow> same_ir s s' \<and> BB s' = BB s \<and> cur_fun s' = cur_fun s"
  by (auto simp: exitS_def same_ir_def)

lemma runs_stmt_exit [runs_stmt_intros]: "runs_stmt m \<Longrightarrow> runs_stmt (thenS m exitS)"
  by (rule runs_stmtI) (auto dest!: exitS_same dest: runs_stmtD intro: ends_stmt_same_ir)

lemma insert_block_terminated_result:
  "insert_block_terminated s = Inr (t, s') \<longleftrightarrow> (\<exists>b. BB s = Some b) \<and> s' = s \<and> (t \<longleftrightarrow> get_terminator s (the (BB s)) \<noteq> None)"
  by (cases "BB s") (auto simp: insert_block_terminated_def bindS_def derefS_def)

lemma closed_terminated: "closed_block s b \<Longrightarrow> get_terminator s b \<noteq> None"
  using get_terminator_iff [of s b] open_not_closed by blast

lemma open_unterminated: "open_block s b \<Longrightarrow> get_terminator s b = None"
  using get_terminator_iff [of s b] by blast

text \<open>Going on after a statement, only when its block is still open.\<close>

lemma runs_stmt_continue:
  assumes "runs_stmt m" and "runs_stmt k"
  shows "runs_stmt (thenS m (bindS insert_block_terminated (\<lambda>t. if t then returnS () else k)))"
proof (rule runs_stmtI, elim thenS_InrE bindS_InrE)
  fix s u s' x s1 t s2
  assume s: "ready s" and m: "m s = Inr (x, s1)" and t: "insert_block_terminated s1 = Inr (t, s2)"
    and k: "(if t then returnS () else k) s2 = Inr (u, s')"
  from runs_stmtD [OF assms(1) s m] obtain b where b: "BB s1 = Some b" "b \<in> owned s s1" "pend s {b} s1 \<or> pend s {} s1"
    by (auto simp: ends_stmt_def)
  from t b(1) have s2: "s2 = s1" and tt: "t \<longleftrightarrow> get_terminator s1 b \<noteq> None" by (auto simp: insert_block_terminated_result)
  show "ends_stmt s s'"
  proof (cases t)
    case True
    with k s2 have "s' = s1" by simp
    with runs_stmtD [OF assms(1) s m] show ?thesis by simp
  next
    case False
    with tt closed_terminated [of s1 b] have "\<not> closed_block s1 b" by auto
    with b(2,3) have p: "pend s {b} s1" by (auto dest: pendD(13))
    from k False s2 have "k s1 = Inr (u, s')" by simp
    from ends_stmt_trans [OF p b(1) runs_stmtD [OF assms(2) pend_ready [OF s p b(1)] this]] show ?thesis by simp
  qed
qed

lemma runs_stmt_list: "(\<And>m. m \<in> set ms \<Longrightarrow> runs_stmt m) \<Longrightarrow> runs_stmt (gen_statement_list ms)"
proof (induction ms)
  case Nil
  show ?case unfolding gen_statement_list.simps by (rule runs_open_stmt [OF runs_open_basic(1)])
next
  case (Cons m ms)
  then show ?case unfolding gen_statement_list.simps by (intro runs_stmt_continue) simp_all
qed

lemma runs_open_seqS: "(\<And>m. m \<in> set ms \<Longrightarrow> runs_open m) \<Longrightarrow> runs_open (seqS ms)"
proof (induction ms)
  case Nil
  show ?case unfolding seqS.simps by (rule runs_open_basic(1))
next
  case (Cons m ms)
  then show ?case unfolding seqS.simps by (intro runs_open_then) simp_all
qed

lemma thenS_assoc: "thenS (thenS m k) l = thenS m (thenS k l)"
proof
  show "thenS (thenS m k) l s = thenS m (thenS k l) s" for s
    by (cases "m s") (simp_all add: thenS_def bindS_def split_beta)
qed

lemma runs_stmt_compound:
  assumes "\<And>m. m \<in> set ds \<Longrightarrow> runs_open m" and "\<And>m. m \<in> set ms \<Longrightarrow> runs_stmt m"
  shows "runs_stmt (gen_ASTCompoundStmt ds ms)"
  unfolding gen_ASTCompoundStmt_def thenS_assoc [symmetric]
  by (rule runs_stmt_exit, unfold thenS_assoc, intro runs_stmt_then runs_open_basic runs_open_seqS runs_stmt_list assms)

lemma runs_stmt_return_inst:
  assumes "inst_only I_ret f"
  shows "runs_stmt (bindS (at_bb f) (\<lambda>_. returnS ()))"
proof (rule runs_stmtI)
  fix s u s' assume s: "ready s" and m: "bindS (at_bb f) (\<lambda>_. returnS ()) s = Inr (u, s')"
  from s obtain b where b: "BB s = Some b" by (auto elim: readyE)
  from m obtain v where "at_bb f s = Inr (v, s')" by auto
  from at_ret [OF at_start [OF s b] _ assms this] have "at s {} b s'" by simp
  then show "ends_stmt s s'"
    using s b pendD(2) [of s "{}" s'] by (auto simp: ends_stmt_def at_def owned_def elim: readyE)
qed

lemma runs_stmt_return:
  assumes "\<And>x. e = Some x \<Longrightarrow> runs_open x"
  shows "runs_stmt (gen_ASTReturnStmt e)"
proof (cases e)
  case None
  then show ?thesis
    unfolding gen_ASTReturnStmt_def b_void_ret_def by (simp add: runs_stmt_return_inst [OF inst_only_create(13)])
next
  case (Some x)
  then show ?thesis
    unfolding gen_ASTReturnStmt_def b_ret_def option.case
    by (simp only: option.case)
      (intro runs_stmt_intros runs_open_intros runs_stmt_return_inst [OF inst_only_create(12)] assms [OF Some])
qed

lemma runs_stmt_expression:
  "(\<And>x. e = Some x \<Longrightarrow> runs_open x) \<Longrightarrow> runs_stmt (gen_ASTExpressionStmt e)"
  unfolding gen_ASTExpressionStmt_def
  by (rule runs_open_stmt) (auto intro: runs_open_basic split: option.split)

text \<open>A statement in a block of its own, followed by the jump to the block after it.\<close>

lemma br_unless_open:
  assumes "br_unless_terminated e s = Inr (u, s')" and "BB s = Some c" and "open_block s c"
  shows "\<exists>v. b_br e s = Inr (v, s')"
  using assms open_unterminated [OF assms(3)]
  by (auto simp: br_unless_terminated_def insert_block_terminated_result)

lemma br_unless_closed:
  assumes "br_unless_terminated e s = Inr (u, s')" and "BB s = Some c" and "closed_block s c"
  shows "s' = s"
  using assms closed_terminated [OF assms(3)]
  by (auto simp: br_unless_terminated_def insert_block_terminated_result)

lemma tail_branch:
  assumes "b \<notin> V" and "e \<in> K" and "runs_stmt m" and "\<And>c. tail s0 V K c k Q"
  shows "tail s0 (insert b V) K b (thenS m (thenS exitS (thenS (br_unless_terminated e) k))) Q"
proof (rule tailI, elim thenS_InrE)
  fix s u s' x s1 y s2 z s3
  assume at: "at s0 (insert b V) b s" and K: "\<forall>t \<in> K. nb s0 \<le> t \<and> t < nb s"
    and m: "m s = Inr (x, s1)" and ex: "exitS s1 = Inr (y, s2)" and br: "br_unless_terminated e s2 = Inr (z, s3)"
    and k: "k s3 = Inr (u, s')"
  from at have s0: "ready s0" "pend s0 (insert b V) s" "BB s = Some b" by (simp_all add: at_def)
  from ends_stmt_same_ir [OF runs_stmtD [OF assms(3) at_ready [OF at] m]] exitS_same [OF ex]
  obtain c where c: "BB s2 = Some c" "c \<in> owned s s2" "pend s {c} s2 \<or> pend s {} s2"
    by (auto simp: ends_stmt_def)
  then have nb: "nb s \<le> nb s2" by (auto dest: pendD(2))
  have K2: "\<forall>t \<in> K. nb s0 \<le> t \<and> t < nb s2" using K nb by auto
  have V: "insert b V - {b} = V" using assms(1) by auto
  have new: "c \<notin> V" using c(2) s0(3) assms(1) at_below [OF at, of c] by (auto simp: owned_def)
  show "Q s'"
  proof (cases "open_block s2 c")
    case True
    with c(2,3) open_not_closed have "pend s {c} s2" by (auto dest: pendD(13))
    from pend_frame [OF s0(2,3) _ this] have at2: "at s0 (insert c V) c s2" using s0(1) c(1) V by (simp add: at_def)
    from br_unless_open [OF br c(1) True] obtain v where v: "b_br e s2 = Inr (v, s3)" by blast
    have "at s0 V c s3" "nb s3 = nb s2" using at_br [OF at2 _ v] K2 assms(2) new by auto
    with tailD [OF assms(4) _ _ k] K2 show ?thesis by simp
  next
    case False
    with c(3) have "pend s {} s2" by (auto dest: pendD(11))
    from pend_frame [OF s0(2,3) _ this] have at2: "at s0 V c s2" using s0(1) c(1) V by (simp add: at_def)
    from pendD(13) [OF \<open>pend s {} s2\<close> c(2)] br_unless_closed [OF br c(1)] have "s3 = s2" by simp
    with at2 tailD [OF assms(4) _ _ k] K2 show ?thesis by simp
  qed
qed

lemma then_bind_return: "thenS (bindS m (\<lambda>_. returnS ())) k = bindS m (\<lambda>_. k)"
proof
  show "thenS (bindS m (\<lambda>_. returnS ())) k s = bindS m (\<lambda>_. k) s" for s
    by (cases "m s") (simp_all add: thenS_def bindS_def split_beta)
qed

lemma tail_else:
  assumes "f \<noteq> h" and "h \<in> K" and "\<And>x. els = Some x \<Longrightarrow> runs_stmt x"
  shows "tail s0 {f, h} K f
    (thenS (case els of Some x \<Rightarrow> thenS enterS (thenS x (thenS exitS (br_unless_terminated h)))
              | None \<Rightarrow> bindS (b_br h) (\<lambda>_. returnS ()))
      (set_insert_point h)) (ends_open s0)"
proof (cases els)
  case None
  have "tail s0 {f, h} K f (bindS (b_br h) (\<lambda>_. set_insert_point h)) (ends_open s0)"
    by (rule tail_br) (use assms in \<open>auto intro: tail_set_end\<close>)
  then show ?thesis by (simp add: None then_bind_return)
next
  case (Some x)
  have "tail s0 {f, h} K f (thenS (thenS enterS x) (thenS exitS (thenS (br_unless_terminated h) (set_insert_point h))))
      (ends_open s0)"
    by (rule tail_branch) (use assms Some in \<open>auto intro!: tail_set_end runs_stmt_then runs_open_basic\<close>)
  then show ?thesis by (simp add: Some thenS_assoc)
qed

lemma runs_open_selection:
  assumes "runs_open e" and "runs_stmt m" and "\<And>x. els = Some x \<Longrightarrow> runs_stmt x"
  shows "runs_open (gen_ASTSelectionStmt e m els)"
proof (rule tail_runs_open)
  fix s0 b
  have "tail s0 (insert b {}) {} b (gen_ASTSelectionStmt e m els) (ends_open s0)"
    unfolding gen_ASTSelectionStmt_def
    apply (rule tail_new_block)+
    apply (rule tail_open_then, blast, rule assms(1))
    apply (rule tail_open, blast, (intro runs_open_intros)[1])+
    apply (rule tail_open_then, blast, (intro runs_open_intros)[1])
    apply (rule tail_cond_br, blast, simp, simp)
    subgoal for t f h
      apply (rule tail_set_then [where V = "{f, h}"], fast)
      apply (subst thenS_assoc [of enterS m, symmetric])
      apply (rule tail_branch, blast, simp, (intro runs_stmt_then runs_open_basic assms(2))[1])
      apply (rule tail_set_then [where V = "{h}"], fast)
      apply (rule tail_else, blast, simp, rule assms(3), assumption)
      done
    done
  then show "tail s0 {b} {} b (gen_ASTSelectionStmt e m els) (ends_open s0)" .
qed

lemma runs_open_iteration:
  assumes "runs_open e" and "runs_stmt m"
  shows "runs_open (gen_ASTIterationStmt e m)"
proof (rule tail_runs_open)
  fix s0 b
  have "tail s0 (insert b {}) {} b (gen_ASTIterationStmt e m) (ends_open s0)"
    unfolding gen_ASTIterationStmt_def
    apply (rule tail_new_block)+
    apply (rule tail_br, blast, simp)
    subgoal for t f h
      apply (rule tail_set_then [where V = "{f, h}"], fast)
      apply (rule tail_open_then, blast, rule assms(1))
      apply (rule tail_open, blast, (intro runs_open_intros)[1])+
      apply (rule tail_open_then, blast, (intro runs_open_intros)[1])
      apply (rule tail_cond_br, blast, simp, simp)
      apply (rule tail_set_then [where V = "{h}"], fast)
      apply (subst thenS_assoc [of enterS m, symmetric])
      apply (rule tail_branch, blast, simp, (intro runs_stmt_then runs_open_basic assms(2))[1])
      apply (rule tail_set_end, simp)
      done
    done
  then show "tail s0 {b} {} b (gen_ASTIterationStmt e m) (ends_open s0)" .
qed

section \<open>Declarations\<close>

lemma runs_open_global [runs_open_intros]: "runs_open (GlobalVariable_create nm t c (Some v))"
proof (rule runs_openI)
  fix s u s' assume s: "ready s" and m: "GlobalVariable_create nm t c (Some v) s = Inr (u, s')"
  from s obtain b where b: "BB s = Some b" "ir_ok s" by (auto elim: readyE)
  from GlobalVariable_create_ok(2) [OF m b(2)] obtain gs g' where s': "s' = s\<lparr>global_list := gs, graph := g'\<rparr>" by blast
  have "open_block s' d = open_block s d" "closed_block s' d = closed_block s d" for d
    by (simp_all add: s' open_block_def closed_block_def tflags_def)
  with pend_refl [OF s b(1)] GlobalVariable_create_ok(1) [OF m b(2)] b(1)
  show "\<exists>b. BB s' = Some b \<and> pend s {b} s'" by (auto simp: pend_def owned_def s')
qed

lemma runs_open_var_declaration [runs_open_intros]: "runs_open (gen_ASTVarDeclaration d)"
  unfolding gen_ASTVarDeclaration_def by (intro runs_open_intros)

lemma runs_stmt_statements:
  "runs_stmt (cg_ASTStatement s)" "runs_stmt (cg_ASTCompoundStmt c)"
proof (induction s and c rule: cg_ASTStatement_cg_ASTCompoundStmt.induct)
  case (2 e)
  show ?case unfolding cg_ASTStatement.simps
    by (intro runs_stmt_expression) (auto simp: runs_open_expressions)
next
  case (3 e s s')
  then show ?case unfolding cg_ASTStatement.simps
    by (auto intro!: runs_open_stmt [OF runs_open_selection] runs_open_expressions)
next
  case (4 e s)
  then show ?case unfolding cg_ASTStatement.simps
    by (auto intro!: runs_open_stmt [OF runs_open_iteration] runs_open_expressions)
next
  case (5 e)
  show ?case unfolding cg_ASTStatement.simps
    by (intro runs_stmt_return) (auto simp: runs_open_expressions)
next
  case (6 ds ss)
  then show ?case unfolding cg_ASTCompoundStmt.simps
    by (intro runs_stmt_compound) (auto simp: runs_open_var_declaration)
qed simp

lemma runs_open_params: "runs_open (gen_params f i ps)"
proof (induction ps arbitrary: i)
  case Nil
  show ?case unfolding gen_params.simps by (rule runs_open_basic)
next
  case (Cons p ps)
  show ?case unfolding gen_params.simps by (intro runs_open_intros Cons.IH)
qed

end
