(* ===== verification/CodegenProgram.thy ===== *)
theory CodegenProgram
  imports CodegenCfg AstRoundtrip
begin

text \<open>
  Declarations and the whole program: every visit leaves the scope at the depth it found
  it, a function declaration closes every block it makes, and so the module that
  \<open>codegen\<close> returns is well built.
\<close>

section \<open>The depth of the scope\<close>

definition keeps_level :: "'a cg \<Rightarrow> bool" where
  "keeps_level m \<longleftrightarrow> (\<forall>s u s'. m s = Inr (u, s') \<longrightarrow> length (scope s') = length (scope s))"

named_theorems keeps_level_intros

lemma keeps_levelI: "(\<And>s u s'. m s = Inr (u, s') \<Longrightarrow> length (scope s') = length (scope s)) \<Longrightarrow> keeps_level m"
  by (simp add: keeps_level_def)

lemma keeps_levelD: "keeps_level m \<Longrightarrow> m s = Inr (u, s') \<Longrightarrow> length (scope s') = length (scope s)"
  by (auto simp: keeps_level_def)

lemma keeps_level_bind [keeps_level_intros]:
  "keeps_level m \<Longrightarrow> (\<And>x. keeps_level (f x)) \<Longrightarrow> keeps_level (bindS m f)"
  by (rule keeps_levelI, elim bindS_InrE) (metis keeps_levelD)

lemma keeps_level_then [keeps_level_intros]: "keeps_level m \<Longrightarrow> keeps_level k \<Longrightarrow> keeps_level (thenS m k)"
  unfolding thenS_def by (rule keeps_level_bind)

lemma keeps_level_cases [keeps_level_intros]:
  "(P \<Longrightarrow> keeps_level m) \<Longrightarrow> (\<not> P \<Longrightarrow> keeps_level k) \<Longrightarrow> keeps_level (if P then m else k)"
  "(x = None \<Longrightarrow> keeps_level m) \<Longrightarrow> (\<And>y. x = Some y \<Longrightarrow> keeps_level (f y)) \<Longrightarrow>
   keeps_level (case x of None \<Rightarrow> m | Some y \<Rightarrow> f y)"
  "(l = [] \<Longrightarrow> keeps_level m) \<Longrightarrow> (\<And>y ys. l = y # ys \<Longrightarrow> keeps_level (g y ys)) \<Longrightarrow>
   keeps_level (case l of [] \<Rightarrow> m | y # ys \<Rightarrow> g y ys)"
  "(\<And>a b. keeps_level (h a b)) \<Longrightarrow> keeps_level (case z of (a, b) \<Rightarrow> h a b)"
  by (simp split: option.split) (simp split: option.split, simp split: list.split, simp split: prod.split)

lemma pushS_level: "pushS nm v s = Inr (u, s') \<Longrightarrow> length (scope s') = length (scope s)"
  by (auto simp: pushS_def scope_push_def split: option.splits if_splits)

lemma keeps_level_basic [keeps_level_intros]:
  "keeps_level (returnS x)" "keeps_level (failS e)" "keeps_level (getS h)" "keeps_level (liftR r)" "keeps_level (assertS P)"
  "keeps_level (derefS y)" "keeps_level (set_value v)" "keeps_level (type_of v)" "keeps_level current" "keeps_level (findS nm)"
  "keeps_level (ConstantInt_get i)" "keeps_level (ConstantZero_get t)" "keeps_level (pointee v)"
  "keeps_level (modifyS (\<lambda>s. s\<lparr>cur_lvalue := lv\<rparr>))" "keeps_level (modifyS (\<lambda>s. s\<lparr>cur_value := cv\<rparr>))"
  "keeps_level (modifyS (\<lambda>s. s\<lparr>cur_fun := cf\<rparr>))" "keeps_level insert_block_terminated" "keeps_level (set_insert_point b)"
  "keeps_level (modifyS (\<lambda>s. s\<lparr>blocks := bs s\<rparr>))" "keeps_level (upd_block b k)" "keeps_level (upd_function b k')"
  by (rule keeps_levelI;
      auto simp: set_value_def type_of_def current_def findS_def ConstantInt_get_def ConstantZero_get_def pointee_def
        insert_block_terminated_def set_insert_point_def upd_block_def upd_function_def liftR_def derefS_def assertS_def
        split: option.splits sum.splits prod.splits if_splits)+

lemma keeps_level_pushS [keeps_level_intros]: "keeps_level (pushS nm v)"
  by (rule keeps_levelI) (rule pushS_level)

lemma keeps_level_ConstantFP_get [keeps_level_intros]: "keeps_level (ConstantFP_get w)"
  by (rule keeps_levelI) (auto simp: ConstantFP_get_def split: option.splits)

lemma keeps_level_set_operands [keeps_level_intros]: "keeps_level (set_operands u i vs)"
proof (induction vs arbitrary: i)
  case Nil
  show ?case unfolding set_operands.simps by (rule keeps_level_basic)
next
  case (Cons v vs)
  have "keeps_level (set_operand_ir u i v)" for i by (rule keeps_levelI) (auto simp: set_operand_ir_def)
  then show ?case unfolding set_operands.simps by (intro keeps_level_then Cons.IH)
qed

lemma keeps_level_create_inst [keeps_level_intros]: "keeps_level (create_inst t op x ops bb)"
proof -
  have "keeps_level (new_instruction t op x n bb)" for n by (rule keeps_levelI) (auto simp: new_instruction_def)
  then show ?thesis unfolding create_inst_def add_instruction_def by (intro keeps_level_intros)
qed

lemma keeps_level_inst: "inst_only op f \<Longrightarrow> keeps_level (at_bb f)"
proof (rule keeps_levelI)
  fix s u s' assume f: "inst_only op f" and m: "at_bb f s = Inr (u, s')"
  then have "f (BB s) s = Inr (u, s')" by (auto simp: at_bb_def)
  with f obtain t x ops where "create_inst t op x ops (BB s) s = Inr (u, s')" unfolding inst_only_def by blast
  then show "length (scope s') = length (scope s)" by (rule keeps_levelD [OF keeps_level_create_inst])
qed

lemma keeps_level_builder [keeps_level_intros]:
  "keeps_level (b_iadd l r)" "keeps_level (b_isub l r)" "keeps_level (b_imul l r)" "keeps_level (b_isdiv l r)"
  "keeps_level (b_fadd l r)" "keeps_level (b_fsub l r)" "keeps_level (b_fmul l r)" "keeps_level (b_fdiv l r)"
  "keeps_level (b_icmp op l r)" "keeps_level (b_fcmp op l r)" "keeps_level (b_ret l)" "keeps_level b_void_ret"
  "keeps_level (b_gep l idxs)" "keeps_level (b_store l r)"
  "keeps_level (b_alloca t)" "keeps_level (b_zext l t)" "keeps_level (b_fptosi l t)" "keeps_level (b_sitofp l t)"
  unfolding b_iadd_def b_isub_def b_imul_def b_isdiv_def b_fadd_def b_fsub_def b_fmul_def b_fdiv_def b_icmp_def
    b_fcmp_def b_gep_def b_store_def b_alloca_def b_zext_def b_sitofp_def b_fptosi_def b_ret_def b_void_ret_def
  by (rule keeps_level_inst, rule inst_only_create)+

lemma keeps_level_br [keeps_level_intros]: "keeps_level (b_br b)" "keeps_level (b_cond_br c t f)"
proof -
  have "keeps_level (create_br b bb)" "keeps_level (create_cond_br c t f bb)" for bb
    unfolding create_br_def create_cond_br_def add_pre_basic_block_def add_succ_basic_block_def
    by (intro keeps_level_intros)+
  then show "keeps_level (b_br b)" "keeps_level (b_cond_br c t f)"
    unfolding b_br_def b_cond_br_def at_bb_def by (intro keeps_level_bind keeps_level_basic; simp)+
qed

lemma keeps_level_load [keeps_level_intros]: "keeps_level (b_load p)"
  unfolding b_load_def by (intro keeps_level_intros keeps_level_inst [OF inst_only_create(16)])

lemma keeps_level_call [keeps_level_intros]: "keeps_level (b_call func args)"
  unfolding b_call_def
  by (auto split: option.splits irval.splits intro!: keeps_level_basic keeps_level_inst [OF inst_only_create(11)])

lemma keeps_level_block [keeps_level_intros]: "keeps_level (BasicBlock_create nm f)" "keeps_level new_block"
  "keeps_level (Function_create t nm)" "keeps_level (GlobalVariable_create nm t c v)"
proof -
  show b: "keeps_level (BasicBlock_create nm f)" for nm f
    unfolding BasicBlock_create_def add_basic_block_def
    by (intro keeps_level_intros)
  show "keeps_level new_block" unfolding new_block_def by (intro keeps_level_intros b)
  show "keeps_level (Function_create t nm)" by (rule keeps_levelI) (auto simp: Function_create_def)
  show "keeps_level (GlobalVariable_create nm t c v)"
    by (rule keeps_levelI) (auto simp: GlobalVariable_create_def set_operand_ir_def split: option.splits)
qed

lemma keeps_level_scoped:
  assumes "keeps_level m"
  shows "keeps_level (thenS enterS (thenS m exitS))"
proof (rule keeps_levelI, elim thenS_InrE)
  fix s u s' x s1 y s2
  assume "enterS s = Inr (x, s1)" and m: "m s1 = Inr (y, s2)" and ex: "exitS s2 = Inr (u, s')"
  then have "length (scope s1) = Suc (length (scope s))" by (auto simp: enterS_def scope_enter_def)
  with keeps_levelD [OF assms m] ex show "length (scope s') = length (scope s)"
    by (auto simp: exitS_def scope_exit_def split: if_splits)
qed

lemma keeps_level_element_address [keeps_level_intros]: "keeps_level (gen_element_address v i)"
  unfolding gen_element_address_def by (intro keeps_level_intros)

lemma keeps_level_checked_access [keeps_level_intros]: "keeps_level (gen_checked_access v i lv)"
  unfolding gen_checked_access_def by (intro keeps_level_intros)

lemma keeps_level_conversions [keeps_level_intros]: "keeps_level (convert v t t')" "keeps_level (promote v w)"
  unfolding convert_def promote_def by (intro keeps_level_intros)+

lemma keeps_level_gen [keeps_level_intros]:
  "keeps_level (gen_ASTNum n)"
  "(\<And>x. e = Some x \<Longrightarrow> keeps_level x) \<Longrightarrow> keeps_level (gen_ASTVar nm e)"
  "keeps_level m \<Longrightarrow> keeps_level k \<Longrightarrow> keeps_level (gen_ASTAssignExpression m k)"
  "keeps_level m \<Longrightarrow> (\<And>x. e = Some x \<Longrightarrow> keeps_level x) \<Longrightarrow> keeps_level (gen_ASTSimpleExpression m e rop)"
  "(\<And>x. e = Some x \<Longrightarrow> keeps_level x) \<Longrightarrow> keeps_level m \<Longrightarrow> keeps_level (gen_ASTAdditiveExpression e aop m)"
  "(\<And>x. e = Some x \<Longrightarrow> keeps_level x) \<Longrightarrow> keeps_level m \<Longrightarrow> keeps_level (gen_ASTTerm e mop m)"
  "(\<And>x. e = Some x \<Longrightarrow> keeps_level x) \<Longrightarrow> keeps_level (gen_ASTExpressionStmt e)"
  "(\<And>x. e = Some x \<Longrightarrow> keeps_level x) \<Longrightarrow> keeps_level (gen_ASTReturnStmt e)"
  "keeps_level (gen_ASTVarDeclaration d)" "keeps_level gen_default_return"
  unfolding gen_ASTNum_def gen_ASTVar_def gen_scalar_var_def gen_element_def gen_ASTAssignExpression_def
    gen_ASTSimpleExpression_def gen_ASTAdditiveExpression_def gen_ASTTerm_def gen_ASTExpressionStmt_def
    gen_ASTReturnStmt_def gen_ASTVarDeclaration_def gen_default_return_def
  by ((intro keeps_level_intros; simp)+)

lemma keeps_level_args: "(\<And>a. a \<in> set args \<Longrightarrow> keeps_level a) \<Longrightarrow> keeps_level (gen_args args ps vs)"
proof (induction args ps vs rule: gen_args.induct)
  case (1 ps vs)
  show ?case unfolding gen_args.simps by (rule keeps_level_basic)
next
  case (2 a rest ps vs)
  show ?case
    unfolding gen_args.simps
    by (intro keeps_level_intros "2.IH") (use 2 in auto)
qed

lemma keeps_level_expressions:
  "keeps_level (cg_ASTFactor f)" "keeps_level (cg_ASTExpression e)" "keeps_level (cg_ASTVar v)"
  "keeps_level (cg_ASTAdditiveExpression a)" "keeps_level (cg_ASTTerm t)" "keeps_level (cg_ASTCall c)"
proof (induction f and e and v and a and t and c
    rule: cg_ASTFactor_cg_ASTExpression_cg_ASTVar_cg_ASTAdditiveExpression_cg_ASTTerm_cg_ASTCall.induct)
  case (10 nm args)
  then show ?case unfolding cg_ASTCall.simps gen_ASTCall_def
    by (auto split: irval.splits intro!: keeps_level_intros keeps_level_args)
qed (auto intro!: keeps_level_intros)

lemma keeps_level_seqS: "(\<And>m. m \<in> set ms \<Longrightarrow> keeps_level m) \<Longrightarrow> keeps_level (seqS ms)"
proof (induction ms)
  case Nil
  show ?case unfolding seqS.simps by (rule keeps_level_basic(1))
next
  case (Cons m ms)
  then show ?case unfolding seqS.simps by (intro keeps_level_then) simp_all
qed

lemma keeps_level_list: "(\<And>m. m \<in> set ms \<Longrightarrow> keeps_level m) \<Longrightarrow> keeps_level (gen_statement_list ms)"
proof (induction ms)
  case Nil
  show ?case unfolding gen_statement_list.simps by (rule keeps_level_basic(1))
next
  case (Cons m ms)
  then show ?case unfolding gen_statement_list.simps by (intro keeps_level_intros) simp_all
qed

lemma keeps_level_scoped_then: "keeps_level m \<Longrightarrow> keeps_level k \<Longrightarrow> keeps_level (thenS enterS (thenS m (thenS exitS k)))"
  using keeps_level_then [OF keeps_level_scoped] by (simp add: thenS_assoc)

lemma keeps_level_br_unless [keeps_level_intros]: "keeps_level (br_unless_terminated b)"
  unfolding br_unless_terminated_def by (intro keeps_level_intros)

lemma keeps_level_statements: "keeps_level (cg_ASTStatement s)" "keeps_level (cg_ASTCompoundStmt c)"
proof (induction s and c rule: cg_ASTStatement_cg_ASTCompoundStmt.induct)
  case (3 e s s')
  note rules = keeps_level_scoped_then keeps_level_bind keeps_level_then keeps_level_br_unless keeps_level_cases
    keeps_level_expressions keeps_level_block keeps_level_basic keeps_level_builder keeps_level_br
    keeps_level_ConstantFP_get "3.IH"
  show ?case unfolding cg_ASTStatement.simps gen_ASTSelectionStmt_def
    by (cases s'; simp only: option.map option.case) (rule rules refl | assumption)+
next
  case (4 e s)
  note rules = keeps_level_scoped_then keeps_level_bind keeps_level_then keeps_level_br_unless
    keeps_level_expressions keeps_level_block keeps_level_basic keeps_level_builder keeps_level_br "4.IH"
  show ?case unfolding cg_ASTStatement.simps gen_ASTIterationStmt_def by (rule rules)+
next
  case (6 ds ss)
  have "thenS enterS (thenS a (thenS b exitS)) = thenS enterS (thenS (thenS a b) exitS)" for a b :: "unit cg"
    by (simp add: thenS_assoc)
  with 6 show ?case unfolding cg_ASTCompoundStmt.simps gen_ASTCompoundStmt_def
    by (auto intro!: keeps_level_scoped keeps_level_then keeps_level_seqS keeps_level_list keeps_level_gen)
qed (auto intro!: keeps_level_intros keeps_level_expressions)

section \<open>The program\<close>

definition well_built :: "cg_state \<Rightarrow> bool" where
  "well_built s \<longleftrightarrow> ir_ok s \<and> (\<forall>b < nb s. closed_block s b) \<and> length (scope s) = 1"

text \<open>A visit that owned the one open block and closed everything.\<close>

lemma pend_all_closed:
  assumes "pend s0 {} s" and "ready s0" and "\<forall>c < nb s0. BB s0 \<noteq> Some c \<longrightarrow> closed_block s0 c"
  shows "ir_ok s \<and> (\<forall>b < nb s. closed_block s b)"
proof -
  note p = pendD [OF assms(1)]
  obtain xs where xs: "instrs s = instrs s0 @ xs" using p(6) by blast
  have "instrs_placed s0" using assms(2) by (auto simp: ir_ok_def elim: readyE)
  then have "closed_block s b" if "b < nb s" for b
  proof (cases "b \<in> owned s0 s")
    case True
    then show ?thesis using p(13) by simp
  next
    case False
    then have b: "b < nb s0" "BB s0 \<noteq> Some b" using that by (auto simp: owned_def)
    from tflags_same [OF \<open>instrs_placed s0\<close> b(1) p(8) [OF b] xs] assms(3) b show ?thesis
      by (simp add: closed_block_def)
  qed
  with p(1) show ?thesis by simp
qed

lemma tail_ret:
  assumes "inst_only I_ret f"
  shows "tail s0 {b} K b (bindS (at_bb f) (\<lambda>_. returnS ())) (pend s0 {})"
proof (rule tailI, elim bindS_InrE)
  fix s u s' v s1
  assume at1: "at s0 {b} b s" and f: "at_bb f s = Inr (v, s1)" and "returnS () s1 = Inr (u, s')"
  then have "s' = s1" by simp
  with at_ret [OF at1 insertI1 assms f] show "pend s0 {} s'" by (simp add: at_def)
qed

lemma tail_default_return: "tail s0 {b} {} b gen_default_return (pend s0 {})"
proof -
  have void: "tail s0 {c} K c (bindS b_void_ret (\<lambda>_. returnS ())) (pend s0 {})" for c K
    unfolding b_void_ret_def by (rule tail_ret [OF inst_only_create(13)])
  have ret: "tail s0 {c} K c (bindS (b_ret v) (\<lambda>_. returnS ())) (pend s0 {})" for c v K
    unfolding b_ret_def by (rule tail_ret [OF inst_only_create(12)])
  have const: "tail s0 {c} {} c (bindS m (\<lambda>v. bindS (b_ret v) (\<lambda>_. returnS ()))) (pend s0 {})"
    if "runs_open m" for c and m :: "irval cg"
    by (rule tail_open [where V = "{}" and K = "{}", simplified]) (rule that, rule ret)
  have cases: "tail s0 {c} {} c (if P then bindS b_void_ret (\<lambda>_. returnS ())
      else if Q then bindS (ConstantFP_get 0) (\<lambda>v. bindS (b_ret v) (\<lambda>_. returnS ()))
      else bindS (ConstantInt_get 0) (\<lambda>v. bindS (b_ret v) (\<lambda>_. returnS ()))) (pend s0 {})" for c P Q
    using void const [OF runs_open_ConstantFP_get] const [OF runs_open_basic(11)] by simp
  have "tail s0 (insert b {}) {} b gen_default_return (pend s0 {})"
    unfolding gen_default_return_def
    by (rule tail_open, simp, (intro runs_open_intros)[1])+ (rule cases)
  then show ?thesis by simp
qed

text \<open>The body of a function, up to the return that is added when it has none.\<close>

definition finish_body :: "unit cg \<Rightarrow> unit cg" where
  "finish_body m = thenS m (bindS insert_block_terminated (\<lambda>t. if t then returnS () else gen_default_return))"

lemma finish_body_closed:
  assumes s0: "ready s0" and m: "finish_body m s0 = Inr (u, s)" and stmt: "runs_stmt m"
  shows "pend s0 {} s"
proof -
  from m obtain u1 s1 t s2 where m1: "m s0 = Inr (u1, s1)" and t: "insert_block_terminated s1 = Inr (t, s2)"
    and r: "(if t then returnS () else gen_default_return) s2 = Inr (u, s)"
    unfolding finish_body_def by (elim thenS_InrE bindS_InrE)
  from runs_stmtD [OF stmt s0 m1] obtain b where b: "BB s1 = Some b" "b \<in> owned s0 s1" "pend s0 {b} s1 \<or> pend s0 {} s1"
    by (auto simp: ends_stmt_def)
  from t b(1) have s2: "s2 = s1" and tt: "t \<longleftrightarrow> get_terminator s1 b \<noteq> None" by (auto simp: insert_block_terminated_result)
  show "pend s0 {} s"
  proof (cases t)
    case True
    with tt open_unterminated [of s1 b] have "\<not> open_block s1 b" by auto
    with b(3) have "pend s0 {} s1" by (auto dest: pendD(11))
    with r True s2 show ?thesis by simp
  next
    case False
    with tt closed_terminated [of s1 b] have "\<not> closed_block s1 b" by auto
    with b(2,3) have p: "pend s0 {b} s1" by (auto dest: pendD(13))
    have at1: "at s0 {b} b s1" using s0 p b(1) by (simp add: at_def)
    from r False s2 have d: "gen_default_return s1 = Inr (u, s)" by simp
    from tailD [OF tail_default_return at1 _ d] show ?thesis by simp
  qed
qed

lemma gen_ASTFunDeclaration_runs:
  assumes "gen_ASTFunDeclaration ty nm ps body s = Inr (u, s')"
  obtains t f s1 s2 b s4 where "Function_create t nm s = Inr (f, s1)" and "pushS nm (V_Fun f) s1 = Inr ((), s2)"
    and "BasicBlock_create ''entry'' (Some f) (s2\<lparr>cur_fun := Some f\<rparr>) = Inr (b, s4)"
    and "thenS enterS (thenS (finish_body (thenS (gen_params f 0 ps) body)) exitS) (s4\<lparr>BB := Some b\<rparr>) = Inr (u, s')"
proof -
  have reassoc: "thenS p (thenS body (bindS insert_block_terminated
        (\<lambda>t. thenS (if t then returnS () else gen_default_return) exitS))) =
      thenS (finish_body (thenS p body)) exitS" for p :: "unit cg"
    by (simp add: finish_body_def thenS_def bindS_def bindR_def fun_eq_iff split: sum.splits prod.splits)
  from assms have "bindS (liftR (FunctionType_get (if ty = TYPE_INT then INT32_T else if ty = TYPE_FLOAT then FLOAT_T
       else VoidTy) (map param_type ps))) (\<lambda>fun_type.
         bindS (Function_create fun_type nm) (\<lambda>fn.
         thenS (pushS nm (V_Fun fn))
         (thenS (modifyS (\<lambda>s. s\<lparr>cur_fun := Some fn\<rparr>))
         (bindS (BasicBlock_create ''entry'' (Some fn)) (\<lambda>funBB.
         thenS (set_insert_point funBB)
         (thenS enterS (thenS (finish_body (thenS (gen_params fn 0 ps) body)) exitS))))))) s = Inr (u, s')"
    unfolding gen_ASTFunDeclaration_def Let_def reassoc .
  then show ?thesis
    apply (rule bindS_InrE)
    apply (erule bindS_InrE)
    apply (erule thenS_InrE)
    apply (erule thenS_InrE)
    apply (erule bindS_InrE)
    apply (erule thenS_InrE)
    apply (drule liftR_Inr [THEN iffD1])
    apply clarify
    apply (rule that)
       apply assumption
      apply simp
     apply simp
    apply (clarsimp simp: set_insert_point_def thenS_def bindS_def)
    done
qed

lemma well_built_fun_declaration:
  assumes "runs_stmt body" and "keeps_level body"
  shows "hoare well_built (gen_ASTFunDeclaration ty nm ps body) (\<lambda>_. well_built)"
proof (rule hoareI)
  fix s u s' assume wb: "well_built s" and run: "gen_ASTFunDeclaration ty nm ps body s = Inr (u, s')"
  from run obtain t f s1 s2 b s4 where
    f: "Function_create t nm s = Inr (f, s1)" and push: "pushS nm (V_Fun f) s1 = Inr ((), s2)"
    and b: "BasicBlock_create ''entry'' (Some f) (s2\<lparr>cur_fun := Some f\<rparr>) = Inr (b, s4)"
    and m: "thenS enterS (thenS (finish_body (thenS (gen_params f 0 ps) body)) exitS) (s4\<lparr>BB := Some b\<rparr>) = Inr (u, s')"
    by (rule gen_ASTFunDeclaration_runs)
  have ok: "ir_ok s" and closed: "\<forall>c < nb s. closed_block s c" and level: "length (scope s) = 1"
    using wb by (simp_all add: well_built_def)
  note fc = Function_create_ok [OF f ok]
  from push have same2: "same_ir s1 s2" "length (scope s2) = length (scope s1)"
    by (auto simp: pushS_def same_ir_def scope_push_def split: option.splits if_splits)
  define s3 where "s3 = s2\<lparr>cur_fun := Some f\<rparr>"
  have same3: "same_ir s1 s3" using same2 by (simp add: s3_def same_ir_def)
  have ok3: "ir_ok s3" by (rule same_ir_ok [OF same3 fc(1)])
  have nf3: "f < nf s3" using same3 fc(2,3) by (simp add: same_ir_def)
  note bc = BasicBlock_create_ok [OF b [folded s3_def] ok3 nf3]
  define s5 where "s5 = s4\<lparr>BB := Some b\<rparr>"
  define s6 where "s6 = s5\<lparr>scope := scope_enter (scope s5)\<rparr>"
  have same6: "same_ir s4 s6" by (simp add: s5_def s6_def same_ir_def)
  have fields: "BB s6 = Some b" "cur_fun s6 = Some f" "blocks s6 = blocks s4" "instrs s6 = instrs s4" "nf s6 = nf s3"
    using bc(4) by (simp_all add: s5_def s6_def s3_def)
  have blocks4: "blocks s4 ! b = \<lparr>bb_name = ''label_entry'', bb_parent = f, pre_bbs = [], succ_bbs = [], instr_list = []\<rparr>"
    "nb s4 = Suc (nb s)" "b = nb s" "\<And>c. c < nb s \<Longrightarrow> blocks s4 ! c = blocks s ! c" "instrs s4 = instrs s"
    using bc(2,4) same3 fc(3) by (simp_all add: same_ir_def nth_append)
  have ready: "ready s6"
    using same_ir_ok [OF same6 bc(1)] fields blocks4 nf3
    by (auto simp: ready_def open_block_def tflags_def)
  have old: "\<forall>c < nb s6. BB s6 \<noteq> Some c \<longrightarrow> closed_block s6 c"
    using closed fields blocks4 by (auto simp: closed_block_def tflags_def less_Suc_eq)
  from m obtain u2 s7 where body: "finish_body (thenS (gen_params f 0 ps) body) s6 = Inr (u2, s7)"
    and ex: "exitS s7 = Inr (u, s')"
    unfolding s5_def [symmetric] by (elim thenS_InrE) (simp add: enterS_def s6_def)
  have "pend s6 {} s7"
    by (rule finish_body_closed [OF ready body]) (intro runs_stmt_then runs_open_params assms(1))
  with exitS_same [OF ex] have "pend s6 {} s'" using pend_same_ir by blast
  from pend_all_closed [OF this ready old] have "ir_ok s' \<and> (\<forall>b < nb s'. closed_block s' b)" .
  moreover have "length (scope s') = 1"
  proof -
    have params: "keeps_level (gen_params f i ps)" for i
      by (induction ps arbitrary: i) (auto intro!: keeps_level_intros)
    have "keeps_level (finish_body (thenS (gen_params f 0 ps) body))"
      unfolding finish_body_def by (intro keeps_level_intros params assms(2))
    from keeps_levelD [OF keeps_level_scoped [OF this] m]
    have "length (scope s') = length (scope s4)" by simp
    also have "\<dots> = length (scope s)" using bc(4) same2(2) fc(3) by (simp add: s3_def)
    finally show ?thesis using level by simp
  qed
  ultimately show "well_built s'" by (simp add: well_built_def)
qed

text \<open>A variable declared outside every function is a global of the module.\<close>

lemma well_built_var_declaration: "hoare well_built (gen_ASTVarDeclaration d) (\<lambda>_. well_built)"
proof (rule hoareI)
  fix s u s' assume wb: "well_built s" and run: "gen_ASTVarDeclaration d s = Inr (u, s')"
  then have glob: "in_global (scope s)" by (simp add: well_built_def in_global_def)
  from run obtain t z g s1 where g: "GlobalVariable_create (vd_id d) t False (Some z) s = Inr (g, s1)"
    and push: "pushS (vd_id d) g s1 = Inr (u, s')"
    unfolding gen_ASTVarDeclaration_def
    by (elim bindS_InrE) (auto simp: glob ConstantZero_get_def split: option.splits)
  note gc = GlobalVariable_create_ok [OF g]
  from wb have ok: "ir_ok s" by (simp add: well_built_def)
  from gc(2) [OF ok] obtain gs g' where s1: "s1 = s\<lparr>global_list := gs, graph := g'\<rparr>" by blast
  from push have same: "same_ir s1 s'" by (auto simp: pushS_def same_ir_def)
  have "closed_block s' b" if "closed_block s b" for b
    using that same s1 by (simp add: closed_block_def tflags_def same_ir_def)
  moreover have "length (scope s') = length (scope s)" using pushS_level [OF push] s1 by simp
  moreover have "nb s' = nb s" using same s1 by (simp add: same_ir_def)
  ultimately show "well_built s'" using wb same_ir_ok [OF same gc(1) [OF ok]] by (simp add: well_built_def)
qed

lemma well_built_declaration: "hoare well_built (cg_ASTDeclaration d) (\<lambda>_. well_built)"
  by (cases d) (simp_all add: well_built_var_declaration well_built_fun_declaration runs_stmt_statements keeps_level_statements)

lemma well_built_seqS:
  "(\<And>m. m \<in> set ms \<Longrightarrow> hoare well_built m (\<lambda>_. well_built)) \<Longrightarrow> hoare well_built (seqS ms) (\<lambda>_. well_built)"
proof (induction ms)
  case Nil
  show ?case by (rule hoareI) simp
next
  case (Cons m ms)
  then show ?case unfolding seqS.simps by (intro hoare_then) simp_all
qed

text \<open>The constructor of the visitor: functions without blocks, and the global scope.\<close>

definition no_code :: "nat \<Rightarrow> cg_state \<Rightarrow> bool" where
  "no_code n s \<longleftrightarrow> ir_ok s \<and> nb s = 0 \<and> length (scope s) = n"

lemma no_code_steps:
  "hoare (no_code n) (liftR r) (\<lambda>_. no_code n)" "hoare (no_code n) (Function_create t nm) (\<lambda>_. no_code n)"
  "hoare (no_code n) enterS (\<lambda>_. no_code (Suc n))" "hoare (no_code n) (pushS nm v) (\<lambda>_. no_code n)"
proof -
  show "hoare (no_code n) (liftR r) (\<lambda>_. no_code n)" by (rule hoareI) simp
  show "hoare (no_code n) (Function_create t nm) (\<lambda>_. no_code n)"
    by (rule hoareI) (auto simp: no_code_def dest: Function_create_ok(1), simp_all add: Function_create_def bindS_def thenS_def)
  show "hoare (no_code n) enterS (\<lambda>_. no_code (Suc n))"
    by (rule hoareI) (auto simp: no_code_def enterS_def scope_enter_def intro: same_ir_ok [rotated] simp: same_ir_def)
  show "hoare (no_code n) (pushS nm v) (\<lambda>_. no_code n)"
  proof (rule hoareI)
    fix s u s' assume "no_code n s" and push: "pushS nm v s = Inr (u, s')"
    moreover have "same_ir s s'" using push by (auto simp: pushS_def same_ir_def)
    ultimately show "no_code n s'"
      using pushS_level [OF push] same_ir_ok [of s s'] by (simp add: no_code_def same_ir_def)
  qed
qed

lemma CminusfBuilder_new_no_code: "hoare (no_code 0) CminusfBuilder_new (\<lambda>_. no_code (Suc 0))"
  unfolding CminusfBuilder_new_def
  by (intro hoare_bind [OF no_code_steps(1)] hoare_bind [OF no_code_steps(2)] hoare_then [OF no_code_steps(3)]
      hoare_then [OF no_code_steps(4)] no_code_steps(4))

lemma codegen_well_built:
  assumes "codegen prog = Inr s"
  shows "well_built s"
proof -
  from assms obtain u s1 v where new: "CminusfBuilder_new initial_state = Inr (u, s1)"
    and decls: "seqS (map cg_ASTDeclaration (declarations prog)) s1 = Inr (v, s)"
    by (auto simp: codegen_def gen_ASTProgram_def bindR_def thenS_def bindS_def split: sum.splits)
  have "no_code 0 initial_state"
    unfolding no_code_def using ir_ok_new_module by (simp add: initial_state_def new_module_def ir_module.defs)
  from hoareD [OF CminusfBuilder_new_no_code this new] have "well_built s1" by (simp add: well_built_def no_code_def)
  moreover have "hoare well_built (seqS (map cg_ASTDeclaration (declarations prog))) (\<lambda>_. well_built)"
    by (rule well_built_seqS) (auto simp: well_built_declaration)
  ultimately show ?thesis using decls by (auto dest: hoareD)
qed

section \<open>What \<open>codegen\<close> returns\<close>

lemma codegen_ir_ok: "codegen prog = Inr s \<Longrightarrow> ir_ok s"
  using codegen_well_built by (simp add: well_built_def)

lemma codegen_sample: "\<exists>s. codegen sample_program = Inr s"
proof -
  have "(case codegen sample_program of Inl _ \<Rightarrow> False | Inr s \<Rightarrow> True)" by code_simp
  then show ?thesis by (cases "codegen sample_program") auto
qed

text \<open>C1: in the module that code generation returns, every basic block ends with a terminator
  (\<open>br\<close> or \<open>ret\<close>) and holds no other one, whatever the nesting of \<open>if\<close>,
  \<open>while\<close>, \<open>return\<close> and index checks in the source.\<close>

theorem codegen_terminates_blocks:
  assumes "codegen prog = Inr s" and "b < length (blocks s)"
  shows "\<exists>is t. instr_list (blocks s ! b) = is @ [t] \<and> is_terminator (i_op (instrs s ! t)) \<and>
    (\<forall>i \<in> set is. \<not> is_terminator (i_op (instrs s ! i)))"
proof -
  from codegen_well_built [OF assms(1)] assms(2) obtain fs where
    fs: "tflags s b = fs @ [True]" "True \<notin> set fs" by (auto simp: well_built_def closed_block_def)
  then obtain "is" t where it: "instr_list (blocks s ! b) = is @ [t]"
    by (cases "instr_list (blocks s ! b)" rule: rev_cases) (auto simp: tflags_def)
  with fs show ?thesis by (auto simp: tflags_def)
qed

lemma codegen_terminates_blocks_witness:
  "\<exists>s. codegen sample_program = Inr s \<and> 0 < length (blocks s) \<and>
     (\<exists>is t. instr_list (blocks s ! 0) = is @ [t] \<and> is_terminator (i_op (instrs s ! t)))"
proof -
  obtain s where s: "codegen sample_program = Inr s" using codegen_sample by blast
  have "case codegen sample_program of Inl _ \<Rightarrow> False | Inr s \<Rightarrow> 0 < length (blocks s)" by code_simp
  then have "0 < length (blocks s)" by (simp add: s)
  with codegen_terminates_blocks [OF s] s show ?thesis by blast
qed

text \<open>C2: in the module that code generation returns, a block's successor list is the list of the
  targets of its terminator, an edge is in the predecessor list of its target as often as in the
  successor list of its source, and no edge leaves the function.\<close>

theorem codegen_cfg_agrees:
  assumes "codegen prog = Inr s" and "b < length (blocks s)"
  shows "succ_bbs (blocks s ! b) = term_succs s b \<and>
    (\<forall>c < length (blocks s). count_list (pre_bbs (blocks s ! c)) b = count_list (succ_bbs (blocks s ! b)) c) \<and>
    (\<forall>c \<in> set (succ_bbs (blocks s ! b)) \<union> set (pre_bbs (blocks s ! b)).
       c < length (blocks s) \<and> bb_parent (blocks s ! c) = bb_parent (blocks s ! b))"
  using codegen_ir_ok [OF assms(1)] assms(2)
  by (simp add: ir_ok_def succs_agree_def preds_agree_def edges_inside_def)

lemma codegen_cfg_agrees_witness:
  "\<exists>s. codegen sample_program = Inr s \<and> 1 < length (blocks s) \<and> succ_bbs (blocks s ! 1) = term_succs s 1 \<and>
     succ_bbs (blocks s ! 1) = [3, 2]"
proof -
  obtain s where s: "codegen sample_program = Inr s" using codegen_sample by blast
  have "case codegen sample_program of Inl _ \<Rightarrow> False
    | Inr s \<Rightarrow> 1 < length (blocks s) \<and> succ_bbs (blocks s ! 1) = [3, 2]" by code_simp
  then have b: "1 < length (blocks s)" "succ_bbs (blocks s ! 1) = [3, 2]" by (simp_all add: s)
  from codegen_cfg_agrees [OF s b(1)] s b show ?thesis by blast
qed

text \<open>C5: in the module that code generation returns, the use list of every value holds each of
  its uses once and nothing else: a pair of a user and an index is in it exactly when the value is
  that operand of that user.\<close>

theorem codegen_uses_agree:
  assumes "codegen prog = Inr s"
  shows "distinct (use_list (graph s) v) \<and>
    (\<forall>u i. (u, i) \<in> set (use_list (graph s) v) \<longleftrightarrow>
       i < length (operands (graph s) u) \<and> operands (graph s) u ! i = Some v)"
  using codegen_ir_ok [OF assms] uses_agreeD [of "{}" "graph s"] by (simp_all add: ir_ok_def users_agree_def)

lemma codegen_uses_agree_witness:
  "\<exists>s. codegen sample_program = Inr s \<and> distinct (use_list (graph s) (V_Block 1)) \<and> use_list (graph s) (V_Block 1) \<noteq> []"
proof -
  obtain s where s: "codegen sample_program = Inr s" using codegen_sample by blast
  have "case codegen sample_program of Inl _ \<Rightarrow> False
    | Inr s \<Rightarrow> use_list (graph s) (V_Block 1) \<noteq> []" by code_simp
  then have "use_list (graph s) (V_Block 1) \<noteq> []" by (simp add: s)
  with codegen_uses_agree [OF s] s show ?thesis by blast
qed

text \<open>C6: in the module that code generation returns, the instructions of a block are, in the
  order they were made, those that name it as their parent, and the blocks of a function are, in
  the order they were made, those that name it; every instruction and every block has a parent.\<close>

theorem codegen_layout:
  assumes "codegen prog = Inr s"
  shows "(\<forall>i < length (instrs s). \<exists>b < length (blocks s). i_parent (instrs s ! i) = Some b) \<and>
    (\<forall>b < length (blocks s). bb_parent (blocks s ! b) < length (function_list s) \<and>
       instr_list (blocks s ! b) = filter (\<lambda>i. i_parent (instrs s ! i) = Some b) [0..<length (instrs s)]) \<and>
    (\<forall>f < length (function_list s).
       basic_blocks (function_list s ! f) = filter (\<lambda>b. bb_parent (blocks s ! b) = f) [0..<length (blocks s)])"
  using codegen_ir_ok [OF assms] by (simp add: ir_ok_def instrs_placed_def blocks_placed_def)

lemma codegen_layout_witness:
  "\<exists>s. codegen sample_program = Inr s \<and> 4 < length (function_list s) \<and>
     basic_blocks (function_list s ! 4) = filter (\<lambda>b. bb_parent (blocks s ! b) = 4) [0..<length (blocks s)] \<and>
     basic_blocks (function_list s ! 4) = [0, 1, 2, 3]"
proof -
  obtain s where s: "codegen sample_program = Inr s" using codegen_sample by blast
  have "case codegen sample_program of Inl _ \<Rightarrow> False
    | Inr s \<Rightarrow> 4 < length (function_list s) \<and> basic_blocks (function_list s ! 4) = [0, 1, 2, 3]" by code_simp
  then have f: "4 < length (function_list s)" "basic_blocks (function_list s ! 4) = [0, 1, 2, 3]" by (simp_all add: s)
  with codegen_layout [OF s] s show ?thesis by blast
qed

end
