(* ===== verification/DomProgram.thy ===== *)
theory DomProgram
  imports DomFrontier CodegenProgram
begin

text \<open>
  The whole pass on the functions of a module, and on the modules that code generation
  makes: what it computes, and on which of them it hangs.
\<close>

section \<open>The dominator tree\<close>

lemma add_dom_tree_succ_block_simps [simp]:
  "idom (add_dom_tree_succ_block b c d) = idom d"
  "dom_frontier (add_dom_tree_succ_block b c d) = dom_frontier d"
  "dom_tree_succ_blocks (add_dom_tree_succ_block b c d) =
     (dom_tree_succ_blocks d)(b := set_insert c (dom_tree_succ_blocks d b))"
  by (simp_all add: add_dom_tree_succ_block_def)

lemma create_dom_tree_succ_spec:
  "idom (create_dom_tree_succ bbs d) = idom d" (is ?idom)
  "dom_frontier (create_dom_tree_succ bbs d) = dom_frontier d" (is ?frontier)
  "set (dom_tree_succ_blocks (create_dom_tree_succ bbs d) a) =
     set (dom_tree_succ_blocks d a) \<union> {b \<in> set bbs. idom d b = a \<and> a \<noteq> Some b}" (is ?succ)
proof -
  have "?idom \<and> ?frontier \<and> ?succ"
    unfolding create_dom_tree_succ_def
  proof (induction bbs arbitrary: d)
    case (Cons b bbs)
    then show ?case by (cases "idom d b = Some b") auto
  qed simp
  then show ?idom ?frontier ?succ by simp_all
qed

section \<open>One function\<close>

definition succs_of :: "'b ir_module_scheme \<Rightarrow> nat \<Rightarrow> nat list" where
  "succs_of m b = succ_bbs (blocks m ! b)"

definition preds_of :: "'b ir_module_scheme \<Rightarrow> nat \<Rightarrow> nat list" where
  "preds_of m b = pre_bbs (blocks m ! b)"

definition dominators_ok :: "(nat \<Rightarrow> nat list) \<Rightarrow> (nat \<Rightarrow> nat list) \<Rightarrow> nat list \<Rightarrow> dominators \<Rightarrow> bool" where
  "dominators_ok succ pred V d \<longleftrightarrow> idom_correct succ V (hd V) (idom d) \<and>
     (\<forall>b. reach succ (hd V) b \<longrightarrow>
        set (dom_tree_succ_blocks d (Some b)) = {y \<in> set V. reach succ (hd V) y \<and> y \<noteq> hd V \<and> immediately_dominates succ (hd V) b y} \<and>
        (\<forall>y. y \<noteq> hd V \<longrightarrow> y \<in> set (dom_frontier d (Some b)) \<longleftrightarrow> y \<in> set V \<and> in_frontier succ pred (hd V) b y))"

definition untouched :: "nat list \<Rightarrow> dominators \<Rightarrow> bool" where
  "untouched V d \<longleftrightarrow> (\<forall>b \<in> set V. dom_frontier d (Some b) = [] \<and> dom_tree_succ_blocks d (Some b) = [])"

definition same_outside :: "nat list \<Rightarrow> dominators \<Rightarrow> dominators \<Rightarrow> bool" where
  "same_outside V d d' \<longleftrightarrow> (\<forall>b. b \<notin> set V \<longrightarrow> idom d' b = idom d b \<and>
     set (dom_frontier d' (Some b)) = set (dom_frontier d (Some b)) \<and>
     set (dom_tree_succ_blocks d' (Some b)) = set (dom_tree_succ_blocks d (Some b)))"

lemma immediate_unique:
  assumes "immediately_dominates succ e a b" and "immediately_dominates succ e c b" and "reach succ e b"
    and tree: "idom_tree succ V e i" and anc: "\<And>a b. reach succ e b \<Longrightarrow> anc i e b a \<longleftrightarrow> dominates succ e a b"
    and proc: "processed succ e i b"
  shows "a = c"
proof -
  have ba: "anc i e b a" and bc: "anc i e b c" using assms(1-3) anc by (auto simp: immediately_dominates_def)
  have ra: "reach succ e a" "reach succ e c" using anc_processed [OF tree ba proc] anc_processed [OF tree bc proc]
    by (simp_all add: processed_def)
  have "anc i e a c" "anc i e c a" using assms(1,2) anc ra by (auto simp: immediately_dominates_def)
  with anc_po [OF tree this(1) ra(1)] anc_po [OF tree this(2) ra(2)] show ?thesis by auto
qed

lemma dominators_function_spec:
  assumes graph: "flow_graph (succs_of m) (preds_of m) V (hd V)" and V: "V = basic_blocks (function_list m ! f)" "V \<noteq> []"
    and clean: "untouched V d"
  shows "if joins_reachable (succs_of m) (preds_of m) V (hd V)
    then \<exists>d'. dominators_function m f d = Some (Inr d') \<and> dominators_ok (succs_of m) (preds_of m) V d' \<and> same_outside V d d'
    else dominators_function m f d = None"
proof -
  let ?s = "succs_of m" and ?p = "preds_of m" and ?e = "hd V"
  obtain d1 where d1: "create_reverse_post_order ?s ?e d = Some (Inr d1)" "numbering_ok ?s ?e d1" "idom d1 = idom d"
    "dom_frontier d1 = dom_frontier d" "dom_tree_succ_blocks d1 = dom_tree_succ_blocks d"
    using create_reverse_post_order_spec [OF graph] by blast
  obtain d2 where d2: "create_idom ?p V ?e d1 = Some (Inr d2)" and same2: "same_but_idom d1 d2"
    and correct: "idom_correct ?s V ?e (idom d2)" and off: "\<And>b. b \<notin> set V \<Longrightarrow> idom d2 b = idom d1 b"
    and anc: "\<And>a b. reach ?s ?e b \<Longrightarrow> anc d2 ?e b a \<longleftrightarrow> dominates ?s ?e a b" and tree: "idom_tree ?s V ?e d2"
    by (rule create_idom_spec [OF graph d1(2)]) blast
  have treeof: "tree_of ?s V ?e d2" using tree correct anc by (simp add: tree_of_def)
  have num: "numbering_ok ?s ?e d2" using d1(2) same_but_idomD [OF same2] by simp
  note rV = reach_in_graph [OF graph]
  have run: "dominators_function m f d = bindP (create_dominance_frontier ?p V d2) (\<lambda>d. returnP (create_dom_tree_succ V d))"
    using d1(1) d2 V by (simp add: dominators_function_def Let_def succs_of_def [abs_def] preds_of_def [abs_def])
  show ?thesis
  proof (cases "joins_reachable ?s ?p V ?e")
    case False
    with create_dominance_frontier_spec [OF treeof graph] run show ?thesis by simp
  next
    case True
    with create_dominance_frontier_spec [OF treeof graph] obtain d3 where
      d3: "create_dominance_frontier ?p V d2 = Some (Inr d3)" "frontier_adds (walked_to ?s ?p ?e d2 (set V)) d2 d3" by auto
    let ?d = "create_dom_tree_succ V d3"
    note same3 = frontier_addsD [OF d3(2)]
    have idom: "idom ?d = idom d2" by (simp add: create_dom_tree_succ_spec same3)
    have fr: "set (dom_frontier ?d (Some b)) = set (dom_frontier d (Some b)) \<union> {y. (Some b, y) \<in> walked_to ?s ?p ?e d2 (set V)}" for b
      by (simp add: create_dom_tree_succ_spec same3 same_but_idomD [OF same2] d1)
    have tr: "set (dom_tree_succ_blocks ?d (Some b)) =
        set (dom_tree_succ_blocks d (Some b)) \<union> {y \<in> set V. idom d2 y = Some b \<and> y \<noteq> b}" for b
      by (auto simp: create_dom_tree_succ_spec same3 same_but_idomD [OF same2] d1)
    have proc: "processed ?s ?e d2 b" if "reach ?s ?e b" for b
      using correct that rV [OF that] tree_root [OF tree] by (cases "b = ?e") (auto simp: idom_correct_def processed_def)
    have children: "idom d2 y = Some b \<and> y \<noteq> b \<longleftrightarrow> reach ?s ?e y \<and> y \<noteq> ?e \<and> immediately_dominates ?s ?e b y"
      if y: "y \<in> set V" for y b
    proof
      assume yb: "idom d2 y = Some b \<and> y \<noteq> b"
      then have "reach ?s ?e y" using tree_unreached [OF tree y] by auto
      moreover have "y \<noteq> ?e" using yb tree_root [OF tree] by auto
      ultimately show "reach ?s ?e y \<and> y \<noteq> ?e \<and> immediately_dominates ?s ?e b y"
        using correct y yb unfolding idom_correct_def by (metis option.inject)
    next
      assume yb: "reach ?s ?e y \<and> y \<noteq> ?e \<and> immediately_dominates ?s ?e b y"
      with correct y obtain a where "idom d2 y = Some a" "immediately_dominates ?s ?e a y" unfolding idom_correct_def by blast
      with immediate_unique [OF this(2) _ _ tree anc proc, of b] yb
      show "idom d2 y = Some b \<and> y \<noteq> b" by (auto simp: immediately_dominates_def)
    qed
    have "dominators_ok ?s ?p V ?d"
      unfolding dominators_ok_def
    proof (intro conjI allI impI)
      show "idom_correct ?s V ?e (idom ?d)" using correct idom by simp
      fix b assume b: "reach ?s ?e b"
      then have clean': "dom_frontier d (Some b) = []" "dom_tree_succ_blocks d (Some b) = []"
        using clean rV by (auto simp: untouched_def)
      show "set (dom_tree_succ_blocks ?d (Some b)) = {y \<in> set V. reach ?s ?e y \<and> y \<noteq> ?e \<and> immediately_dominates ?s ?e b y}"
        using tr clean' children by auto
      fix y assume "y \<noteq> ?e"
      from walked_to_in_frontier [OF num treeof graph True b this] fr clean'
      show "y \<in> set (dom_frontier ?d (Some b)) \<longleftrightarrow> y \<in> set V \<and> in_frontier ?s ?p ?e b y" by simp
    qed
    moreover have "same_outside V d ?d"
      unfolding same_outside_def
    proof (intro allI impI conjI)
      fix b assume b: "b \<notin> set V"
      show "idom ?d b = idom d b" using off [OF b] idom d1(3) by simp
      have "(Some b, y) \<notin> walked_to ?s ?p ?e d2 (set V)" for y
      proof
        assume "(Some b, y) \<in> walked_to ?s ?p ?e d2 (set V)"
        then obtain p where y: "y \<in> set V" and p: "p \<in> set (?p y)" "walked ?s ?e d2 y p b" and two: "2 \<le> length (?p y)"
          by (auto simp: walked_to_def)
        have pV: "p \<in> set V" using graph_edge [OF graph y] p(1) by blast
        show False
        proof (cases "reach ?s ?e y")
          case ry: True
          then have "reach ?s ?e p" using True y two p(1) by (auto simp: joins_reachable_def)
          from anc_processed [OF tree _ proc [OF this]] p(2) ry b rV show False by (auto simp: walked_def processed_def)
        next
          case False
          with p(2) b pV show False by (simp add: walked_def)
        qed
      qed
      then show "set (dom_frontier ?d (Some b)) = set (dom_frontier d (Some b))" using fr by auto
      have "idom d2 y \<noteq> Some b \<or> y = b" if "y \<in> set V" for y
        using children [OF that, of b] anc [of y b] anc_processed [OF tree _ proc, of y b] rV b
        by (auto simp: immediately_dominates_def processed_def)
      then show "set (dom_tree_succ_blocks ?d (Some b)) = set (dom_tree_succ_blocks d (Some b))" using tr b by auto
    qed
    ultimately show ?thesis using run d3(1) True by (simp add: returnP_def)
  qed
qed

section \<open>All functions of a module\<close>

definition blocks_of :: "'b ir_module_scheme \<Rightarrow> nat \<Rightarrow> nat list" where
  "blocks_of m f = basic_blocks (function_list m ! f)"

definition function_ok :: "'b ir_module_scheme \<Rightarrow> dominators \<Rightarrow> nat \<Rightarrow> bool" where
  "function_ok m d f \<longleftrightarrow> blocks_of m f \<noteq> [] \<longrightarrow> dominators_ok (succs_of m) (preds_of m) (blocks_of m f) d"

definition may_hang :: "'b ir_module_scheme \<Rightarrow> nat \<Rightarrow> bool" where
  "may_hang m f \<longleftrightarrow> blocks_of m f \<noteq> [] \<and>
     (\<exists>y p. reach (succs_of m) (hd (blocks_of m f)) y \<and> 2 \<le> length (preds_of m y) \<and>
        p \<in> set (preds_of m y) \<and> \<not> reach (succs_of m) (hd (blocks_of m f)) p)"

lemma dominators_ok_outside:
  assumes "dominators_ok succ pred V d" and "same_outside W d d'" and "set V \<inter> set W = {}"
    and "\<And>b. reach succ (hd V) b \<Longrightarrow> b \<in> set V"
  shows "dominators_ok succ pred V d'"
proof -
  have same: "idom d' b = idom d b" "set (dom_frontier d' (Some b)) = set (dom_frontier d (Some b))"
    "set (dom_tree_succ_blocks d' (Some b)) = set (dom_tree_succ_blocks d (Some b))" if "b \<in> set V" for b
    using assms(2,3) that by (auto simp: same_outside_def)
  have "hd V \<in> set V" using assms(4) by simp
  with assms(1,4) same show ?thesis unfolding dominators_ok_def idom_correct_def by simp
qed

lemma foldP_functions:
  assumes graph: "\<And>f. f < length (function_list m) \<Longrightarrow> blocks_of m f \<noteq> [] \<Longrightarrow>
      flow_graph (succs_of m) (preds_of m) (blocks_of m f) (hd (blocks_of m f))"
    and disjoint: "\<And>f g. f < length (function_list m) \<Longrightarrow> g < length (function_list m) \<Longrightarrow> f \<noteq> g \<Longrightarrow>
      set (blocks_of m f) \<inter> set (blocks_of m g) = {}"
  shows "distinct fs \<Longrightarrow> set fs \<subseteq> {..<length (function_list m)} \<Longrightarrow> D \<subseteq> {..<length (function_list m)} \<Longrightarrow>
    D \<inter> set fs = {} \<Longrightarrow> \<forall>f \<in> D. function_ok m d f \<Longrightarrow> \<forall>f \<in> set fs. untouched (blocks_of m f) d \<Longrightarrow>
    if \<exists>f \<in> set fs. may_hang m f then foldP (dominators_function m) fs d = None
    else \<exists>d'. foldP (dominators_function m) fs d = Some (Inr d') \<and> (\<forall>f \<in> D \<union> set fs. function_ok m d' f)"
proof (induction fs arbitrary: D d)
  case Nil
  then show ?case by (simp add: returnP_def)
next
  case (Cons f fs)
  have f: "f < length (function_list m)" using Cons.prems(2) by simp
  show ?case
  proof (cases "blocks_of m f = []")
    case True
    then have run: "dominators_function m f d = Some (Inr d)" by (simp add: dominators_function_def blocks_of_def returnP_def Let_def)
    have "\<not> may_hang m f" using True by (simp add: may_hang_def)
    moreover have "if \<exists>f \<in> set fs. may_hang m f then foldP (dominators_function m) fs d = None
      else \<exists>d'. foldP (dominators_function m) fs d = Some (Inr d') \<and> (\<forall>f \<in> insert f D \<union> set fs. function_ok m d' f)"
    proof (rule Cons.IH)
      show "\<forall>f \<in> insert f D. function_ok m d f" using Cons.prems(5) True by (simp add: function_ok_def)
    qed (use Cons.prems in auto)
    ultimately show ?thesis using run by (auto split: if_splits)
  next
    case False
    let ?V = "blocks_of m f"
    note g = graph [OF f False]
    have hang: "may_hang m f \<longleftrightarrow> \<not> joins_reachable (succs_of m) (preds_of m) ?V (hd ?V)"
      using False reach_in_graph [OF g] by (auto simp: may_hang_def joins_reachable_def)
    have clean: "untouched ?V d" using Cons.prems(6) by simp
    note spec = dominators_function_spec [OF g blocks_of_def False clean]
    show ?thesis
    proof (cases "may_hang m f")
      case True
      with spec hang show ?thesis by simp
    next
      case ends: False
      with spec hang obtain d1 where run: "dominators_function m f d = Some (Inr d1)"
        and ok: "dominators_ok (succs_of m) (preds_of m) ?V d1" and same: "same_outside ?V d d1" by auto
      have "if \<exists>f \<in> set fs. may_hang m f then foldP (dominators_function m) fs d1 = None
        else \<exists>d'. foldP (dominators_function m) fs d1 = Some (Inr d') \<and> (\<forall>f \<in> insert f D \<union> set fs. function_ok m d' f)"
      proof (rule Cons.IH)
        have "function_ok m d1 h" if h: "h \<in> D" for h
          unfolding function_ok_def
        proof
          assume ne: "blocks_of m h \<noteq> []"
          have hl: "h < length (function_list m)" "h \<noteq> f" using h Cons.prems by auto
          show "dominators_ok (succs_of m) (preds_of m) (blocks_of m h) d1"
          proof (rule dominators_ok_outside [OF _ same])
            show "dominators_ok (succs_of m) (preds_of m) (blocks_of m h) d" using Cons.prems(5) h ne by (simp add: function_ok_def)
            show "set (blocks_of m h) \<inter> set ?V = {}" using disjoint hl f by blast
          qed (rule reach_in_graph [OF graph [OF hl(1) ne]])
        qed
        with ok show "\<forall>h \<in> insert f D. function_ok m d1 h" by (simp add: function_ok_def)
        show "\<forall>h \<in> set fs. untouched (blocks_of m h) d1"
        proof
          fix h assume h: "h \<in> set fs"
          then have "h < length (function_list m)" "h \<noteq> f" using Cons.prems by auto
          with disjoint f have "set (blocks_of m h) \<inter> set ?V = {}" by blast
          then have out: "b \<notin> set ?V" if "b \<in> set (blocks_of m h)" for b using that by blast
          have "untouched (blocks_of m h) d" using Cons.prems(6) h by simp
          with same out show "untouched (blocks_of m h) d1" unfolding untouched_def same_outside_def by (metis set_empty)
        qed
      qed (use Cons.prems in auto)
      with run ends show ?thesis by (auto split: if_splits)
    qed
  qed
qed

lemma ir_flow_graph:
  assumes ok: "ir_ok m" and f: "f < length (function_list m)" and ne: "blocks_of m f \<noteq> []"
  shows "flow_graph (succs_of m) (preds_of m) (blocks_of m f) (hd (blocks_of m f))"
proof -
  have V: "set (blocks_of m f) = {b. b < length (blocks m) \<and> bb_parent (blocks m ! b) = f}"
    using ok f by (auto simp: ir_ok_def blocks_placed_def blocks_of_def)
  have inside: "c < length (blocks m) \<and> bb_parent (blocks m ! c) = f"
    if "b \<in> set (blocks_of m f)" "c \<in> set (succs_of m b) \<union> set (preds_of m b)" for b c
    using ok that V by (auto simp: ir_ok_def edges_inside_def succs_of_def preds_of_def)
  have edge: "c \<in> set (succs_of m b) \<longleftrightarrow> b \<in> set (preds_of m c)"
    if "b \<in> set (blocks_of m f)" "c \<in> set (blocks_of m f)" for b c
  proof -
    have "count_list (pre_bbs (blocks m ! c)) b = count_list (succ_bbs (blocks m ! b)) c"
      using ok that V by (simp add: ir_ok_def preds_agree_def)
    then show ?thesis unfolding succs_of_def preds_of_def by (metis count_list_0_iff)
  qed
  show ?thesis
    unfolding flow_graph_def
  proof (intro conjI ballI)
    show "hd (blocks_of m f) \<in> set (blocks_of m f)" using ne by simp
    fix a assume a: "a \<in> set (blocks_of m f)"
    show "set (succs_of m a) \<subseteq> set (blocks_of m f)" using inside [OF a] unfolding V by blast
    show "set (preds_of m a) \<subseteq> set (blocks_of m f)" using inside [OF a] unfolding V by blast
    fix b assume "b \<in> set (blocks_of m f)"
    then show "b \<in> set (succs_of m a) \<longleftrightarrow> a \<in> set (preds_of m b)" by (rule edge [OF a])
  qed
qed

lemma ir_blocks_disjoint:
  assumes "ir_ok m" and "f < length (function_list m)" and "g < length (function_list m)" and "f \<noteq> g"
  shows "set (blocks_of m f) \<inter> set (blocks_of m g) = {}"
  using assms by (auto simp: ir_ok_def blocks_placed_def blocks_of_def)

lemma dominators_run_spec:
  assumes "ir_ok m"
  shows "if \<exists>f < length (function_list m). may_hang m f then dominators_run m = None
    else \<exists>d. dominators_run m = Some (Inr d) \<and> (\<forall>f < length (function_list m). function_ok m d f)"
proof -
  have "if \<exists>f \<in> set [0..<length (function_list m)]. may_hang m f
    then foldP (dominators_function m) [0..<length (function_list m)] new_dominators = None
    else \<exists>d. foldP (dominators_function m) [0..<length (function_list m)] new_dominators = Some (Inr d) \<and>
      (\<forall>f \<in> {} \<union> set [0..<length (function_list m)]. function_ok m d f)"
    by (rule foldP_functions) (use ir_flow_graph [OF assms] ir_blocks_disjoint [OF assms] in
        \<open>auto simp: untouched_def new_dominators_def\<close>)
  then show ?thesis by (auto simp: dominators_run_def split: if_splits)
qed

section \<open>What the passes compute\<close>

text \<open>The program \<open>void main (void) { while (1) if (1) return; else return; }\<close>.\<close>

definition int_one :: ASTExpression where
  "int_one = SimpleExpression (AdditiveExpression None OP_PLUS (Term None OP_MUL (F_Num \<lparr>num_type = TYPE_INT, num_val = 1\<rparr>))) None OP_LE"

definition hanging_program :: ASTProgram where
  "hanging_program = \<lparr>declarations = [D_Fun \<lparr>fd_type = TYPE_VOID, fd_id = ''main'', fd_params = [],
     fd_compound_stmt = CompoundStmt [] [IterationStmt int_one (SelectionStmt int_one (ReturnStmt None) (Some (ReturnStmt None)))]\<rparr>]\<rparr>"

lemma later_of_sorted:
  assumes "sorted_wrt (\<lambda>a b. po d b < po d a) xs" and "po d b < po d a" and "a \<in> set xs" and "b \<in> set xs"
  shows "later xs a b"
proof -
  from assms(3) obtain us vs where xs: "xs = us @ a # vs" by (meson split_list)
  with assms(1) have "\<forall>u \<in> set us. po d a < po d u" by (auto simp: sorted_wrt_append)
  with assms(2,4) xs have "b \<in> set vs" by auto
  then obtain ws zs where "vs = ws @ b # zs" by (meson split_list)
  with xs show ?thesis by (auto simp: later_def)
qed

text \<open>A loop with two branches in its body, one of which leaves the function.\<close>

definition loop_succ :: "nat \<Rightarrow> nat list" where
  "loop_succ b = (if b < 5 then [[1], [2, 4], [3, 4], [1], []] ! b else [])"

definition loop_pred :: "nat \<Rightarrow> nat list" where
  "loop_pred b = (if b < 5 then [[], [0, 3], [1], [2], [1, 2]] ! b else [])"

lemma loop_flow_graph: "flow_graph loop_succ loop_pred [0, 1, 2, 3, 4] 0"
  by (auto simp: flow_graph_def loop_succ_def loop_pred_def)

text \<open>C10: the depth-first numbering ends and lists exactly the blocks that are reachable from the
  entry, each once, and every block but the entry after one of its predecessors.\<close>

theorem reverse_post_order_correct:
  assumes "flow_graph succ pred V e"
  shows "\<exists>d'. create_reverse_post_order succ e d = Some (Inr d') \<and> distinct (reverse_post_order d') \<and>
    set (reverse_post_order d') = {b. reach succ e b} \<and>
    (\<forall>b. reach succ e b \<and> b \<noteq> e \<longrightarrow> (\<exists>p. b \<in> set (succ p) \<and> later (reverse_post_order d') p b))"
proof -
  obtain d' where run: "create_reverse_post_order succ e d = Some (Inr d')" and num: "numbering_ok succ e d'"
    using create_reverse_post_order_spec [OF assms] by blast
  then have L: "set (reverse_post_order d') = {b. reach succ e b}" "distinct (reverse_post_order d')"
    and sorted: "sorted_wrt (\<lambda>a b. po d' b < po d' a) (reverse_post_order d')" by (simp_all add: numbering_ok_def)
  have "\<exists>p. b \<in> set (succ p) \<and> later (reverse_post_order d') p b" if b: "reach succ e b" "b \<noteq> e" for b
  proof -
    from num b obtain p where p: "reach succ e p" "b \<in> set (succ p)" "po d' b < po d' p" unfolding numbering_ok_def by blast
    with b(1) L have "p \<in> set (reverse_post_order d')" "b \<in> set (reverse_post_order d')" by auto
    with later_of_sorted [OF sorted p(3)] have "later (reverse_post_order d') p b" by blast
    with p(2) show ?thesis by blast
  qed
  with run L show ?thesis by blast
qed

lemma reverse_post_order_correct_witness:
  "\<exists>d'. create_reverse_post_order loop_succ 0 new_dominators = Some (Inr d') \<and> distinct (reverse_post_order d') \<and>
    set (reverse_post_order d') = {b. reach loop_succ 0 b}"
  using reverse_post_order_correct [OF loop_flow_graph, of new_dominators] by blast

text \<open>C7: after the numbering, the iteration over the immediate dominators ends, without a failed
  assertion; it gives every reachable block but the entry its immediate dominator, the entry
  itself, and unreachable blocks nothing.\<close>

theorem create_idom_correct:
  assumes "flow_graph succ pred V e" and "create_reverse_post_order succ e d = Some (Inr d1)"
  shows "\<exists>d2. create_idom pred V e d1 = Some (Inr d2) \<and> idom d2 e = Some e \<and>
    (\<forall>b \<in> set V. \<not> reach succ e b \<longrightarrow> idom d2 b = None) \<and>
    (\<forall>b \<in> set V. reach succ e b \<and> b \<noteq> e \<longrightarrow> (\<exists>a. idom d2 b = Some a \<and> immediately_dominates succ e a b))"
proof -
  have "numbering_ok succ e d1" using create_reverse_post_order_spec [OF assms(1), of d] assms(2) by auto
  from create_idom_spec [OF assms(1) this] show ?thesis unfolding idom_correct_def by metis
qed

lemma create_idom_correct_witness:
  "\<exists>d1 d2. create_reverse_post_order loop_succ 0 new_dominators = Some (Inr d1) \<and>
     create_idom loop_pred [0, 1, 2, 3, 4] 0 d1 = Some (Inr d2) \<and> idom d2 0 = Some 0 \<and>
     (\<exists>a. idom d2 1 = Some a \<and> immediately_dominates loop_succ 0 a 1)"
proof -
  obtain d1 where d1: "create_reverse_post_order loop_succ 0 new_dominators = Some (Inr d1)"
    using create_reverse_post_order_spec [OF loop_flow_graph, of new_dominators] by blast
  have "reach loop_succ 0 1" by (rule reach_step [where a = 0, OF reach_entry]) (simp add: loop_succ_def)
  with create_idom_correct [OF loop_flow_graph d1] d1 show ?thesis by fastforce
qed

text \<open>C8: on a generated module in which no function has a reachable join with an unreachable
  predecessor (with one the pass hangs) the dominator pass ends; in every function the pointers are the
  immediate dominators, the children in the tree are the blocks a block immediately dominates, and
  the frontier of a block holds the blocks, other than the entry, that have a predecessor it
  dominates and that it does not strictly dominate itself.\<close>

theorem dominators_run_codegen:
  assumes "codegen prog = Inr s" and "\<forall>f < length (function_list s). \<not> may_hang s f"
  shows "\<exists>d. dominators_run s = Some (Inr d) \<and> (\<forall>f < length (function_list s).
    basic_blocks (function_list s ! f) \<noteq> [] \<longrightarrow> dominators_ok (succs_of s) (preds_of s) (basic_blocks (function_list s ! f)) d)"
  using dominators_run_spec [OF codegen_ir_ok [OF assms(1)]] assms(2)
  by (auto simp: function_ok_def blocks_of_def split: if_splits)

lemma dominators_run_codegen_witness:
  "\<exists>s d. codegen sample_program = Inr s \<and> dominators_run s = Some (Inr d) \<and>
     dominators_ok (succs_of s) (preds_of s) [0, 1, 2, 3] d"
proof -
  obtain s where s: "codegen sample_program = Inr s" using codegen_sample by blast
  have "case codegen sample_program of Inl _ \<Rightarrow> False
    | Inr s \<Rightarrow> map basic_blocks (function_list s) = [[], [], [], [], [0, 1, 2, 3]] \<and>
        map succ_bbs (blocks s) = [[1], [3, 2], [], []] \<and> map pre_bbs (blocks s) = [[], [0], [1], [1]]" by code_simp
  then have s2: "map basic_blocks (function_list s) = [[], [], [], [], [0, 1, 2, 3]]"
    "map succ_bbs (blocks s) = [[1], [3, 2], [], []]" "map pre_bbs (blocks s) = [[], [0], [1], [1]]" by (simp_all add: s)
  have len: "length (function_list s) = 5" "length (blocks s) = 4" using s2(1,2) [THEN arg_cong [where f = length]] by simp_all
  have fb: "basic_blocks (function_list s ! f) = [[], [], [], [], [0, 1, 2, 3]] ! f" if "f < 5" for f
    using that len s2(1) by (metis nth_map)
  have calm: "\<not> may_hang s f" if f: "f < length (function_list s)" for f
  proof (cases "blocks_of s f = []")
    case False
    have "length (preds_of s y) < 2" if y: "reach (succs_of s) (hd (blocks_of s f)) y" for y
    proof -
      from reach_in_graph [OF ir_flow_graph [OF codegen_ir_ok [OF s] f False] y]
      have "y < 4" using codegen_layout [OF s] f len by (auto simp: blocks_of_def)
      then have "pre_bbs (blocks s ! y) = [[], [0], [1], [1]] ! y" using len s2(3) by (metis nth_map)
      with \<open>y < 4\<close> show ?thesis by (auto simp: preds_of_def less_Suc_eq numeral_eq_Suc)
    qed
    then show ?thesis by (fastforce simp: may_hang_def)
  qed (simp add: may_hang_def)
  then have "\<forall>f < length (function_list s). \<not> may_hang s f" by blast
  from dominators_run_codegen [OF s this] obtain d where d: "dominators_run s = Some (Inr d)"
    and ok: "\<forall>f < length (function_list s). basic_blocks (function_list s ! f) \<noteq> [] \<longrightarrow>
      dominators_ok (succs_of s) (preds_of s) (basic_blocks (function_list s ! f)) d" by blast
  from ok [rule_format, of 4] have "dominators_ok (succs_of s) (preds_of s) [0, 1, 2, 3] d" by (simp add: len fb)
  with s d show ?thesis by blast
qed

text \<open>C9: on the module that code generation makes of a program the pass hangs exactly when some
  function has a reachable block with two or more predecessors of which one is unreachable.\<close>

theorem dominators_run_hangs_iff:
  assumes "codegen prog = Inr s"
  shows "dominators_run s = None \<longleftrightarrow> (\<exists>f < length (function_list s). basic_blocks (function_list s ! f) \<noteq> [] \<and>
    (\<exists>y p. reach (succs_of s) (hd (basic_blocks (function_list s ! f))) y \<and> 2 \<le> length (pre_bbs (blocks s ! y)) \<and>
       p \<in> set (pre_bbs (blocks s ! y)) \<and> \<not> reach (succs_of s) (hd (basic_blocks (function_list s ! f))) p))"
  using dominators_run_spec [OF codegen_ir_ok [OF assms]]
  by (auto simp: may_hang_def blocks_of_def preds_of_def split: if_splits)

lemma dominators_run_hangs_iff_witness:
  "\<exists>s. codegen hanging_program = Inr s \<and> dominators_run s = None"
proof -
  have "case codegen hanging_program of Inl _ \<Rightarrow> False
    | Inr s \<Rightarrow> map basic_blocks (function_list s) = [[], [], [], [], [0, 1, 2, 3, 4, 5, 6]] \<and>
        map succ_bbs (blocks s) = [[1], [3, 2], [5, 4], [], [], [], [1]] \<and>
        map pre_bbs (blocks s) = [[], [0, 6], [1], [1], [2], [2], []]" by code_simp
  from case_InrD [OF this] obtain s where s: "codegen hanging_program = Inr s"
    and bbs: "map basic_blocks (function_list s) = [[], [], [], [], [0, 1, 2, 3, 4, 5, 6]]"
    and succ: "map succ_bbs (blocks s) = [[1], [3, 2], [5, 4], [], [], [], [1]]"
    and pred: "map pre_bbs (blocks s) = [[], [0, 6], [1], [1], [2], [2], []]" by (elim exE conjE) (rule that)
  have len: "length (function_list s) = 5" "length (blocks s) = 7"
    using bbs [THEN arg_cong [where f = length]] succ [THEN arg_cong [where f = length]] by simp_all
  have f4: "basic_blocks (function_list s ! 4) = [0, 1, 2, 3, 4, 5, 6]"
    using bbs len nth_map [of 4 "function_list s" basic_blocks] by simp
  have p: "pre_bbs (blocks s ! 1) = [0, 6]" "pre_bbs (blocks s ! 6) = []"
    using pred len nth_map [of 1 "blocks s" pre_bbs] nth_map [of 6 "blocks s" pre_bbs] by simp_all
  have "succs_of s 0 = [1]" using succ len nth_map [of 0 "blocks s" succ_bbs] by (simp add: succs_of_def)
  then have "reach (succs_of s) 0 1" by (intro reach_step [where a = 0, OF reach_entry]) simp
  moreover have "\<not> reach (succs_of s) 0 6"
  proof
    assume "reach (succs_of s) 0 6"
    from reach_cases [OF this] obtain a where "reach (succs_of s) 0 a" "6 \<in> set (succs_of s a)" by auto
    moreover have graph: "flow_graph (succs_of s) (preds_of s) [0, 1, 2, 3, 4, 5, 6] 0"
      using ir_flow_graph [OF codegen_ir_ok [OF s], of 4] len f4 by (simp add: blocks_of_def)
    ultimately have "a \<in> set (preds_of s 6)" using graph_edge [OF graph, of 6 a] reach_in_graph [OF graph] by auto
    with p(2) show False by (simp add: preds_of_def)
  qed
  ultimately have "dominators_run s = None"
    unfolding dominators_run_hangs_iff [OF s] using len f4 p(1)
    by (intro exI [of _ 4] conjI exI [of _ 1] exI [of _ 6]) simp_all
  with s show ?thesis by blast
qed

end
