(* ===== verification/Worklist.thy ===== *)
theory Worklist
  imports RunOpt
begin

text \<open>
  The loop that three of the passes share: nodes wait in a queue, a visit marks the
  successors of a node that are not marked yet and queues them. What the loop marks is what
  can be reached from the queue; when all that waits is marked, the closure of the marks.
\<close>

locale marking_loop =
  fixes work :: "'s \<Rightarrow> 'n list" and pop :: "'s \<Rightarrow> 's" and marks :: "'s \<Rightarrow> 'n set"
    and visit :: "'n \<Rightarrow> 's \<Rightarrow> 's result" and loop :: "'s \<Rightarrow> 's run"
    and next_nodes :: "'n \<Rightarrow> 'n set" and good :: "'n \<Rightarrow> bool" and ok :: "'s \<Rightarrow> bool" and frame :: "'s \<Rightarrow> 's \<Rightarrow> bool"
  assumes loop_done: "work s = [] \<Longrightarrow> loop s = returnP s"
    and loop_step: "work s = x # xs \<Longrightarrow> loop s = bindP (Some (visit x (pop s))) loop"
    and pop: "work s = x # xs \<Longrightarrow> work (pop s) = xs \<and> marks (pop s) = marks s \<and> frame s (pop s) \<and> (ok s \<longrightarrow> ok (pop s))"
    and visit: "good x \<Longrightarrow> ok s \<Longrightarrow> \<exists>s' new. visit x s = Inr s' \<and> work s' = work s @ new \<and>
      set new = next_nodes x - marks s \<and> marks s' = marks s \<union> next_nodes x \<and> frame s s' \<and> ok s'"
    and frame_refl: "frame s s"
    and frame_trans: "frame s s' \<Longrightarrow> frame s' s'' \<Longrightarrow> frame s s''"
begin

definition edges :: "('n \<times> 'n) set" where
  "edges = {(x, y). y \<in> next_nodes x}"

definition closure :: "'n set \<Rightarrow> 'n set" where
  "closure A = edges\<^sup>* `` A"

definition reached :: "'n set \<Rightarrow> 'n set" where
  "reached A = edges\<^sup>+ `` A"

lemma closure_extends: "A \<subseteq> closure A"
  by (auto simp: closure_def)

lemma closure_step: "x \<in> closure A \<Longrightarrow> y \<in> next_nodes x \<Longrightarrow> y \<in> closure A"
  by (auto simp: closure_def edges_def intro: rtrancl_into_rtrancl)

lemma closure_least:
  assumes "A \<subseteq> B" and "\<And>x. x \<in> B \<Longrightarrow> next_nodes x \<subseteq> B"
  shows "closure A \<subseteq> B"
proof
  fix y assume "y \<in> closure A"
  then obtain x where "x \<in> A" "(x, y) \<in> edges\<^sup>*" by (auto simp: closure_def)
  from this(2,1) show "y \<in> B" by (induction rule: rtrancl_induct) (use assms in \<open>auto simp: edges_def\<close>)
qed

lemma reached_step: "x \<in> A \<union> reached A \<Longrightarrow> next_nodes x \<subseteq> reached A"
  by (auto simp: reached_def edges_def intro: trancl_into_trancl)

lemma reached_least:
  assumes "\<And>x. x \<in> A \<union> B \<Longrightarrow> next_nodes x \<subseteq> B"
  shows "reached A \<subseteq> B"
proof
  fix y assume "y \<in> reached A"
  then obtain x where "x \<in> A" "(x, y) \<in> edges\<^sup>+" by (auto simp: reached_def)
  from this(2,1) show "y \<in> B" by (induction rule: trancl_induct) (use assms in \<open>auto simp: edges_def\<close>)
qed

lemma reached_mono: "A \<subseteq> B \<Longrightarrow> reached A \<subseteq> reached B"
  by (auto simp: reached_def)

text \<open>What one visit leaves to reach is what there was to reach.\<close>

lemma visit_reached:
  assumes closed: "\<forall>y \<in> M - insert x W. next_nodes y \<subseteq> M"
  shows "M \<union> next_nodes x \<union> reached (W \<union> (next_nodes x - M)) = M \<union> reached (insert x W)" (is "?L = ?R")
proof
  have "reached (W \<union> (next_nodes x - M)) \<subseteq> ?R"
  proof (rule reached_least)
    fix z assume z: "z \<in> W \<union> (next_nodes x - M) \<union> ?R"
    have x: "next_nodes x \<subseteq> reached (insert x W)" by (rule reached_step) simp
    then have "z \<in> M \<and> z \<notin> insert x W \<or> z \<in> insert x W \<union> reached (insert x W)" using z by blast
    then show "next_nodes z \<subseteq> ?R" using closed reached_step [of z "insert x W"] by blast
  qed
  then show "?L \<subseteq> ?R" using reached_step [of x "insert x W"] by blast
  have "reached (insert x W) \<subseteq> ?L"
  proof (rule reached_least)
    fix z assume z: "z \<in> insert x W \<union> ?L"
    then have "z = x \<or> z \<in> M \<and> z \<notin> insert x W \<or>
        z \<in> (W \<union> (next_nodes x - M)) \<union> reached (W \<union> (next_nodes x - M))" by blast
    then show "next_nodes z \<subseteq> ?L" using closed reached_step [of z "W \<union> (next_nodes x - M)"] by blast
  qed
  then show "?R \<subseteq> ?L" by blast
qed

theorem loop_reaches:
  assumes "finite (reached (set (work s)) - marks s)" and "ok s"
    and "\<forall>x \<in> closure (set (work s)). good x" and "\<forall>x \<in> marks s - set (work s). next_nodes x \<subseteq> marks s"
  shows "\<exists>s'. loop s = Some (Inr s') \<and> marks s' = marks s \<union> reached (set (work s)) \<and> work s' = [] \<and> frame s s' \<and> ok s'"
  using assms
proof (induction "(card (reached (set (work s)) - marks s), length (work s))" arbitrary: s
    rule: wf_induct_rule [OF wf_lex_prod [OF wf_less_than wf_less_than]])
  case 1
  show ?case
  proof (cases "work s")
    case Nil
    with 1 show ?thesis by (auto simp: loop_done returnP_def frame_refl reached_def)
  next
    case (Cons x xs)
    note p = pop [OF Cons]
    have "x \<in> set (work s)" using Cons by simp
    then have x: "good x" "x \<in> closure (set (work s))" using "1.prems"(3) closure_extends by blast+
    obtain s1 new where s1: "visit x (pop s) = Inr s1" "work s1 = xs @ new" "set new = next_nodes x - marks s"
      "marks s1 = marks s \<union> next_nodes x" "frame (pop s) s1" "ok s1"
      using visit [OF x(1), of "pop s"] p "1.prems"(2) by auto
    have work1: "set (work s1) = set xs \<union> (next_nodes x - marks s)" using s1(2,3) by simp
    have "\<forall>y \<in> marks s - insert x (set xs). next_nodes y \<subseteq> marks s" using "1.prems"(4) Cons by simp
    from visit_reached [OF this] have same: "marks s1 \<union> reached (set (work s1)) = marks s \<union> reached (set (work s))"
      unfolding work1 using s1(4) Cons by simp
    have left: "reached (set (work s1)) - marks s1 = (marks s \<union> reached (set (work s))) - marks s1" using same by blast
    have fin: "finite (reached (set (work s1)) - marks s1)"
      unfolding left by (rule finite_subset [OF _ "1.prems"(1)]) (use s1(4) in blast)
    have "((card (reached (set (work s1)) - marks s1), length (work s1)),
        (card (reached (set (work s)) - marks s), length (work s))) \<in> less_than <*lex*> less_than"
    proof (cases "set new = {}")
      case True
      then have "new = []" by simp
      with s1 have "marks s1 = marks s" "work s1 = xs" by auto
      moreover from this(1) left have "reached (set (work s1)) - marks s1 = reached (set (work s)) - marks s" by blast
      ultimately show ?thesis using Cons by simp
    next
      case False
      moreover have "next_nodes x \<subseteq> reached (set (work s))" by (rule reached_step) (simp add: Cons)
      ultimately have "reached (set (work s1)) - marks s1 \<subset> reached (set (work s)) - marks s" unfolding left using s1(3,4) by auto
      from psubset_card_mono [OF "1.prems"(1) this] show ?thesis by simp
    qed
    moreover have "\<forall>y \<in> closure (set (work s1)). good y"
    proof -
      have "set xs \<subseteq> closure (set (work s))" using Cons closure_extends [of "set (work s)"] by simp
      then have "set (work s1) \<subseteq> closure (set (work s))" using x(2) closure_step unfolding work1 by blast
      then have "closure (set (work s1)) \<subseteq> closure (set (work s))" by (rule closure_least) (use closure_step in blast)
      with "1.prems"(3) show ?thesis by blast
    qed
    moreover have "\<forall>y \<in> marks s1 - set (work s1). next_nodes y \<subseteq> marks s1"
    proof
      fix y assume "y \<in> marks s1 - set (work s1)"
      then have "y = x \<or> y \<in> marks s - set (work s)" using work1 s1(4) Cons by auto
      with "1.prems"(4) s1(4) show "next_nodes y \<subseteq> marks s1" by blast
    qed
    ultimately obtain s' where "loop s1 = Some (Inr s')" "marks s' = marks s1 \<union> reached (set (work s1))" "work s' = []"
      "frame s1 s'" "ok s'" using "1.hyps" fin s1(6) by blast
    moreover have "frame s s'" using p s1(5) \<open>frame s1 s'\<close> frame_trans by blast
    ultimately show ?thesis using s1(1) same by (simp add: loop_step [OF Cons])
  qed
qed

text \<open>When all that waits is marked.\<close>

theorem loop_marks:
  assumes "finite (closure (marks s) - marks s)" and "set (work s) \<subseteq> marks s"
    and "\<forall>x \<in> closure (set (work s)). good x" and closed: "\<forall>x \<in> marks s - set (work s). next_nodes x \<subseteq> marks s" and "ok s"
  shows "\<exists>s'. loop s = Some (Inr s') \<and> marks s' = closure (marks s) \<and> work s' = [] \<and> frame s s'"
proof -
  have "closure (marks s) \<subseteq> marks s \<union> reached (set (work s))"
    by (rule closure_least) (use closed reached_step [of _ "set (work s)"] in blast)+
  moreover have "reached (set (work s)) \<subseteq> closure (marks s)"
    using assms(2) by (auto simp: reached_def closure_def dest: trancl_into_rtrancl)
  ultimately have same: "marks s \<union> reached (set (work s)) = closure (marks s)" using closure_extends [of "marks s"] by blast
  have "finite (reached (set (work s)) - marks s)" by (rule finite_subset [OF _ assms(1)]) (use same in blast)
  from loop_reaches [OF this assms(5,3) closed] same show ?thesis by auto
qed

end

end
