(* ===== verification/Mem2RegProps.thy ===== *)
theory Mem2RegProps
  imports Mem2Reg DomProgram Worklist
begin

text \<open>
  The first half of \<open>Mem2Reg\<close>: it ends, and puts its phis at the iterated dominance
  frontiers of the stores.
\<close>

section \<open>Phis at the head of blocks\<close>

text \<open>
  The module after phis for the variables \<open>P b\<close> were put, in that order, at the head of
  each block \<open>b\<close>; nothing else has changed.
\<close>

definition phi_for :: "'b ir_module_scheme \<Rightarrow> nat \<Rightarrow> irval option \<Rightarrow> instruction \<Rightarrow> bool" where
  "phi_for m b v i \<longleftrightarrow> i_op i = I_phi \<and> i_data i = X_LVal v \<and> i_parent i = Some b \<and> i_name i = [] \<and>
     (\<exists>w. v = Some w \<and> get_type m w = PointerTy (i_type i))"

definition phis_added :: "(nat \<Rightarrow> irval option list) \<Rightarrow> 'b ir_module_scheme \<Rightarrow> 'b ir_module_scheme \<Rightarrow> bool" where
  "phis_added P m m' \<longleftrightarrow> (\<exists>new bs. m' = m\<lparr>instrs := instrs m @ new, blocks := bs\<rparr> \<and> length bs = length (blocks m) \<and>
     (\<forall>b < length (blocks m). \<exists>ps. bs ! b = (blocks m ! b)\<lparr>instr_list := ps @ instr_list (blocks m ! b)\<rparr> \<and> distinct ps \<and>
        set ps \<subseteq> {length (instrs m)..<length (instrs m) + length new} \<and>
        list_all2 (\<lambda>v i. phi_for m b v (new ! (i - length (instrs m)))) (P b) ps))"

definition fresh_users :: "'b ir_module_scheme \<Rightarrow> bool" where
  "fresh_users m \<longleftrightarrow> (\<forall>i. length (instrs m) \<le> i \<longrightarrow> operands (graph m) (V_Inst i) = [])"

text \<open>A variable is a pointer to its values.\<close>

definition variable_ok :: "'b ir_module_scheme \<Rightarrow> irval option \<Rightarrow> bool" where
  "variable_ok m v \<longleftrightarrow> (\<exists>w t. v = Some w \<and> get_type m w = PointerTy t \<and> (\<forall>i. w = V_Inst i \<longrightarrow> i < length (instrs m)))"

lemma phis_added_get_type:
  "phis_added P m m' \<Longrightarrow> (\<forall>i. w = V_Inst i \<longrightarrow> i < length (instrs m)) \<Longrightarrow> get_type m' w = get_type m w"
  by (cases w) (auto simp: phis_added_def nth_append)

lemma phis_added_keeps:
  assumes "phis_added P m m'"
  shows "length (blocks m') = length (blocks m)" and "graph m' = graph m" and "function_list m' = function_list m"
    and "length (instrs m) \<le> length (instrs m')" and "i < length (instrs m) \<Longrightarrow> instrs m' ! i = instrs m ! i"
    and "fresh_users m \<Longrightarrow> fresh_users m'" and "variable_ok m v \<Longrightarrow> variable_ok m' v"
proof -
  show "length (blocks m') = length (blocks m)" "graph m' = graph m" "function_list m' = function_list m"
    and len: "length (instrs m) \<le> length (instrs m')" and "i < length (instrs m) \<Longrightarrow> instrs m' ! i = instrs m ! i"
    and "fresh_users m \<Longrightarrow> fresh_users m'" using assms by (auto simp: phis_added_def nth_append fresh_users_def)
  show "variable_ok m v \<Longrightarrow> variable_ok m' v"
    using phis_added_get_type [OF assms] len unfolding variable_ok_def by (metis order_less_le_trans)
qed

lemma phis_added_none: "phis_added (\<lambda>_. []) m m"
  unfolding phis_added_def by (intro exI [of _ "[]"] exI [of _ "blocks m"]) simp

lemma phis_added_trans:
  assumes "phis_added P m m1" and "phis_added Q m1 m2" and "\<And>b v. v \<in> set (Q b) \<Longrightarrow> variable_ok m v"
  shows "phis_added (\<lambda>b. Q b @ P b) m m2"
proof -
  let ?n = "length (instrs m)"
  obtain new1 bs1 where 1: "m1 = m\<lparr>instrs := instrs m @ new1, blocks := bs1\<rparr>" "length bs1 = length (blocks m)"
    and b1: "\<And>b. b < length (blocks m) \<Longrightarrow> \<exists>ps. bs1 ! b = (blocks m ! b)\<lparr>instr_list := ps @ instr_list (blocks m ! b)\<rparr> \<and> distinct ps \<and>
        set ps \<subseteq> {?n..<?n + length new1} \<and> list_all2 (\<lambda>v i. phi_for m b v (new1 ! (i - ?n))) (P b) ps"
    using assms(1) unfolding phis_added_def by blast
  obtain new2 bs2 where 2: "m2 = m1\<lparr>instrs := instrs m1 @ new2, blocks := bs2\<rparr>" "length bs2 = length (blocks m1)"
    and b2: "\<And>b. b < length (blocks m1) \<Longrightarrow> \<exists>ps. bs2 ! b = (blocks m1 ! b)\<lparr>instr_list := ps @ instr_list (blocks m1 ! b)\<rparr> \<and> distinct ps \<and>
        set ps \<subseteq> {length (instrs m1)..<length (instrs m1) + length new2} \<and>
        list_all2 (\<lambda>v i. phi_for m1 b v (new2 ! (i - length (instrs m1)))) (Q b) ps"
    using assms(2) unfolding phis_added_def by blast
  have len: "length (instrs m1) = ?n + length new1" "length (blocks m1) = length (blocks m)" using 1 by simp_all
  show ?thesis
    unfolding phis_added_def
  proof (intro exI [of _ "new1 @ new2"] exI [of _ bs2] conjI allI impI)
    show "m2 = m\<lparr>instrs := instrs m @ (new1 @ new2), blocks := bs2\<rparr>" using 1 2 by simp
    show "length bs2 = length (blocks m)" using 2 len by simp
    fix b assume b: "b < length (blocks m)"
    obtain ps1 where p1: "bs1 ! b = (blocks m ! b)\<lparr>instr_list := ps1 @ instr_list (blocks m ! b)\<rparr>" "distinct ps1"
      "set ps1 \<subseteq> {?n..<?n + length new1}" "list_all2 (\<lambda>v i. phi_for m b v (new1 ! (i - ?n))) (P b) ps1" using b1 [OF b] by blast
    obtain ps2 where p2: "bs2 ! b = (blocks m1 ! b)\<lparr>instr_list := ps2 @ instr_list (blocks m1 ! b)\<rparr>" "distinct ps2"
      "set ps2 \<subseteq> {?n + length new1..<?n + length new1 + length new2}"
      "list_all2 (\<lambda>v i. phi_for m1 b v (new2 ! (i - (?n + length new1)))) (Q b) ps2" using b2 [of b] b len by auto
    have "list_all2 (\<lambda>v i. phi_for m b v ((new1 @ new2) ! (i - ?n))) (Q b) ps2"
    proof (rule list.rel_mono_strong [OF p2(4)])
      fix v i assume v: "v \<in> set (Q b)" and i: "i \<in> set ps2" and phi: "phi_for m1 b v (new2 ! (i - (?n + length new1)))"
      have "get_type m1 w = get_type m w" if "v = Some w" for w
        using phis_added_get_type [OF assms(1)] assms(3) [OF v] that by (auto simp: variable_ok_def)
      moreover have "?n + length new1 \<le> i" using i p2(3) by fastforce
      then have "(new1 @ new2) ! (i - ?n) = new2 ! (i - (?n + length new1))" by (simp add: nth_append)
      ultimately show "phi_for m b v ((new1 @ new2) ! (i - ?n))" using phi by (auto simp: phi_for_def)
    qed
    moreover have "list_all2 (\<lambda>v i. phi_for m b v ((new1 @ new2) ! (i - ?n))) (P b) ps1"
      by (rule list.rel_mono_strong [OF p1(4)]) (use p1(3) in \<open>fastforce simp: nth_append\<close>)
    ultimately have all: "list_all2 (\<lambda>v i. phi_for m b v ((new1 @ new2) ! (i - ?n))) (Q b @ P b) (ps2 @ ps1)"
      by (rule list_all2_appendI)
    have head: "bs2 ! b = (blocks m ! b)\<lparr>instr_list := (ps2 @ ps1) @ instr_list (blocks m ! b)\<rparr>" using p1(1) p2(1) 1 by simp
    have "x < ?n + length new1" if "x \<in> set ps1" for x using p1(3) that by fastforce
    moreover have "?n + length new1 \<le> x \<and> x < ?n + length new1 + length new2" if "x \<in> set ps2" for x using p2(3) that by fastforce
    ultimately have "set ps1 \<inter> set ps2 = {}" "set (ps2 @ ps1) \<subseteq> {?n..<?n + length (new1 @ new2)}"
      using p1(3) by fastforce+
    then have "distinct (ps2 @ ps1)" "set (ps2 @ ps1) \<subseteq> {?n..<?n + length (new1 @ new2)}"
      using p1(2) p2(2) by auto
    with all head show "\<exists>ps. bs2 ! b = (blocks m ! b)\<lparr>instr_list := ps @ instr_list (blocks m ! b)\<rparr> \<and> distinct ps \<and>
        set ps \<subseteq> {?n..<?n + length (new1 @ new2)} \<and> list_all2 (\<lambda>v i. phi_for m b v ((new1 @ new2) ! (i - ?n))) (Q b @ P b) ps"
      by blast
  qed
qed

lemma insert_phi_spec:
  assumes v: "variable_ok m v" and fresh: "fresh_users m" and b: "b < length (blocks m)"
  shows "\<exists>m'. insert_phi v b m = Inr ((), m') \<and> phis_added (\<lambda>c. if c = b then [v] else []) m m'"
proof -
  obtain w t where w: "v = Some w" "get_type m w = PointerTy t" using v by (auto simp: variable_ok_def)
  let ?i = "length (instrs m)"
  let ?phi = "\<lparr>i_type = t, i_op = I_phi, i_data = X_LVal v, i_parent = Some b, i_name = []\<rparr>"
  let ?bs = "(blocks m)[b := (blocks m ! b)\<lparr>instr_list := ?i # instr_list (blocks m ! b)\<rparr>]"
  have graph: "new_user (V_Inst ?i) 0 (graph m) = graph m"
    using fresh by (simp add: new_user_def fresh_users_def fun_upd_idem)
  have "insert_phi v b m = Inr ((), m\<lparr>instrs := instrs m @ [?phi], blocks := ?bs\<rparr>)"
    using graph by (simp add: insert_phi_def w derefS_def bindS_def thenS_def create_phi_def new_instruction_def set_lval_def
        add_instr_begin_def upd_block_def)
  moreover have "phis_added (\<lambda>c. if c = b then [v] else []) m (m\<lparr>instrs := instrs m @ [?phi], blocks := ?bs\<rparr>)"
    unfolding phis_added_def
  proof (intro exI [of _ "[?phi]"] exI [of _ ?bs] conjI allI impI)
    fix c assume c: "c < length (blocks m)"
    show "\<exists>ps. ?bs ! c = (blocks m ! c)\<lparr>instr_list := ps @ instr_list (blocks m ! c)\<rparr> \<and> distinct ps \<and>
        set ps \<subseteq> {?i..<?i + length [?phi]} \<and> list_all2 (\<lambda>v i. phi_for m c v ([?phi] ! (i - ?i))) (if c = b then [v] else []) ps"
      using b w by (intro exI [of _ "if c = b then [?i] else []"]) (auto simp: phi_for_def)
  qed simp_all
  ultimately show ?thesis by blast
qed

section \<open>The loop for one variable\<close>

definition phi_module :: "'b phi_state \<Rightarrow> 'b ir_module_scheme" where
  "phi_module s = snd (snd s)"

definition has_phi :: "'b phi_state \<Rightarrow> nat set" where
  "has_phi s = set (fst (snd s))"

definition pop_phi :: "'b phi_state \<Rightarrow> 'b phi_state" where
  "pop_phi s = (tl (fst s), snd s)"

definition phi_ready :: "irval option \<Rightarrow> nat \<Rightarrow> 'b phi_state \<Rightarrow> bool" where
  "phi_ready v n s \<longleftrightarrow> variable_ok (phi_module s) v \<and> fresh_users (phi_module s) \<and> length (blocks (phi_module s)) = n"

definition frontier_inside :: "(nat option \<Rightarrow> nat list) \<Rightarrow> nat \<Rightarrow> nat \<Rightarrow> bool" where
  "frontier_inside df n b \<longleftrightarrow> (\<forall>c \<in> set (df (Some b)). c < n)"

text \<open>
  The modules differ in the phis for the blocks that got one between the two states. The
  relation is about states that are ready, for any number of blocks.
\<close>

definition phis_grown :: "irval option \<Rightarrow> 'b phi_state \<Rightarrow> 'b phi_state \<Rightarrow> bool" where
  "phis_grown v s s' \<longleftrightarrow> has_phi s \<subseteq> has_phi s' \<and> (variable_ok (phi_module s) v \<longrightarrow>
     variable_ok (phi_module s') v \<and>
     phis_added (\<lambda>b. if b \<in> has_phi s' - has_phi s then [v] else []) (phi_module s) (phi_module s'))"

lemma phis_grown_refl: "phis_grown v s s"
  by (simp add: phis_grown_def phis_added_none)

lemma phis_grown_trans:
  assumes "phis_grown v s s1" and "phis_grown v s1 s2"
  shows "phis_grown v s s2"
proof -
  have sub: "has_phi s \<subseteq> has_phi s1" "has_phi s1 \<subseteq> has_phi s2" using assms by (simp_all add: phis_grown_def)
  have "(if b \<in> has_phi s2 - has_phi s1 then [v] else []) @ (if b \<in> has_phi s1 - has_phi s then [v] else []) =
      (if b \<in> has_phi s2 - has_phi s then [v] else [])" for b using sub by auto
  moreover have "variable_ok (phi_module s) v \<Longrightarrow> phis_added (\<lambda>b. (if b \<in> has_phi s2 - has_phi s1 then [v] else []) @
      (if b \<in> has_phi s1 - has_phi s then [v] else [])) (phi_module s) (phi_module s2)"
    using assms unfolding phis_grown_def by (intro phis_added_trans) (auto split: if_splits)
  ultimately show ?thesis using assms sub by (simp add: phis_grown_def)
qed

lemma phi_frontier_spec:
  assumes "phi_ready v n s" and "\<forall>b \<in> set bs. b < n"
  shows "\<exists>s' new. phi_frontier v bs s = Inr s' \<and> fst s' = fst s @ new \<and> set new = set bs - has_phi s \<and>
    has_phi s' = has_phi s \<union> set bs \<and> phis_grown v s s' \<and> phi_ready v n s'"
  using assms
proof (induction bs arbitrary: s)
  case Nil
  then show ?case by (intro exI [of _ s] exI [of _ "[]"]) (simp add: phis_grown_refl)
next
  case (Cons b bs)
  obtain work has m where s: "s = (work, has, m)" by (cases s)
  show ?case
  proof (cases "b \<in> set has")
    case True
    with Cons.IH [OF Cons.prems(1)] Cons.prems(2) s show ?thesis by (auto simp: has_phi_def insert_absorb)
  next
    case False
    have ready: "variable_ok m v" "fresh_users m" "length (blocks m) = n" using Cons.prems(1) s by (simp_all add: phi_ready_def phi_module_def)
    obtain m1 where m1: "insert_phi v b m = Inr ((), m1)" "phis_added (\<lambda>c. if c = b then [v] else []) m m1"
      using insert_phi_spec [OF ready(1,2)] Cons.prems(2) ready(3) by auto
    let ?s1 = "(work @ [b], has @ [b], m1)"
    note keeps = phis_added_keeps [OF m1(2)]
    have r1: "phi_ready v n ?s1" using keeps ready by (simp add: phi_ready_def phi_module_def)
    have "(\<lambda>c. if c = b then [v] else []) = (\<lambda>c. if c \<in> has_phi ?s1 - has_phi s then [v] else [])"
      using False by (auto simp: s has_phi_def fun_eq_iff)
    then have g1: "phis_grown v s ?s1" using m1(2) keeps(7) by (auto simp: phis_grown_def phi_module_def s has_phi_def)
    obtain s' new where s': "phi_frontier v bs ?s1 = Inr s'" "fst s' = fst ?s1 @ new" "set new = set bs - has_phi ?s1"
      "has_phi s' = has_phi ?s1 \<union> set bs" "phis_grown v ?s1 s'" "phi_ready v n s'" using Cons.IH [OF r1] Cons.prems(2) by auto
    show ?thesis
    proof (intro exI conjI)
      show "phi_frontier v (b # bs) s = Inr s'" using False m1(1) s'(1) s by simp
      show "fst s' = fst s @ b # new" using s'(2) s by simp
      show "set (b # new) = set (b # bs) - has_phi s" using s'(3) False s by (auto simp: has_phi_def)
      show "has_phi s' = has_phi s \<union> set (b # bs)" using s'(4) s by (auto simp: has_phi_def)
      show "phis_grown v s s'" by (rule phis_grown_trans [OF g1 s'(5)])
    qed (rule s'(6))
  qed
qed

interpretation phis: marking_loop fst pop_phi has_phi "\<lambda>b. phi_frontier v (df (Some b))" "phi_loop df v" "\<lambda>b. set (df (Some b))"
    "frontier_inside df n" "phi_ready v n" "phis_grown v"
  for df :: "nat option \<Rightarrow> nat list" and v n
proof
  show "phi_loop df v s = returnP s" if "fst s = []" for s
    using that by (subst phi_loop.simps) simp
  show "phi_loop df v s = bindP (Some (phi_frontier v (df (Some b)) (pop_phi s))) (phi_loop df v)" if "fst s = b # rest" for s b rest
    using that by (subst phi_loop.simps) (simp add: pop_phi_def)
  show "fst (pop_phi s) = rest \<and> has_phi (pop_phi s) = has_phi s \<and> phis_grown v s (pop_phi s) \<and>
      (phi_ready v n s \<longrightarrow> phi_ready v n (pop_phi s))" if "fst s = b # rest" for s b rest
    using that by (simp add: pop_phi_def has_phi_def phis_grown_def phi_ready_def phi_module_def phis_added_none)
  show "\<exists>s' new. phi_frontier v (df (Some b)) s = Inr s' \<and> fst s' = fst s @ new \<and> set new = set (df (Some b)) - has_phi s \<and>
      has_phi s' = has_phi s \<union> set (df (Some b)) \<and> phis_grown v s s' \<and> phi_ready v n s'"
    if "frontier_inside df n b" "phi_ready v n s" for b s
    using phi_frontier_spec [OF that(2)] that(1) by (simp add: frontier_inside_def)
qed (fact phis_grown_refl, fact phis_grown_trans)

text \<open>The iterated dominance frontier of the blocks of \<open>A\<close>.\<close>

definition iterated_frontier :: "(nat option \<Rightarrow> nat list) \<Rightarrow> nat set \<Rightarrow> nat set" where
  "iterated_frontier df A = {(a, b). b \<in> set (df (Some a))}\<^sup>+ `` A"

lemma phi_loop_spec:
  assumes v: "variable_ok m v" "fresh_users m" and df: "\<And>b. frontier_inside df (length (blocks m)) b"
  shows "\<exists>work has m'. phi_loop df v (bs, [], m) = Some (Inr (work, has, m')) \<and>
    phis_added (\<lambda>b. if b \<in> iterated_frontier df (set bs) then [v] else []) m m'"
proof -
  let ?s = "(bs, [], m)"
  have reached: "marking_loop.reached (\<lambda>b. set (df (Some b))) (set bs) = iterated_frontier df (set bs)"
    by (simp add: phis.reached_def phis.edges_def iterated_frontier_def)
  have "iterated_frontier df (set bs) \<subseteq> {..<length (blocks m)}"
    unfolding reached [symmetric] by (rule phis.reached_least) (use df in \<open>auto simp: frontier_inside_def\<close>)
  from finite_subset [OF this] have fin: "finite (marking_loop.reached (\<lambda>b. set (df (Some b))) (set (fst ?s)) - has_phi ?s)"
    using reached by simp
  have ready: "phi_ready v (length (blocks m)) ?s" using v by (simp add: phi_ready_def phi_module_def)
  obtain s' where s': "phi_loop df v ?s = Some (Inr s')" "has_phi s' = iterated_frontier df (set bs)" "phis_grown v ?s s'"
    using phis.loop_reaches [OF fin ready] df reached by (auto simp: has_phi_def)
  then show ?thesis using v by (cases s') (auto simp: phis_grown_def phi_module_def has_phi_def)
qed

section \<open>The variables of a function\<close>

definition stores_to :: "'b ir_module_scheme \<Rightarrow> irval option \<Rightarrow> nat \<Rightarrow> bool" where
  "stores_to m v i \<longleftrightarrow> is_op I_store m i \<and> is_variable m v \<and> store_lval m i = Inr v"

text \<open>The blocks of a list that store to a variable.\<close>

definition storing_blocks :: "'b ir_module_scheme \<Rightarrow> nat list \<Rightarrow> irval option \<Rightarrow> nat set" where
  "storing_blocks m bs v = {b \<in> set bs. \<exists>i \<in> set (instr_list (blocks m ! b)). stores_to m v i}"

definition store_ok :: "'b ir_module_scheme \<Rightarrow> nat \<Rightarrow> bool" where
  "store_ok m i \<longleftrightarrow> (is_op I_store m i \<longrightarrow> (\<exists>r l. operands (graph m) (V_Inst i) = [r, l] \<and> variable_ok m l))"

definition stores_ok :: "'b ir_module_scheme \<Rightarrow> nat list \<Rightarrow> bool" where
  "stores_ok m bs \<longleftrightarrow> (\<forall>b \<in> set bs. \<forall>i \<in> set (instr_list (blocks m ! b)). store_ok m i)"

definition live_vars_ok :: "live_vars \<Rightarrow> bool" where
  "live_vars_ok lv \<longleftrightarrow> distinct (global_live_var_name lv) \<and>
     (\<forall>v. v \<in> set (global_live_var_name lv) \<longleftrightarrow> live_var_2blocks lv v \<noteq> [])"

lemma set_insert_not_Nil [simp]: "set_insert x xs \<noteq> []"
  by (metis empty_not_insert list.set(1) set_set_insert)

lemma live_store_ok: "live_vars_ok lv \<Longrightarrow> live_vars_ok (live_store v b lv)"
  unfolding live_vars_ok_def live_store_def by simp

lemma live_store_blocks: "set (live_var_2blocks (live_store v b lv) w) = set (live_var_2blocks lv w) \<union> (if w = v then {b} else {})"
  by (auto simp: live_store_def)

lemma live_block_spec:
  assumes "\<forall>i \<in> set is. store_ok m i" and "live_vars_ok lv"
  shows "\<exists>lv'. live_block m b is lv = Inr lv' \<and> live_vars_ok lv' \<and>
    (\<forall>v. set (live_var_2blocks lv' v) = set (live_var_2blocks lv v) \<union> (if \<exists>i \<in> set is. stores_to m v i then {b} else {}))"
  using assms
proof (induction "is" arbitrary: lv)
  case (Cons i "is")
  have rest: "\<forall>j \<in> set is. store_ok m j" using Cons.prems(1) by simp
  show ?case
  proof (cases "is_op I_store m i")
    case False
    with Cons.IH [OF rest Cons.prems(2)] show ?thesis by (simp add: stores_to_def)
  next
    case True
    then obtain r l where ops: "operands (graph m) (V_Inst i) = [r, l]" using Cons.prems(1) by (auto simp: store_ok_def)
    then have val: "store_rval m i = Inr r" "store_lval m i = Inr l"
      by (simp_all add: store_rval_def store_lval_def get_operand_def)
    let ?lv = "if is_variable m l then live_store l b lv else lv"
    have to: "stores_to m v i \<longleftrightarrow> v = l \<and> is_variable m l" for v using True val by (auto simp: stores_to_def)
    have "live_vars_ok ?lv" using Cons.prems(2) live_store_ok by simp
    from Cons.IH [OF rest this] obtain lv' where lv': "live_block m b is ?lv = Inr lv'" "live_vars_ok lv'"
      "\<forall>v. set (live_var_2blocks lv' v) = set (live_var_2blocks ?lv v) \<union> (if \<exists>i \<in> set is. stores_to m v i then {b} else {})" by blast
    have "set (live_var_2blocks lv' v) = set (live_var_2blocks lv v) \<union> (if \<exists>j \<in> set (i # is). stores_to m v j then {b} else {})" for v
      using lv'(3) by (auto simp: live_store_blocks to)
    with lv'(1,2) True val show ?thesis by simp
  qed
qed simp

lemma live_blocks_spec:
  assumes "stores_ok m bs" and "live_vars_ok lv"
  shows "\<exists>lv'. live_blocks m bs lv = Inr lv' \<and> live_vars_ok lv' \<and>
    (\<forall>v. set (live_var_2blocks lv' v) = set (live_var_2blocks lv v) \<union> storing_blocks m bs v)"
  using assms
proof (induction bs arbitrary: lv)
  case (Cons b bs)
  have ok: "\<forall>i \<in> set (instr_list (blocks m ! b)). store_ok m i" "stores_ok m bs" using Cons.prems(1) by (simp_all add: stores_ok_def)
  obtain lv1 where lv1: "live_block m b (instr_list (blocks m ! b)) lv = Inr lv1" "live_vars_ok lv1"
    "\<forall>v. set (live_var_2blocks lv1 v) = set (live_var_2blocks lv v) \<union> (if \<exists>i \<in> set (instr_list (blocks m ! b)). stores_to m v i then {b} else {})"
    using live_block_spec [OF ok(1) Cons.prems(2)] by blast
  obtain lv2 where lv2: "live_blocks m bs lv1 = Inr lv2" "live_vars_ok lv2"
    "\<forall>v. set (live_var_2blocks lv2 v) = set (live_var_2blocks lv1 v) \<union> storing_blocks m bs v" using Cons.IH [OF ok(2) lv1(2)] by blast
  have "storing_blocks m (b # bs) v = (if \<exists>i \<in> set (instr_list (blocks m ! b)). stores_to m v i then {b} else {}) \<union> storing_blocks m bs v" for v
    by (auto simp: storing_blocks_def)
  with lv1 lv2 show ?case by (simp add: Un_assoc)
qed (simp add: storing_blocks_def)

section \<open>All variables\<close>

definition phi_variables :: "(nat option \<Rightarrow> nat list) \<Rightarrow> (irval option \<Rightarrow> nat set) \<Rightarrow> irval option list \<Rightarrow> nat \<Rightarrow> irval option list" where
  "phi_variables df stores vs b = rev (filter (\<lambda>v. b \<in> iterated_frontier df (stores v)) vs)"

lemma phi_fold_spec:
  assumes "\<forall>v \<in> set vs. variable_ok m v" and "fresh_users m" and "\<And>b. frontier_inside df (length (blocks m)) b"
  shows "\<exists>m'. foldP (\<lambda>v m. bindP (phi_loop df v (bs v, [], m)) (\<lambda>(_, _, m). returnP m)) vs m = Some (Inr m') \<and>
    phis_added (phi_variables df (\<lambda>v. set (bs v)) vs) m m'"
  using assms
proof (induction vs arbitrary: m)
  case Nil
  then show ?case using phis_added_none by (auto simp: returnP_def phi_variables_def [abs_def])
next
  case (Cons v vs)
  obtain work has m1 where m1: "phi_loop df v (bs v, [], m) = Some (Inr (work, has, m1))"
    "phis_added (\<lambda>b. if b \<in> iterated_frontier df (set (bs v)) then [v] else []) m m1"
    using phi_loop_spec [of m v df "bs v"] Cons.prems by auto
  note keeps = phis_added_keeps [OF m1(2)]
  obtain m2 where m2: "foldP (\<lambda>v m. bindP (phi_loop df v (bs v, [], m)) (\<lambda>(_, _, m). returnP m)) vs m1 = Some (Inr m2)"
    "phis_added (phi_variables df (\<lambda>v. set (bs v)) vs) m1 m2" using Cons.IH [of m1] Cons.prems keeps by auto
  have "phis_added (\<lambda>b. phi_variables df (\<lambda>v. set (bs v)) vs b @ (if b \<in> iterated_frontier df (set (bs v)) then [v] else [])) m m2"
    by (rule phis_added_trans [OF m1(2) m2(2)]) (use Cons.prems(1) in \<open>auto simp: phi_variables_def\<close>)
  moreover have "phi_variables df (\<lambda>v. set (bs v)) vs b @ (if b \<in> iterated_frontier df (set (bs v)) then [v] else []) =
      phi_variables df (\<lambda>v. set (bs v)) (v # vs) b" for b by (simp add: phi_variables_def)
  ultimately have "phis_added (phi_variables df (\<lambda>v. set (bs v)) (v # vs)) m m2" by simp
  with m1(1) m2(1) show ?case by simp
qed

section \<open>The dominators stay inside the module\<close>

text \<open>Where the entries of the frontiers and of the tree come from, for any block.\<close>

definition entries_inside :: "nat set \<Rightarrow> dominators \<Rightarrow> bool" where
  "entries_inside V d \<longleftrightarrow> (\<forall>b. set (dom_frontier d b) \<subseteq> V \<and> set (dom_tree_succ_blocks d b) \<subseteq> V)"

lemma frontier_walk_inside:
  assumes "frontier_walk stop y r d = Some (Inr d')" and "entries_inside V d" and "y \<in> V"
  shows "entries_inside V d'"
proof -
  have "\<forall>d'. q = Inr d' \<longrightarrow> entries_inside V d \<longrightarrow> y \<in> V \<longrightarrow> entries_inside V d'" if "frontier_walk stop y r d = Some q" for q
  proof (rule frontier_walk.raw_induct [OF _ that], intro allI impI)
    fix rec :: "nat option \<Rightarrow> nat \<Rightarrow> nat option \<Rightarrow> dominators \<Rightarrow> dominators run" and stop y r d q d'
    assume IH: "\<And>stop y r d q. rec stop y r d = Some q \<Longrightarrow> \<forall>d'. q = Inr d' \<longrightarrow> entries_inside V d \<longrightarrow> y \<in> V \<longrightarrow> entries_inside V d'"
      and body: "(if r \<noteq> stop then rec stop y (Option.bind r (idom d)) (add_dominance_frontier r y d) else returnP d) = Some q"
      and q: "q = Inr d'" and d: "entries_inside V d" and y: "y \<in> V"
    have "entries_inside V (add_dominance_frontier r y d)" using d y by (simp add: entries_inside_def)
    with IH body q d y show "entries_inside V d'" by (fastforce split: if_splits)
  qed
  with assms show ?thesis by blast
qed

lemma foldP_inside:
  "foldP f xs d = Some (Inr d') \<Longrightarrow> (\<And>x d d'. x \<in> set xs \<Longrightarrow> f x d = Some (Inr d') \<Longrightarrow> entries_inside V d \<Longrightarrow> entries_inside V d') \<Longrightarrow>
   entries_inside V d \<Longrightarrow> entries_inside V d'"
proof (induction xs arbitrary: d)
  case (Cons x xs)
  then obtain d1 where d1: "f x d = Some (Inr d1)" "foldP f xs d1 = Some (Inr d')" by auto
  have e1: "entries_inside V d1" using Cons.prems(2) [OF _ d1(1) Cons.prems(3)] by simp
  show ?case
  proof (rule Cons.IH [OF d1(2) _ e1])
    show "entries_inside V b" if "y \<in> set xs" "f y a = Some (Inr b)" "entries_inside V a" for y a b
      using Cons.prems(2) [of y a b] that by simp
  qed
qed simp

lemma dominators_function_inside:
  assumes ok: "ir_ok m" and f: "f < length (function_list m)" and run: "dominators_function m f d = Some (Inr d')"
    and d: "entries_inside {..<length (blocks m)} d"
  shows "entries_inside {..<length (blocks m)} d'"
proof (cases "blocks_of m f = []")
  case True
  with run d show ?thesis by (simp add: dominators_function_def blocks_of_def)
next
  case False
  let ?V = "blocks_of m f" and ?e = "hd (blocks_of m f)" and ?n = "{..<length (blocks m)}"
  note graph = ir_flow_graph [OF ok f False]
  have V: "set ?V \<subseteq> ?n" using ok f by (auto simp: ir_ok_def blocks_placed_def blocks_of_def)
  obtain d1 where d1: "create_reverse_post_order (succs_of m) ?e d = Some (Inr d1)" "numbering_ok (succs_of m) ?e d1"
    "dom_frontier d1 = dom_frontier d" "dom_tree_succ_blocks d1 = dom_tree_succ_blocks d"
    using create_reverse_post_order_spec [OF graph] by blast
  obtain d2 where d2: "create_idom (preds_of m) ?V ?e d1 = Some (Inr d2)" "same_but_idom d1 d2"
    by (rule create_idom_spec [OF graph d1(2)]) blast
  obtain d3 where d3: "create_dominance_frontier (preds_of m) ?V d2 = Some (Inr d3)" "d' = create_dom_tree_succ ?V d3"
    using run d1(1) d2(1) False
    by (auto simp: dominators_function_def Let_def succs_of_def [abs_def] preds_of_def [abs_def] blocks_of_def)
  have "entries_inside ?n d2" using d d1(3,4) same_but_idomD [OF d2(2)] by (simp add: entries_inside_def)
  then have "entries_inside ?n d3"
  proof (rule foldP_inside [OF d3(1) [unfolded create_dominance_frontier_def], rotated])
    fix y d d' assume y: "y \<in> set ?V" and "frontier_block (preds_of m) y d = Some (Inr d')" and d: "entries_inside ?n d"
    then consider "d' = d" | "foldP (\<lambda>p d. frontier_walk (idom d y) y (Some p) d) (preds_of m y) d = Some (Inr d')"
      by (auto simp: frontier_block_def split: if_splits)
    then show "entries_inside ?n d'"
    proof cases
      case 2
      from foldP_inside [OF this] frontier_walk_inside d V y show ?thesis by blast
    qed (use d in simp)
  qed
  then show ?thesis using V unfolding d3(2) entries_inside_def create_dom_tree_succ_spec by blast
qed

lemma dominators_run_inside:
  assumes "ir_ok m" and "dominators_run m = Some (Inr d)"
  shows "entries_inside {..<length (blocks m)} d"
proof (rule foldP_inside [OF assms(2) [unfolded dominators_run_def]])
  show "entries_inside {..<length (blocks m)} d'" if "f \<in> set [0..<length (function_list m)]"
    "dominators_function m f d = Some (Inr d')" "entries_inside {..<length (blocks m)} d" for f d d'
    using dominators_function_inside [OF assms(1)] that by simp
qed (simp add: entries_inside_def new_dominators_def)

section \<open>Programs\<close>

text \<open>\<open>int f (int n)\<close> with local variables, for blocks and instructions in the order they were made.\<close>

definition local_variable :: "string \<Rightarrow> ASTVarDeclaration" where
  "local_variable x = \<lparr>vd_type = TYPE_INT, vd_id = x, vd_num = None\<rparr>"

definition read_variable :: "string \<Rightarrow> ASTAdditiveExpression" where
  "read_variable x = AdditiveExpression None OP_PLUS (Term None OP_MUL (F_Var (Var x None)))"

definition condition :: "string \<Rightarrow> ASTExpression" where
  "condition x = SimpleExpression (read_variable x) None OP_LE"

definition assign_one :: "string \<Rightarrow> ASTStatement" where
  "assign_one x = ExpressionStmt (Some (AssignExpression (Var x None) int_one))"

definition function_f :: "string list \<Rightarrow> ASTStatement list \<Rightarrow> ASTProgram" where
  "function_f xs body = \<lparr>declarations = [D_Fun \<lparr>fd_type = TYPE_INT, fd_id = ''f'',
     fd_params = [\<lparr>p_type = TYPE_INT, p_id = ''n'', p_isarray = False\<rparr>],
     fd_compound_stmt = CompoundStmt (map local_variable xs) body\<rparr>]\<rparr>"

definition allocation_order :: "irval option \<Rightarrow> nat" where
  "allocation_order v = (case v of Some (V_Inst i) \<Rightarrow> i | _ \<Rightarrow> 0)"

text \<open>\<open>int f (int n) { int x; x = n; if (n) x = 1; return x; }\<close>\<close>

definition joining_program :: ASTProgram where
  "joining_program = function_f [''x'']
     [ExpressionStmt (Some (AssignExpression (Var ''x'' None) (condition ''n''))),
      SelectionStmt (condition ''n'') (assign_one ''x'') None, ReturnStmt (Some (condition ''x''))]"

lemma variable_ok_code:
  "variable_ok m v \<longleftrightarrow> (case v of None \<Rightarrow> False | Some w \<Rightarrow> is_pointer_type (get_type m w) \<and>
     (case w of V_Inst i \<Rightarrow> i < length (instrs m) | _ \<Rightarrow> True))"
  by (cases v) (auto simp: variable_ok_def split: irval.splits elim: is_pointer_type.elims)

lemma store_ok_code:
  "store_ok m i \<longleftrightarrow> (is_op I_store m i \<longrightarrow> (case operands (graph m) (V_Inst i) of [r, l] \<Rightarrow> variable_ok m l | _ \<Rightarrow> False))"
  by (auto simp: store_ok_def split: list.splits)

lemma joining_module:
  obtains s d where "codegen joining_program = Inr s" and "dominators_run s = Some (Inr d)"
    and "basic_blocks (function_list s ! 4) = [0, 1, 2, 3]" and "stores_ok s [0, 1, 2, 3]"
    and "map instr_list (blocks s) = [[0, 1, 2, 3, 4, 5, 6, 7], [8, 9], [10], [11, 12]]"
    and "case generate_phi allocation_order (dom_frontier d) 4 s of
      Some (Inr m) \<Rightarrow> map instr_list (blocks m) = [[0, 1, 2, 3, 4, 5, 6, 7], [8, 9], [10], [13, 11, 12]] | _ \<Rightarrow> False"
proof -
  have "case codegen joining_program of Inl _ \<Rightarrow> False | Inr s \<Rightarrow> (case dominators_run s of
     Some (Inr d) \<Rightarrow> basic_blocks (function_list s ! 4) = [0, 1, 2, 3] \<and>
       list_all (\<lambda>b. list_all (store_ok s) (instr_list (blocks s ! b))) [0, 1, 2, 3] \<and>
       map instr_list (blocks s) = [[0, 1, 2, 3, 4, 5, 6, 7], [8, 9], [10], [11, 12]] \<and>
       (case generate_phi allocation_order (dom_frontier d) 4 s of
          Some (Inr m) \<Rightarrow> map instr_list (blocks m) = [[0, 1, 2, 3, 4, 5, 6, 7], [8, 9], [10], [13, 11, 12]] | _ \<Rightarrow> False)
   | _ \<Rightarrow> False)" unfolding store_ok_code variable_ok_code by code_simp
  from case_InrD [OF this] obtain s where s: "codegen joining_program = Inr s" and rest: "case dominators_run s of
     Some (Inr d) \<Rightarrow> basic_blocks (function_list s ! 4) = [0, 1, 2, 3] \<and>
       list_all (\<lambda>b. list_all (store_ok s) (instr_list (blocks s ! b))) [0, 1, 2, 3] \<and>
       map instr_list (blocks s) = [[0, 1, 2, 3, 4, 5, 6, 7], [8, 9], [10], [11, 12]] \<and>
       (case generate_phi allocation_order (dom_frontier d) 4 s of
          Some (Inr m) \<Rightarrow> map instr_list (blocks m) = [[0, 1, 2, 3, 4, 5, 6, 7], [8, 9], [10], [13, 11, 12]] | _ \<Rightarrow> False)
   | _ \<Rightarrow> False" by blast
  then obtain d where "dominators_run s = Some (Inr d)" by (auto split: option.splits sum.splits)
  with s rest that [of s d] show thesis by (simp add: stores_ok_def list_all_iff)
qed

section \<open>What the first half does\<close>

text \<open>C13: on a function whose stores go through pointers, with dominance frontiers inside the module,
  \<open>generate_phi\<close> ends, and all it does is to put a phi for a variable at the head of exactly
  the blocks of the iterated dominance frontier of the blocks that store to it: one for each such
  variable, of the type of the variable's values, without operands, the phi of the variable with the
  highest address first.\<close>

theorem generate_phi_correct:
  assumes "stores_ok m (basic_blocks (function_list m ! f))" and "fresh_users m"
    and "\<And>b. frontier_inside df (length (blocks m)) b"
  shows "\<exists>m' vs. generate_phi address df f m = Some (Inr m') \<and> distinct vs \<and> sorted (map address vs) \<and>
    set vs = {v. storing_blocks m (basic_blocks (function_list m ! f)) v \<noteq> {}} \<and>
    phis_added (phi_variables df (storing_blocks m (basic_blocks (function_list m ! f))) vs) m m'"
proof -
  let ?bbs = "basic_blocks (function_list m ! f)"
  have "live_vars_ok new_live_vars" by (simp add: live_vars_ok_def new_live_vars_def)
  from live_blocks_spec [OF assms(1) this] obtain lv where lv: "live_blocks m ?bbs new_live_vars = Inr lv" "live_vars_ok lv"
    and at: "\<And>v. set (live_var_2blocks lv v) = storing_blocks m ?bbs v" by (auto simp: new_live_vars_def)
  let ?vs = "sort_key address (global_live_var_name lv)"
  have "v \<in> set (global_live_var_name lv) \<longleftrightarrow> set (live_var_2blocks lv v) \<noteq> {}" for v using lv(2) by (simp add: live_vars_ok_def)
  then have vs: "set ?vs = {v. storing_blocks m ?bbs v \<noteq> {}}" using at by auto
  have "variable_ok m v" if v: "v \<in> set ?vs" for v
  proof -
    from v obtain b i where "b \<in> set ?bbs" "i \<in> set (instr_list (blocks m ! b))" "stores_to m v i" unfolding vs by (auto simp: storing_blocks_def)
    with assms(1) show ?thesis by (force simp: stores_ok_def store_ok_def stores_to_def store_lval_def get_operand_def)
  qed
  then obtain m' where "foldP (\<lambda>v m. bindP (phi_loop df v (live_var_2blocks lv v, [], m)) (\<lambda>(_, _, m). returnP m)) ?vs m = Some (Inr m')"
    "phis_added (phi_variables df (storing_blocks m ?bbs) ?vs) m m'"
    using phi_fold_spec [of ?vs m df "live_var_2blocks lv"] assms(2,3) at by auto
  moreover have "distinct ?vs" using lv(2) by (simp add: live_vars_ok_def)
  ultimately show ?thesis using vs lv(1) by (intro exI [of _ m'] exI [of _ ?vs]) (simp add: generate_phi_def)
qed

lemma generate_phi_correct_witness:
  "\<exists>s d m vs. codegen joining_program = Inr s \<and> dominators_run s = Some (Inr d) \<and>
    generate_phi allocation_order (dom_frontier d) 4 s = Some (Inr m) \<and>
    instr_list (blocks m ! 3) = 13 # instr_list (blocks s ! 3) \<and> set vs = {v. storing_blocks s [0, 1, 2, 3] v \<noteq> {}} \<and>
    phis_added (phi_variables (dom_frontier d) (storing_blocks s [0, 1, 2, 3]) vs) s m"
proof -
  obtain s d where s: "codegen joining_program = Inr s" "dominators_run s = Some (Inr d)" "basic_blocks (function_list s ! 4) = [0, 1, 2, 3]"
    "stores_ok s [0, 1, 2, 3]" and before: "map instr_list (blocks s) = [[0, 1, 2, 3, 4, 5, 6, 7], [8, 9], [10], [11, 12]]" and gen: "case generate_phi allocation_order (dom_frontier d) 4 s of
      Some (Inr m) \<Rightarrow> map instr_list (blocks m) = [[0, 1, 2, 3, 4, 5, 6, 7], [8, 9], [10], [13, 11, 12]] | _ \<Rightarrow> False"
    by (rule joining_module)
  note ok = codegen_ir_ok [OF s(1)]
  have "\<And>b. frontier_inside (dom_frontier d) (length (blocks s)) b"
    using dominators_run_inside [OF ok s(2)] by (auto simp: frontier_inside_def entries_inside_def)
  moreover have "fresh_users s" using ok by (simp add: fresh_users_def ir_ok_def users_agree_def)
  ultimately obtain m vs where m: "generate_phi allocation_order (dom_frontier d) 4 s = Some (Inr m)"
    "set vs = {v. storing_blocks s [0, 1, 2, 3] v \<noteq> {}}" "phis_added (phi_variables (dom_frontier d) (storing_blocks s [0, 1, 2, 3]) vs) s m"
    using generate_phi_correct [of s 4 "dom_frontier d" allocation_order] s(3,4) by metis
  have lists: "map instr_list (blocks m) = [[0, 1, 2, 3, 4, 5, 6, 7], [8, 9], [10], [13, 11, 12]]" using gen m(1) by simp
  have len: "length (blocks s) = 4" "length (blocks m) = 4"
    using lists [THEN arg_cong [where f = length]] phis_added_keeps(1) [OF m(3)] by simp_all
  have "instr_list (blocks m ! 3) = [13, 11, 12]" using lists len nth_map [of 3 "blocks m" instr_list] by simp
  moreover have "instr_list (blocks s ! 3) = [11, 12]" using before len nth_map [of 3 "blocks s" instr_list] by simp
  ultimately show ?thesis using s m by auto
qed

end
