(* ===== verification/IrPrint.thy ===== *)
theory IrPrint
  imports Ir
begin

text \<open>
  Printing the IR: \<open>lightir/IRprinter.cpp\<close> and the \<open>print\<close> methods of
  \<open>lightir/\<close>. A printer reads the module and yields its text, or the failure it
  runs into: a failed assertion, an operand that is missing or null. Only
  \<open>Function::print\<close> writes, because it first names the values that have no name.
\<close>

section \<open>Names\<close>

fun get_name :: "'b ir_module_scheme \<Rightarrow> irval \<Rightarrow> string" where
  "get_name m (V_Global g) = g_name (global_list m ! g)"
| "get_name m (V_Fun f) = f_name (function_list m ! f)"
| "get_name m (V_Arg f i) = arg_names (function_list m ! f) ! i"
| "get_name m (V_Block b) = bb_name (blocks m ! b)"
| "get_name m (V_Inst i) = i_name (instrs m ! i)"
| "get_name m _ = []"

fun put_name :: "irval \<Rightarrow> string \<Rightarrow> 'b ir_module_scheme \<Rightarrow> 'b ir_module_scheme" where
  "put_name (V_Global g) nm m = m\<lparr>global_list := (global_list m)[g := (global_list m ! g)\<lparr>g_name := nm\<rparr>]\<rparr>"
| "put_name (V_Fun f) nm m = m\<lparr>function_list := (function_list m)[f := (function_list m ! f)\<lparr>f_name := nm\<rparr>]\<rparr>"
| "put_name (V_Arg f i) nm m = m\<lparr>function_list := (function_list m)[f := (function_list m ! f)
     \<lparr>arg_names := (arg_names (function_list m ! f))[i := nm]\<rparr>]\<rparr>"
| "put_name (V_Block b) nm m = m\<lparr>blocks := (blocks m)[b := (blocks m ! b)\<lparr>bb_name := nm\<rparr>]\<rparr>"
| "put_name (V_Inst i) nm m = m\<lparr>instrs := (instrs m)[i := (instrs m ! i)\<lparr>i_name := nm\<rparr>]\<rparr>"
| "put_name _ nm m = m"

text \<open>A name is given once.\<close>

definition set_name :: "irval \<Rightarrow> string \<Rightarrow> 'b ir_module_scheme \<Rightarrow> bool \<times> 'b ir_module_scheme" where
  "set_name v nm m = (if get_name m v = [] then (True, put_name v nm m) else (False, m))"

text \<open>
  The body of the three loops of \<open>Function::set_instr_name\<close>. Only the keys of the map
  \<open>seq\<close> and their number are read; \<open>base\<close> is \<open>seq_cnt_\<close>.
\<close>

definition name_value :: "nat \<Rightarrow> string \<Rightarrow> irval \<Rightarrow> irval list \<times> 'b ir_module_scheme \<Rightarrow> irval list \<times> 'b ir_module_scheme" where
  "name_value base pfx v = (\<lambda>(seq, m).
     if v \<in> set seq then (seq, m)
     else let (named, m') = set_name v (pfx @ show_nat (length seq + base)) m
          in (if named then seq @ [v] else seq, m'))"

definition name_instruction :: "nat \<Rightarrow> nat \<Rightarrow> irval list \<times> 'b ir_module_scheme \<Rightarrow> irval list \<times> 'b ir_module_scheme" where
  "name_instruction base i = (\<lambda>(seq, m).
     if is_void_inst (instrs m ! i) then (seq, m) else name_value base ''op'' (V_Inst i) (seq, m))"

definition name_block :: "nat \<Rightarrow> nat \<Rightarrow> irval list \<times> 'b ir_module_scheme \<Rightarrow> irval list \<times> 'b ir_module_scheme" where
  "name_block base b = (\<lambda>(seq, m).
     fold (name_instruction base) (instr_list (blocks m ! b)) (name_value base ''label'' (V_Block b) (seq, m)))"

definition arguments :: "'b ir_module_scheme \<Rightarrow> nat \<Rightarrow> irval list" where
  "arguments m f = map (V_Arg f) [0..<length (arg_names (function_list m ! f))]"

text \<open>\<open>seq_cnt_\<close> is an \<open>unsigned\<close>; no function has that many values.\<close>

definition set_instr_name :: "nat \<Rightarrow> 'b ir_module_scheme \<Rightarrow> 'b ir_module_scheme" where
  "set_instr_name f m =
     (let base = seq_cnt (function_list m ! f);
          (seq, m') = fold (name_block base) (basic_blocks (function_list m ! f))
            (fold (name_value base ''arg'') (arguments m f) ([], m))
      in m'\<lparr>function_list := (function_list m')[f := (function_list m' ! f)\<lparr>seq_cnt := base + length seq\<rparr>]\<rparr>)"

text \<open>\<open>Module::set_print_name\<close>\<close>

definition set_print_name :: "'b ir_module_scheme \<Rightarrow> 'b ir_module_scheme" where
  "set_print_name m = fold set_instr_name [0..<length (function_list m)] m"

section \<open>Operands\<close>

text \<open>\<open>std::hex\<close>: lower case, no leading zeros.\<close>

definition hex_char :: "nat \<Rightarrow> char" where
  "hex_char d = (if d < 10 then digit_char d else char_of (87 + d))"

fun show_hex :: "nat \<Rightarrow> string" where
  "show_hex n = (if n < 16 then [hex_char n] else show_hex (n div 16) @ [hex_char (n mod 16)])"

declare show_hex.simps [simp del]

definition print_ConstantInt :: "irval \<Rightarrow> string" where
  "print_ConstantInt v = (case v of
     V_Bool b \<Rightarrow> (if b then ''true'' else ''false'')
   | V_Int w \<Rightarrow> show_int (sint w)
   | _ \<Rightarrow> [])"

definition print_ConstantFP :: "f32 \<Rightarrow> string" where
  "print_ConstantFP w = ''0x'' @ show_hex (f64_bits_of_f32 w)"

definition print_ConstantZero :: "string" where
  "print_ConstantZero = ''zeroinitializer''"

definition print_constant :: "irval \<Rightarrow> string" where
  "print_constant v = (case v of
     V_FP w \<Rightarrow> print_ConstantFP w
   | V_NaN w _ \<Rightarrow> print_ConstantFP w
   | V_Zero t \<Rightarrow> print_ConstantZero
   | _ \<Rightarrow> print_ConstantInt v)"

fun is_constant :: "irval \<Rightarrow> bool" where
  "is_constant (V_Int _) = True" | "is_constant (V_Bool _) = True"
| "is_constant (V_FP _) = True" | "is_constant (V_NaN _ _) = True" | "is_constant (V_Zero _) = True"
| "is_constant _ = False"

definition print_as_op :: "'b ir_module_scheme \<Rightarrow> irval \<Rightarrow> bool \<Rightarrow> string" where
  "print_as_op m v print_ty =
     (if print_ty then print_type (get_type m v) @ '' '' else []) @
     (case v of
        V_Global _ \<Rightarrow> CHR ''@'' # get_name m v
      | V_Fun _ \<Rightarrow> CHR ''@'' # get_name m v
      | _ \<Rightarrow> if is_constant v then print_constant v else CHR ''%'' # get_name m v)"

fun print_cmp_type :: "CmpOp \<Rightarrow> string" where
  "print_cmp_type C_GE = ''sge''" | "print_cmp_type C_GT = ''sgt''"
| "print_cmp_type C_LE = ''sle''" | "print_cmp_type C_LT = ''slt''"
| "print_cmp_type C_EQ = ''eq''" | "print_cmp_type C_NE = ''ne''"

fun print_fcmp_type :: "CmpOp \<Rightarrow> string" where
  "print_fcmp_type C_GE = ''uge''" | "print_fcmp_type C_GT = ''ugt''"
| "print_fcmp_type C_LE = ''ule''" | "print_fcmp_type C_LT = ''ult''"
| "print_fcmp_type C_EQ = ''ueq''" | "print_fcmp_type C_NE = ''une''"

text \<open>The table \<open>instr_id2string_\<close> of the module.\<close>

fun get_instr_op_name :: "OpID \<Rightarrow> string" where
  "get_instr_op_name I_ret = ''ret''" | "get_instr_op_name I_br = ''br''"
| "get_instr_op_name I_add = ''add''" | "get_instr_op_name I_sub = ''sub''"
| "get_instr_op_name I_mul = ''mul''" | "get_instr_op_name I_sdiv = ''sdiv''"
| "get_instr_op_name I_fadd = ''fadd''" | "get_instr_op_name I_fsub = ''fsub''"
| "get_instr_op_name I_fmul = ''fmul''" | "get_instr_op_name I_fdiv = ''fdiv''"
| "get_instr_op_name I_alloca = ''alloca''" | "get_instr_op_name I_load = ''load''"
| "get_instr_op_name I_store = ''store''" | "get_instr_op_name I_cmp = ''icmp''"
| "get_instr_op_name I_fcmp = ''fcmp''" | "get_instr_op_name I_phi = ''phi''"
| "get_instr_op_name I_call = ''call''" | "get_instr_op_name I_getelementptr = ''getelementptr''"
| "get_instr_op_name I_zext = ''zext''" | "get_instr_op_name I_sitofp = ''sitofp''"
| "get_instr_op_name I_fptosi = ''fptosi''"

section \<open>Instructions\<close>

text \<open>\<open>get_operand (k)\<close>, about to be used as an object.\<close>

definition opnd :: "'b ir_module_scheme \<Rightarrow> nat \<Rightarrow> nat \<Rightarrow> irval result" where
  "opnd m i k = bindR (get_operand (V_Inst i) k (graph m)) (\<lambda>v. case v of None \<Rightarrow> Inl NullDeref | Some v \<Rightarrow> Inr v)"

definition num_operand :: "'b ir_module_scheme \<Rightarrow> nat \<Rightarrow> nat" where
  "num_operand m i = length (operands (graph m) (V_Inst i))"

definition lhs :: "'b ir_module_scheme \<Rightarrow> nat \<Rightarrow> string" where
  "lhs m i = ''%'' @ i_name (instrs m ! i) @ '' = ''"

definition op_name :: "'b ir_module_scheme \<Rightarrow> nat \<Rightarrow> string" where
  "op_name m i = get_instr_op_name (i_op (instrs m ! i)) @ '' ''"

definition typed_op :: "'b ir_module_scheme \<Rightarrow> irval \<Rightarrow> string" where
  "typed_op m v = print_type (get_type m v) @ '' '' @ print_as_op m v False"

text \<open>The second operand, with its type when it is another one.\<close>

definition second_op :: "'b ir_module_scheme \<Rightarrow> irval \<Rightarrow> irval \<Rightarrow> string" where
  "second_op m v w = (if get_type m v = get_type m w then print_as_op m w False else print_as_op m w True)"

definition print_BinaryInst :: "'b ir_module_scheme \<Rightarrow> nat \<Rightarrow> string result" where
  "print_BinaryInst m i = bindR (opnd m i 0) (\<lambda>v. bindR (opnd m i 1) (\<lambda>w.
     Inr (lhs m i @ op_name m i @ typed_op m v @ '', '' @ second_op m v w)))"

definition print_CmpInst :: "'b ir_module_scheme \<Rightarrow> nat \<Rightarrow> CmpOp \<Rightarrow> string result" where
  "print_CmpInst m i c = bindR (opnd m i 0) (\<lambda>v. bindR (opnd m i 1) (\<lambda>w.
     Inr (lhs m i @ op_name m i @ print_cmp_type c @ '' '' @ typed_op m v @ '', '' @ second_op m v w)))"

text \<open>No space after this comma.\<close>

definition print_FCmpInst :: "'b ir_module_scheme \<Rightarrow> nat \<Rightarrow> CmpOp \<Rightarrow> string result" where
  "print_FCmpInst m i c = bindR (opnd m i 0) (\<lambda>v. bindR (opnd m i 1) (\<lambda>w.
     Inr (lhs m i @ op_name m i @ print_fcmp_type c @ '' '' @ typed_op m v @ '','' @ second_op m v w)))"

definition print_CallInst :: "'b ir_module_scheme \<Rightarrow> nat \<Rightarrow> string result" where
  "print_CallInst m i = bindR (opnd m i 0) (\<lambda>callee. case callee of
     V_Fun f \<Rightarrow> bindR (mapR (opnd m i) [1..<num_operand m i]) (\<lambda>args.
       Inr ((if is_void_inst (instrs m ! i) then [] else lhs m i) @ op_name m i @
         print_type (function_return_type (get_type m callee)) @ '' '' @ print_as_op m callee False @
         ''('' @ join_comma (map (typed_op m) args) @ '')''))
   | _ \<Rightarrow> Inl AssertFailed)"

definition print_BranchInst :: "'b ir_module_scheme \<Rightarrow> nat \<Rightarrow> string result" where
  "print_BranchInst m i = bindR (opnd m i 0) (\<lambda>c.
     if num_operand m i = 3
     then bindR (opnd m i 1) (\<lambda>t. bindR (opnd m i 2) (\<lambda>f.
       Inr (op_name m i @ print_as_op m c True @ '', '' @ print_as_op m t True @ '', '' @ print_as_op m f True)))
     else Inr (op_name m i @ print_as_op m c True))"

definition print_ReturnInst :: "'b ir_module_scheme \<Rightarrow> nat \<Rightarrow> string result" where
  "print_ReturnInst m i =
     (if num_operand m i \<noteq> 0 then bindR (opnd m i 0) (\<lambda>v. Inr (op_name m i @ typed_op m v))
      else Inr (op_name m i @ ''void''))"

definition pointee_of :: "'b ir_module_scheme \<Rightarrow> irval \<Rightarrow> ty result" where
  "pointee_of m v = (case get_pointer_element_type (get_type m v) of None \<Rightarrow> Inl AssertFailed | Some t \<Rightarrow> Inr t)"

definition print_GetElementPtrInst :: "'b ir_module_scheme \<Rightarrow> nat \<Rightarrow> string result" where
  "print_GetElementPtrInst m i = bindR (opnd m i 0) (\<lambda>p. bindR (pointee_of m p) (\<lambda>t.
     bindR (mapR (opnd m i) [0..<num_operand m i]) (\<lambda>vs.
     Inr (lhs m i @ op_name m i @ print_type t @ '', '' @ join_comma (map (typed_op m) vs)))))"

definition print_StoreInst :: "'b ir_module_scheme \<Rightarrow> nat \<Rightarrow> string result" where
  "print_StoreInst m i = bindR (opnd m i 0) (\<lambda>v. bindR (opnd m i 1) (\<lambda>p.
     Inr (op_name m i @ typed_op m v @ '', '' @ print_as_op m p True)))"

definition print_LoadInst :: "'b ir_module_scheme \<Rightarrow> nat \<Rightarrow> string result" where
  "print_LoadInst m i = bindR (opnd m i 0) (\<lambda>p. bindR (pointee_of m p) (\<lambda>t.
     Inr (lhs m i @ op_name m i @ print_type t @ '','' @ '' '' @ print_as_op m p True)))"

definition print_AllocaInst :: "'b ir_module_scheme \<Rightarrow> nat \<Rightarrow> ty \<Rightarrow> string result" where
  "print_AllocaInst m i t = Inr (lhs m i @ op_name m i @ print_type t)"

definition print_ZextInst :: "'b ir_module_scheme \<Rightarrow> nat \<Rightarrow> ty \<Rightarrow> string result" where
  "print_ZextInst m i t = bindR (opnd m i 0) (\<lambda>v. Inr (lhs m i @ op_name m i @ typed_op m v @ '' to '' @ print_type t))"

definition print_FpToSiInst :: "'b ir_module_scheme \<Rightarrow> nat \<Rightarrow> ty \<Rightarrow> string result" where
  "print_FpToSiInst m i t = bindR (opnd m i 0) (\<lambda>v. Inr (lhs m i @ op_name m i @ typed_op m v @ '' to '' @ print_type t))"

definition print_SiToFpInst :: "'b ir_module_scheme \<Rightarrow> nat \<Rightarrow> ty \<Rightarrow> string result" where
  "print_SiToFpInst m i t = bindR (opnd m i 0) (\<lambda>v. Inr (lhs m i @ op_name m i @ typed_op m v @ '' to '' @ print_type t))"

text \<open>
  The incoming values of a phi, and an undefined value for each predecessor that is no
  operand, when there are fewer pairs than predecessors.
\<close>

definition phi_pair :: "'b ir_module_scheme \<Rightarrow> nat \<Rightarrow> nat \<Rightarrow> string result" where
  "phi_pair m i k = bindR (opnd m i (2 * k)) (\<lambda>v. bindR (opnd m i (2 * k + 1)) (\<lambda>b.
     Inr (''[ '' @ print_as_op m v False @ '', '' @ print_as_op m b False @ '' ]'')))"

definition print_PhiInst :: "'b ir_module_scheme \<Rightarrow> nat \<Rightarrow> string result" where
  "print_PhiInst m i = bindR (opnd m i 0) (\<lambda>v.
     bindR (mapR (phi_pair m i) [0..<num_operand m i div 2]) (\<lambda>pairs.
     case i_parent (instrs m ! i) of
       None \<Rightarrow> Inl NullDeref
     | Some b \<Rightarrow>
         let pres = pre_bbs (blocks m ! b) in
         Inr (lhs m i @ op_name m i @ print_type (get_type m v) @ '' '' @ join_comma pairs @
           (if num_operand m i div 2 < length pres
            then concat (map (\<lambda>p. '', [ undef, '' @ print_as_op m (V_Block p) False @ '' ]'')
              (filter (\<lambda>p. Some (V_Block p) \<notin> set (operands (graph m) (V_Inst i))) pres))
            else []))))"

text \<open>The dispatch; an object of the wrong class for its opcode is never made.\<close>

definition print_instruction :: "'b ir_module_scheme \<Rightarrow> nat \<Rightarrow> string result" where
  "print_instruction m i =
     (case (i_op (instrs m ! i), i_data (instrs m ! i)) of
        (I_cmp, X_Cmp c) \<Rightarrow> print_CmpInst m i c
      | (I_fcmp, X_Cmp c) \<Rightarrow> print_FCmpInst m i c
      | (I_call, _) \<Rightarrow> print_CallInst m i
      | (I_br, _) \<Rightarrow> print_BranchInst m i
      | (I_ret, _) \<Rightarrow> print_ReturnInst m i
      | (I_getelementptr, _) \<Rightarrow> print_GetElementPtrInst m i
      | (I_store, _) \<Rightarrow> print_StoreInst m i
      | (I_load, _) \<Rightarrow> print_LoadInst m i
      | (I_alloca, X_Alloca t) \<Rightarrow> print_AllocaInst m i t
      | (I_zext, X_Dest t) \<Rightarrow> print_ZextInst m i t
      | (I_fptosi, X_Dest t) \<Rightarrow> print_FpToSiInst m i t
      | (I_sitofp, X_Dest t) \<Rightarrow> print_SiToFpInst m i t
      | (I_phi, _) \<Rightarrow> print_PhiInst m i
      | (_, X_None) \<Rightarrow> print_BinaryInst m i
      | _ \<Rightarrow> Inl BadCast)"

section \<open>Blocks, functions and the module\<close>

text \<open>No comma before a predecessor that is the first one.\<close>

definition print_preds :: "'b ir_module_scheme \<Rightarrow> nat list \<Rightarrow> string" where
  "print_preds m pres = concat (map (\<lambda>p.
     (if p \<noteq> hd pres then '', '' else []) @ print_as_op m (V_Block p) False) pres)"

definition print_BasicBlock :: "'b ir_module_scheme \<Rightarrow> nat \<Rightarrow> string result" where
  "print_BasicBlock m b =
     (let pres = pre_bbs (blocks m ! b) in
      bindR (mapR (print_instruction m) (instr_list (blocks m ! b))) (\<lambda>lines.
      Inr (bb_name (blocks m ! b) @ '':'' @
        (if pres \<noteq> [] then replicate 48 CHR '' '' @ ''; preds = '' else []) @ print_preds m pres @ [CHR 0x0A] @
        concat (map (\<lambda>l. ''  '' @ l @ [CHR 0x0A]) lines))))"

definition print_Argument :: "'b ir_module_scheme \<Rightarrow> irval \<Rightarrow> string" where
  "print_Argument m v = print_type (get_type m v) @ '' %'' @ get_name m v"

definition function_text :: "'b ir_module_scheme \<Rightarrow> nat \<Rightarrow> string result" where
  "function_text m f =
     (let fn = function_list m ! f;
          head = print_type (function_return_type (f_type fn)) @ '' '' @ print_as_op m (V_Fun f) False @ ''('' in
      if basic_blocks fn = []
      then Inr (''declare '' @ head @ join_comma (map print_type (function_param_types (f_type fn))) @ '')'' @ [CHR 0x0A])
      else bindR (mapR (print_BasicBlock m) (basic_blocks fn)) (\<lambda>bbs.
        Inr (''define '' @ head @ join_comma (map (print_Argument m) (arguments m f)) @ '')'' @
          '' {'' @ [CHR 0x0A] @ concat bbs @ ''}'')))"

text \<open>\<open>Function::print\<close>\<close>

definition print_Function :: "nat \<Rightarrow> ('b, string) ir" where
  "print_Function f = thenS (modifyS (set_instr_name f)) (bindS (getS (\<lambda>m. function_text m f)) liftR)"

text \<open>A null initial value is dereferenced.\<close>

definition print_GlobalVariable :: "'b ir_module_scheme \<Rightarrow> nat \<Rightarrow> string result" where
  "print_GlobalVariable m g =
     (let v = global_list m ! g in
      case get_pointer_element_type (g_type v) of
        None \<Rightarrow> Inl NullDeref
      | Some t \<Rightarrow> (case g_init v of
          None \<Rightarrow> Inl NullDeref
        | Some c \<Rightarrow> Inr (print_as_op m (V_Global g) False @ '' = '' @
            (if g_is_const v then ''constant '' else ''global '') @ print_type t @ '' '' @ print_constant c)))"

fun print_functions :: "nat list \<Rightarrow> ('b, string) ir" where
  "print_functions [] = returnS []"
| "print_functions (f # fs) = bindS (print_Function f) (\<lambda>s. bindS (print_functions fs) (\<lambda>t.
     returnS (s @ [CHR 0x0A] @ t)))"

definition module_print :: "('b, string) ir" where
  "module_print =
     bindS (getS (\<lambda>m. mapR (print_GlobalVariable m) [0..<length (global_list m)])) (\<lambda>r. bindS (liftR r) (\<lambda>globals.
     bindS (getS (\<lambda>m. [0..<length (function_list m)])) (\<lambda>fs. bindS (print_functions fs) (\<lambda>funs.
     returnS (concat (map (\<lambda>s. s @ [CHR 0x0A]) globals) @ funs)))))"

end
