(* ===== verification/CodegenValues.thy ===== *)
theory CodegenValues
  imports CodegenProgram IrPrint
begin

text \<open>
  The values that code generation holds: every value it finds in a scope, keeps in
  \<open>cur_value\<close> or makes is an object of the module, and every instruction it makes
  has operands of the number and kind its class needs, made before it. The invariant also
  says which values have names. It is carried through the visits by a judgement whose
  precondition may name values found earlier.
\<close>

section \<open>Values of a module\<close>

fun valid_value :: "'b ir_module_scheme \<Rightarrow> irval \<Rightarrow> bool" where
  "valid_value m (V_Global g) = (g < ng m)"
| "valid_value m (V_Fun f) = (f < nf m)"
| "valid_value m (V_Arg f i) = (f < nf m \<and> i < length (function_param_types (f_type (function_list m ! f))))"
| "valid_value m (V_Block b) = (b < nb m)"
| "valid_value m (V_Inst i) = (i < ni m)"
| "valid_value m _ = True"

text \<open>The values that an instruction with number \<open>i\<close> may use.\<close>

definition made_before :: "'b ir_module_scheme \<Rightarrow> nat \<Rightarrow> irval \<Rightarrow> bool" where
  "made_before m i v \<longleftrightarrow> valid_value m v \<and> (\<forall>j. v = V_Inst j \<longrightarrow> j < i)"

text \<open>The operands and the data that an instruction of each class has.\<close>

fun shape_ok :: "'b ir_module_scheme \<Rightarrow> OpID \<Rightarrow> inst_data \<Rightarrow> irval list \<Rightarrow> bool" where
  "shape_ok m I_ret x ops = (length ops \<le> 1)"
| "shape_ok m I_br x ops = ((\<exists>b. ops = [V_Block b]) \<or> (\<exists>c t f. ops = [c, V_Block t, V_Block f]))"
| "shape_ok m I_alloca x ops = ((\<exists>t. x = X_Alloca t) \<and> ops = [])"
| "shape_ok m I_load x ops = (\<exists>p. ops = [p] \<and> is_pointer_type (get_type m p))"
| "shape_ok m I_store x ops = (length ops = 2)"
| "shape_ok m I_cmp x ops = ((\<exists>c. x = X_Cmp c) \<and> length ops = 2)"
| "shape_ok m I_fcmp x ops = ((\<exists>c. x = X_Cmp c) \<and> length ops = 2)"
| "shape_ok m I_phi x ops = False"
| "shape_ok m I_call x ops = (\<exists>f args. ops = V_Fun f # args \<and>
     map (get_type m) args = function_param_types (f_type (function_list m ! f)))"
| "shape_ok m I_getelementptr x ops = (\<exists>p is. ops = p # is \<and> is_pointer_type (get_type m p))"
| "shape_ok m I_zext x ops = ((\<exists>t. x = X_Dest t) \<and> length ops = 1)"
| "shape_ok m I_fptosi x ops = ((\<exists>t. x = X_Dest t) \<and> length ops = 1)"
| "shape_ok m I_sitofp x ops = ((\<exists>t. x = X_Dest t) \<and> length ops = 1)"
| "shape_ok m op x ops = (x = X_None \<and> length ops = 2)"

definition shaped_instr :: "'b ir_module_scheme \<Rightarrow> nat \<Rightarrow> bool" where
  "shaped_instr m i \<longleftrightarrow> (\<exists>ops. operands (graph m) (V_Inst i) = map Some ops \<and>
     (\<forall>v \<in> set ops. made_before m i v) \<and> shape_ok m (i_op (instrs m ! i)) (i_data (instrs m ! i)) ops)"

text \<open>Only the entry blocks have names, and every function numbers from zero.\<close>

definition named_block :: "'b ir_module_scheme \<Rightarrow> nat \<Rightarrow> bool" where
  "named_block m b \<longleftrightarrow> bb_name (blocks m ! b) = ''label_entry'' \<and>
     bb_parent (blocks m ! b) < nf m \<and> (\<exists>rest. basic_blocks (function_list m ! bb_parent (blocks m ! b)) = b # rest)"

definition unnamed :: "'b ir_module_scheme \<Rightarrow> bool" where
  "unnamed m \<longleftrightarrow> (\<forall>i < ni m. i_name (instrs m ! i) = []) \<and>
     (\<forall>f < nf m. arg_names (function_list m ! f) = map (\<lambda>_. []) (function_param_types (f_type (function_list m ! f))) \<and>
        seq_cnt (function_list m ! f) = 0) \<and>
     (\<forall>b < nb m. bb_name (blocks m ! b) = [] \<or> named_block m b)"

definition globals_ok :: "'b ir_module_scheme \<Rightarrow> bool" where
  "globals_ok m \<longleftrightarrow> (\<forall>g < ng m. \<exists>t c. g_type (global_list m ! g) = PointerTy t \<and> g_init (global_list m ! g) = Some c)"

definition code_ok :: "'b ir_module_scheme \<Rightarrow> bool" where
  "code_ok m \<longleftrightarrow> (\<forall>i < ni m. shaped_instr m i) \<and> unnamed m \<and> globals_ok m"

text \<open>The values outside the module's objects.\<close>

definition held_ok :: "cg_state \<Rightarrow> bool" where
  "held_ok s \<longleftrightarrow> (\<forall>v. cur_value s = Some v \<longrightarrow> valid_value s v) \<and>
     (\<forall>t \<in> set (scope s). \<forall>v \<in> ran t. valid_value s v)"

section \<open>Growth\<close>

definition grows :: "'b ir_module_scheme \<Rightarrow> 'b ir_module_scheme \<Rightarrow> bool" where
  "grows m m' \<longleftrightarrow> nf m \<le> nf m' \<and> ng m \<le> ng m' \<and> nb m \<le> nb m' \<and> ni m \<le> ni m' \<and>
     (\<forall>f < nf m. f_type (function_list m' ! f) = f_type (function_list m ! f)) \<and>
     (\<forall>g < ng m. g_type (global_list m' ! g) = g_type (global_list m ! g)) \<and>
     (\<forall>i < ni m. i_type (instrs m' ! i) = i_type (instrs m ! i))"

lemma grows_refl [simp]: "grows m m"
  by (simp add: grows_def)

lemma grows_trans: "grows m m1 \<Longrightarrow> grows m1 m2 \<Longrightarrow> grows m m2"
  by (auto simp: grows_def)

lemma grows_valid: "grows m m' \<Longrightarrow> valid_value m v \<Longrightarrow> valid_value m' v"
  by (cases v) (auto simp: grows_def)

lemma grows_type: "grows m m' \<Longrightarrow> valid_value m v \<Longrightarrow> get_type m' v = get_type m v"
  by (cases v) (auto simp: grows_def)

lemma grows_made_before: "grows m m' \<Longrightarrow> made_before m i v \<Longrightarrow> made_before m' i v"
  by (auto simp: made_before_def intro: grows_valid)

lemma grows_shape:
  assumes "grows m m'" and "\<forall>v \<in> set ops. valid_value m v"
  shows "shape_ok m' op x ops = shape_ok m op x ops"
proof -
  have t: "get_type m' v = get_type m v" if "v \<in> set ops" for v using grows_type [OF assms(1)] assms(2) that by blast
  show ?thesis
  proof (cases op)
    case I_call
    have "f_type (function_list m' ! f) = f_type (function_list m ! f) \<and> map (get_type m') args = map (get_type m) args"
      if "ops = V_Fun f # args" for f args
      using assms t that by (auto simp: grows_def)
    with I_call show ?thesis by (simp del: map_eq_conv) metis
  qed (use t in \<open>auto\<close>)
qed

lemma grows_shaped:
  assumes "grows m m'" and "shaped_instr m i" and "i < ni m"
    and "instrs m' ! i = (instrs m ! i)\<lparr>i_name := nm\<rparr>"
    and "operands (graph m') (V_Inst i) = operands (graph m) (V_Inst i)"
  shows "shaped_instr m' i"
proof -
  from assms(2) obtain ops where ops: "operands (graph m) (V_Inst i) = map Some ops"
    "\<forall>v \<in> set ops. made_before m i v" "shape_ok m (i_op (instrs m ! i)) (i_data (instrs m ! i)) ops"
    by (auto simp: shaped_instr_def)
  have "\<forall>v \<in> set ops. valid_value m v" using ops(2) by (auto simp: made_before_def)
  from grows_shape [OF assms(1) this] ops assms(4,5) grows_made_before [OF assms(1)] show ?thesis
    by (auto simp: shaped_instr_def)
qed

lemma held_grows: "held_ok s \<Longrightarrow> grows s s' \<Longrightarrow> cur_value s' = cur_value s \<Longrightarrow> scope s' = scope s \<Longrightarrow> held_ok s'"
  by (auto simp: held_ok_def intro: grows_valid)

section \<open>What the factories keep\<close>

lemma nth_update_below: "j < length xs \<Longrightarrow> xs[i := x] ! j = (if j = i then x else xs ! j)"
  by (cases "i = j") auto

lemma emitted_grows: "emitted b t op x ops s s' \<Longrightarrow> grows s s'"
  using emitted_parts [of b t op x ops s s'] by (simp add: grows_def)

lemma emitted_names:
  assumes "emitted b t op x ops s s'"
  shows "i_name (instrs s' ! ni s) = []" "i_data (instrs s' ! ni s) = x"
    and "c < nb s \<Longrightarrow> bb_name (blocks s' ! c) = bb_name (blocks s ! c)"
    and "c < nb s \<Longrightarrow> bb_parent (blocks s' ! c) = bb_parent (blocks s ! c)"
  using assms by (auto simp: emitted_def nth_append nth_update_below)

lemma emitted_code_ok:
  assumes em: "emitted b t op x ops s s'" and ok: "code_ok s"
    and ops: "\<forall>v \<in> set ops. valid_value s v" "shape_ok s op x ops"
  shows "code_ok s'"
proof -
  note parts = emitted_parts [OF em] and names = emitted_names [OF em] and gr = emitted_grows [OF em]
  have "shaped_instr s' i" if i: "i < ni s'" for i
  proof (cases "i < ni s")
    case True
    with ok have "shaped_instr s i" by (simp add: code_ok_def)
    from grows_shaped [OF gr this True, of "i_name (instrs s ! i)"] True parts show ?thesis by simp
  next
    case False
    with i parts(2) have i: "i = ni s" by simp
    have "\<forall>v \<in> set ops. made_before s' (ni s) v"
      using ops(1) grows_valid [OF gr] by (auto simp: made_before_def)
    moreover have "shape_ok s' op x ops" using grows_shape [OF gr ops(1)] ops(2) by simp
    ultimately show ?thesis using parts(6,9) names(2) by (auto simp: shaped_instr_def i)
  qed
  moreover have "unnamed s'"
    using ok parts names by (auto simp: code_ok_def unnamed_def named_block_def less_Suc_eq)
  moreover have "globals_ok s'" using ok parts by (simp add: code_ok_def globals_ok_def)
  ultimately show ?thesis by (simp add: code_ok_def)
qed

text \<open>Changes of the lists of blocks that keep the names.\<close>

lemma upd_block_code_ok:
  assumes "\<And>bb. bb_name (k bb) = bb_name bb" and "\<And>bb. bb_parent (k bb) = bb_parent bb"
    and "upd_block b k s = Inr (u, s')" and "code_ok s"
  shows "code_ok s'" "grows s s'"
proof -
  have s': "s' = s\<lparr>blocks := (blocks s)[b := k (blocks s ! b)]\<rparr>" using assms(3) by (simp add: upd_block_def)
  then show gr: "grows s s'" by (simp add: grows_def)
  have "shaped_instr s' i" if "i < ni s" for i
    using grows_shaped [OF gr _ that, of "i_name (instrs s ! i)"] assms(4) that by (simp add: s' code_ok_def)
  moreover have "bb_name (blocks s' ! c) = bb_name (blocks s ! c)" "bb_parent (blocks s' ! c) = bb_parent (blocks s ! c)"
    if "c < nb s" for c
    using that assms(1,2) by (auto simp: s' nth_update_below)
  then have "unnamed s'" using assms(4) by (auto simp: s' code_ok_def unnamed_def named_block_def)
  ultimately show "code_ok s'" using assms(4) by (simp add: s' code_ok_def globals_ok_def)
qed

lemma BasicBlock_create_code_ok:
  assumes c: "BasicBlock_create nm (Some f) s = Inr (b, s')" and ok: "code_ok s"
    and nm: "nm = [] \<or> nm = ''entry'' \<and> f < nf s \<and> basic_blocks (function_list s ! f) = []"
  shows "code_ok s'" "grows s s'" "b < nb s'"
proof -
  let ?bb = "\<lparr>bb_name = (if nm = [] then [] else ''label_'') @ nm, bb_parent = f, pre_bbs = [], succ_bbs = [], instr_list = []\<rparr>"
  let ?fn = "(function_list s ! f)\<lparr>basic_blocks := basic_blocks (function_list s ! f) @ [nb s]\<rparr>"
  have s': "s' = s\<lparr>blocks := blocks s @ [?bb], function_list := (function_list s)[f := ?fn]\<rparr>" and b: "b = nb s"
    using c by (auto simp: BasicBlock_create_def bindS_def thenS_def add_basic_block_def upd_function_def)
  show "b < nb s'" by (simp add: s' b)
  show gr: "grows s s'" by (auto simp: s' grows_def nth_update_below)
  have "shaped_instr s' i" if "i < ni s" for i
    using grows_shaped [OF gr _ that, of "i_name (instrs s ! i)"] ok that by (simp add: s' code_ok_def)
  moreover have "bb_name (blocks s' ! c) = [] \<or> named_block s' c" if "c < nb s'" for c
  proof (cases "c < nb s")
    case True
    with ok have "bb_name (blocks s ! c) = [] \<or> named_block s c" by (simp add: code_ok_def unnamed_def)
    moreover have "basic_blocks (function_list s' ! h) = basic_blocks (function_list s ! h) @ (if h = f then [nb s] else [])"
      if "h < nf s" for h
      using that by (simp add: s' nth_update_below)
    ultimately show ?thesis using True by (auto simp: s' named_block_def nth_append)
  next
    case False
    with that have "c = nb s" by (simp add: s')
    with nm show ?thesis by (auto simp: s' named_block_def nth_append)
  qed
  then have "unnamed s'" using ok by (auto simp: s' code_ok_def unnamed_def nth_update_below)
  ultimately show "code_ok s'" using ok by (simp add: s' code_ok_def globals_ok_def)
qed

lemma Function_create_code_ok:
  assumes c: "Function_create t nm s = Inr (f, s')" and ok: "code_ok s"
  shows "code_ok s'" "grows s s'" "f < nf s'" "basic_blocks (function_list s' ! f) = []" "f_type (function_list s' ! f) = t"
proof -
  let ?fn = "\<lparr>f_type = t, f_name = nm, basic_blocks = [], arg_names = map (\<lambda>_. []) (function_param_types t), seq_cnt = 0\<rparr>"
  have s': "s' = s\<lparr>function_list := function_list s @ [?fn]\<rparr>" and f: "f = nf s"
    using c by (auto simp: Function_create_def bindS_def thenS_def)
  show "f < nf s'" "basic_blocks (function_list s' ! f) = []" "f_type (function_list s' ! f) = t" by (simp_all add: s' f)
  show gr: "grows s s'" by (auto simp: s' grows_def nth_append)
  have "shaped_instr s' i" if "i < ni s" for i
    using grows_shaped [OF gr _ that, of "i_name (instrs s ! i)"] ok that by (simp add: s' code_ok_def)
  moreover have "unnamed s'" using ok
    by (fastforce simp: s' code_ok_def unnamed_def nth_append less_Suc_eq named_block_def)
  ultimately show "code_ok s'" using ok by (simp add: s' code_ok_def globals_ok_def)
qed

lemma GlobalVariable_create_code_ok:
  assumes c: "GlobalVariable_create nm t is_const (Some z) s = Inr (v, s')" and ok: "code_ok s"
  shows "code_ok s'" "grows s s'" "valid_value s' v" "scope s' = scope s" "cur_value s' = cur_value s"
proof -
  let ?gv = "\<lparr>g_type = PointerTy t, g_name = nm, g_is_const = is_const, g_init = Some z\<rparr>"
  obtain g' where s': "s' = s\<lparr>global_list := global_list s @ [?gv], graph := g'\<rparr>" and v: "v = V_Global (ng s)"
    and g': "set_operand (V_Global (ng s)) 0 z (new_user (V_Global (ng s)) 1 (graph s)) = Inr g'"
    using c by (auto simp: GlobalVariable_create_def bindS_def thenS_def set_operand_ir_def liftR_def)
  then show "valid_value s' v" "scope s' = scope s" "cur_value s' = cur_value s" by simp_all
  show gr: "grows s s'" by (auto simp: s' grows_def nth_append)
  have "operands g' (V_Inst i) = operands (graph s) (V_Inst i)" for i
    using g' by (auto simp: set_operand_def new_user_def add_use_def split: if_splits)
  then have "shaped_instr s' i" if "i < ni s" for i
    using grows_shaped [OF gr _ that, of "i_name (instrs s ! i)"] ok that by (simp add: s' code_ok_def)
  then show "code_ok s'"
    using ok by (auto simp: s' code_ok_def globals_ok_def unnamed_def named_block_def nth_append)
qed

section \<open>The judgement\<close>

text \<open>
  \<open>gives F m V\<close>: from a state in which \<open>F\<close> holds, \<open>m\<close> keeps the
  invariant, only adds to the module, and its result satisfies \<open>V\<close>. What is known
  of earlier results is part of \<open>F\<close> and has to survive growth.
\<close>

definition state_ok :: "cg_state \<Rightarrow> bool" where
  "state_ok s \<longleftrightarrow> code_ok s \<and> held_ok s"

definition lasting :: "(cg_state \<Rightarrow> bool) \<Rightarrow> bool" where
  "lasting F \<longleftrightarrow> (\<forall>s s'. F s \<longrightarrow> grows s s' \<longrightarrow> F s')"

definition gives :: "(cg_state \<Rightarrow> bool) \<Rightarrow> 'a cg \<Rightarrow> ('a \<Rightarrow> cg_state \<Rightarrow> bool) \<Rightarrow> bool" where
  "gives F m V \<longleftrightarrow> (\<forall>s x s'. state_ok s \<longrightarrow> F s \<longrightarrow> m s = Inr (x, s') \<longrightarrow> state_ok s' \<and> grows s s' \<and> V x s')"

lemma givesI:
  "(\<And>s x s'. state_ok s \<Longrightarrow> F s \<Longrightarrow> m s = Inr (x, s') \<Longrightarrow> state_ok s' \<and> grows s s' \<and> V x s') \<Longrightarrow> gives F m V"
  by (simp add: gives_def)

lemma givesD:
  assumes "gives F m V" "state_ok s" "F s" "m s = Inr (x, s')"
  shows "state_ok s'" "grows s s'" "V x s'"
  using assms by (auto simp: gives_def)

named_theorems lasting_intros

lemma lasting_basic [lasting_intros]:
  "lasting (\<lambda>s. True)" "lasting (\<lambda>s. c)" "lasting (\<lambda>s. valid_value s v)"
  "lasting (\<lambda>s. \<forall>v. x = Some v \<longrightarrow> valid_value s v)"
  "lasting (\<lambda>s. f < nf s \<and> f_type (function_list s ! f) = t)"
  by (auto simp: lasting_def grows_def intro: grows_valid)

lemma lasting_conj [lasting_intros]: "lasting F \<Longrightarrow> lasting G \<Longrightarrow> lasting (\<lambda>s. F s \<and> G s)"
  by (auto simp: lasting_def)

text \<open>The values of a list, with their types.\<close>

definition valid_args :: "cg_state \<Rightarrow> ty list \<Rightarrow> irval list \<Rightarrow> bool" where
  "valid_args s ts vs \<longleftrightarrow> (\<forall>v \<in> set vs. valid_value s v) \<and> map (get_type s) vs = ts"

lemma lasting_args [lasting_intros]: "lasting (\<lambda>s. valid_args s ts vs)"
  by (auto simp: lasting_def valid_args_def grows_type intro: grows_valid)

lemma gives_bind:
  assumes "lasting F" and m: "gives F m V" and f: "\<And>x. gives (\<lambda>s. F s \<and> V x s) (f x) W"
  shows "gives F (bindS m f) W"
proof (rule givesI)
  fix s x s' assume s: "state_ok s" "F s" and "bindS m f s = Inr (x, s')"
  then obtain y s1 where run: "m s = Inr (y, s1)" "f y s1 = Inr (x, s')" by auto
  from givesD [OF m s run(1)] have s1: "state_ok s1" "grows s s1" "V y s1" .
  from assms(1) s(2) s1(2) have "F s1" by (auto simp: lasting_def)
  with s1(3) have "F s1 \<and> V y s1" by simp
  from givesD [OF f s1(1) this run(2)] s1(2) show "state_ok s' \<and> grows s s' \<and> W x s'"
    by (auto intro: grows_trans)
qed

text \<open>The rules for binding, by the type of the result.\<close>

lemma gives_bind_value:
  "gives F m (\<lambda>v s. valid_value s v) \<Longrightarrow> lasting F \<Longrightarrow>
   (\<And>v. gives (\<lambda>s. F s \<and> valid_value s v) (f v) W) \<Longrightarrow> gives F (bindS m f) W"
  using gives_bind by blast

lemma gives_bind_option:
  "gives F m (\<lambda>x s. \<forall>v. x = Some v \<longrightarrow> valid_value s v) \<Longrightarrow> lasting F \<Longrightarrow>
   (\<And>x. gives (\<lambda>s. F s \<and> (\<forall>v. x = Some v \<longrightarrow> valid_value s v)) (f x) W) \<Longrightarrow> gives F (bindS m f) W"
  using gives_bind by blast

lemma gives_bind_any:
  assumes "gives F m (\<lambda>_ _. True)" "lasting F" "\<And>x. gives F (f x) W"
  shows "gives F (bindS m f) W"
  by (rule gives_bind [OF assms(2,1)]) (use assms(3) in \<open>simp\<close>)

lemma gives_then:
  assumes "gives F m (\<lambda>_ _. True)" "lasting F" "gives F k W"
  shows "gives F (thenS m k) W"
  unfolding thenS_def by (rule gives_bind_any) (rule assms)+

lemma gives_if:
  "(P \<Longrightarrow> gives F m V) \<Longrightarrow> (\<not> P \<Longrightarrow> gives F k V) \<Longrightarrow> gives F (if P then m else k) V"
  by simp

lemma gives_cases:
  "(x = None \<Longrightarrow> gives F m V) \<Longrightarrow> (\<And>y. x = Some y \<Longrightarrow> gives F (f y) V) \<Longrightarrow>
   gives F (case x of None \<Rightarrow> m | Some y \<Rightarrow> f y) V"
  "(\<And>a b. gives F (h a b) V) \<Longrightarrow> gives F (case z of (a, b) \<Rightarrow> h a b) V"
  by (simp split: option.split) (simp split: prod.split)

lemma gives_weaken:
  "gives F' m V' \<Longrightarrow> (\<And>s. F s \<Longrightarrow> F' s) \<Longrightarrow> (\<And>x s. V' x s \<Longrightarrow> V x s) \<Longrightarrow> gives F m V"
  unfolding gives_def by blast

section \<open>The state outside the module\<close>

lemma gives_return: "(\<And>s. F s \<Longrightarrow> V x s) \<Longrightarrow> gives F (returnS x) V"
  by (rule givesI) auto

lemma gives_fail: "gives F (failS e) V" "gives F (\<lambda>_. Inl e) V"
  by (rule givesI; simp)+

lemma gives_any:
  "gives F (getS h) (\<lambda>_ _. True)" "gives F (liftR r) (\<lambda>_ _. True)" "gives F (assertS P) (\<lambda>_ _. True)"
  "gives F (type_of v) (\<lambda>_ _. True)" "gives F (pointee v) (\<lambda>_ _. True)" "gives F insert_block_terminated (\<lambda>_ _. True)"
  "gives F (derefS y) (\<lambda>_ _. True)"
  by (rule givesI;
      auto simp: type_of_def pointee_def insert_block_terminated_def bindS_def bindR_def derefS_def
        split: sum.splits prod.splits option.splits)+

lemma ok_same_code:
  assumes "state_ok s" and "same_ir s s'" and "held_ok s'"
  shows "state_ok s' \<and> grows s s'"
proof -
  have gr: "grows s s'" using assms(2) by (simp add: grows_def same_ir_def)
  have "shaped_instr s' i" if "i < ni s" for i
    using grows_shaped [OF gr _ that, of "i_name (instrs s ! i)"] assms(1,2) that
    by (simp add: state_ok_def code_ok_def same_ir_def)
  then have "code_ok s'"
    using assms(1,2) by (simp add: state_ok_def code_ok_def same_ir_def unnamed_def named_block_def globals_ok_def)
  with gr assms(3) show ?thesis by (simp add: state_ok_def)
qed

lemma same_ir_valid: "same_ir s s' \<Longrightarrow> valid_value s' v = valid_value s v"
  by (cases v) (simp_all add: same_ir_def)

lemma held_same: "same_ir s s' \<Longrightarrow> held_ok s' = ((\<forall>v. cur_value s' = Some v \<longrightarrow> valid_value s v) \<and>
    (\<forall>t \<in> set (scope s'). \<forall>v \<in> ran t. valid_value s v))"
  by (simp add: held_ok_def same_ir_valid)

lemma gives_same_code:
  assumes "\<And>s x s'. F s \<Longrightarrow> m s = Inr (x, s') \<Longrightarrow> held_ok s \<Longrightarrow> same_ir s s' \<and> V x s' \<and>
      (\<forall>v. cur_value s' = Some v \<longrightarrow> valid_value s v) \<and> (\<forall>t \<in> set (scope s'). \<forall>v \<in> ran t. valid_value s v)"
  shows "gives F m V"
proof (rule givesI)
  fix s x s' assume s: "state_ok s" "F s" "m s = Inr (x, s')"
  with assms [OF s(2,3)] have same: "same_ir s s'" "V x s'"
    and "(\<forall>v. cur_value s' = Some v \<longrightarrow> valid_value s v) \<and> (\<forall>t \<in> set (scope s'). \<forall>v \<in> ran t. valid_value s v)"
    by (simp_all add: state_ok_def)
  then have "held_ok s'" by (simp add: held_same)
  with ok_same_code [OF s(1) same(1)] same(2) show "state_ok s' \<and> grows s s' \<and> V x s'" by simp
qed

lemma gives_set:
  "(\<And>s. F s \<Longrightarrow> valid_value s v) \<Longrightarrow> gives F (set_value v) (\<lambda>_ _. True)"
  "(\<And>s. F s \<Longrightarrow> \<forall>v. x = Some v \<longrightarrow> valid_value s v) \<Longrightarrow> gives F (modifyS (\<lambda>s. s\<lparr>cur_value := x\<rparr>)) (\<lambda>_ _. True)"
  "gives F (modifyS (\<lambda>s. s\<lparr>cur_lvalue := lv\<rparr>)) (\<lambda>_ _. True)"
  "gives F (modifyS (\<lambda>s. s\<lparr>cur_fun := cf\<rparr>)) (\<lambda>_ _. True)"
  "gives F (set_insert_point b) (\<lambda>_ _. True)"
  by (rule gives_same_code; auto simp: set_value_def set_insert_point_def same_ir_def held_ok_def)+

lemma gives_current: "gives F current (\<lambda>v s. valid_value s v)"
  by (rule givesI) (auto simp: current_def bindS_def state_ok_def held_ok_def)

lemma find_from_ran: "find_from nm ss = Some v \<Longrightarrow> \<exists>t \<in> set ss. v \<in> ran t"
  by (induction ss) (auto simp: ran_def split: option.splits)

lemma gives_find: "gives F (findS nm) (\<lambda>x s. \<forall>v. x = Some v \<longrightarrow> valid_value s v)"
  by (rule givesI) (auto simp: findS_def scope_find_def state_ok_def held_ok_def dest!: find_from_ran)

lemma gives_get_value: "gives F (getS cur_value) (\<lambda>x s. \<forall>v. x = Some v \<longrightarrow> valid_value s v)"
  by (rule givesI) (auto simp: state_ok_def held_ok_def)

lemma gives_deref: "(\<And>s. F s \<Longrightarrow> \<forall>v. x = Some v \<longrightarrow> valid_value s v) \<Longrightarrow> gives F (derefS x) (\<lambda>v s. valid_value s v)"
  by (rule givesI) auto

lemma gives_scope:
  "gives F enterS (\<lambda>_ _. True)" "gives F exitS (\<lambda>_ _. True)"
  by (rule gives_same_code; auto simp: enterS_def exitS_def scope_enter_def scope_exit_def same_ir_def held_ok_def
      dest!: in_set_butlastD split: if_splits)+

lemma gives_push: "(\<And>s. F s \<Longrightarrow> valid_value s v) \<Longrightarrow> gives F (pushS nm v) (\<lambda>_ _. True)"
proof (rule gives_same_code)
  fix s x s' assume v: "\<And>s. F s \<Longrightarrow> valid_value s v" and s: "F s" "pushS nm v s = Inr (x, s')" "held_ok s"
  have "ran ((last (scope s))(nm \<mapsto> v)) \<subseteq> insert v (ran (last (scope s)))" by (auto simp: ran_def)
  moreover have "\<forall>v \<in> ran (last (scope s)). valid_value s v" if "scope s \<noteq> []"
    using s(3) last_in_set [OF that] by (simp add: held_ok_def)
  ultimately show "same_ir s s' \<and> True \<and> (\<forall>v. cur_value s' = Some v \<longrightarrow> valid_value s v) \<and>
      (\<forall>t \<in> set (scope s'). \<forall>v \<in> ran t. valid_value s v)"
    using s v [OF s(1)]
    by (auto simp: pushS_def scope_push_def same_ir_def held_ok_def split: if_splits option.splits dest!: in_set_butlastD)
qed

lemma gives_constants:
  "gives F (ConstantInt_get i) (\<lambda>v s. valid_value s v)" "gives F (ConstantFP_get w) (\<lambda>v s. valid_value s v)"
  "gives F (ConstantZero_get t) (\<lambda>v s. valid_value s v)"
  by (rule gives_same_code; auto simp: ConstantInt_get_def ConstantFP_get_def ConstantZero_get_def same_ir_def held_ok_def
      split: option.splits)+

section \<open>The instruction builder\<close>

lemma gives_create_inst:
  assumes "\<And>s v. state_ok s \<Longrightarrow> F s \<Longrightarrow> v \<in> set ops \<Longrightarrow> valid_value s v"
    and "\<And>s. state_ok s \<Longrightarrow> F s \<Longrightarrow> shape_ok s op x ops"
  shows "gives F (create_inst t op x ops bb) (\<lambda>v s. valid_value s v \<and> get_type s v = t)"
proof (rule givesI)
  fix s v s' assume s: "state_ok s" "F s" and c: "create_inst t op x ops bb s = Inr (v, s')"
  from create_inst_emitted [OF c] obtain b where v: "v = V_Inst (ni s)" and em: "emitted b t op x ops s s'" by blast
  note parts = emitted_parts [OF em] and gr = emitted_grows [OF em]
  have "code_ok s'" by (rule emitted_code_ok [OF em]) (use s assms in \<open>auto simp: state_ok_def\<close>)
  moreover have "cur_value s' = cur_value s" "scope s' = scope s" using em by (auto simp: emitted_def)
  with s gr have "held_ok s'" by (auto simp: state_ok_def intro: held_grows)
  ultimately show "state_ok s' \<and> grows s s' \<and> valid_value s' v \<and> get_type s' v = t"
    using gr parts(2,7) by (simp add: state_ok_def v)
qed

lemma gives_at_bb: "(\<And>b. gives F (f b) V) \<Longrightarrow> gives F (at_bb f) V"
  unfolding gives_def at_bb_def bindS_def by auto

lemma gives_drop_type: "gives F m (\<lambda>v s. valid_value s v \<and> get_type s v = t) \<Longrightarrow> gives F m (\<lambda>v s. valid_value s v)"
  by (erule gives_weaken) simp_all

lemma gives_typed_builder:
  assumes "\<And>s. F s \<Longrightarrow> valid_value s v"
  shows "gives F (b_sitofp v t) (\<lambda>v s. valid_value s v \<and> get_type s v = t)"
    "gives F (b_fptosi v t) (\<lambda>v s. valid_value s v \<and> get_type s v = t)"
  unfolding b_sitofp_def b_fptosi_def create_sitofp_def create_fptosi_def
  by (rule gives_at_bb, rule gives_create_inst; use assms in auto)+

lemma gives_builder:
  assumes "\<And>s. F s \<Longrightarrow> valid_value s l" and "\<And>s. F s \<Longrightarrow> valid_value s r"
  shows "gives F (b_iadd l r) (\<lambda>v s. valid_value s v)" "gives F (b_isub l r) (\<lambda>v s. valid_value s v)"
    "gives F (b_imul l r) (\<lambda>v s. valid_value s v)" "gives F (b_isdiv l r) (\<lambda>v s. valid_value s v)"
    "gives F (b_fadd l r) (\<lambda>v s. valid_value s v)" "gives F (b_fsub l r) (\<lambda>v s. valid_value s v)"
    "gives F (b_fmul l r) (\<lambda>v s. valid_value s v)" "gives F (b_fdiv l r) (\<lambda>v s. valid_value s v)"
    "gives F (b_icmp c l r) (\<lambda>v s. valid_value s v)" "gives F (b_fcmp c l r) (\<lambda>v s. valid_value s v)"
    "gives F (b_store l r) (\<lambda>v s. valid_value s v)"
  unfolding b_iadd_def b_isub_def b_imul_def b_isdiv_def b_fadd_def b_fsub_def b_fmul_def b_fdiv_def b_icmp_def
    b_fcmp_def b_store_def create_add_def create_sub_def create_mul_def create_sdiv_def create_fadd_def create_fsub_def
    create_fmul_def create_fdiv_def create_cmp_def create_fcmp_def create_store_def
  by (rule gives_at_bb, rule gives_drop_type, rule gives_create_inst; use assms in auto)+

lemma gives_builder1:
  assumes "\<And>s. F s \<Longrightarrow> valid_value s l"
  shows "gives F (b_zext l t) (\<lambda>v s. valid_value s v)" "gives F (b_sitofp l t) (\<lambda>v s. valid_value s v)"
    "gives F (b_fptosi l t) (\<lambda>v s. valid_value s v)" "gives F (b_ret l) (\<lambda>v s. valid_value s v)"
  unfolding b_zext_def b_sitofp_def b_fptosi_def b_ret_def create_zext_def create_sitofp_def create_fptosi_def create_ret_def
  by (rule gives_at_bb, rule gives_drop_type, rule gives_create_inst; use assms in auto)+

lemma gives_builder0:
  "gives F (b_alloca t) (\<lambda>v s. valid_value s v)" "gives F b_void_ret (\<lambda>v s. valid_value s v)"
  unfolding b_alloca_def b_void_ret_def create_alloca_def create_void_ret_def
  by (rule gives_at_bb, rule gives_drop_type, rule gives_create_inst; simp)+

text \<open>The builders that read a type first.\<close>

lemma gives_getS: "(\<And>y. gives (\<lambda>s. F s \<and> h s = y) (f y) V) \<Longrightarrow> gives F (bindS (getS h) f) V"
  unfolding gives_def bindS_def by auto

lemma gives_bind_lift: "(\<And>y. r = Inr y \<Longrightarrow> gives F (f y) V) \<Longrightarrow> gives F (bindS (liftR r) f) V"
  unfolding gives_def by fastforce

lemma pointer_typeI: "get_pointer_element_type t = Some e \<Longrightarrow> is_pointer_type t"
  by (cases t) simp_all

lemma gives_load:
  assumes "\<And>s. F s \<Longrightarrow> valid_value s p"
  shows "gives F (b_load p) (\<lambda>v s. valid_value s v)"
  unfolding b_load_def type_of_def
proof (rule gives_getS)
  fix t
  let ?F = "\<lambda>s. F s \<and> get_type s p = t"
  have "gives ?F (at_bb (LoadInst_create e p)) (\<lambda>v s. valid_value s v)" if "get_pointer_element_type t = Some e" for e
    unfolding LoadInst_create_def thenS_def assertS_def using pointer_typeI [OF that]
    by (intro gives_at_bb gives_getS)
      (auto intro!: gives_drop_type [OF gives_create_inst] gives_fail simp: assms intro: gives_weaken)
  then show "gives ?F (case get_pointer_element_type t of None \<Rightarrow> failS AssertFailed
      | Some e \<Rightarrow> at_bb (LoadInst_create e p)) (\<lambda>v s. valid_value s v)"
    by (auto intro: gives_fail split: option.split)
qed

lemma gives_gep:
  assumes "\<And>s. F s \<Longrightarrow> valid_value s p" and "\<And>s v. F s \<Longrightarrow> v \<in> set idxs \<Longrightarrow> valid_value s v"
  shows "gives F (b_gep p idxs) (\<lambda>v s. valid_value s v)"
  unfolding b_gep_def create_gep_def
proof (intro gives_at_bb gives_getS gives_bind_lift)
  fix bb and r :: "ty result" and t assume "r = Inr t"
  then show "gives (\<lambda>s. F s \<and> gep_element_type s p idxs = r)
      (create_inst (PointerTy t) I_getelementptr (X_Element t) (p # idxs) bb) (\<lambda>v s. valid_value s v)"
    by (intro gives_drop_type [OF gives_create_inst])
      (use assms in \<open>auto simp: gep_element_type_def split: option.splits dest: pointer_typeI\<close>)
qed

lemma gives_call:
  assumes "\<And>s. F s \<Longrightarrow> \<exists>ts. valid_args s ts args \<and>
    (\<forall>f. func = Some (V_Fun f) \<longrightarrow> f < nf s \<and> (length args = length (function_param_types (f_type (function_list s ! f))) \<longrightarrow>
       function_param_types (f_type (function_list s ! f)) = ts))"
  shows "gives F (b_call func args) (\<lambda>v s. valid_value s v)"
  unfolding b_call_def
proof (auto split: option.split irval.split intro!: gives_fail)
  fix f assume f: "func = Some (V_Fun f)"
  show "gives F (at_bb (CallInst_create f args)) (\<lambda>v s. valid_value s v)"
    unfolding CallInst_create_def thenS_def assertS_def
  proof (intro gives_at_bb gives_getS)
    fix bb t
    show "gives (\<lambda>s. F s \<and> f_type (function_list s ! f) = t)
      (bindS (if length (function_param_types t) = length args then returnS () else failS AssertFailed)
        (\<lambda>_. create_inst (function_return_type t) I_call X_None (V_Fun f # args) bb)) (\<lambda>v s. valid_value s v)"
    proof (cases "length (function_param_types t) = length args")
      case True
      have "gives (\<lambda>s. F s \<and> f_type (function_list s ! f) = t)
          (create_inst (function_return_type t) I_call X_None (V_Fun f # args) bb) (\<lambda>v s. valid_value s v)"
        by (rule gives_drop_type [OF gives_create_inst])
          (use assms f True in \<open>fastforce simp: valid_args_def\<close>)+
      then show ?thesis by (simp add: True)
    next
      case False
      then show ?thesis by (simp add: gives_fail)
    qed
  qed
qed

section \<open>Blocks and branches\<close>

lemma gives_bind_block:
  "gives F m (\<lambda>b s. valid_value s (V_Block b)) \<Longrightarrow> lasting F \<Longrightarrow>
   (\<And>b. gives (\<lambda>s. F s \<and> valid_value s (V_Block b)) (f b) W) \<Longrightarrow> gives F (bindS m f) W"
  using gives_bind by blast

lemma gives_BasicBlock_create:
  assumes "\<And>s. F s \<Longrightarrow> nm = [] \<or> nm = ''entry'' \<and> (\<exists>f. x = Some f \<and> f < nf s \<and> basic_blocks (function_list s ! f) = [])"
  shows "gives F (BasicBlock_create nm x) (\<lambda>b s. valid_value s (V_Block b))"
proof (rule givesI)
  fix s b s' assume s: "state_ok s" "F s" and c: "BasicBlock_create nm x s = Inr (b, s')"
  from c obtain f where x: "x = Some f" by (cases x) (auto simp: BasicBlock_create_def)
  have "cur_value s' = cur_value s" "scope s' = scope s"
    using c by (auto simp: BasicBlock_create_def x bindS_def thenS_def add_basic_block_def upd_function_def)
  moreover have "code_ok s' \<and> grows s s' \<and> b < nb s'"
    using BasicBlock_create_code_ok [OF c [unfolded x]] s assms [OF s(2)] by (auto simp: state_ok_def x)
  ultimately show "state_ok s' \<and> grows s s' \<and> valid_value s' (V_Block b)"
    using s held_grows [of s s'] by (simp add: state_ok_def)
qed

lemma gives_new_block: "gives F new_block (\<lambda>b s. valid_value s (V_Block b))"
  unfolding new_block_def
  by (rule gives_getS) (rule gives_BasicBlock_create, simp)

lemma gives_edges:
  "gives F (add_pre_basic_block b c) (\<lambda>_ _. True)" "gives F (add_succ_basic_block b c) (\<lambda>_ _. True)"
proof -
  have "gives F (upd_block b k) (\<lambda>_ _. True)"
    if k: "\<And>bb. bb_name (k bb) = bb_name bb" "\<And>bb. bb_parent (k bb) = bb_parent bb" for k
  proof (rule givesI)
    fix s u s' assume s: "state_ok s" "upd_block b k s = Inr (u, s')"
    have "cur_value s' = cur_value s" "scope s' = scope s" using s(2) by (auto simp: upd_block_def)
    with s upd_block_code_ok [OF k s(2)] held_grows [of s s'] show "state_ok s' \<and> grows s s' \<and> True"
      by (simp add: state_ok_def)
  qed
  then show "gives F (add_pre_basic_block b c) (\<lambda>_ _. True)" "gives F (add_succ_basic_block b c) (\<lambda>_ _. True)"
    unfolding add_pre_basic_block_def add_succ_basic_block_def by simp_all
qed

lemma gives_br:
  assumes "\<And>s. F s \<Longrightarrow> valid_value s (V_Block b)" and "lasting F"
  shows "gives F (b_br b) (\<lambda>v s. valid_value s v)"
  unfolding b_br_def create_br_def
  by (rule gives_at_bb, (rule gives_bind_any [OF gives_any(7)] gives_then gives_edges assms(2)
      gives_drop_type [OF gives_create_inst])+) (use assms(1) in auto)

lemma gives_cond_br:
  assumes "\<And>s. F s \<Longrightarrow> valid_value s c \<and> valid_value s (V_Block t) \<and> valid_value s (V_Block f)" and "lasting F"
  shows "gives F (b_cond_br c t f) (\<lambda>v s. valid_value s v)"
  unfolding b_cond_br_def create_cond_br_def
  by (rule gives_at_bb, (rule gives_bind_any [OF gives_any(7)] gives_then gives_edges assms(2)
      gives_drop_type [OF gives_create_inst])+) (use assms(1) in auto)

lemma gives_br_unless:
  assumes "\<And>s. F s \<Longrightarrow> valid_value s (V_Block b)" and "lasting F"
  shows "gives F (br_unless_terminated b) (\<lambda>_ _. True)"
  unfolding br_unless_terminated_def
  by (rule gives_bind_value gives_bind_any gives_any gives_if gives_return gives_br lasting_intros TrueI assms | assumption)+

section \<open>Visits\<close>

text \<open>What a visit does whatever is known before it.\<close>

definition visit_ok :: "unit cg \<Rightarrow> bool" where
  "visit_ok m \<longleftrightarrow> gives (\<lambda>_. True) m (\<lambda>_ _. True)"

lemma visit_gives: "visit_ok m \<Longrightarrow> gives F m (\<lambda>_ _. True)"
  unfolding visit_ok_def by (erule gives_weaken) simp_all

lemma visit_okI: "gives (\<lambda>_. True) m (\<lambda>_ _. True) \<Longrightarrow> visit_ok m"
  by (simp add: visit_ok_def)

lemma gives_bind_index: "(\<And>y. x = Some y \<Longrightarrow> gives F (f y) V) \<Longrightarrow> gives F (bindS (derefS (x :: nat option)) f) V"
  by (cases x) (auto simp: derefS_def gives_fail)

lemmas gives_steps = gives_bind_index gives_bind_value gives_bind_option gives_bind_block gives_bind_any gives_then gives_if gives_cases
  gives_set gives_current gives_get_value gives_find gives_scope gives_push gives_constants gives_any
  gives_builder gives_builder1 gives_builder0 gives_load gives_gep gives_br gives_cond_br gives_br_unless gives_new_block
  gives_deref gives_return gives_fail

lemma visit_num: "visit_ok (gen_ASTNum n)"
  unfolding gen_ASTNum_def by (rule visit_okI, intro gives_steps lasting_intros) auto

lemma gives_element_address:
  assumes "\<And>s. F s \<Longrightarrow> valid_value s v" "\<And>s. F s \<Longrightarrow> valid_value s i" "lasting F"
  shows "gives F (gen_element_address v i) (\<lambda>v s. valid_value s v)"
  unfolding gen_element_address_def by (intro gives_steps lasting_intros assms) (auto simp: assms)

lemma gives_scalar_var: "gives F gen_scalar_var (\<lambda>_ _. True)" if "lasting F"
  unfolding gen_scalar_var_def by (intro gives_steps lasting_intros that) auto

lemma gives_call_none:
  assumes "\<And>s. F s \<Longrightarrow> \<forall>v. x = Some v \<longrightarrow> valid_value s v"
  shows "gives F (b_call x []) (\<lambda>v s. valid_value s v)"
  by (rule gives_call) (use assms in \<open>auto simp: valid_args_def\<close>)

lemma gives_checked_access:
  assumes "\<And>s. F s \<Longrightarrow> \<forall>v. x = Some v \<longrightarrow> valid_value s v" "\<And>s. F s \<Longrightarrow> valid_value s i" "lasting F"
  shows "gives F (gen_checked_access x i lv) (\<lambda>_ _. True)"
  unfolding gen_checked_access_def
  by (intro gives_steps lasting_intros gives_element_address gives_call_none assms(3)) (auto simp: assms(1,2))

lemma gives_element:
  assumes "\<And>s. F s \<Longrightarrow> \<forall>v. x = Some v \<longrightarrow> valid_value s v" "lasting F" "visit_ok e"
  shows "gives F (gen_element x e) (\<lambda>_ _. True)"
  unfolding gen_element_def
  by (intro gives_steps lasting_intros assms(2) visit_gives assms(3) gives_checked_access) (auto simp: assms(1))

lemma visit_var: "(\<And>e. x = Some e \<Longrightarrow> visit_ok e) \<Longrightarrow> visit_ok (gen_ASTVar nm x)"
  unfolding gen_ASTVar_def
  by (rule visit_okI, intro gives_steps lasting_intros gives_scalar_var gives_element) auto

lemma gives_convert:
  "(\<And>s. F s \<Longrightarrow> valid_value s v) \<Longrightarrow> gives F (convert v t t') (\<lambda>v s. valid_value s v)" if "lasting F"
  unfolding convert_def by (intro gives_steps lasting_intros that)

lemma visit_assign: "visit_ok v \<Longrightarrow> visit_ok e \<Longrightarrow> visit_ok (gen_ASTAssignExpression v e)"
  unfolding gen_ASTAssignExpression_def
  by (rule visit_okI, intro gives_steps lasting_intros visit_gives gives_convert) auto

lemma gives_promote:
  assumes "lasting F" and v: "\<And>s. F s \<Longrightarrow> valid_value s v" and w: "\<And>s. F s \<Longrightarrow> valid_value s w"
    and f: "\<And>t a b. gives (\<lambda>s. F s \<and> valid_value s a \<and> valid_value s b) (f t a b) W"
  shows "gives F (bindS (promote v w) (\<lambda>(t, a, b). f t a b)) W"
proof (rule gives_bind [OF assms(1)])
  show "gives F (promote v w) (\<lambda>(t, a, b) s. valid_value s a \<and> valid_value s b)"
    unfolding promote_def by (intro gives_steps lasting_intros assms(1)) (auto simp: v w)
qed (auto simp: f split: prod.split)

lemma visit_operators:
  assumes "\<And>e. x = Some e \<Longrightarrow> visit_ok e" and "visit_ok m"
  shows "visit_ok (gen_ASTSimpleExpression m x rop)" "visit_ok (gen_ASTAdditiveExpression x aop m)"
    "visit_ok (gen_ASTTerm x mop m)"
  unfolding gen_ASTSimpleExpression_def gen_ASTAdditiveExpression_def gen_ASTTerm_def
  by (rule visit_okI, intro gives_promote gives_steps lasting_intros visit_gives, auto intro: assms)+

lemma gives_convert_typed:
  assumes "lasting F" "\<And>s. F s \<Longrightarrow> valid_value s v"
  shows "gives F (convert v t t) (\<lambda>v s. valid_value s v \<and> get_type s v = t)"
  unfolding convert_def
  by (intro gives_bind_any gives_any gives_if gives_typed_builder assms)

lemma lasting_typed [lasting_intros]: "lasting (\<lambda>s. valid_value s v \<and> get_type s v = t)"
  by (auto simp: lasting_def grows_type intro: grows_valid)

lemma valid_args_snoc:
  "valid_args s (ts @ [t]) (vs @ [v]) \<longleftrightarrow> valid_args s ts vs \<and> valid_value s v \<and> get_type s v = t"
  by (auto simp: valid_args_def)

lemma gives_args:
  assumes "lasting F" "\<And>a. a \<in> set args \<Longrightarrow> visit_ok a"
  shows "gives (\<lambda>s. F s \<and> valid_args s ts vs) (gen_args args ps vs)
    (\<lambda>us s. valid_args s (ts @ take (length args) ps) us)"
  using assms(2)
proof (induction args arbitrary: ps vs ts)
  case Nil
  show ?case unfolding gen_args.simps by (rule gives_return) simp
next
  case (Cons a rest)
  note IH = Cons.IH and prems = Cons.prems
  have a: "visit_ok a" using prems by simp
  let ?F = "\<lambda>s. F s \<and> valid_args s ts vs"
  have last: "lasting ?F" by (intro lasting_intros assms(1))
  show ?case
  proof (cases ps)
    case Nil
    show ?thesis unfolding gen_args.simps
      by (rule gives_then [OF visit_gives [OF a] last], rule gives_bind_value [OF gives_current last]) (simp add: Nil gives_fail)
  next
    case (Cons p qs)
    have conv: "gives (\<lambda>s. (?F s \<and> valid_value s v) \<and> get_type s v = t)
        (if t \<noteq> p then bindS (convert v p p) (\<lambda>c. thenS (set_value c) (returnS c)) else returnS v)
        (\<lambda>v s. valid_value s v \<and> get_type s v = p)" for v t
    proof -
      have l: "lasting (\<lambda>s. (?F s \<and> valid_value s v) \<and> get_type s v = t)"
        using lasting_conj [OF last lasting_typed [of v t]] by (simp add: conj_assoc)
      show ?thesis
      proof (cases "t = p")
        case True
        then show ?thesis by (auto intro: gives_return)
      next
        case False
        have "gives (\<lambda>s. (?F s \<and> valid_value s v) \<and> get_type s v = t)
            (bindS (convert v p p) (\<lambda>c. thenS (set_value c) (returnS c))) (\<lambda>v s. valid_value s v \<and> get_type s v = p)"
          by (rule gives_bind [OF l gives_convert_typed [OF l]], simp)
            (intro gives_then gives_set gives_return lasting_conj [OF l lasting_typed]; simp)
        with False show ?thesis by simp
      qed
    qed
    have rest: "gives (\<lambda>s. ((?F s \<and> valid_value s v) \<and> get_type s v = t) \<and> valid_value s w \<and> get_type s w = p)
        (gen_args rest qs (vs @ [w])) (\<lambda>us s. valid_args s (ts @ take (length (a # rest)) ps) us)" for v w t
      by (rule gives_weaken [OF IH [of "ts @ [p]" "vs @ [w]" qs]]) (use Cons prems in \<open>auto simp: valid_args_snoc\<close>)
    have "gives (\<lambda>s. ?F s \<and> valid_value s v) (bindS (type_of v) (\<lambda>t.
         bindS (if t \<noteq> p then bindS (convert v p p) (\<lambda>c. thenS (set_value c) (returnS c)) else returnS v)
           (\<lambda>v. gen_args rest qs (vs @ [v])))) (\<lambda>us s. valid_args s (ts @ take (length (a # rest)) ps) us)" for v
      unfolding type_of_def
      by (rule gives_getS, rule gives_bind [OF _ conv rest])
        (use lasting_conj [OF last lasting_typed [of v]] in \<open>simp add: conj_assoc\<close>)
    then show ?thesis
      unfolding gen_args.simps Cons list.case
      by (intro gives_then [OF visit_gives [OF a] last] gives_bind_value [OF gives_current last]) (simp add: Cons)
  qed
qed

definition fun_params :: "cg_state \<Rightarrow> nat \<Rightarrow> ty list \<Rightarrow> bool" where
  "fun_params s f ts \<longleftrightarrow> f < nf s \<and> function_param_types (f_type (function_list s ! f)) = ts"

lemma lasting_params [lasting_intros]: "lasting (\<lambda>s. fun_params s f ts)"
  by (auto simp: lasting_def grows_def fun_params_def)

lemma visit_call:
  assumes "\<And>a. a \<in> set args \<Longrightarrow> visit_ok a"
  shows "visit_ok (gen_ASTCall nm args)"
proof -
  have call: "gives (\<lambda>s. fun_params s f ts) (bindS (gen_args args ts []) (\<lambda>vs. bindS (b_call (Some (V_Fun f)) vs) set_value)) (\<lambda>_ _. True)"
    for f ts
  proof (rule gives_bind [OF lasting_params])
    show "gives (\<lambda>s. fun_params s f ts) (gen_args args ts []) (\<lambda>us s. valid_args s (take (length args) ts) us)"
      by (rule gives_weaken [OF gives_args [OF lasting_params, of args f ts "[]" "[]"]])
        (use assms in \<open>auto simp: valid_args_def\<close>)
    fix vs
    have "\<exists>us. valid_args s us vs \<and> (\<forall>h. Some (V_Fun f) = Some (V_Fun h) \<longrightarrow> h < nf s \<and>
        (length vs = length (function_param_types (f_type (function_list s ! h))) \<longrightarrow>
         function_param_types (f_type (function_list s ! h)) = us))"
      if "fun_params s f ts \<and> valid_args s (take (length args) ts) vs" for s
      using that by (intro exI [of _ "take (length args) ts"]) (auto simp: fun_params_def valid_args_def dest: arg_cong [of _ _ length])
    then show "gives (\<lambda>s. fun_params s f ts \<and> valid_args s (take (length args) ts) vs)
        (bindS (b_call (Some (V_Fun f)) vs) set_value) (\<lambda>_ _. True)"
      by (rule gives_bind_value [OF gives_call _ gives_set(1)]) (auto intro: lasting_intros)
  qed
  have get: "gives (\<lambda>s. valid_value s (V_Fun f)) (bindS (getS (\<lambda>s. function_param_types (f_type (function_list s ! f)))) (\<lambda>ts.
      bindS (gen_args args ts []) (\<lambda>vs. bindS (b_call (Some (V_Fun f)) vs) set_value))) (\<lambda>_ _. True)" for f
    by (rule gives_getS, rule gives_weaken [OF call]) (auto simp: fun_params_def)
  have "gives (\<lambda>s. valid_value s v) (case v of
       V_Fun f \<Rightarrow> bindS (getS (\<lambda>s. function_param_types (f_type (function_list s ! f)))) (\<lambda>ts.
         bindS (gen_args args ts []) (\<lambda>vs. bindS (b_call (Some (V_Fun f)) vs) set_value))
     | _ \<Rightarrow> failS BadCast) (\<lambda>_ _. True)" for v
    using get by (auto split: irval.split intro: gives_fail)
  then have "gives F (case v of
       V_Fun f \<Rightarrow> bindS (getS (\<lambda>s. function_param_types (f_type (function_list s ! f)))) (\<lambda>ts.
         bindS (gen_args args ts []) (\<lambda>vs. bindS (b_call (Some (V_Fun f)) vs) set_value))
     | _ \<Rightarrow> failS BadCast) (\<lambda>_ _. True)" if "\<And>s. F s \<Longrightarrow> valid_value s v" for F v
    by (rule gives_weaken) (use that in auto)
  note last = this
  show ?thesis
    unfolding gen_ASTCall_def
    by (rule visit_okI, rule gives_bind_option [OF gives_find lasting_basic(1)],
        rule gives_bind_value [OF gives_deref], simp, intro lasting_intros, rule last) simp
qed

lemma visit_expressions:
  "visit_ok (cg_ASTFactor f)" "visit_ok (cg_ASTExpression e)" "visit_ok (cg_ASTVar v)"
  "visit_ok (cg_ASTAdditiveExpression a)" "visit_ok (cg_ASTTerm t)" "visit_ok (cg_ASTCall c)"
  by (induction f and e and v and a and t and c
      rule: cg_ASTFactor_cg_ASTExpression_cg_ASTVar_cg_ASTAdditiveExpression_cg_ASTTerm_cg_ASTCall.induct)
    (auto intro!: visit_num visit_var visit_assign visit_operators visit_call)

section \<open>Statements and declarations\<close>

lemma visit_return: "(\<And>e. x = Some e \<Longrightarrow> visit_ok e) \<Longrightarrow> visit_ok (gen_ASTReturnStmt x)"
  unfolding gen_ASTReturnStmt_def
  by (rule visit_okI, intro gives_steps lasting_intros visit_gives gives_convert) auto

lemma visit_selection:
  "visit_ok e \<Longrightarrow> visit_ok m \<Longrightarrow> (\<And>k. x = Some k \<Longrightarrow> visit_ok k) \<Longrightarrow> visit_ok (gen_ASTSelectionStmt e m x)"
  unfolding gen_ASTSelectionStmt_def
  by (rule visit_okI, intro gives_steps lasting_intros visit_gives) simp_all

lemma visit_iteration: "visit_ok e \<Longrightarrow> visit_ok m \<Longrightarrow> visit_ok (gen_ASTIterationStmt e m)"
  unfolding gen_ASTIterationStmt_def
  by (rule visit_okI, intro gives_steps lasting_intros visit_gives) simp_all

lemma visit_seqS: "(\<And>m. m \<in> set ms \<Longrightarrow> visit_ok m) \<Longrightarrow> visit_ok (seqS ms)"
proof (induction ms)
  case (Cons m ms)
  have "visit_ok m" "visit_ok (seqS ms)" using Cons by simp_all
  then show ?case unfolding seqS.simps by - (rule visit_okI, intro gives_then visit_gives lasting_intros)
qed (simp add: visit_okI gives_return del: prog_simps)

lemma visit_statement_list: "(\<And>m. m \<in> set ms \<Longrightarrow> visit_ok m) \<Longrightarrow> visit_ok (gen_statement_list ms)"
proof (induction ms)
  case (Cons m ms)
  have "visit_ok m" "visit_ok (gen_statement_list ms)" using Cons by simp_all
  then show ?case unfolding gen_statement_list.simps
    by - (rule visit_okI, intro gives_steps visit_gives lasting_intros, simp_all)
qed (simp add: visit_okI gives_return del: prog_simps)

lemma gives_global: "gives F (GlobalVariable_create nm t c (Some z)) (\<lambda>v s. valid_value s v)"
proof (rule givesI)
  fix s v s' assume s: "state_ok s" "GlobalVariable_create nm t c (Some z) s = Inr (v, s')"
  then have ok: "code_ok s" "held_ok s" by (simp_all add: state_ok_def)
  note g = GlobalVariable_create_code_ok [OF s(2) ok(1)]
  from g held_grows [OF ok(2) g(2,5,4)] show "state_ok s' \<and> grows s s' \<and> valid_value s' v" by (simp add: state_ok_def)
qed

lemma visit_var_declaration: "visit_ok (gen_ASTVarDeclaration d)"
  unfolding gen_ASTVarDeclaration_def
  by (rule visit_okI, intro gives_steps gives_global lasting_intros) simp_all

lemma visit_statements: "visit_ok (cg_ASTStatement s)" "visit_ok (cg_ASTCompoundStmt c)"
proof (induction s and c rule: cg_ASTStatement_cg_ASTCompoundStmt.induct)
  case (2 e)
  show ?case unfolding cg_ASTStatement.simps gen_ASTExpressionStmt_def
    by (cases e; simp only: option.map option.case) (rule visit_okI gives_return visit_expressions TrueI)+
next
  case (6 ds ss)
  have "visit_ok (seqS (map gen_ASTVarDeclaration ds))" "visit_ok (gen_statement_list (map cg_ASTStatement ss))"
    using 6 by (auto intro!: visit_seqS visit_statement_list visit_var_declaration)
  then show ?case unfolding cg_ASTCompoundStmt.simps gen_ASTCompoundStmt_def
    by - (rule visit_okI, intro gives_then gives_scope visit_gives lasting_intros)
qed (auto intro!: visit_selection visit_iteration visit_return visit_expressions)

text \<open>A function is declared before its entry block is made.\<close>

lemma gives_function_head:
  assumes "lasting F"
    and k: "\<And>f b. gives (\<lambda>s. F s \<and> f < nf s \<and> f_type (function_list s ! f) = t) (k f b) W"
  shows "gives F (bindS (Function_create t nm) (\<lambda>f. thenS (pushS nm (V_Fun f)) (thenS (modifyS (\<lambda>s. s\<lparr>cur_fun := Some f\<rparr>))
    (bindS (BasicBlock_create ''entry'' (Some f)) (k f))))) W"
proof (rule givesI)
  fix s x s' assume s: "state_ok s" "F s" and run: "bindS (Function_create t nm) (\<lambda>f. thenS (pushS nm (V_Fun f))
    (thenS (modifyS (\<lambda>s. s\<lparr>cur_fun := Some f\<rparr>)) (bindS (BasicBlock_create ''entry'' (Some f)) (k f)))) s = Inr (x, s')"
  from run obtain f s1 u s2 b s4 where 1: "Function_create t nm s = Inr (f, s1)" and 2: "pushS nm (V_Fun f) s1 = Inr (u, s2)"
    and 4: "BasicBlock_create ''entry'' (Some f) (s2\<lparr>cur_fun := Some f\<rparr>) = Inr (b, s4)" and 5: "k f b s4 = Inr (x, s')"
    by (elim bindS_InrE thenS_InrE) simp
  have ok: "code_ok s" "held_ok s" using s(1) by (simp_all add: state_ok_def)
  note f = Function_create_code_ok [OF 1 ok(1)]
  have "cur_value s1 = cur_value s" "scope s1 = scope s" using 1 by (auto simp: Function_create_def bindS_def thenS_def)
  from held_grows [OF ok(2) f(2) this] f(1) have s1: "state_ok s1" by (simp add: state_ok_def)
  let ?V = "\<lambda>s. valid_value s (V_Fun f)"
  have V: "?V s1" using f(3) by simp
  have "gives ?V (pushS nm (V_Fun f)) (\<lambda>_ _. True)" by (rule gives_push)
  from givesD [OF this s1 V 2] have s2: "state_ok s2" "grows s1 s2" by simp_all
  have "gives (\<lambda>_. True) (modifyS (\<lambda>s. s\<lparr>cur_fun := Some f\<rparr>)) (\<lambda>_ _. True)" by (rule gives_set)
  from givesD(1) [OF this s2(1)] have s3: "state_ok (s2\<lparr>cur_fun := Some f\<rparr>)" by simp
  have "function_list s2 = function_list s1" using 2 by (auto simp: pushS_def)
  then have entry: "f < nf s2 \<and> basic_blocks (function_list (s2\<lparr>cur_fun := Some f\<rparr>) ! f) = []" using f(3,4) by simp
  have "gives (\<lambda>s. f < nf s \<and> basic_blocks (function_list s ! f) = []) (BasicBlock_create ''entry'' (Some f))
      (\<lambda>b s. valid_value s (V_Block b))"
    by (rule gives_BasicBlock_create) simp
  from givesD [OF this s3 _ 4] entry have s4: "state_ok s4" "grows (s2\<lparr>cur_fun := Some f\<rparr>) s4" by simp_all
  have gr: "grows s s4" "grows s1 s4"
    using f(2) s2(2) s4(2) grows_trans [of s1 s2 s4] grows_trans [of s s1 s4] by (simp_all add: grows_def)
  then have "F s4 \<and> f < nf s4 \<and> f_type (function_list s4 ! f) = t"
    using assms(1) s(2) f(3,5) by (auto simp: lasting_def grows_def)
  from givesD [OF k s4(1) this 5] gr show "state_ok s' \<and> grows s s' \<and> W x s'" by (auto intro: grows_trans)
qed

lemma gives_params:
  "gives (\<lambda>s. fun_params s f ts \<and> i + length ps \<le> length ts) (gen_params f i ps) (\<lambda>_ _. True)"
proof (induction ps arbitrary: i)
  case Nil
  show ?case unfolding gen_params.simps by (rule gives_return) simp
next
  case (Cons p ps)
  let ?F = "\<lambda>s. fun_params s f ts \<and> i + length (p # ps) \<le> length ts"
  have l: "lasting ?F" by (intro lasting_intros)
  have v: "valid_value s (V_Arg f i)" if "?F s" for s using that by (auto simp: fun_params_def)
  have rest: "gives (\<lambda>s. (?F s \<and> valid_value s a) \<and> valid_value s b) (gen_params f (Suc i) ps) (\<lambda>_ _. True)" for a b
    by (rule gives_weaken [OF Cons.IH]) auto
  show ?case
    unfolding gen_params.simps
    by (intro gives_bind_value gives_builder0 gives_builder gives_then gives_push rest lasting_conj [OF l] l lasting_intros;
        use v in auto)
qed

lemma gives_default_return: "lasting F \<Longrightarrow> gives F gen_default_return (\<lambda>_ _. True)"
  unfolding gen_default_return_def by (intro gives_steps lasting_intros) simp_all

lemma FunctionType_get_params: "FunctionType_get r ps = Inr t \<Longrightarrow> function_param_types t = ps"
  by (auto simp: FunctionType_get_def split: if_splits)

lemma visit_fun_declaration:
  assumes "visit_ok body"
  shows "visit_ok (gen_ASTFunDeclaration ty nm params body)"
  unfolding gen_ASTFunDeclaration_def Let_def
proof (rule visit_okI, rule gives_bind_lift, rule gives_function_head [OF lasting_basic(1)])
  fix t f b
  assume "FunctionType_get (if ty = TYPE_INT then INT32_T else if ty = TYPE_FLOAT then FLOAT_T else VoidTy)
    (map param_type params) = Inr t"
  then have ps: "function_param_types t = map param_type params" by (rule FunctionType_get_params)
  let ?F = "\<lambda>s. fun_params s f (map param_type params) \<and> 0 + length params \<le> length (map param_type params)"
  have "lasting ?F" by (intro lasting_intros)
  note rules = gives_set gives_scope gives_params visit_gives [OF assms] gives_any gives_default_return gives_return this lasting_intros TrueI
  have "gives ?F (thenS (set_insert_point b) (thenS enterS (thenS (gen_params f 0 params) (thenS body
      (bindS insert_block_terminated (\<lambda>t. thenS (if t then returnS () else gen_default_return) exitS)))))) (\<lambda>_ _. True)"
    by (rule gives_then gives_bind_any gives_if rules)+
  then show "gives (\<lambda>s. True \<and> f < nf s \<and> f_type (function_list s ! f) = t)
     (thenS (set_insert_point b) (thenS enterS (thenS (gen_params f 0 params) (thenS body
      (bindS insert_block_terminated (\<lambda>t. thenS (if t then returnS () else gen_default_return) exitS)))))) (\<lambda>_ _. True)"
    by (rule gives_weaken) (auto simp: fun_params_def ps)
qed

lemma visit_program: "visit_ok (gen_ASTProgram (map cg_ASTDeclaration ds))"
  unfolding gen_ASTProgram_def
proof (rule visit_seqS)
  fix m assume "m \<in> set (map cg_ASTDeclaration ds)"
  then obtain d where "m = cg_ASTDeclaration d" by auto
  then show "visit_ok m" by (cases d) (auto intro: visit_var_declaration visit_fun_declaration visit_statements)
qed

lemma gives_Function_create: "gives F (Function_create t nm) (\<lambda>f s. valid_value s (V_Fun f))"
proof (rule givesI)
  fix s f s' assume s: "state_ok s" and c: "Function_create t nm s = Inr (f, s')"
  then have ok: "code_ok s" "held_ok s" by (simp_all add: state_ok_def)
  note g = Function_create_code_ok [OF c ok(1)]
  have "cur_value s' = cur_value s" "scope s' = scope s" using c by (auto simp: Function_create_def bindS_def thenS_def)
  from held_grows [OF ok(2) g(2) this] g(1-3) show "state_ok s' \<and> grows s s' \<and> valid_value s' (V_Fun f)"
    by (simp add: state_ok_def)
qed

lemma gives_bind_function:
  "lasting F \<Longrightarrow> (\<And>f. gives (\<lambda>s. F s \<and> valid_value s (V_Fun f)) (k f) W) \<Longrightarrow> gives F (bindS (Function_create t nm) k) W"
  using gives_bind gives_Function_create by blast

lemma visit_builder: "visit_ok CminusfBuilder_new"
  unfolding CminusfBuilder_new_def
  by (rule visit_okI, intro gives_bind_lift gives_bind_function gives_then gives_scope gives_push lasting_intros) simp_all

lemma initial_state_ok: "state_ok initial_state"
  by (simp add: state_ok_def code_ok_def held_ok_def unnamed_def globals_ok_def initial_state_def new_module_def
      ir_module.defs)

lemma codegen_code_ok:
  assumes "codegen prog = Inr s"
  shows "code_ok s"
proof -
  from assms obtain u s1 v where new: "CminusfBuilder_new initial_state = Inr (u, s1)"
    and decls: "gen_ASTProgram (map cg_ASTDeclaration (declarations prog)) s1 = Inr (v, s)"
    by (auto simp: codegen_def bindR_def thenS_def bindS_def split: sum.splits)
  from givesD [OF visit_builder [unfolded visit_ok_def] initial_state_ok TrueI new] have "state_ok s1" by simp
  from givesD(1) [OF visit_program [unfolded visit_ok_def] this TrueI decls] show ?thesis by (simp add: state_ok_def)
qed

end
