(* ===== verification/Mem2RegCode.thy ===== *)
theory Mem2RegCode
  imports Mem2RegProps CodegenValues
begin

text \<open>
  What renaming and the removal of the variables leave of a module: which instructions stay
  in the blocks, which operands change, and that use lists and operands still agree.
\<close>

section \<open>Steps of the second half of the pass\<close>

definition memory_op :: "'b ir_module_scheme \<Rightarrow> nat \<Rightarrow> bool" where
  "memory_op m i \<longleftrightarrow> is_op I_load m i \<or> is_op I_store m i \<or> is_op I_alloca m i"

text \<open>Only phis get new operands, and only loads are replaced.\<close>

definition loads_redirected :: "'b ir_module_scheme \<Rightarrow> irval use_graph \<Rightarrow> irval use_graph \<Rightarrow> bool" where
  "loads_redirected m g g' \<longleftrightarrow> (\<forall>u. length (operands g u) \<le> length (operands g' u) \<and>
     ((\<forall>i. u = V_Inst i \<longrightarrow> \<not> is_op I_phi m i) \<longrightarrow> length (operands g' u) = length (operands g u)) \<and>
     (\<forall>j < length (operands g u). operands g' u ! j \<noteq> operands g u ! j \<longrightarrow>
        (\<exists>l. operands g u ! j = Some (V_Inst l) \<and> is_op I_load m l)))"

definition code_kept :: "nat set \<Rightarrow> 'b ir_module_scheme \<Rightarrow> 'b ir_module_scheme \<Rightarrow> bool" where
  "code_kept E m m' \<longleftrightarrow> m' = m\<lparr>blocks := blocks m', graph := graph m'\<rparr> \<and> length (blocks m') = length (blocks m) \<and>
     (\<forall>b < length (blocks m). blocks m' ! b = (blocks m ! b)\<lparr>instr_list := filter (\<lambda>i. i \<notin> E) (instr_list (blocks m ! b))\<rparr>) \<and>
     (\<forall>i \<in> E. memory_op m i) \<and> loads_redirected m (graph m) (graph m')"

lemma code_keptD:
  assumes "code_kept E m m'"
  shows "instrs m' = instrs m" "function_list m' = function_list m" "global_list m' = global_list m" "cached_float m' = cached_float m"
    "length (blocks m') = length (blocks m)"
proof -
  from assms obtain bs g where "m' = m\<lparr>blocks := bs, graph := g\<rparr>" unfolding code_kept_def by blast
  then show "instrs m' = instrs m" "function_list m' = function_list m" "global_list m' = global_list m" "cached_float m' = cached_float m"
    by simp_all
  show "length (blocks m') = length (blocks m)" using assms by (simp add: code_kept_def)
qed

lemma is_op_instrs: "instrs m' = instrs m \<Longrightarrow> is_op op m' = is_op op m"
  by (simp add: is_op_def fun_eq_iff)

lemma loads_redirected_refl: "loads_redirected m g g"
  by (simp add: loads_redirected_def)

lemma loads_redirected_trans:
  assumes 1: "loads_redirected m g g1" and 2: "loads_redirected m g1 g2"
  shows "loads_redirected m g g2"
  unfolding loads_redirected_def
proof (intro allI conjI impI)
  fix u
  note u1 = 1 [unfolded loads_redirected_def, rule_format, of u] and u2 = 2 [unfolded loads_redirected_def, rule_format, of u]
  show "length (operands g u) \<le> length (operands g2 u)" using u1 u2 by simp
  show "length (operands g2 u) = length (operands g u)" if "\<forall>i. u = V_Inst i \<longrightarrow> \<not> is_op I_phi m i" using u1 u2 that by simp
  fix j assume j: "j < length (operands g u)" and changed: "operands g2 u ! j \<noteq> operands g u ! j"
  then have "j < length (operands g1 u)" using u1 by simp
  with u1 u2 j changed show "\<exists>l. operands g u ! j = Some (V_Inst l) \<and> is_op I_load m l" by metis
qed

lemma code_kept_trans:
  assumes 1: "code_kept E m m1" and 2: "code_kept F m1 m2"
  shows "code_kept (E \<union> F) m m2"
proof -
  note k1 = code_keptD [OF 1] and k2 = code_keptD [OF 2]
  note ops = is_op_instrs [OF k1(1)]
  have mem: "memory_op m1 = memory_op m" by (simp add: memory_op_def ops fun_eq_iff)
  have red: "loads_redirected m1 = loads_redirected m" by (simp add: loads_redirected_def ops fun_eq_iff)
  obtain bs1 g1 where m1: "m1 = m\<lparr>blocks := bs1, graph := g1\<rparr>" using 1 unfolding code_kept_def by blast
  obtain bs2 g2 where m2: "m2 = m1\<lparr>blocks := bs2, graph := g2\<rparr>" using 2 unfolding code_kept_def by blast
  have b1: "\<And>b. b < length (blocks m) \<Longrightarrow> blocks m1 ! b = (blocks m ! b)\<lparr>instr_list := filter (\<lambda>i. i \<notin> E) (instr_list (blocks m ! b))\<rparr>"
    using 1 by (simp add: code_kept_def)
  have b2: "\<And>b. b < length (blocks m) \<Longrightarrow> blocks m2 ! b = (blocks m1 ! b)\<lparr>instr_list := filter (\<lambda>i. i \<notin> F) (instr_list (blocks m1 ! b))\<rparr>"
    using 2 k1(5) by (simp add: code_kept_def)
  show ?thesis
    unfolding code_kept_def
  proof (intro conjI allI impI)
    show "m2 = m\<lparr>blocks := blocks m2, graph := graph m2\<rparr>" using m1 m2 by simp
    show "length (blocks m2) = length (blocks m)" using k1 k2 by simp
    show "\<forall>i \<in> E \<union> F. memory_op m i" using 1 2 mem by (auto simp: code_kept_def)
    show "loads_redirected m (graph m) (graph m2)"
      by (rule loads_redirected_trans [of m "graph m" "graph m1"]) (use 1 2 red in \<open>simp_all add: code_kept_def\<close>)
    fix b assume b: "b < length (blocks m)"
    show "blocks m2 ! b = (blocks m ! b)\<lparr>instr_list := filter (\<lambda>i. i \<notin> E \<union> F) (instr_list (blocks m ! b))\<rparr>"
      unfolding b2 [OF b] b1 [OF b] by (simp add: conj_commute)
  qed
qed

lemma code_kept_graph:
  "loads_redirected m (graph m) g \<Longrightarrow> code_kept {} m (m\<lparr>graph := g\<rparr>)"
  by (simp add: code_kept_def)

text \<open>
  The state of the module in the second half of the pass: the users in \<open>D\<close> are erased,
  no phi is, and the blocks hold their own instructions.
\<close>

definition uses_kept :: "irval set \<Rightarrow> 'b ir_module_scheme \<Rightarrow> bool" where
  "uses_kept D m \<longleftrightarrow> uses_agree D (graph m) \<and> (\<forall>i. V_Inst i \<in> D \<longrightarrow> i < length (instrs m) \<and> \<not> is_op I_phi m i) \<and>
     (\<forall>b < length (blocks m). \<forall>i \<in> set (instr_list (blocks m ! b)). i < length (instrs m) \<and> i_parent (instrs m ! i) = Some b)"

definition keeps_code :: "'b ir_module_scheme \<Rightarrow> 'b ir_module_scheme \<Rightarrow> bool" where
  "keeps_code m m' \<longleftrightarrow> instrs m' = instrs m \<and> function_list m' = function_list m \<and> length (blocks m') = length (blocks m) \<and>
     (\<forall>b < length (blocks m). set (instr_list (blocks m' ! b)) \<subseteq> set (instr_list (blocks m ! b))) \<and>
     (\<forall>D. uses_kept D m \<longrightarrow> (\<exists>E. code_kept E m m' \<and> uses_kept (D \<union> V_Inst ` E) m'))"

lemma keeps_codeI:
  assumes "m' = m\<lparr>graph := g, blocks := bs\<rparr>" and "length bs = length (blocks m)"
    and "\<And>b. b < length (blocks m) \<Longrightarrow> set (instr_list (bs ! b)) \<subseteq> set (instr_list (blocks m ! b))"
    and "\<And>D. uses_kept D m \<Longrightarrow> \<exists>E. code_kept E m m' \<and> uses_kept (D \<union> V_Inst ` E) m'"
  shows "keeps_code m m'"
  using assms unfolding keeps_code_def by simp

lemma keeps_code_refl: "keeps_code m m"
  unfolding keeps_code_def by (intro conjI allI impI exI [of _ "{}"]) (simp_all add: code_kept_def loads_redirected_refl)

lemma keeps_code_trans:
  assumes 1: "keeps_code m m1" and 2: "keeps_code m1 m2"
  shows "keeps_code m m2"
  unfolding keeps_code_def
proof (intro conjI allI impI)
  fix D assume D: "uses_kept D m"
  from 1 D obtain E where E: "code_kept E m m1" "uses_kept (D \<union> V_Inst ` E) m1" unfolding keeps_code_def by blast
  with 2 obtain F where "code_kept F m1 m2" "uses_kept (D \<union> V_Inst ` E \<union> V_Inst ` F) m2" unfolding keeps_code_def by blast
  with code_kept_trans [OF E(1)] show "\<exists>E. code_kept E m m2 \<and> uses_kept (D \<union> V_Inst ` E) m2"
    by (intro exI [of _ "E \<union> F"]) (simp add: image_Un Un_assoc)
qed (use 1 2 in \<open>simp_all add: keeps_code_def\<close>, blast)

lemma keeps_code_ops:
  assumes "keeps_code m m'"
  shows "is_op op m' = is_op op m" and "memory_op m' = memory_op m" and "instrs m' = instrs m"
  using assms is_op_instrs [of m' m] by (simp_all add: keeps_code_def memory_op_def fun_eq_iff)

lemma keeps_code_graph:
  assumes "\<And>D. uses_kept D m \<Longrightarrow> loads_redirected m (graph m) g \<and> uses_agree D g"
  shows "keeps_code m (m\<lparr>graph := g\<rparr>)"
proof (rule keeps_codeI [where bs = "blocks m"])
  fix D assume D: "uses_kept D m"
  with assms [OF D] show "\<exists>E. code_kept E m (m\<lparr>graph := g\<rparr>) \<and> uses_kept (D \<union> V_Inst ` E) (m\<lparr>graph := g\<rparr>)"
    by (intro exI [of _ "{}"]) (simp add: code_kept_graph uses_kept_def is_op_def)
qed simp_all

lemma replace_all_returned:
  assumes agree: "uses_agree D g" and run: "replace_all_use_with v w g = Some (Inr g')"
  shows "uses_agree D g' \<and> operands g' = redirect (set (use_list g v)) w (operands g)"
proof (cases "v = w")
  case False
  have "g' = replaced v w (use_list g v) [] g"
    using run replace_all_use_with_result [OF False uses_agree_positions [OF agree]] by simp
  then show ?thesis using replaced_agree [OF agree False, of "use_list g v" "[]"] uses_agreeD(1) [OF agree]
    by (simp add: replaced_def)
next
  case True
  have none: "use_list g v = []"
  proof (rule ccontr)
    assume "use_list g v \<noteq> []"
    with replace_all_loop_self [OF run [unfolded replace_all_use_with_def]] True uses_agree_positions [OF agree]
    show False by simp
  qed
  then have "g' = g\<lparr>use_list := (use_list g)(v := [])\<rparr>"
    using run by (simp add: replace_all_use_with_def replace_all_loop.simps)
  with none have "g' = g" by (simp add: fun_upd_idem)
  with none agree show ?thesis by simp
qed

lemma replace_load_keeps:
  assumes "replace_load i v m = Some (Inr m')" and "is_op I_load m i"
  shows "keeps_code m m'"
proof (cases v)
  case None
  with assms(1) have "m' = m" by (simp add: replace_load_def split: if_splits)
  then show ?thesis by (simp add: keeps_code_refl)
next
  case (Some w)
  with assms(1) obtain g where g: "replace_all_use_with (V_Inst i) w (graph m) = Some (Inr g)" "m' = m\<lparr>graph := g\<rparr>"
    by (auto simp: replace_load_def)
  show ?thesis
    unfolding g(2)
  proof (rule keeps_code_graph)
    fix D assume "uses_kept D m"
    then have agree: "uses_agree D (graph m)" by (simp add: uses_kept_def)
    note r = replace_all_returned [OF agree g(1)]
    have "operands (graph m) u ! j = Some (V_Inst i)" if "(u, j) \<in> set (use_list (graph m) (V_Inst i))" for u j
      using uses_agreeD(2) [OF agree] that by blast
    then show "loads_redirected m (graph m) g \<and> uses_agree D g"
      using r assms(2) by (auto simp: loads_redirected_def split: if_splits)
  qed
qed

lemma add_phi_pair_keeps:
  assumes "add_phi_pair_operand (V_Inst i) w x m = Inr ((), m')" and "is_op I_phi m i"
  shows "keeps_code m m'"
proof -
  have m': "m' = m\<lparr>graph := add_operand (V_Inst i) x (add_operand (V_Inst i) w (graph m))\<rparr>"
    using assms(1) by (simp add: add_phi_pair_operand_def)
  show ?thesis
    unfolding m'
  proof (rule keeps_code_graph)
    fix D assume "uses_kept D m"
    then have "uses_agree D (graph m)" "V_Inst i \<notin> D" using assms(2) by (auto simp: uses_kept_def)
    then have "uses_agree D (add_operand (V_Inst i) x (add_operand (V_Inst i) w (graph m)))" by (intro add_operand_agree)
    moreover have "loads_redirected m (graph m) (add_operand (V_Inst i) x (add_operand (V_Inst i) w (graph m)))"
      using assms(2) by (auto simp: loads_redirected_def add_operand_def add_use_def nth_append)
    ultimately show "loads_redirected m (graph m) (add_operand (V_Inst i) x (add_operand (V_Inst i) w (graph m))) \<and>
        uses_agree D (add_operand (V_Inst i) x (add_operand (V_Inst i) w (graph m)))" by blast
  qed
qed

lemma removeAll_as_filter: "removeAll i xs = filter (\<lambda>j. j \<notin> {i}) xs"
  by (induction xs) auto

lemma erase_instr_keeps:
  assumes run: "erase_instr b i m = Inr ((), m')" and i: "memory_op m i" "i_parent (instrs m ! i) = Some b"
  shows "keeps_code m m'"
proof -
  obtain g where g: "remove_use_of_ops (V_Inst i) (graph m) = Inr g"
    and m': "m' = m\<lparr>graph := g, blocks := (blocks m)[b := (blocks m ! b)\<lparr>instr_list := removeAll i (instr_list (blocks m ! b))\<rparr>]\<rparr>"
    using run by (auto simp: erase_instr_def upd_block_def)
  have ops: "operands g = operands (graph m)" using g remove_uses_result by (fastforce simp: remove_use_of_ops_def)
  show ?thesis
  proof (rule keeps_codeI [OF m'])
  fix D assume D: "uses_kept D m"
  have kept: "blocks m' ! c = (blocks m ! c)\<lparr>instr_list := filter (\<lambda>j. j \<notin> {i}) (instr_list (blocks m ! c))\<rparr>"
    if c: "c < length (blocks m)" for c
  proof (cases "c = b")
    case True
    then show ?thesis using c by (simp add: m' removeAll_as_filter)
  next
    case False
    have "i \<notin> set (instr_list (blocks m ! c))" using D c i(2) False by (auto simp: uses_kept_def)
    then have "filter (\<lambda>j. j \<notin> {i}) (instr_list (blocks m ! c)) = instr_list (blocks m ! c)" by (auto simp: filter_id_conv)
    with False show ?thesis by (simp add: m')
  qed
  have "code_kept {i} m m'"
    unfolding code_kept_def
  proof (intro conjI)
    show "loads_redirected m (graph m) (graph m')" by (simp add: m' loads_redirected_def ops)
    show "\<forall>b < length (blocks m). blocks m' ! b = (blocks m ! b)\<lparr>instr_list := filter (\<lambda>j. j \<notin> {i}) (instr_list (blocks m ! b))\<rparr>"
      using kept by blast
  qed (use i(1) m' in simp_all)
  moreover have "uses_kept (D \<union> V_Inst ` {i}) m'"
    unfolding uses_kept_def
  proof (intro conjI)
    show "uses_agree (D \<union> V_Inst ` {i}) (graph m')"
      using remove_use_of_ops_agree [OF _ g] D by (simp add: uses_kept_def m')
    show "\<forall>j. V_Inst j \<in> D \<union> V_Inst ` {i} \<longrightarrow> j < length (instrs m') \<and> \<not> is_op I_phi m' j"
      using D i(1) by (auto simp: uses_kept_def m' is_op_def memory_op_def)
    show "\<forall>c < length (blocks m'). \<forall>j \<in> set (instr_list (blocks m' ! c)). j < length (instrs m') \<and> i_parent (instrs m' ! j) = Some c"
    proof (intro allI impI ballI)
      fix c j assume c: "c < length (blocks m')" and j: "j \<in> set (instr_list (blocks m' ! c))"
      have c': "c < length (blocks m)" using c by (simp add: m')
      then have "j \<in> set (instr_list (blocks m ! c))" using j kept [OF c'] by simp
      with D c' show "j < length (instrs m') \<and> i_parent (instrs m' ! j) = Some c" by (simp add: uses_kept_def m')
    qed
  qed
  ultimately show "\<exists>E. code_kept E m m' \<and> uses_kept (D \<union> V_Inst ` E) m'" by blast
  next
    fix c assume "c < length (blocks m)"
    then show "set (instr_list ((blocks m)[b := (blocks m ! b)\<lparr>instr_list := removeAll i (instr_list (blocks m ! b))\<rparr>] ! c)) \<subseteq>
        set (instr_list (blocks m ! c))" by (cases "c = b") auto
  qed simp
qed

section \<open>The pass\<close>

lemma rename_instrs_keeps:
  "rename_instrs is wait st m = Some (Inr (wait', st', m')) \<Longrightarrow>
   keeps_code m m' \<and> (\<exists>more. wait' = wait @ more \<and> set more \<subseteq> set is \<and> (\<forall>i \<in> set more. memory_op m i))"
proof (induction "is" arbitrary: wait st m)
  case Nil
  then show ?case by (simp add: keeps_code_refl)
next
  case (Cons i "is")
  have more: "\<exists>more. wait' = wait @ more \<and> set more \<subseteq> set (i # is) \<and> (\<forall>i \<in> set more. memory_op m i)"
    if w: "w = wait \<or> w = wait @ [i] \<and> memory_op m i" and "\<exists>more. wait' = w @ more \<and> set more \<subseteq> set is \<and> (\<forall>i \<in> set more. memory_op m i)"
    for w
  proof -
    from that(2) obtain mr where mr: "wait' = w @ mr" "set mr \<subseteq> set is" "\<forall>i \<in> set mr. memory_op m i" by blast
    from w show ?thesis
    proof
      assume "w = wait"
      with mr show ?thesis by (intro exI [of _ mr]) auto
    next
      assume "w = wait @ [i] \<and> memory_op m i"
      with mr show ?thesis by (intro exI [of _ "i # mr"]) auto
    qed
  qed
  from Cons.prems consider
    (load) m1 v w where "is_op I_load m i" "replace_load i v m = Some (Inr m1)" "rename_instrs is (wait @ [i]) w m1 = Some (Inr (wait', st', m'))"
  | (store) w where "is_op I_store m i" "rename_instrs is (wait @ [i]) w m = Some (Inr (wait', st', m'))"
  | (other) w where "rename_instrs is wait w m = Some (Inr (wait', st', m'))"
    by (auto split: if_splits)
  then show ?case
  proof cases
    case load
    have k: "keeps_code m m1" by (rule replace_load_keeps [OF load(2,1)])
    from Cons.IH [OF load(3)] keeps_code_trans [OF k] keeps_code_ops [OF k] more [of "wait @ [i]"] load(1)
    show ?thesis by (simp add: memory_op_def)
  next
    case store
    from Cons.IH [OF store(2)] more [of "wait @ [i]"] store(1) show ?thesis by (simp add: memory_op_def)
  next
    case other
    from Cons.IH [OF other] more [of wait] show ?thesis by simp
  qed
qed

lemma fill_block_keeps: "fill_block b is st m = Inr m' \<Longrightarrow> keeps_code m m'"
proof (induction "is" arbitrary: m)
  case Nil
  then show ?case by (simp add: keeps_code_refl)
next
  case (Cons i "is")
  show ?case
  proof (cases "is_op I_phi m i \<and> st (get_lval m i) \<noteq> None")
    case True
    with Cons.prems obtain w m1 where m1: "add_phi_pair_operand (V_Inst i) w (V_Block b) m = Inr ((), m1)" "fill_block b is st m1 = Inr m'"
      by (auto split: if_splits)
    from keeps_code_trans [OF add_phi_pair_keeps [OF m1(1)] Cons.IH [OF m1(2)]] True show ?thesis by blast
  next
    case False
    with Cons.prems have "fill_block b is st m = Inr m'" by (simp only: fill_block.simps if_False)
    then show ?thesis by (rule Cons.IH)
  qed
qed

lemma fill_phis_keeps: "fill_phis b ss st m = Inr m' \<Longrightarrow> keeps_code m m'"
proof (induction ss arbitrary: m)
  case (Cons s ss)
  then obtain m1 where "fill_block b (instr_list (blocks m ! s)) st m = Inr m1" "fill_phis b ss st m1 = Inr m'" by auto
  with Cons.IH keeps_code_trans fill_block_keeps show ?case by blast
qed (simp add: keeps_code_refl)

lemma erase_list_keeps:
  "seqS (map (erase_instr b) is) m = Inr ((), m') \<Longrightarrow>
   \<forall>i \<in> set is. memory_op m i \<and> i_parent (instrs m ! i) = Some b \<Longrightarrow> keeps_code m m'"
proof (induction "is" arbitrary: m)
  case (Cons i "is")
  then obtain m1 where m1: "erase_instr b i m = Inr ((), m1)" "seqS (map (erase_instr b) is) m1 = Inr ((), m')" by auto
  have k: "keeps_code m m1" by (rule erase_instr_keeps [OF m1(1)]) (use Cons.prems(2) in simp_all)
  have "keeps_code m1 m'" by (rule Cons.IH [OF m1(2)]) (use Cons.prems(2) keeps_code_ops [OF k] in simp)
  with k show ?case by (rule keeps_code_trans)
qed (simp add: keeps_code_refl)

definition blocks_hold :: "'b ir_module_scheme \<Rightarrow> bool" where
  "blocks_hold m \<longleftrightarrow> (\<forall>b < length (blocks m). \<forall>i \<in> set (instr_list (blocks m ! b)). i_parent (instrs m ! i) = Some b)"

definition tree_inside :: "(nat option \<Rightarrow> nat list) \<Rightarrow> 'b ir_module_scheme \<Rightarrow> bool" where
  "tree_inside tree m \<longleftrightarrow> (\<forall>b. \<forall>c \<in> set (tree (Some b)). c < length (blocks m))"

lemma keeps_code_frame:
  assumes "keeps_code m m'"
  shows "blocks_hold m \<Longrightarrow> blocks_hold m'" and "tree_inside tree m' \<longleftrightarrow> tree_inside tree m"
    and "length (blocks m') = length (blocks m)"
  using assms by (auto simp: keeps_code_def blocks_hold_def tree_inside_def subset_iff)

lemma enter_block_keeps:
  assumes "enter_block b s = Some (Inr (wait, s'))"
  shows "keeps_code (snd s) (snd s') \<and> set wait \<subseteq> set (instr_list (blocks (snd s) ! b)) \<and> (\<forall>i \<in> set wait. memory_op (snd s) i)"
proof -
  let ?is = "instr_list (blocks (snd s) ! b)"
  from assms obtain st m1 m2 where ren: "rename_instrs ?is [] (push_phis (snd s) ?is (fst s)) (snd s) = Some (Inr (wait, st, m1))"
    and fill: "fill_phis b (succ_bbs (blocks m1 ! b)) st m1 = Inr m2" and s': "s' = (st, m2)"
    by (auto simp: enter_block_def Let_def)
  from rename_instrs_keeps [OF ren] keeps_code_trans fill_phis_keeps [OF fill] s' show ?thesis by auto
qed

lemma leave_block_keeps:
  assumes "leave_block b wait s = Some (Inr s')" and "\<forall>i \<in> set wait. memory_op (snd s) i \<and> i_parent (instrs (snd s) ! i) = Some b"
  shows "keeps_code (snd s) (snd s')"
proof -
  from assms(1) obtain st m where "seqS (map (erase_instr b) wait) (snd s) = Inr ((), m)" "s' = (st, m)"
    by (auto simp: leave_block_def)
  with erase_list_keeps assms(2) show ?thesis by auto
qed

lemma foldP_keeps:
  assumes "foldP f xs s = Some (Inr s')"
    and "\<And>x s s'. x \<in> set xs \<Longrightarrow> f x s = Some (Inr s') \<Longrightarrow> blocks_hold (snd s) \<Longrightarrow> tree_inside tree (snd s) \<Longrightarrow> x < B (snd s) \<Longrightarrow>
      keeps_code (snd s) (snd s')"
    and "blocks_hold (snd s)" and "tree_inside tree (snd s)" and "\<forall>x \<in> set xs. x < B (snd s)"
    and "\<And>m m'. keeps_code m m' \<Longrightarrow> B m' = B m"
  shows "keeps_code (snd s) (snd s')"
  using assms(1,2,3-5)
proof (induction xs arbitrary: s)
  case Nil
  then show ?case by (simp add: keeps_code_refl)
next
  case (Cons x xs)
  obtain s1 where s1: "f x s = Some (Inr s1)" "foldP f xs s1 = Some (Inr s')" using Cons.prems(1) by auto
  have k: "keeps_code (snd s) (snd s1)" by (rule Cons.prems(2) [OF _ s1(1)]) (use Cons.prems in simp_all)
  have "keeps_code (snd s1) (snd s')"
  proof (rule Cons.IH [OF s1(2)])
    show "keeps_code (snd t) (snd t')" if "y \<in> set xs" "f y t = Some (Inr t')" "blocks_hold (snd t)" "tree_inside tree (snd t)"
        "y < B (snd t)" for y t t'
      using Cons.prems(2) [of y t t'] that by simp
  qed (use Cons.prems(3-5) keeps_code_frame [OF k] assms(6) [OF k] in auto)
  with k show ?case by (rule keeps_code_trans)
qed

lemma re_name_keeps:
  assumes "re_name tree b s = Some (Inr s')" and "blocks_hold (snd s)" and "tree_inside tree (snd s)" and "b < length (blocks (snd s))"
  shows "keeps_code (snd s) (snd s')"
proof -
  have "\<forall>s'. r = Inr s' \<longrightarrow> blocks_hold (snd s) \<longrightarrow> tree_inside tree (snd s) \<longrightarrow> b < length (blocks (snd s)) \<longrightarrow> keeps_code (snd s) (snd s')"
    if "re_name tree b s = Some r" for r
  proof (rule re_name.raw_induct [OF _ that], intro allI impI)
    fix rec :: "(nat option \<Rightarrow> nat list) \<Rightarrow> nat \<Rightarrow> val_stack \<times> 'a ir_module_scheme \<Rightarrow> (val_stack \<times> 'a ir_module_scheme) run"
      and tree b s r s'
    assume IH: "\<And>tree b s r. rec tree b s = Some r \<Longrightarrow> \<forall>s'. r = Inr s' \<longrightarrow> blocks_hold (snd s) \<longrightarrow> tree_inside tree (snd s) \<longrightarrow>
        b < length (blocks (snd s)) \<longrightarrow> keeps_code (snd s) (snd s')"
      and body: "bindP (enter_block b s) (\<lambda>r. bindP (foldP (\<lambda>c t. rec tree c t) (tree (Some b)) (snd r)) (\<lambda>t. leave_block b (fst r) t)) = Some r"
      and r: "r = Inr s'" and hold: "blocks_hold (snd s)" and tree: "tree_inside tree (snd s)" and b: "b < length (blocks (snd s))"
    obtain wait s1 s2 where s1: "enter_block b s = Some (Inr (wait, s1))" and s2: "foldP (\<lambda>c t. rec tree c t) (tree (Some b)) s1 = Some (Inr s2)"
      and leave: "leave_block b wait s2 = Some (Inr s')" using body r by auto
    note e = enter_block_keeps [OF s1]
    have k1: "keeps_code (snd s) (snd s1)" using e by blast
    note f1 = keeps_code_frame [OF k1]
    have k2: "keeps_code (snd s1) (snd s2)"
    proof (rule foldP_keeps [OF s2, where tree = tree and B = "\<lambda>m. length (blocks m)"])
      show "keeps_code (snd s) (snd s')" if "rec tree c s = Some (Inr s')" "blocks_hold (snd s)" "tree_inside tree (snd s)"
          "c < length (blocks (snd s))" for c s s' using IH [OF that(1)] that(2-4) by blast
      show "\<forall>c \<in> set (tree (Some b)). c < length (blocks (snd s1))" using tree f1(3) by (simp add: tree_inside_def)
    qed (use f1 hold tree keeps_code_frame in auto)
    have k12: "keeps_code (snd s) (snd s2)" by (rule keeps_code_trans [OF k1 k2])
    have "keeps_code (snd s2) (snd s')"
      by (rule leave_block_keeps [OF leave]) (use e hold b keeps_code_ops [OF k12] in \<open>auto simp: blocks_hold_def\<close>)
    with k12 show "keeps_code (snd s) (snd s')" by (rule keeps_code_trans)
  qed
  with assms show ?thesis by blast
qed

section \<open>Both halves\<close>

text \<open>
  The module after phis were put at the heads of its blocks and the instructions in \<open>E\<close>
  were erased.
\<close>

definition old_operands_kept :: "'b ir_module_scheme \<Rightarrow> 'b ir_module_scheme \<Rightarrow> bool" where
  "old_operands_kept m m' \<longleftrightarrow> (\<forall>u. (\<forall>i. u = V_Inst i \<longrightarrow> i < length (instrs m)) \<longrightarrow>
     length (operands (graph m) u) \<le> length (operands (graph m') u) \<and>
     ((\<forall>i. u = V_Inst i \<longrightarrow> \<not> is_op I_phi m i) \<longrightarrow> length (operands (graph m') u) = length (operands (graph m) u)) \<and>
     (\<forall>j < length (operands (graph m) u). operands (graph m') u ! j \<noteq> operands (graph m) u ! j \<longrightarrow>
        (\<exists>l. operands (graph m) u ! j = Some (V_Inst l) \<and> is_op I_load m l)))"

definition promoted :: "nat set \<Rightarrow> 'b ir_module_scheme \<Rightarrow> 'b ir_module_scheme \<Rightarrow> bool" where
  "promoted E m m' \<longleftrightarrow> m' = m\<lparr>instrs := instrs m', blocks := blocks m', graph := graph m'\<rparr> \<and>
     (\<exists>new. instrs m' = instrs m @ new \<and> (\<forall>x \<in> set new. i_op x = I_phi)) \<and> length (blocks m') = length (blocks m) \<and>
     (\<forall>b < length (blocks m). \<exists>phis. set phis \<subseteq> {length (instrs m)..<length (instrs m')} \<and>
        blocks m' ! b = (blocks m ! b)\<lparr>instr_list := phis @ filter (\<lambda>i. i \<notin> E) (instr_list (blocks m ! b))\<rparr>) \<and>
     (\<forall>i \<in> E. memory_op m i) \<and> old_operands_kept m m'"

lemma promotedD:
  assumes "promoted E m m'"
  shows "function_list m' = function_list m" "global_list m' = global_list m" "cached_float m' = cached_float m"
    "length (blocks m') = length (blocks m)" "length (instrs m) \<le> length (instrs m')"
    "i < length (instrs m) \<Longrightarrow> instrs m' ! i = instrs m ! i"
    "length (instrs m) \<le> i \<Longrightarrow> i < length (instrs m') \<Longrightarrow> i_op (instrs m' ! i) = I_phi"
proof -
  from assms obtain ns bs g where "m' = m\<lparr>instrs := ns, blocks := bs, graph := g\<rparr>" unfolding promoted_def by blast
  then show "function_list m' = function_list m" "global_list m' = global_list m" "cached_float m' = cached_float m" by simp_all
  from assms obtain new where new: "instrs m' = instrs m @ new" "\<forall>x \<in> set new. i_op x = I_phi" unfolding promoted_def by blast
  then show "length (instrs m) \<le> length (instrs m')" "i < length (instrs m) \<Longrightarrow> instrs m' ! i = instrs m ! i"
    "length (instrs m) \<le> i \<Longrightarrow> i < length (instrs m') \<Longrightarrow> i_op (instrs m' ! i) = I_phi" by (simp_all add: nth_append)
  show "length (blocks m') = length (blocks m)" using assms by (simp add: promoted_def)
qed

lemma promoted_ops:
  assumes "promoted E m m'" and "op \<noteq> I_phi"
  shows "is_op op m' i \<longleftrightarrow> is_op op m i"
  using promotedD(5) [OF assms(1)] promotedD(6,7) [OF assms(1), of i] assms(2) by (cases "i < length (instrs m)") (auto simp: is_op_def)

lemma promoted_phi: "promoted E m m' \<Longrightarrow> i < length (instrs m) \<Longrightarrow> is_op I_phi m' i \<longleftrightarrow> is_op I_phi m i"
  using promotedD(5) [of E m m'] promotedD(6) [of E m m' i] by (simp add: is_op_def)

lemma promoted_memory:
  assumes "promoted E m m'"
  shows "memory_op m' i \<longleftrightarrow> memory_op m i"
  using promoted_ops [OF assms] by (simp add: memory_op_def)

lemma promoted_refl: "promoted {} m m"
  by (simp add: promoted_def old_operands_kept_def)

lemma code_kept_promoted:
  assumes "code_kept E m m'"
  shows "promoted E m m'"
proof -
  note k = code_keptD [OF assms]
  show ?thesis unfolding promoted_def
  proof (intro conjI allI impI)
    have "m' = m\<lparr>blocks := blocks m', graph := graph m'\<rparr>" using assms by (simp add: code_kept_def)
    with k(1) show "m' = m\<lparr>instrs := instrs m', blocks := blocks m', graph := graph m'\<rparr>" by simp
    show "old_operands_kept m m'" using assms by (simp add: code_kept_def old_operands_kept_def loads_redirected_def)
    fix b assume "b < length (blocks m)"
    with assms show "\<exists>phis. set phis \<subseteq> {length (instrs m)..<length (instrs m')} \<and>
        blocks m' ! b = (blocks m ! b)\<lparr>instr_list := phis @ filter (\<lambda>i. i \<notin> E) (instr_list (blocks m ! b))\<rparr>"
      by (intro exI [of _ "[]"]) (simp add: code_kept_def)
  qed (use assms k in \<open>auto simp: code_kept_def\<close>)
qed

lemma old_operands_trans:
  assumes p: "promoted E m m1" and 1: "old_operands_kept m m1" and 2: "old_operands_kept m1 m2"
  shows "old_operands_kept m m2"
  unfolding old_operands_kept_def
proof (intro allI impI)
  fix u assume u: "\<forall>i. u = V_Inst i \<longrightarrow> i < length (instrs m)"
  then have u': "\<forall>i. u = V_Inst i \<longrightarrow> i < length (instrs m1)" using promotedD(5) [OF p] by auto
  note u1 = 1 [unfolded old_operands_kept_def, rule_format, of u] and u2 = 2 [unfolded old_operands_kept_def, rule_format, of u]
  have phi: "is_op I_phi m1 i \<longleftrightarrow> is_op I_phi m i" if "u = V_Inst i" for i using promoted_phi [OF p] u that by blast
  show "length (operands (graph m) u) \<le> length (operands (graph m2) u) \<and>
     ((\<forall>i. u = V_Inst i \<longrightarrow> \<not> is_op I_phi m i) \<longrightarrow> length (operands (graph m2) u) = length (operands (graph m) u)) \<and>
     (\<forall>j < length (operands (graph m) u). operands (graph m2) u ! j \<noteq> operands (graph m) u ! j \<longrightarrow>
        (\<exists>l. operands (graph m) u ! j = Some (V_Inst l) \<and> is_op I_load m l))"
  proof (intro conjI allI impI)
    show "length (operands (graph m) u) \<le> length (operands (graph m2) u)" using u1 u2 u u' by simp
    show "length (operands (graph m2) u) = length (operands (graph m) u)" if "\<forall>i. u = V_Inst i \<longrightarrow> \<not> is_op I_phi m i"
      using u1 u2 u u' that phi by auto
    fix j assume j: "j < length (operands (graph m) u)" and changed: "operands (graph m2) u ! j \<noteq> operands (graph m) u ! j"
    then have j1: "j < length (operands (graph m1) u)" using u1 u by simp
    show "\<exists>l. operands (graph m) u ! j = Some (V_Inst l) \<and> is_op I_load m l"
    proof (cases "operands (graph m1) u ! j = operands (graph m) u ! j")
      case True
      with u2 u' j1 changed obtain l where l: "operands (graph m1) u ! j = Some (V_Inst l)" "is_op I_load m1 l" by metis
      have "is_op I_load m l" using promoted_ops [OF p, of I_load l] l(2) by simp
      with l(1) True show ?thesis by metis
    qed (use u1 u j in blast)
  qed
qed

lemma promoted_trans:
  assumes 1: "promoted E m m1" and 2: "promoted F m1 m2"
  shows "promoted (E \<union> F) m m2"
proof -
  note p1 = promotedD [OF 1] and p2 = promotedD [OF 2]
  obtain is1 bs1 g1 where m1: "m1 = m\<lparr>instrs := is1, blocks := bs1, graph := g1\<rparr>" using 1 unfolding promoted_def by blast
  obtain is2 bs2 g2 where m2: "m2 = m1\<lparr>instrs := is2, blocks := bs2, graph := g2\<rparr>" using 2 unfolding promoted_def by blast
  obtain new1 where n1: "instrs m1 = instrs m @ new1" "\<forall>x \<in> set new1. i_op x = I_phi" using 1 unfolding promoted_def by blast
  obtain new2 where n2: "instrs m2 = instrs m1 @ new2" "\<forall>x \<in> set new2. i_op x = I_phi" using 2 unfolding promoted_def by blast
  show ?thesis
    unfolding promoted_def
  proof (intro conjI allI impI)
    show "m2 = m\<lparr>instrs := instrs m2, blocks := blocks m2, graph := graph m2\<rparr>" using m1 m2 by simp
    show "\<exists>new. instrs m2 = instrs m @ new \<and> (\<forall>x \<in> set new. i_op x = I_phi)"
      using n1 n2 by (intro exI [of _ "new1 @ new2"]) auto
    show "length (blocks m2) = length (blocks m)" using p1 p2 by simp
    show "\<forall>i \<in> E \<union> F. memory_op m i" using 1 2 promoted_memory [OF 1] by (auto simp: promoted_def)
    show "old_operands_kept m m2" by (rule old_operands_trans [OF 1]) (use 1 2 in \<open>simp_all add: promoted_def\<close>)
    fix b assume b: "b < length (blocks m)"
    obtain ps1 where ps1: "set ps1 \<subseteq> {length (instrs m)..<length (instrs m1)}"
      "blocks m1 ! b = (blocks m ! b)\<lparr>instr_list := ps1 @ filter (\<lambda>i. i \<notin> E) (instr_list (blocks m ! b))\<rparr>"
      using 1 b unfolding promoted_def by blast
    obtain ps2 where ps2: "set ps2 \<subseteq> {length (instrs m1)..<length (instrs m2)}"
      "blocks m2 ! b = (blocks m1 ! b)\<lparr>instr_list := ps2 @ filter (\<lambda>i. i \<notin> F) (instr_list (blocks m1 ! b))\<rparr>"
      using 2 b p1(4) unfolding promoted_def by metis
    have "\<not> memory_op m1 i" if "i \<in> set ps1" for i
    proof -
      have "length (instrs m) \<le> i" "i < length (instrs m1)" using ps1(1) that by fastforce+
      from p1(7) [OF this] show ?thesis by (simp add: memory_op_def is_op_def)
    qed
    then have "\<forall>i \<in> set ps1. i \<notin> F" using 2 unfolding promoted_def by blast
    then have "filter (\<lambda>i. i \<notin> F) ps1 = ps1" by (simp add: filter_id_conv)
    then have "blocks m2 ! b = (blocks m ! b)\<lparr>instr_list := (ps2 @ ps1) @ filter (\<lambda>i. i \<notin> E \<union> F) (instr_list (blocks m ! b))\<rparr>"
      unfolding ps2(2) ps1(2) by (simp add: conj_commute)
    moreover have "set (ps2 @ ps1) \<subseteq> {length (instrs m)..<length (instrs m2)}" using ps1(1) ps2(1) p1(5) p2(5) by fastforce
    ultimately show "\<exists>phis. set phis \<subseteq> {length (instrs m)..<length (instrs m2)} \<and>
        blocks m2 ! b = (blocks m ! b)\<lparr>instr_list := phis @ filter (\<lambda>i. i \<notin> E \<union> F) (instr_list (blocks m ! b))\<rparr>" by blast
  qed
qed

definition pass_state :: "irval set \<Rightarrow> 'b ir_module_scheme \<Rightarrow> bool" where
  "pass_state D m \<longleftrightarrow> uses_kept D m \<and> fresh_users m"

definition promotes :: "'b ir_module_scheme \<Rightarrow> 'b ir_module_scheme \<Rightarrow> bool" where
  "promotes m m' \<longleftrightarrow> (\<forall>D. pass_state D m \<longrightarrow> (\<exists>E. promoted E m m' \<and> pass_state (D \<union> V_Inst ` E) m'))"

lemma promotes_refl: "promotes m m"
  unfolding promotes_def by (intro allI impI exI [of _ "{}"]) (simp add: promoted_refl)

lemma promotes_trans:
  assumes "promotes m m1" and "promotes m1 m2"
  shows "promotes m m2"
  unfolding promotes_def
proof (intro allI impI)
  fix D assume D: "pass_state D m"
  from assms(1) D obtain E where E: "promoted E m m1" "pass_state (D \<union> V_Inst ` E) m1" unfolding promotes_def by blast
  with assms(2) obtain F where "promoted F m1 m2" "pass_state (D \<union> V_Inst ` E \<union> V_Inst ` F) m2" unfolding promotes_def by blast
  with promoted_trans [OF E(1)] show "\<exists>E. promoted E m m2 \<and> pass_state (D \<union> V_Inst ` E) m2"
    by (intro exI [of _ "E \<union> F"]) (simp add: image_Un Un_assoc)
qed

lemma promotesD: "promotes m m' \<Longrightarrow> pass_state D m \<Longrightarrow> \<exists>E. promoted E m m' \<and> pass_state (D \<union> V_Inst ` E) m'"
  unfolding promotes_def by blast

lemma keeps_code_promotes:
  assumes k: "keeps_code m m'"
  shows "promotes m m'"
  unfolding promotes_def
proof (intro allI impI)
  fix D assume D: "pass_state D m"
  with k obtain E where E: "code_kept E m m'" "uses_kept (D \<union> V_Inst ` E) m'" unfolding keeps_code_def pass_state_def by blast
  have "fresh_users m'"
    unfolding fresh_users_def
  proof (intro allI impI)
    fix i assume "length (instrs m') \<le> i"
    then have i: "length (instrs m) \<le> i" using code_keptD(1) [OF E(1)] by simp
    then have "length (operands (graph m') (V_Inst i)) = length (operands (graph m) (V_Inst i))"
      using E(1) by (simp add: code_kept_def loads_redirected_def is_op_def)
    with D i show "operands (graph m') (V_Inst i) = []" by (simp add: pass_state_def fresh_users_def)
  qed
  with E code_kept_promoted show "\<exists>E. promoted E m m' \<and> pass_state (D \<union> V_Inst ` E) m'" unfolding pass_state_def by blast
qed

lemma insert_phi_promotes:
  assumes run: "insert_phi v b m = Inr ((), m')"
  shows "promotes m m'"
  unfolding promotes_def
proof (intro allI impI exI [of _ "{}"] conjI)
  fix D assume D: "pass_state D m"
  let ?n = "length (instrs m)"
  let ?bs = "(blocks m)[b := (blocks m ! b)\<lparr>instr_list := ?n # instr_list (blocks m ! b)\<rparr>]"
  have graph: "new_user (V_Inst ?n) 0 (graph m) = graph m"
    using D by (simp add: pass_state_def new_user_def fresh_users_def fun_upd_idem)
  obtain t w where "m' = m\<lparr>instrs := instrs m @ [\<lparr>i_type = t, i_op = I_phi, i_data = X_LVal w, i_parent = Some b, i_name = []\<rparr>], blocks := ?bs\<rparr>"
    using run graph by (auto simp: insert_phi_def create_phi_def new_instruction_def set_lval_def add_instr_begin_def upd_block_def)
  then obtain i where m': "m' = m\<lparr>instrs := instrs m @ [i], blocks := ?bs\<rparr>" and i: "i_op i = I_phi" "i_parent i = Some b" by fastforce
  have at: "\<exists>phis. set phis \<subseteq> {?n..<Suc ?n} \<and> ?bs ! c = (blocks m ! c)\<lparr>instr_list := phis @ instr_list (blocks m ! c)\<rparr> \<and> (phis \<noteq> [] \<longrightarrow> c = b)"
    if "c < length (blocks m)" for c
    using that by (intro exI [of _ "if c = b then [?n] else []"]) auto
  have "\<exists>phis. set phis \<subseteq> {?n..<Suc ?n} \<and> ?bs ! c = (blocks m ! c)\<lparr>instr_list := phis @ filter (\<lambda>i. i \<notin> {}) (instr_list (blocks m ! c))\<rparr>"
    if "c < length (blocks m)" for c using at [OF that] by auto
  then show "promoted {} m m'" using i(1) by (simp add: promoted_def m' old_operands_kept_def)
  have "j < Suc ?n \<and> i_parent ((instrs m @ [i]) ! j) = Some c" if c: "c < length (blocks m)" and j: "j \<in> set (instr_list (?bs ! c))" for c j
  proof -
    obtain phis where phis: "set phis \<subseteq> {?n..<Suc ?n}" "?bs ! c = (blocks m ! c)\<lparr>instr_list := phis @ instr_list (blocks m ! c)\<rparr>"
      "phis \<noteq> [] \<longrightarrow> c = b" using at [OF c] by blast
    show ?thesis
    proof (cases "j \<in> set phis")
      case True
      then have "j = ?n" "c = b" using phis(1,3) by fastforce+
      with i(2) show ?thesis by simp
    next
      case False
      then have "j \<in> set (instr_list (blocks m ! c))" using j phis(2) by simp
      then have "i_parent (instrs m ! j) = Some c \<and> j < ?n" using D c by (simp add: pass_state_def uses_kept_def)
      then show ?thesis by (simp add: nth_append)
    qed
  qed
  then show "pass_state (D \<union> V_Inst ` {}) m'"
    using D by (auto simp: pass_state_def uses_kept_def m' is_op_def nth_append fresh_users_def)
qed

lemma phi_frontier_promotes: "phi_frontier v bs s = Inr s' \<Longrightarrow> promotes (phi_module s) (phi_module s')"
proof (induction v bs s rule: phi_frontier.induct)
  case (2 v b bs work has m)
  show ?case
  proof (cases "b \<in> set has")
    case True
    with 2 show ?thesis by (simp add: phi_module_def)
  next
    case False
    with "2.prems" obtain m1 where m1: "insert_phi v b m = Inr ((), m1)"
      "phi_frontier v bs (work @ [b], has @ [b], m1) = Inr s'" by auto
    from promotes_trans [OF insert_phi_promotes [OF m1(1)]] "2.IH"(2) [OF False m1(1) refl m1(2)] show ?thesis
      by (simp add: phi_module_def)
  qed
qed (simp add: promotes_refl)

lemma phi_loop_promotes:
  assumes "phi_loop df v s = Some (Inr s')"
  shows "promotes (phi_module s) (phi_module s')"
proof -
  have "\<forall>s'. r = Inr s' \<longrightarrow> promotes (phi_module s) (phi_module s')" if "phi_loop df v s = Some r" for r
  proof (rule phi_loop.raw_induct [OF _ that], intro allI impI)
    fix rec :: "(nat option \<Rightarrow> nat list) \<Rightarrow> irval option \<Rightarrow> 'a phi_state \<Rightarrow> 'a phi_state run" and df v s r s'
    assume IH: "\<And>df v s r. rec df v s = Some r \<Longrightarrow> \<forall>s'. r = Inr s' \<longrightarrow> promotes (phi_module s) (phi_module s')"
      and body: "(case fst s of [] \<Rightarrow> returnP s | b # rest \<Rightarrow> bindP (Some (phi_frontier v (df (Some b)) (rest, snd s))) (rec df v)) = Some r"
      and r: "r = Inr s'"
    show "promotes (phi_module s) (phi_module s')"
    proof (cases "fst s")
      case Nil
      with body r show ?thesis by (simp add: promotes_refl)
    next
      case (Cons b rest)
      with body r obtain s1 where s1: "phi_frontier v (df (Some b)) (rest, snd s) = Inr s1" "rec df v s1 = Some (Inr s')" by auto
      from promotes_trans [OF phi_frontier_promotes [OF s1(1)]] IH [OF s1(2)] show ?thesis by (simp add: phi_module_def)
    qed
  qed
  with assms show ?thesis by blast
qed

lemma foldP_promotes:
  "foldP f xs m = Some (Inr m') \<Longrightarrow> (\<And>x m m'. x \<in> set xs \<Longrightarrow> f x m = Some (Inr m') \<Longrightarrow> promotes m m') \<Longrightarrow> promotes m m'"
proof (induction xs arbitrary: m)
  case (Cons x xs)
  then obtain m1 where m1: "f x m = Some (Inr m1)" "foldP f xs m1 = Some (Inr m')" by auto
  have "promotes m1 m'"
  proof (rule Cons.IH [OF m1(2)])
    show "promotes a b" if "y \<in> set xs" "f y a = Some (Inr b)" for y a b using Cons.prems(2) [of y a b] that by simp
  qed
  with Cons.prems(2) [OF _ m1(1)] promotes_trans show ?case by auto
qed (simp add: promotes_refl)

lemma generate_phi_promotes:
  assumes "generate_phi address df f m = Some (Inr m')"
  shows "promotes m m'"
proof -
  from assms obtain lv where lv: "live_blocks m (basic_blocks (function_list m ! f)) new_live_vars = Inr lv"
    by (auto simp: generate_phi_def)
  with assms have fold: "foldP (\<lambda>v m. bindP (phi_loop df v (live_var_2blocks lv v, [], m)) (\<lambda>(_, _, m). returnP m))
      (sort_key address (global_live_var_name lv)) m = Some (Inr m')" by (simp add: generate_phi_def)
  show ?thesis
  proof (rule foldP_promotes [OF fold])
    fix v m m' assume "bindP (phi_loop df v (live_var_2blocks lv v, [], m)) (\<lambda>(_, _, m). returnP m) = Some (Inr m')"
    then obtain s where "phi_loop df v (live_var_2blocks lv v, [], m) = Some (Inr s)" "phi_module s = m'" by (auto simp: phi_module_def)
    with phi_loop_promotes show "promotes m m'" by (fastforce simp: phi_module_def)
  qed
qed

lemma seqS_keeps:
  "seqS (map g xs) m = Inr ((), m') \<Longrightarrow> (\<And>x m m'. x \<in> set xs \<Longrightarrow> g x m = Inr ((), m') \<Longrightarrow> blocks_hold m \<Longrightarrow> n = length (blocks m) \<Longrightarrow> keeps_code m m') \<Longrightarrow>
   blocks_hold m \<Longrightarrow> n = length (blocks m) \<Longrightarrow> keeps_code m m'"
proof (induction xs arbitrary: m)
  case (Cons x xs)
  then obtain m1 where m1: "g x m = Inr ((), m1)" "seqS (map g xs) m1 = Inr ((), m')" by auto
  have k: "keeps_code m m1" by (rule Cons.prems(2) [OF _ m1(1) Cons.prems(3,4)]) simp
  have "keeps_code m1 m'"
  proof (rule Cons.IH [OF m1(2)])
    show "keeps_code a b" if "y \<in> set xs" "g y a = Inr ((), b)" "blocks_hold a" "n = length (blocks a)" for y a b
      using Cons.prems(2) [of y a b] that by simp
  qed (use keeps_code_frame [OF k] Cons.prems in auto)
  with k show ?case by (rule keeps_code_trans)
qed (simp add: keeps_code_refl)

lemma remove_alloca_keeps:
  assumes "remove_alloca f m = Inr ((), m')" and "blocks_hold m"
    and "\<forall>b \<in> set (basic_blocks (function_list m ! f)). b < length (blocks m)"
  shows "keeps_code m m'"
proof (rule seqS_keeps [where g = remove_alloca_block and xs = "basic_blocks (function_list m ! f)" and n = "length (blocks m)"])
  show "seqS (map remove_alloca_block (basic_blocks (function_list m ! f))) m = Inr ((), m')"
    using assms(1) by (simp add: remove_alloca_def bindS_def getS_def)
  fix b a a' assume b: "b \<in> set (basic_blocks (function_list m ! f))" and run: "remove_alloca_block b a = Inr ((), a')"
    and hold: "blocks_hold a" and n: "length (blocks m) = length (blocks a)"
  show "keeps_code a a'"
  proof (rule erase_list_keeps)
    show "seqS (map (erase_instr b) (filter (scalar_alloca a) (instr_list (blocks a ! b)))) a = Inr ((), a')"
      using run by (simp add: remove_alloca_block_def bindS_def getS_def)
    show "\<forall>i \<in> set (filter (scalar_alloca a) (instr_list (blocks a ! b))). memory_op a i \<and> i_parent (instrs a ! i) = Some b"
      using b n hold assms(3) by (auto simp: blocks_hold_def scalar_alloca_def memory_op_def)
  qed
qed (use assms in simp_all)

lemma pass_state_hold: "pass_state D m \<Longrightarrow> blocks_hold m"
  by (simp add: pass_state_def uses_kept_def blocks_hold_def)

text \<open>The functions of a module have their blocks in the module.\<close>

definition functions_inside :: "'b ir_module_scheme \<Rightarrow> bool" where
  "functions_inside m \<longleftrightarrow> (\<forall>f < length (function_list m). \<forall>b \<in> set (basic_blocks (function_list m ! f)). b < length (blocks m))"

lemma mem2reg_function_promotes:
  assumes run: "mem2reg_function address d f s = Some (Inr s')" and D: "pass_state D (snd s)"
    and tree: "tree_inside (dom_tree_succ_blocks d) (snd s)"
    and f: "\<forall>b \<in> set (basic_blocks (function_list (snd s) ! f)). b < length (blocks (snd s))"
  shows "\<exists>E. promoted E (snd s) (snd s') \<and> pass_state (D \<union> V_Inst ` E) (snd s')"
proof -
  let ?bbs = "basic_blocks (function_list (snd s) ! f)"
  obtain st1 m1 st2 m2 where first: "(if ?bbs \<noteq> [] then bindP (generate_phi address (dom_frontier d) f (snd s)) (\<lambda>m.
        re_name (dom_tree_succ_blocks d) (hd (basic_blocks (function_list m ! f))) (fst s, m)) else returnP s) = Some (Inr (st1, m1))"
    and last: "remove_alloca f m1 = Inr ((), m2)" and s': "s' = (st2, m2)" using run by (auto simp: mem2reg_function_def)
  have "promotes (snd s) m1"
  proof (cases "?bbs = []")
    case True
    with first promotes_refl show ?thesis by (cases s) auto
  next
    case False
    with first obtain m where gen: "generate_phi address (dom_frontier d) f (snd s) = Some (Inr m)"
      and ren: "re_name (dom_tree_succ_blocks d) (hd (basic_blocks (function_list m ! f))) (fst s, m) = Some (Inr (st1, m1))" by auto
    note p = generate_phi_promotes [OF gen]
    from promotesD [OF p D] obtain E where E: "promoted E (snd s) m" "pass_state (D \<union> V_Inst ` E) m" by blast
    have "hd ?bbs < length (blocks m)" using f False promotedD(4) [OF E(1)] by simp
    then have "keeps_code m m1" using re_name_keeps [OF ren] pass_state_hold [OF E(2)] tree promotedD(1,4) [OF E(1)]
      by (simp add: tree_inside_def)
    with p keeps_code_promotes promotes_trans show ?thesis by blast
  qed
  note p = this
  from promotesD [OF p D] obtain E where E: "promoted E (snd s) m1" "pass_state (D \<union> V_Inst ` E) m1" by blast
  have "keeps_code m1 m2"
    by (rule remove_alloca_keeps [OF last pass_state_hold [OF E(2)]]) (use f promotedD(1,4) [OF E(1)] in simp)
  with p keeps_code_promotes promotes_trans have "promotes (snd s) m2" by blast
  from promotesD [OF this D] show ?thesis by (simp add: s')
qed

lemma mem2reg_functions_promote:
  "foldP (mem2reg_function address d) fs s = Some (Inr s') \<Longrightarrow> pass_state D (snd s) \<Longrightarrow>
   tree_inside (dom_tree_succ_blocks d) (snd s) \<Longrightarrow> functions_inside (snd s) \<Longrightarrow> set fs \<subseteq> {..<length (function_list (snd s))} \<Longrightarrow>
   \<exists>E. promoted E (snd s) (snd s') \<and> pass_state (D \<union> V_Inst ` E) (snd s')"
proof (induction fs arbitrary: s D)
  case Nil
  then show ?case using promoted_refl by fastforce
next
  case (Cons f fs)
  then obtain s1 where s1: "mem2reg_function address d f s = Some (Inr s1)" "foldP (mem2reg_function address d) fs s1 = Some (Inr s')" by auto
  obtain E where E: "promoted E (snd s) (snd s1)" "pass_state (D \<union> V_Inst ` E) (snd s1)"
    using mem2reg_function_promotes [OF s1(1) Cons.prems(2,3)] Cons.prems(4,5) by (auto simp: functions_inside_def)
  note p = promotedD [OF E(1)]
  obtain F where F: "promoted F (snd s1) (snd s')" "pass_state (D \<union> V_Inst ` E \<union> V_Inst ` F) (snd s')"
    using Cons.IH [OF s1(2) E(2)] Cons.prems(3-5) p(1,4) by (auto simp: tree_inside_def functions_inside_def)
  with promoted_trans [OF E(1)] show ?case by (intro exI [of _ "E \<union> F"]) (simp add: image_Un Un_assoc)
qed

lemma ir_ok_pass_state:
  assumes "ir_ok m"
  shows "pass_state {} m" and "functions_inside m"
proof -
  have parts: "instrs_placed m" "blocks_placed m" "users_agree m" using assms by (simp_all add: ir_ok_def)
  then show "pass_state {} m" by (auto simp: pass_state_def uses_kept_def fresh_users_def users_agree_def instrs_placed_def)
  show "functions_inside m" using parts by (auto simp: functions_inside_def blocks_placed_def)
qed

lemma mem2reg_run_promoted:
  assumes ok: "ir_ok m" and run: "mem2reg_run address m = Some (Inr m')"
  shows "\<exists>E. promoted E m m' \<and> uses_agree (V_Inst ` E) (graph m')"
proof -
  from run obtain d st where d: "dominators_run m = Some (Inr d)"
    and fold: "foldP (mem2reg_function address d) [0..<length (function_list m)] (Map.empty, m) = Some (Inr (st, m'))"
    by (auto simp: mem2reg_run_def)
  have "tree_inside (dom_tree_succ_blocks d) m"
    using dominators_run_inside [OF ok d] by (auto simp: tree_inside_def entries_inside_def)
  with mem2reg_functions_promote [OF fold, of "{}"] ir_ok_pass_state [OF ok] obtain E where
    "promoted E m m'" "pass_state (V_Inst ` E) m'" by (auto simp: subset_iff)
  then show ?thesis by (auto simp: pass_state_def uses_kept_def)
qed

section \<open>The terminators\<close>

lemma no_terminator: "\<forall>i \<in> set (instr_list (blocks m ! b)). \<not> is_terminator (i_op (instrs m ! i)) \<Longrightarrow> get_terminator m b = None"
  by (simp add: get_terminator_def Let_def)

lemma last_terminator:
  "instr_list (blocks m ! b) = is @ [i] \<Longrightarrow> is_terminator (i_op (instrs m ! i)) \<Longrightarrow> get_terminator m b = Some i"
  by (simp add: get_terminator_def Let_def)

lemma closed_block_last:
  assumes "closed_block m b"
  obtains "is" i where "instr_list (blocks m ! b) = is @ [i]" and "is_terminator (i_op (instrs m ! i))"
proof -
  from assms obtain fs where fs: "map (\<lambda>i. is_terminator (i_op (instrs m ! i))) (instr_list (blocks m ! b)) = fs @ [True]"
    by (auto simp: closed_block_def tflags_def)
  then obtain "is" xs where "instr_list (blocks m ! b) = is @ xs" "map (\<lambda>i. is_terminator (i_op (instrs m ! i))) xs = [True]"
    by (auto simp: map_eq_append_conv)
  with that show thesis by auto
qed

lemma promoted_terminator:
  assumes ok: "ir_ok m" and p: "promoted E m m'" and b: "b < length (blocks m)"
  shows "get_terminator m' b = get_terminator m b"
proof -
  let ?is = "instr_list (blocks m ! b)"
  from p b obtain phis where phis: "set phis \<subseteq> {length (instrs m)..<length (instrs m')}"
    and "blocks m' ! b = (blocks m ! b)\<lparr>instr_list := phis @ filter (\<lambda>i. i \<notin> E) ?is\<rparr>" unfolding promoted_def by blast
  then have is': "instr_list (blocks m' ! b) = phis @ filter (\<lambda>i. i \<notin> E) ?is" by simp
  have old: "i < length (instrs m)" if "i \<in> set ?is" for i
    using ir_ok_pass_state(1) [OF ok] b that by (simp add: pass_state_def uses_kept_def)
  have new: "\<not> is_terminator (i_op (instrs m' ! i))" if "i \<in> set phis" for i
  proof -
    have "length (instrs m) \<le> i" "i < length (instrs m')" using phis that by fastforce+
    with promotedD(7) [OF p] show ?thesis by (simp add: is_terminator_def)
  qed
  have gone: "\<not> is_terminator (i_op (instrs m ! i))" if "i \<in> E" for i
    using p that by (auto simp: promoted_def memory_op_def is_op_def is_terminator_def)
  from ok b consider "open_block m b" | "closed_block m b" by (auto simp: ir_ok_def blocks_shaped_def)
  then show ?thesis
  proof cases
    case 1
    then have none: "\<not> is_terminator (i_op (instrs m ! i))" if "i \<in> set ?is" for i
      using that by (auto simp: open_block_def tflags_def)
    have "get_terminator m' b = None"
      by (rule no_terminator) (use none new old promotedD(6) [OF p] is' in auto)
    moreover have "get_terminator m b = None" by (rule no_terminator) (use none in blast)
    ultimately show ?thesis by simp
  next
    case 2
    then obtain ns i where i: "?is = ns @ [i]" "is_terminator (i_op (instrs m ! i))" by (rule closed_block_last)
    then have "i \<notin> E" using gone by blast
    with i is' have "instr_list (blocks m' ! b) = (phis @ filter (\<lambda>i. i \<notin> E) ns) @ [i]" by simp
    moreover have "is_terminator (i_op (instrs m' ! i))" using i old [of i] promotedD(6) [OF p] by simp
    ultimately have "get_terminator m' b = Some i" by (rule last_terminator)
    with last_terminator [OF i] show ?thesis by simp
  qed
qed

lemma promoted_block_operand:
  assumes p: "promoted E m m'" and i: "i < length (instrs m)" and j: "j < length (operands (graph m) (V_Inst i))"
    and at: "operands (graph m) (V_Inst i) ! j = Some (V_Block b)"
  shows "operands (graph m') (V_Inst i) ! j = Some (V_Block b)"
proof -
  have "old_operands_kept m m'" using p by (simp add: promoted_def)
  then have "operands (graph m') (V_Inst i) ! j \<noteq> operands (graph m) (V_Inst i) ! j \<Longrightarrow>
      \<exists>l. operands (graph m) (V_Inst i) ! j = Some (V_Inst l)"
    using i j unfolding old_operands_kept_def by blast
  then show ?thesis using at by auto
qed

text \<open>C14: when \<open>Mem2Reg\<close> returns from the module of a program, all it has done to the code is
  to put phis at the heads of blocks, to take loads, stores and allocas out, and to redirect
  operands that were loads and add operands to phis; the use lists agree with the operands of the
  instructions that it has not erased, and every block has the terminator it had, with the
  successors that its list names.\<close>

theorem mem2reg_run_keeps_code:
  assumes "codegen prog = Inr s" and "mem2reg_run address s = Some (Inr m)"
  shows "\<exists>E. promoted E s m \<and> uses_agree (V_Inst ` E) (graph m) \<and>
    (\<forall>b < length (blocks s). get_terminator m b = get_terminator s b \<and> succ_bbs (blocks m ! b) = term_succs m b)"
proof -
  note ok = codegen_ir_ok [OF assms(1)]
  obtain E where p: "promoted E s m" and agree: "uses_agree (V_Inst ` E) (graph m)" using mem2reg_run_promoted [OF ok assms(2)] by blast
  have "get_terminator m b = get_terminator s b \<and> succ_bbs (blocks m ! b) = term_succs m b" if b: "b < length (blocks s)" for b
  proof -
    note t = promoted_terminator [OF ok p b]
    from p b obtain "is" where "blocks m ! b = (blocks s ! b)\<lparr>instr_list := is\<rparr>" unfolding promoted_def by blast
    then have "succ_bbs (blocks m ! b) = succ_bbs (blocks s ! b)" by simp
    also have "\<dots> = term_succs s b" using ok b by (simp add: ir_ok_def succs_agree_def)
    also have "\<dots> = term_succs m b"
    proof (cases "get_terminator s b")
      case None
      with t show ?thesis by (simp add: term_succs_def)
    next
      case (Some i)
      then have "i \<in> set (instr_list (blocks s ! b))" by (auto simp: get_terminator_def Let_def split: if_splits)
      then have i: "i < length (instrs s)" using ir_ok_pass_state(1) [OF ok] b by (simp add: pass_state_def uses_kept_def)
      note op = promotedD(6) [OF p i]
      show ?thesis
      proof (cases "i_op (instrs s ! i) = I_br")
        case True
        then have "is_op I_br s i" "\<not> is_op I_phi s i" using i by (simp_all add: is_op_def)
        have len: "length (operands (graph m) (V_Inst i)) = length (operands (graph s) (V_Inst i))"
          using p i True unfolding promoted_def old_operands_kept_def by (simp add: is_op_def)
        from codegen_code_ok [OF assms(1)] i obtain ops where ops: "operands (graph s) (V_Inst i) = map Some ops" "shape_ok s I_br (i_data (instrs s ! i)) ops"
          unfolding code_ok_def shaped_instr_def using True by metis
        note keep = promoted_block_operand [OF p i]
        from ops(2) consider (one) c where "ops = [V_Block c]" | (two) v c d where "ops = [v, V_Block c, V_Block d]" by auto
        then have "br_targets (operands (graph m) (V_Inst i)) = br_targets (operands (graph s) (V_Inst i))"
        proof cases
          case one
          with len keep [of 0 c] ops(1) show ?thesis by (auto simp: length_Suc_conv)
        next
          case two
          obtain x y z where m: "operands (graph m) (V_Inst i) = [x, y, z]" using len two ops(1) by (auto simp: length_Suc_conv)
          with keep [of 1 c] keep [of 2 d] ops(1) two show ?thesis by simp
        qed
        with Some t True op show ?thesis by (simp add: term_succs_def)
      qed (use Some t op in \<open>simp add: term_succs_def\<close>)
    qed
    finally show ?thesis using t by simp
  qed
  with p agree show ?thesis by blast
qed

lemma mem2reg_run_keeps_code_witness:
  "\<exists>s m E. codegen (function_f [] [ReturnStmt (Some (condition ''n''))]) = Inr s \<and>
    mem2reg_run allocation_order s = Some (Inr m) \<and> map instr_list (blocks s) = [[0, 1, 2, 3]] \<and> map instr_list (blocks m) = [[3]] \<and>
    promoted E s m \<and> uses_agree (V_Inst ` E) (graph m)"
proof -
  let ?p = "function_f [] [ReturnStmt (Some (condition ''n''))]"
  have "case codegen ?p of Inl _ \<Rightarrow> False | Inr s \<Rightarrow> map instr_list (blocks s) = [[0, 1, 2, 3]] \<and>
    (case mem2reg_run allocation_order s of Some (Inr m) \<Rightarrow> map instr_list (blocks m) = [[3]] | _ \<Rightarrow> False)" by code_simp
  from case_InrD [OF this] obtain s where s: "codegen ?p = Inr s" "map instr_list (blocks s) = [[0, 1, 2, 3]]"
    and run: "case mem2reg_run allocation_order s of Some (Inr m) \<Rightarrow> map instr_list (blocks m) = [[3]] | _ \<Rightarrow> False" by (elim exE conjE) (rule that)
  then obtain m where m: "mem2reg_run allocation_order s = Some (Inr m)" "map instr_list (blocks m) = [[3]]"
    by (auto split: option.splits sum.splits)
  from mem2reg_run_keeps_code [OF s(1) m(1)] obtain E where "promoted E s m" "uses_agree (V_Inst ` E) (graph m)" by blast
  with s m show ?thesis by (intro exI [of _ s] exI [of _ m] exI [of _ E]) simp
qed

end
