(* ===== verification/IrPrintProps.thy ===== *)
theory IrPrintProps
  imports CodegenValues
begin

text \<open>
  What the printer promises on generated modules: it names every value of a function, no
  two alike, names none again, and no \<open>print\<close> fails; constants of one type print
  alike only when they are the same.
\<close>

section \<open>What naming keeps\<close>

definition unnamed_instr :: "instruction \<Rightarrow> instruction" where
  "unnamed_instr i = i\<lparr>i_name := []\<rparr>"
definition unnamed_bb :: "basic_block \<Rightarrow> basic_block" where
  "unnamed_bb b = b\<lparr>bb_name := []\<rparr>"
definition unnamed_fun :: "ir_function \<Rightarrow> ir_function" where
  "unnamed_fun f = f\<lparr>arg_names := map (\<lambda>_. []) (arg_names f), seq_cnt := 0\<rparr>"

text \<open>Two modules that differ in the names of local values only.\<close>

definition but_names :: "'b ir_module_scheme \<Rightarrow> 'b ir_module_scheme \<Rightarrow> bool" where
  "but_names m m' \<longleftrightarrow> nf m' = nf m \<and> nb m' = nb m \<and> ni m' = ni m \<and>
     global_list m' = global_list m \<and> graph m' = graph m \<and>
     (\<forall>i. unnamed_instr (instrs m' ! i) = unnamed_instr (instrs m ! i)) \<and>
     (\<forall>b. unnamed_bb (blocks m' ! b) = unnamed_bb (blocks m ! b)) \<and>
     (\<forall>f. unnamed_fun (function_list m' ! f) = unnamed_fun (function_list m ! f))"

lemma but_names_refl [simp]: "but_names m m"
  by (simp add: but_names_def)

lemma but_names_trans: "but_names m m1 \<Longrightarrow> but_names m1 m2 \<Longrightarrow> but_names m m2"
  by (simp add: but_names_def)

lemma unnamed_fields:
  "unnamed_instr i = unnamed_instr j \<Longrightarrow> i_type i = i_type j \<and> i_op i = i_op j \<and> i_data i = i_data j \<and> i_parent i = i_parent j"
  "unnamed_bb b = unnamed_bb c \<Longrightarrow> bb_parent b = bb_parent c \<and> pre_bbs b = pre_bbs c \<and> succ_bbs b = succ_bbs c \<and> instr_list b = instr_list c"
  "unnamed_fun f = unnamed_fun g \<Longrightarrow> f_type f = f_type g \<and> f_name f = f_name g \<and> basic_blocks f = basic_blocks g \<and>
     length (arg_names f) = length (arg_names g)"
    apply (cases i; cases j; simp add: unnamed_instr_def)
   apply (cases b; cases c; simp add: unnamed_bb_def)
  apply (cases f; cases g; auto simp: unnamed_fun_def dest: map_eq_imp_length_eq)
  done

lemma but_namesD:
  assumes "but_names m m'"
  shows "nf m' = nf m" "nb m' = nb m" "ni m' = ni m" "global_list m' = global_list m" "graph m' = graph m"
    "i_type (instrs m' ! i) = i_type (instrs m ! i)" "i_op (instrs m' ! i) = i_op (instrs m ! i)"
    "i_data (instrs m' ! i) = i_data (instrs m ! i)" "i_parent (instrs m' ! i) = i_parent (instrs m ! i)"
    "pre_bbs (blocks m' ! b) = pre_bbs (blocks m ! b)" "instr_list (blocks m' ! b) = instr_list (blocks m ! b)"
    "bb_parent (blocks m' ! b) = bb_parent (blocks m ! b)"
    "f_type (function_list m' ! f) = f_type (function_list m ! f)" "f_name (function_list m' ! f) = f_name (function_list m ! f)"
    "basic_blocks (function_list m' ! f) = basic_blocks (function_list m ! f)"
    "length (arg_names (function_list m' ! f)) = length (arg_names (function_list m ! f))"
  using assms unnamed_fields(1) [of "instrs m' ! i" "instrs m ! i"] unnamed_fields(2) [of "blocks m' ! b" "blocks m ! b"]
    unnamed_fields(3) [of "function_list m' ! f" "function_list m ! f"]
  by (simp_all add: but_names_def)

lemma but_names_type: "but_names m m' \<Longrightarrow> get_type m' v = get_type m v"
  using but_namesD [of m m'] by (cases v) simp_all

lemma but_names_void: "but_names m m' \<Longrightarrow> is_void_inst (instrs m' ! i) = is_void_inst (instrs m ! i)"
  using but_namesD [of m m'] by (simp add: is_void_inst_def)

text \<open>The values of a function that get names.\<close>

definition block_values :: "'b ir_module_scheme \<Rightarrow> nat \<Rightarrow> irval list" where
  "block_values m b = V_Block b # map V_Inst (filter (\<lambda>i. \<not> is_void_inst (instrs m ! i)) (instr_list (blocks m ! b)))"

definition named_values :: "'b ir_module_scheme \<Rightarrow> nat \<Rightarrow> irval list" where
  "named_values m f = arguments m f @ concat (map (block_values m) (basic_blocks (function_list m ! f)))"

lemma but_names_arguments: "but_names m m' \<Longrightarrow> arguments m' f = arguments m f"
  using but_namesD(16) [of m m'] by (simp add: arguments_def)

lemma but_names_values: "but_names m m' \<Longrightarrow> named_values m' f = named_values m f"
  using but_namesD [of m m'] by (simp add: named_values_def block_values_def but_names_arguments but_names_void cong: map_cong)

section \<open>Giving a name\<close>

fun local_value :: "irval \<Rightarrow> bool" where
  "local_value (V_Arg _ _) = True" | "local_value (V_Block _) = True" | "local_value (V_Inst _) = True"
| "local_value _ = False"

fun value_prefix :: "irval \<Rightarrow> string" where
  "value_prefix (V_Arg _ _) = ''arg''" | "value_prefix (V_Block _) = ''label''" | "value_prefix _ = ''op''"

text \<open>A value of the module that can be named.\<close>

fun nameable :: "'b ir_module_scheme \<Rightarrow> irval \<Rightarrow> bool" where
  "nameable m (V_Arg f i) = (f < nf m \<and> i < length (arg_names (function_list m ! f)))"
| "nameable m (V_Block b) = (b < nb m)"
| "nameable m (V_Inst i) = (i < ni m)"
| "nameable m _ = False"

lemma but_names_nameable: "but_names m m' \<Longrightarrow> nameable m' v = nameable m v"
  using but_namesD [of m m'] by (cases v) simp_all

lemma nth_update_same: "h x = h (xs ! i) \<Longrightarrow> h (xs[i := x] ! j) = h (xs ! j)"
  by (cases "i < length xs") (auto simp: nth_list_update not_less list_update_beyond)

lemma unnamed_update:
  "unnamed_instr (i\<lparr>i_name := nm\<rparr>) = unnamed_instr i" "unnamed_bb (b\<lparr>bb_name := nm\<rparr>) = unnamed_bb b"
  "length nms = length (arg_names f) \<Longrightarrow> unnamed_fun (f\<lparr>arg_names := nms\<rparr>) = unnamed_fun f"
  "unnamed_fun (f\<lparr>seq_cnt := n\<rparr>) = unnamed_fun f"
  by (simp_all add: unnamed_instr_def unnamed_bb_def unnamed_fun_def map_replicate_const)

lemma put_name_but_names: "local_value v \<Longrightarrow> but_names m (put_name v nm m)"
  by (cases v) (simp_all add: but_names_def nth_update_same [where h = unnamed_instr] nth_update_same [where h = unnamed_bb]
      nth_update_same [where h = unnamed_fun] unnamed_update)

lemma get_put_name: "nameable m v \<Longrightarrow> get_name (put_name v nm m) w = (if w = v then nm else get_name m w)"
  by (cases v; cases w) (auto simp: nth_list_update)

lemma nameable_local: "nameable m v \<Longrightarrow> local_value v"
  by (cases v) simp_all

lemma put_name_seq_cnt: "seq_cnt (function_list (put_name v nm m) ! f) = seq_cnt (function_list m ! f)"
  by (cases v) (simp_all add: nth_update_same [where h = seq_cnt])

section \<open>Naming a list of values\<close>

definition name_all :: "nat \<Rightarrow> irval list \<Rightarrow> irval list \<times> 'b ir_module_scheme \<Rightarrow> irval list \<times> 'b ir_module_scheme" where
  "name_all base vs = fold (\<lambda>v. name_value base (value_prefix v) v) vs"

lemma name_all_append: "name_all base (vs @ ws) x = name_all base ws (name_all base vs x)"
  by (simp add: name_all_def)

text \<open>
  Naming a list of distinct values: the ones without a name are counted, in order, and
  get the names that say so.
\<close>

lemma name_all_result:
  assumes "distinct vs" and "\<And>v. v \<in> set vs \<Longrightarrow> nameable m v"
  shows "let seq = filter (\<lambda>v. get_name m v = []) vs; m' = snd (name_all base vs ([], m)) in
    fst (name_all base vs ([], m)) = seq \<and> but_names m m' \<and>
    (\<forall>v. v \<notin> set seq \<longrightarrow> get_name m' v = get_name m v) \<and>
    (\<forall>k < length seq. get_name m' (seq ! k) = value_prefix (seq ! k) @ show_nat (k + base)) \<and>
    (\<forall>f. seq_cnt (function_list m' ! f) = seq_cnt (function_list m ! f))"
  using assms
proof (induction vs rule: rev_induct)
  case Nil
  show ?case by (simp add: name_all_def)
next
  case (snoc v vs)
  let ?seq = "filter (\<lambda>v. get_name m v = []) vs"
  obtain seq m1 where run: "name_all base vs ([], m) = (seq, m1)" by fastforce
  from snoc run have IH: "seq = ?seq" "but_names m m1"
      "\<And>w. w \<notin> set ?seq \<Longrightarrow> get_name m1 w = get_name m w"
      "\<And>k. k < length ?seq \<Longrightarrow> get_name m1 (?seq ! k) = value_prefix (?seq ! k) @ show_nat (k + base)"
      "\<And>f. seq_cnt (function_list m1 ! f) = seq_cnt (function_list m ! f)"
    by (auto simp: Let_def)
  have v: "v \<notin> set ?seq" "nameable m1 v" using snoc.prems but_names_nameable [OF IH(2)] by auto
  have step: "name_all base (vs @ [v]) ([], m) =
      (if get_name m v = [] then (?seq @ [v], put_name v (value_prefix v @ show_nat (length ?seq + base)) m1) else (?seq, m1))"
    using IH(3) [OF v(1)] v(1) by (simp add: name_all_append run IH(1), simp add: name_all_def name_value_def set_name_def)
  show ?case
  proof (cases "get_name m v = []")
    case True
    let ?m' = "put_name v (value_prefix v @ show_nat (length ?seq + base)) m1"
    have "but_names m ?m'"
      using IH(2) put_name_but_names [OF nameable_local [OF v(2)]] by (rule but_names_trans)
    moreover have "get_name ?m' w = get_name m w" if "w \<notin> set (?seq @ [v])" for w
      using that IH(3) get_put_name [OF v(2)] by simp
    moreover have "get_name ?m' ((?seq @ [v]) ! k) = value_prefix ((?seq @ [v]) ! k) @ show_nat (k + base)"
      if "k < length (?seq @ [v])" for k
    proof (cases "k < length ?seq")
      case True
      then have "?seq ! k \<noteq> v" using v(1) nth_mem by metis
      with True IH(4) show ?thesis using get_put_name [OF v(2)] by (simp add: nth_append)
    next
      case False
      with that have "k = length ?seq" by simp
      then show ?thesis using get_put_name [OF v(2)] by simp
    qed
    moreover have "seq_cnt (function_list ?m' ! f) = seq_cnt (function_list m ! f)" for f
      using IH(5) by (simp add: put_name_seq_cnt)
    ultimately show ?thesis using True by (simp add: step Let_def)
  qed (use IH in \<open>auto simp: step Let_def\<close>)
qed

text \<open>The loops of \<open>set_instr_name\<close> are one over \<open>named_values\<close>.\<close>

lemma name_value_but_names: "local_value v \<Longrightarrow> but_names m (snd (name_value base pfx v (seq, m)))"
  by (simp add: name_value_def set_name_def put_name_but_names)

lemma name_all_but_names: "(\<And>v. v \<in> set vs \<Longrightarrow> local_value v) \<Longrightarrow> but_names (snd x) (snd (name_all base vs x))"
proof (induction vs arbitrary: x)
  case (Cons v vs)
  obtain seq m where x: "x = (seq, m)" by fastforce
  have "but_names m (snd (name_value base (value_prefix v) v (seq, m)))"
    by (rule name_value_but_names) (simp add: Cons.prems)
  moreover have "but_names (snd (name_value base (value_prefix v) v x)) (snd (name_all base vs (name_value base (value_prefix v) v x)))"
    using Cons by simp
  ultimately show ?case by (simp add: x name_all_def) (blast intro: but_names_trans)
qed (simp add: name_all_def)

lemma name_instruction_all:
  "but_names m0 m \<Longrightarrow> name_instruction base i (seq, m) =
     name_all base (if is_void_inst (instrs m0 ! i) then [] else [V_Inst i]) (seq, m)"
  using but_names_void [of m0 m i] by (simp add: name_instruction_def name_all_def)

lemma fold_name_instruction:
  "but_names m0 (snd x) \<Longrightarrow> fold (name_instruction base) is x =
     name_all base (map V_Inst (filter (\<lambda>i. \<not> is_void_inst (instrs m0 ! i)) is)) x"
proof (induction "is" arbitrary: x)
  case (Cons i "is")
  have step: "name_instruction base i x = name_all base (if is_void_inst (instrs m0 ! i) then [] else [V_Inst i]) x"
    using name_instruction_all [of m0 "snd x" base i "fst x"] Cons.prems by simp
  have "but_names m0 (snd (name_instruction base i x))"
    unfolding step by (rule but_names_trans [OF Cons.prems name_all_but_names]) (simp split: if_splits)
  from Cons.IH [OF this] show ?case by (simp add: step name_all_def)
qed (simp add: name_all_def)

lemma name_block_all:
  assumes "but_names m0 (snd x)"
  shows "name_block base b x = name_all base (block_values m0 b) x"
proof -
  obtain seq m where x: "x = (seq, m)" by fastforce
  have "but_names m0 (snd (name_value base ''label'' (V_Block b) x))"
    using but_names_trans [OF assms name_value_but_names [of "V_Block b"]] by (simp add: x)
  from fold_name_instruction [OF this, of base "instr_list (blocks m ! b)"] show ?thesis
    using but_namesD(11) [OF assms, of b] by (simp add: x name_block_def block_values_def name_all_def)
qed

lemma fold_name_block:
  "but_names m0 (snd x) \<Longrightarrow> fold (name_block base) bs x = name_all base (concat (map (block_values m0) bs)) x"
proof (induction bs arbitrary: x)
  case (Cons b bs)
  note step = name_block_all [OF Cons.prems, of base b]
  have "but_names m0 (snd (name_block base b x))"
    unfolding step by (rule but_names_trans [OF Cons.prems name_all_but_names]) (auto simp: block_values_def)
  from Cons.IH [OF this] show ?case by (simp add: step name_all_append)
qed (simp add: name_all_def)

lemma set_instr_name_all:
  "set_instr_name f m = (let base = seq_cnt (function_list m ! f); (seq, m') = name_all base (named_values m f) ([], m)
     in m'\<lparr>function_list := (function_list m')[f := (function_list m' ! f)\<lparr>seq_cnt := base + length seq\<rparr>]\<rparr>)"
proof -
  let ?base = "seq_cnt (function_list m ! f)"
  have args: "fold (name_value ?base ''arg'') (arguments m f) x = name_all ?base (arguments m f) x" for x
    unfolding name_all_def by (rule fold_cong) (auto simp: arguments_def)
  have "but_names m (snd (name_all ?base (arguments m f) ([], m)))"
    using name_all_but_names [of "arguments m f" "([], m)" ?base] by (simp add: arguments_def) fastforce
  from fold_name_block [OF this, of ?base "basic_blocks (function_list m ! f)"] show ?thesis
    by (simp add: set_instr_name_def args named_values_def name_all_append Let_def)
qed

section \<open>Names are unique\<close>

lemma show_nat_inj: "show_nat a = show_nat b \<longleftrightarrow> a = b"
  by (metis digits_val_show_nat)

lemma numbered_name_eq:
  assumes "value_prefix v @ show_nat a = value_prefix w @ show_nat b"
  shows "a = b"
  using assms by (cases v; cases w) (simp_all add: show_nat_inj)

lemma numbered_not_entry: "value_prefix v @ show_nat a \<noteq> ''label_entry''"
proof
  assume eq: "value_prefix v @ show_nat a = ''label_entry''"
  then have "show_nat a = ''_entry''" by (cases v) simp_all
  then have "CHR ''_'' \<in> set (show_nat a)" by simp
  from show_nat_digits [OF this] show False by (simp add: is_digit_def)
qed

lemma get_name_seq_cnt:
  "get_name (m\<lparr>function_list := (function_list m)[f := (function_list m ! f)\<lparr>seq_cnt := n\<rparr>]\<rparr>) v = get_name m v"
  by (cases v) (simp_all add: nth_update_same [where h = f_name] nth_update_same [where h = arg_names])

lemma but_names_seq_cnt:
  "but_names m (m\<lparr>function_list := (function_list m)[f := (function_list m ! f)\<lparr>seq_cnt := n\<rparr>]\<rparr>)"
  by (simp add: but_names_def nth_update_same [where h = unnamed_fun] unnamed_update)

definition well_named :: "'b ir_module_scheme \<Rightarrow> nat \<Rightarrow> bool" where
  "well_named m f \<longleftrightarrow> distinct (map (get_name m) (named_values m f)) \<and> [] \<notin> set (map (get_name m) (named_values m f))"

text \<open>At most one value has a name beforehand, the entry block.\<close>

definition to_be_named :: "'b ir_module_scheme \<Rightarrow> nat \<Rightarrow> bool" where
  "to_be_named m f \<longleftrightarrow> distinct (named_values m f) \<and> (\<forall>v \<in> set (named_values m f). nameable m v) \<and>
     (\<exists>e. \<forall>v \<in> set (named_values m f). get_name m v = [] \<or> v = e \<and> get_name m v = ''label_entry'')"

lemma set_instr_name_result:
  assumes "to_be_named m f"
  shows "but_names m (set_instr_name f m)" "well_named (set_instr_name f m) f"
    and "v \<notin> set (named_values m f) \<Longrightarrow> get_name (set_instr_name f m) v = get_name m v"
proof -
  let ?vs = "named_values m f" and ?base = "seq_cnt (function_list m ! f)"
  let ?seq = "filter (\<lambda>v. get_name m v = []) ?vs"
  obtain seq m1 where run: "name_all ?base ?vs ([], m) = (seq, m1)" by fastforce
  from assms obtain e where d: "distinct ?vs" "\<And>v. v \<in> set ?vs \<Longrightarrow> nameable m v"
    and e: "\<forall>v \<in> set ?vs. get_name m v = [] \<or> v = e \<and> get_name m v = ''label_entry''"
    unfolding to_be_named_def by blast
  from name_all_result [OF d, of ?base, unfolded run Let_def]
  have r: "seq = ?seq" "but_names m m1" "\<And>v. v \<notin> set ?seq \<Longrightarrow> get_name m1 v = get_name m v"
      "\<And>k. k < length ?seq \<Longrightarrow> get_name m1 (?seq ! k) = value_prefix (?seq ! k) @ show_nat (k + ?base)"
    by simp_all
  have m': "set_instr_name f m = m1\<lparr>function_list := (function_list m1)[f := (function_list m1 ! f)\<lparr>seq_cnt := ?base + length seq\<rparr>]\<rparr>"
    by (simp add: set_instr_name_all run Let_def)
  show bn: "but_names m (set_instr_name f m)" unfolding m' by (rule but_names_trans [OF r(2) but_names_seq_cnt])
  have nm: "get_name (set_instr_name f m) v = get_name m1 v" for v by (simp add: m' get_name_seq_cnt)
  show "get_name (set_instr_name f m) v = get_name m v" if "v \<notin> set ?vs" for v
    using that r(3) by (simp add: nm)
  have numbered: "\<exists>k < length ?seq. v = ?seq ! k \<and> get_name m1 v = value_prefix v @ show_nat (k + ?base)"
    if "v \<in> set ?vs" "get_name m v = []" for v
  proof -
    have "v \<in> set ?seq" using that by simp
    then obtain k where "k < length ?seq" "v = ?seq ! k" by (metis in_set_conv_nth)
    with r(4) show ?thesis by blast
  qed
  have other: "v = e \<and> get_name m1 v = ''label_entry''" if "v \<in> set ?vs" "get_name m v \<noteq> []" for v
    using that e r(3) [of v] by auto
  have "inj_on (get_name m1) (set ?vs)"
  proof (rule inj_onI)
    fix v w assume vw: "v \<in> set ?vs" "w \<in> set ?vs" "get_name m1 v = get_name m1 w"
    show "v = w"
    proof (cases "get_name m v = []"; cases "get_name m w = []")
      assume un: "get_name m v = []" "get_name m w = []"
      from numbered [OF vw(1) un(1)] numbered [OF vw(2) un(2)] obtain j k where
        jk: "v = ?seq ! j" "w = ?seq ! k" "value_prefix v @ show_nat (j + ?base) = value_prefix w @ show_nat (k + ?base)"
        using vw(3) by metis
      from numbered_name_eq [OF jk(3)] jk(1,2) show "v = w" by simp
    next
      assume un: "get_name m v = []" "get_name m w \<noteq> []"
      from numbered [OF vw(1) un(1)] obtain j where "get_name m1 v = value_prefix v @ show_nat j" by blast
      with other [OF vw(2) un(2)] vw(3) numbered_not_entry [of v j] show "v = w" by metis
    next
      assume un: "get_name m v \<noteq> []" "get_name m w = []"
      from numbered [OF vw(2) un(2)] obtain j where "get_name m1 w = value_prefix w @ show_nat j" by blast
      with other [OF vw(1) un(1)] vw(3) numbered_not_entry [of w j] show "v = w" by metis
    next
      assume "get_name m v \<noteq> []" "get_name m w \<noteq> []"
      with other [OF vw(1)] other [OF vw(2)] show "v = w" by simp
    qed
  qed
  moreover have "get_name m1 v \<noteq> []" if "v \<in> set ?vs" for v
    using numbered [OF that] other [OF that] by (cases "get_name m v = []") auto
  ultimately show "well_named (set_instr_name f m) f"
    using d(1) ext [of "get_name (set_instr_name f m)" "get_name m1", OF nm]
    by (auto simp: well_named_def but_names_values [OF bn] distinct_map image_iff eq_commute [of "[]"])
qed

lemma name_all_done: "[] \<notin> get_name m ` set vs \<Longrightarrow> name_all base vs (seq, m) = (seq, m)"
  by (induction vs) (auto simp: name_all_def name_value_def set_name_def)

lemma set_instr_name_done: "well_named m f \<Longrightarrow> set_instr_name f m = m"
  by (simp add: well_named_def set_instr_name_all name_all_done)

section \<open>Naming a whole module\<close>

fun owner :: "'b ir_module_scheme \<Rightarrow> irval \<Rightarrow> nat option" where
  "owner m (V_Arg f i) = Some f"
| "owner m (V_Block b) = Some (bb_parent (blocks m ! b))"
| "owner m (V_Inst i) = map_option (\<lambda>b. bb_parent (blocks m ! b)) (i_parent (instrs m ! i))"
| "owner m _ = None"

lemma but_names_owner: "but_names m m' \<Longrightarrow> owner m' v = owner m v"
  using but_namesD [of m m'] by (cases v) simp_all

lemma placed_in_block: "instrs_placed m \<Longrightarrow> b < nb m \<Longrightarrow> i \<in> set (instr_list (blocks m ! b)) \<longleftrightarrow> i < ni m \<and> i_parent (instrs m ! i) = Some b"
  by (auto simp: instrs_placed_def)

lemma in_block_values:
  assumes "instrs_placed m" "b < nb m" "v \<in> set (block_values m b)"
  shows "v = V_Block b \<or> (\<exists>i < ni m. v = V_Inst i \<and> i_parent (instrs m ! i) = Some b)"
  using assms by (auto simp: block_values_def placed_in_block)

lemma placed_blocks: "blocks_placed m \<Longrightarrow> f < nf m \<Longrightarrow> b \<in> set (basic_blocks (function_list m ! f)) \<longleftrightarrow> b < nb m \<and> bb_parent (blocks m ! b) = f"
  by (auto simp: blocks_placed_def)

lemma named_values_owner:
  assumes "instrs_placed m" "blocks_placed m" "f < nf m" "v \<in> set (named_values m f)"
  shows "owner m v = Some f \<and> nameable m v"
proof -
  from assms(4) consider "v \<in> set (arguments m f)"
    | b where "b \<in> set (basic_blocks (function_list m ! f))" "v \<in> set (block_values m b)"
    by (auto simp: named_values_def)
  then show ?thesis
  proof cases
    case 1
    with assms(3) show ?thesis by (auto simp: arguments_def)
  next
    case 2
    with placed_blocks [OF assms(2,3)] have b: "b < nb m" "bb_parent (blocks m ! b) = f" by simp_all
    from in_block_values [OF assms(1) b(1) 2(2)] b show ?thesis by auto
  qed
qed

lemma distinct_block_values:
  assumes "instrs_placed m"
  shows "distinct bs \<Longrightarrow> (\<And>b. b \<in> set bs \<Longrightarrow> b < nb m) \<Longrightarrow> distinct (concat (map (block_values m) bs))"
proof (induction bs)
  case (Cons b bs)
  have b: "b < nb m" using Cons.prems by simp
  with assms have "distinct (instr_list (blocks m ! b))" by (simp add: instrs_placed_def)
  then have "distinct (block_values m b)" by (auto simp: block_values_def distinct_map inj_on_def)
  moreover have "set (block_values m b) \<inter> set (block_values m c) = {}" if "c \<in> set bs" for c
  proof -
    have c: "c < nb m" "c \<noteq> b" using that Cons.prems by auto
    show ?thesis using in_block_values [OF assms b] in_block_values [OF assms c(1)] c(2) by fastforce
  qed
  ultimately show ?case using Cons by auto
qed simp

lemma distinct_named_values:
  assumes "instrs_placed m" "blocks_placed m" "f < nf m"
  shows "distinct (named_values m f)"
proof -
  let ?bs = "basic_blocks (function_list m ! f)"
  have "distinct ?bs" using assms(2,3) by (simp add: blocks_placed_def)
  from distinct_block_values [OF assms(1) this] placed_blocks [OF assms(2,3)]
  have "distinct (concat (map (block_values m) ?bs))" by simp
  moreover have "distinct (arguments m f)" by (auto simp: arguments_def distinct_map inj_on_def)
  ultimately show ?thesis by (auto simp: named_values_def arguments_def block_values_def)
qed

lemma codegen_to_be_named:
  assumes "codegen prog = Inr s" "f < nf s"
  shows "to_be_named s f"
proof -
  have ok: "instrs_placed s" "blocks_placed s" "unnamed s"
    using codegen_ir_ok [OF assms(1)] codegen_code_ok [OF assms(1)] by (simp_all add: ir_ok_def code_ok_def)
  note own = named_values_owner [OF ok(1,2) assms(2)]
  let ?e = "V_Block (hd (basic_blocks (function_list s ! f)))"
  have "get_name s v = [] \<or> v = ?e \<and> get_name s v = ''label_entry''" if "v \<in> set (named_values s f)" for v
  proof (cases v)
    case (V_Arg h i)
    with own [OF that] have "h = f" "i < length (arg_names (function_list s ! f))" by auto
    moreover have "set (arg_names (function_list s ! f)) \<subseteq> {[]}" using ok(3) assms(2) by (auto simp: unnamed_def)
    ultimately show ?thesis using V_Arg nth_mem by fastforce
  next
    case (V_Block b)
    with own [OF that] have b: "b < nb s" "bb_parent (blocks s ! b) = f" by simp_all
    with ok(3) have "bb_name (blocks s ! b) = [] \<or> named_block s b" by (simp add: unnamed_def)
    with b V_Block show ?thesis by (auto simp: named_block_def)
  next
    case (V_Inst i)
    with own [OF that] ok(3) show ?thesis by (simp add: unnamed_def)
  qed (use own [OF that] in simp_all)
  with own distinct_named_values [OF ok(1,2) assms(2)] show ?thesis unfolding to_be_named_def by blast
qed

lemma to_be_named_cong:
  assumes "but_names m m'" and "to_be_named m f" and "\<And>v. v \<in> set (named_values m f) \<Longrightarrow> get_name m' v = get_name m v"
  shows "to_be_named m' f"
  using assms(2,3) but_names_values [OF assms(1)] but_names_nameable [OF assms(1)] unfolding to_be_named_def by simp

text \<open>The functions one after the other: naming one leaves the values of the others alone.\<close>

lemma naming_functions:
  assumes s: "codegen prog = Inr s"
  shows "distinct fs \<Longrightarrow> set fs \<subseteq> {..<nf s} \<Longrightarrow>
    but_names s (fold set_instr_name fs s) \<and> (\<forall>f \<in> set fs. well_named (fold set_instr_name fs s) f) \<and>
    (\<forall>f < nf s. f \<notin> set fs \<longrightarrow> to_be_named (fold set_instr_name fs s) f)"
proof (induction fs rule: rev_induct)
  case Nil
  then show ?case using codegen_to_be_named [OF s] by simp
next
  case (snoc g fs)
  have ok: "instrs_placed s" "blocks_placed s" using codegen_ir_ok [OF s] by (simp_all add: ir_ok_def)
  note own = named_values_owner [OF ok]
  let ?m = "fold set_instr_name fs s"
  from snoc have IH: "but_names s ?m" "\<And>f. f \<in> set fs \<Longrightarrow> well_named ?m f"
      "\<And>f. f < nf s \<Longrightarrow> f \<notin> set fs \<Longrightarrow> to_be_named ?m f" and g: "g < nf s" "g \<notin> set fs" by auto
  note r = set_instr_name_result [OF IH(3) [OF g]]
  let ?m' = "set_instr_name g ?m"
  have bn: "but_names s ?m'" by (rule but_names_trans [OF IH(1) r(1)])
  have keep: "get_name ?m' v = get_name ?m v" if "v \<in> set (named_values ?m f)" "f \<noteq> g" "f < nf s" for f v
  proof (rule r(3))
    show "v \<notin> set (named_values ?m g)"
      using own [OF that(3), of v] own [OF g(1), of v] that by (auto simp: but_names_values [OF IH(1)])
  qed
  have "well_named ?m' f" if "f \<in> set (fs @ [g])" for f
  proof (cases "f = g")
    case False
    then have f: "well_named ?m f" "f < nf s" using that IH(2) snoc.prems by auto
    have "map (get_name ?m') (named_values ?m f) = map (get_name ?m) (named_values ?m f)"
      using keep [OF _ False f(2)] by simp
    with f(1) show ?thesis by (simp only: well_named_def but_names_values [OF r(1)] simp_thms)
  qed (use r(2) in simp)
  moreover have "to_be_named ?m' f" if "f < nf s" "f \<notin> set (fs @ [g])" for f
    by (rule to_be_named_cong [OF r(1)]) (use that IH(3) keep in auto)
  ultimately show ?case using bn by simp
qed

section \<open>Printing fails nowhere\<close>

lemma bindR_total: "\<exists>x. r = Inr x \<Longrightarrow> (\<And>x. r = Inr x \<Longrightarrow> \<exists>y. f x = Inr y) \<Longrightarrow> \<exists>y. bindR r f = Inr y"
  by auto

lemma mapR_total: "(\<And>x. x \<in> set xs \<Longrightarrow> \<exists>y. f x = Inr y) \<Longrightarrow> \<exists>ys. mapR f xs = Inr ys"
  by (induction xs) (auto intro!: bindR_total)

lemma opnd_shaped: "operands (graph m) (V_Inst i) = map Some ops \<Longrightarrow> k < length ops \<Longrightarrow> opnd m i k = Inr (ops ! k)"
  by (simp add: opnd_def get_operand_def nth_checked_def)

lemma pointee_of_pointer: "is_pointer_type (get_type m p) \<Longrightarrow> \<exists>t. pointee_of m p = Inr t"
  by (cases "get_type m p") (simp_all add: pointee_of_def)

lemma print_instruction_total:
  assumes "shaped_instr m i"
  shows "\<exists>t. print_instruction m i = Inr t"
proof -
  from assms obtain ops where ops: "operands (graph m) (V_Inst i) = map Some ops"
    and shape: "shape_ok m (i_op (instrs m ! i)) (i_data (instrs m ! i)) ops" by (auto simp: shaped_instr_def)
  note get = opnd_shaped [OF ops]
  have n: "num_operand m i = length ops" by (simp add: num_operand_def ops)
  have all: "\<exists>vs. mapR (opnd m i) [k..<length ops] = Inr vs" for k
    by (rule mapR_total) (auto simp: get)
  show ?thesis
  proof (cases "i_op (instrs m ! i)")
    case I_call
    with shape obtain f args where "ops = V_Fun f # args" by auto
    with I_call get [of 0] all [of 1] show ?thesis by (auto simp: print_instruction_def print_CallInst_def n)
  next
    case I_getelementptr
    with shape obtain p "is" where "ops = p # is" "is_pointer_type (get_type m p)" by auto
    with I_getelementptr get [of 0] all [of 0] pointee_of_pointer [of m p] show ?thesis
      by (auto simp: print_instruction_def print_GetElementPtrInst_def n)
  next
    case I_load
    with shape obtain p where "ops = [p]" "is_pointer_type (get_type m p)" by auto
    with I_load get [of 0] pointee_of_pointer [of m p] show ?thesis
      by (auto simp: print_instruction_def print_LoadInst_def)
  next
    case I_br
    with shape get [of 0] get [of 1] get [of 2] show ?thesis
      by (auto simp: print_instruction_def print_BranchInst_def n)
  qed (use shape get [of 0] get [of 1] in \<open>auto simp: print_instruction_def n print_BinaryInst_def print_CmpInst_def
      print_FCmpInst_def print_ReturnInst_def print_StoreInst_def print_AllocaInst_def print_ZextInst_def
      print_FpToSiInst_def print_SiToFpInst_def\<close>)
qed

text \<open>What a module needs to be printed; names do not matter for it.\<close>

definition printable :: "'b ir_module_scheme \<Rightarrow> bool" where
  "printable m \<longleftrightarrow> (\<forall>i < ni m. shaped_instr m i) \<and> globals_ok m \<and>
     (\<forall>f < nf m. \<forall>b \<in> set (basic_blocks (function_list m ! f)). \<forall>i \<in> set (instr_list (blocks m ! b)). i < ni m)"

lemma but_names_printable:
  assumes "but_names m m'" and "printable m"
  shows "printable m'"
proof -
  note same = but_namesD [OF assms(1)]
  have gr: "grows m m'" using same by (simp add: grows_def)
  have "shaped_instr m' i" if i: "shaped_instr m i" for i
  proof -
    from i obtain ops where ops: "operands (graph m) (V_Inst i) = map Some ops"
      "\<forall>v \<in> set ops. made_before m i v" "shape_ok m (i_op (instrs m ! i)) (i_data (instrs m ! i)) ops"
      by (auto simp: shaped_instr_def)
    have "\<forall>v \<in> set ops. valid_value m v" using ops(2) by (auto simp: made_before_def)
    from grows_shape [OF gr this] ops same grows_made_before [OF gr] show ?thesis by (auto simp: shaped_instr_def)
  qed
  with assms(2) same show ?thesis by (simp add: printable_def globals_ok_def)
qed

lemma print_BasicBlock_total:
  assumes "\<And>i. i \<in> set (instr_list (blocks m ! b)) \<Longrightarrow> shaped_instr m i"
  shows "\<exists>t. print_BasicBlock m b = Inr t"
proof -
  have "\<exists>ls. mapR (print_instruction m) (instr_list (blocks m ! b)) = Inr ls"
    by (rule mapR_total) (auto intro: print_instruction_total assms)
  then show ?thesis by (auto simp: print_BasicBlock_def Let_def)
qed

lemma function_text_total:
  assumes "printable m" "f < nf m"
  shows "\<exists>t. function_text m f = Inr t"
proof -
  have "\<exists>bbs. mapR (print_BasicBlock m) (basic_blocks (function_list m ! f)) = Inr bbs"
    using assms by (intro mapR_total print_BasicBlock_total) (auto simp: printable_def)
  then show ?thesis by (auto simp: function_text_def Let_def)
qed

lemma print_GlobalVariable_total: "globals_ok m \<Longrightarrow> g < ng m \<Longrightarrow> \<exists>t. print_GlobalVariable m g = Inr t"
proof -
  assume "globals_ok m" "g < ng m"
  then obtain t c where "g_type (global_list m ! g) = PointerTy t" "g_init (global_list m ! g) = Some c"
    unfolding globals_ok_def by blast
  then show "\<exists>t. print_GlobalVariable m g = Inr t" by (simp add: print_GlobalVariable_def Let_def)
qed

lemma print_Function_run:
  "function_text (set_instr_name f m) f = Inr t \<Longrightarrow> print_Function f m = Inr (t, set_instr_name f m)"
  by (simp add: print_Function_def thenS_def bindS_def liftR_def)

lemma print_functions_run:
  assumes "\<And>k. k \<le> length fs \<Longrightarrow> printable (fold set_instr_name (take k fs) m)" and "set fs \<subseteq> {..<nf m}"
    and "\<And>k. k \<le> length fs \<Longrightarrow> nf (fold set_instr_name (take k fs) m) = nf m"
  shows "\<exists>t. print_functions fs m = Inr (t, fold set_instr_name fs m)"
  using assms
proof (induction fs arbitrary: m)
  case (Cons f fs)
  let ?m = "set_instr_name f m"
  have m: "printable ?m" "nf ?m = nf m" using Cons.prems(1,3) [of 1] by simp_all
  with Cons.prems(2) obtain t where t: "function_text ?m f = Inr t" using function_text_total [of ?m f] by auto
  have "\<exists>t. print_functions fs ?m = Inr (t, fold set_instr_name fs ?m)"
  proof (rule Cons.IH)
    show "printable (fold set_instr_name (take k fs) ?m)" "nf (fold set_instr_name (take k fs) ?m) = nf ?m"
      if "k \<le> length fs" for k using Cons.prems(1,3) [of "Suc k"] that m(2) by simp_all
  qed (use Cons.prems(2) m(2) in simp)
  then show ?case using print_Function_run [OF t] by (auto simp: bindS_def)
qed simp

lemma codegen_printable: "codegen prog = Inr s \<Longrightarrow> printable s"
  using codegen_ir_ok codegen_code_ok [of prog s] placed_blocks [of s] placed_in_block [of s]
  by (fastforce simp: printable_def ir_ok_def code_ok_def)

lemma module_print_run:
  assumes "codegen prog = Inr s"
  shows "\<exists>t. module_print s = Inr (t, set_print_name s)"
proof -
  have globals: "\<exists>gs. mapR (print_GlobalVariable s) [0..<ng s] = Inr gs"
    using codegen_code_ok [OF assms] by (intro mapR_total print_GlobalVariable_total) (auto simp: code_ok_def)
  have bn: "but_names s (fold set_instr_name (take k [0..<nf s]) s)" for k
    using naming_functions [OF assms, of "take k [0..<nf s]"] set_take_subset [of k "[0..<nf s]"] by (simp add: atLeast0LessThan)
  have "\<exists>t. print_functions [0..<nf s] s = Inr (t, fold set_instr_name [0..<nf s] s)"
    by (rule print_functions_run) (rule but_names_printable [OF bn codegen_printable [OF assms]], force, rule but_namesD(1) [OF bn])
  with globals show ?thesis by (auto simp: module_print_def set_print_name_def bindS_def liftR_def)
qed

section \<open>Constants print apart\<close>

lemma show_hex_inj: "show_hex a = show_hex b \<Longrightarrow> a = b"
proof (induction a arbitrary: b rule: show_hex.induct)
  case (1 a)
  have ch: "c = d" if "hex_char c = hex_char d" "c < 16" "d < 16" for c d
  proof -
    from that(1) have "(of_char (hex_char c) :: nat) = of_char (hex_char d)" by simp
    with that(2,3) show ?thesis by (simp add: hex_char_def digit_char_def split: if_splits)
  qed
  have ne: "show_hex n \<noteq> []" for n by (simp add: show_hex.simps [of n])
  show ?case
  proof (cases "a < 16"; cases "b < 16")
    assume "a < 16" "b < 16"
    with 1 show ?thesis by (auto simp: show_hex.simps [of a] show_hex.simps [of b] intro: ch)
  next
    assume "a < 16" "\<not> b < 16"
    with 1 ne show ?thesis by (auto simp: show_hex.simps [of a] show_hex.simps [of b] Cons_eq_append_conv)
  next
    assume "\<not> a < 16" "b < 16"
    with 1 ne show ?thesis by (auto simp: show_hex.simps [of a] show_hex.simps [of b] append_eq_Cons_conv)
  next
    assume big: "\<not> a < 16" "\<not> b < 16"
    with 1(2) have "show_hex (a div 16) = show_hex (b div 16)" "hex_char (a mod 16) = hex_char (b mod 16)"
      by (simp_all add: show_hex.simps [of a] show_hex.simps [of b])
    with 1(1) [OF big(1)] ch [of "a mod 16" "b mod 16"] have "a div 16 = b div 16" "a mod 16 = b mod 16" by simp_all
    then show ?thesis by (metis div_mod_decomp)
  qed
qed

lemma bitlen_bounds: "n > 0 \<Longrightarrow> 2 ^ (bitlen n - 1) \<le> n \<and> n < 2 ^ bitlen n \<and> bitlen n > 0"
proof (induction n rule: bitlen.induct)
  case (1 n)
  show ?case
  proof (cases "n div 2 = 0")
    case True
    with 1(2) have "n = 1" by simp
    then show ?thesis by (simp add: bitlen.simps [of "Suc 0"] bitlen.simps [of 0])
  next
    case False
    with 1(1) have IH: "2 ^ (bitlen (n div 2) - 1) \<le> n div 2" "n div 2 < 2 ^ bitlen (n div 2)" "bitlen (n div 2) > 0"
      using 1(2) by simp_all
    have p: "(2::nat) ^ bitlen (n div 2) = 2 * 2 ^ (bitlen (n div 2) - 1)" using IH(3) by (simp add: power_eq_if)
    have b: "bitlen n = Suc (bitlen (n div 2))" using 1(2) by (simp add: bitlen.simps [of n])
    have n: "2 * (n div 2) \<le> n" "n \<le> 2 * (n div 2) + 1" by simp_all
    from IH(1) n(1) p have "2 ^ bitlen (n div 2) \<le> n" by linarith
    moreover from IH(2) n(2) have "n < 2 * 2 ^ bitlen (n div 2)" by linarith
    ultimately show ?thesis by (simp add: b)
  qed
qed

lemma bitlen_le: "n < 2 ^ k \<Longrightarrow> bitlen n \<le> k"
proof (cases "n = 0")
  case False
  assume "n < 2 ^ k"
  moreover have "2 ^ (bitlen n - 1) \<le> n" using False bitlen_bounds by simp
  ultimately have "(2::nat) ^ (bitlen n - 1) < 2 ^ k" by linarith
  then have "bitlen n - 1 < k" by (rule power_less_imp_less_exp [rotated]) (rule one_less_numeral_iff [THEN iffD2], simp)
  then show ?thesis by linarith
qed (simp add: bitlen.simps [of 0])

definition f64_magnitude :: "nat \<Rightarrow> nat \<Rightarrow> nat" where
  "f64_magnitude e f =
     (if e = 255 then 2047 * 2 ^ 52 + f * 2 ^ 29
      else if e \<noteq> 0 then (e + 896) * 2 ^ 52 + f * 2 ^ 29
      else if f = 0 then 0
      else (bitlen f + 873) * 2 ^ 52 + (f - 2 ^ (bitlen f - 1)) * 2 ^ (53 - bitlen f))"

lemma f64_bits_magnitude:
  assumes "\<not> f32_is_nan w"
  shows "f64_bits_of_f32 w = (if f32_sign w then 2 ^ 63 else 0) + f64_magnitude (f32_exp w) (f32_frac w)"
  using assms by (simp add: f64_bits_of_f32_def f64_magnitude_def Let_def)

text \<open>The exponent and the fraction of the result.\<close>

definition f64_exp :: "nat \<Rightarrow> nat \<Rightarrow> nat" where
  "f64_exp e f = (if e = 255 then 2047 else if e \<noteq> 0 then e + 896 else if f = 0 then 0 else bitlen f + 873)"
definition f64_frac :: "nat \<Rightarrow> nat \<Rightarrow> nat" where
  "f64_frac e f = (if e \<noteq> 0 then f * 2 ^ 29 else if f = 0 then 0 else (f - 2 ^ (bitlen f - 1)) * 2 ^ (53 - bitlen f))"

lemma f64_magnitude_parts: "f64_magnitude e f = f64_exp e f * 2 ^ 52 + f64_frac e f"
  by (simp add: f64_magnitude_def f64_exp_def f64_frac_def)

lemma f64_frac_less:
  assumes "f < 2 ^ 23"
  shows "f64_frac e f < 2 ^ 52"
proof (cases "e = 0 \<and> f \<noteq> 0")
  case True
  then have b: "2 ^ (bitlen f - 1) \<le> f" "f < 2 ^ bitlen f" "bitlen f > 0" using bitlen_bounds [of f] by simp_all
  have "bitlen f \<le> 23" using assms by (rule bitlen_le)
  have "(2::nat) ^ bitlen f = 2 * 2 ^ (bitlen f - 1)" using b(3) by (cases "bitlen f") simp_all
  with b(1,2) have "f - 2 ^ (bitlen f - 1) < 2 ^ (bitlen f - 1)" by linarith
  then have "(f - 2 ^ (bitlen f - 1)) * 2 ^ (53 - bitlen f) < 2 ^ (bitlen f - 1) * 2 ^ (53 - bitlen f)" by simp
  also have "\<dots> = 2 ^ (bitlen f - 1 + (53 - bitlen f))" by (rule power_add [symmetric])
  also have "bitlen f - 1 + (53 - bitlen f) = 52" using b(3) \<open>bitlen f \<le> 23\<close> by simp
  finally show ?thesis using True unfolding f64_frac_def by (simp only: simp_thms if_True if_False not_True_eq_False)
next
  case False
  with assms show ?thesis by (auto simp: f64_frac_def)
qed

lemma f64_magnitude_inj:
  assumes "e < 256" "e' < 256" "f < 2 ^ 23" "f' < 2 ^ 23" and eq: "f64_magnitude e f = f64_magnitude e' f'"
  shows "e = e' \<and> f = f'"
proof -
  have l: "f64_frac e f < 2 ^ 52" "f64_frac e' f' < 2 ^ 52" using assms f64_frac_less by simp_all
  from arg_cong [OF eq, of "\<lambda>x. x div 2 ^ 52"] l have ex: "f64_exp e f = f64_exp e' f'"
    by (simp add: f64_magnitude_parts)
  with eq have fr: "f64_frac e f = f64_frac e' f'" by (simp add: f64_magnitude_parts)
  have b: "bitlen f \<le> 23" "bitlen f' \<le> 23" using assms(3,4) bitlen_le by simp_all
  have e: "e = e'"
    using ex b assms(1,2) by (auto simp: f64_exp_def split: if_splits)
  show ?thesis
  proof (cases "e = 0 \<and> f \<noteq> 0")
    case True
    with e ex b have "f' \<noteq> 0" "bitlen f = bitlen f'" by (auto simp: f64_exp_def split: if_splits)
    with True e fr have "f - 2 ^ (bitlen f - 1) = f' - 2 ^ (bitlen f' - 1)" by (simp add: f64_frac_def)
    moreover have "2 ^ (bitlen f - 1) \<le> f" "2 ^ (bitlen f' - 1) \<le> f'"
      using True \<open>f' \<noteq> 0\<close> bitlen_bounds by simp_all
    ultimately show ?thesis using e \<open>bitlen f = bitlen f'\<close> by simp
  next
    case False
    with e ex fr b show ?thesis by (auto simp: f64_frac_def f64_exp_def split: if_splits)
  qed
qed

lemma f32_fields_inj:
  assumes "f32_sign v = f32_sign w" "f32_exp v = f32_exp w" "f32_frac v = f32_frac w"
  shows "v = w"
proof -
  have "f32_bits v = f32_bits w"
    using assms(2,3) unfolding f32_exp_def f32_frac_def by (metis div_mult_mod_eq)
  then have low: "take_bit 31 v = take_bit 31 w" unfolding f32_bits_def by (rule unsigned_word_eqI)
  show ?thesis
  proof (rule bit_eqI)
    fix n assume "possible_bit TYPE(f32) n"
    then have n: "n < 32" by simp
    show "bit v n = bit w n"
    proof (cases "n = 31")
      case True
      with assms(1) show ?thesis by (simp add: f32_sign_def)
    next
      case False
      with n have "bit (take_bit 31 v) n = bit v n" "bit (take_bit 31 w) n = bit w n" by (simp_all add: bit_take_bit_iff)
      with low show ?thesis by simp
    qed
  qed
qed

lemma f32_ranges: "f32_exp w < 256" "f32_frac w < 2 ^ 23"
proof -
  have "f32_bits w < 2 ^ 31" unfolding f32_bits_def unsigned_take_bit_eq by (rule take_bit_nat_less_exp)
  then show "f32_exp w < 256" by (simp add: f32_exp_def less_mult_imp_div_less)
qed (simp add: f32_frac_def)

lemma f64_bits_inj:
  assumes "f64_bits_of_f32 v = f64_bits_of_f32 w" and "\<not> f32_is_nan v" and "\<not> f32_is_nan w"
  shows "v = w"
proof -
  have small: "f64_magnitude (f32_exp w) (f32_frac w) < 2 ^ 63" for w
  proof -
    have "bitlen (f32_frac w) \<le> 23" using f32_ranges(2) [of w] by (rule bitlen_le)
    then have "f64_exp (f32_exp w) (f32_frac w) < 2048" using f32_ranges(1) [of w] by (simp add: f64_exp_def)
    with f64_frac_less [OF f32_ranges(2), of "f32_exp w" w] show ?thesis by (simp add: f64_magnitude_parts)
  qed
  have "f32_sign v = f32_sign w" "f64_magnitude (f32_exp v) (f32_frac v) = f64_magnitude (f32_exp w) (f32_frac w)"
    using assms small [of v] small [of w] by (simp_all add: f64_bits_magnitude split: if_splits)
  with f64_magnitude_inj [OF f32_ranges(1) f32_ranges(1) f32_ranges(2) f32_ranges(2)] show ?thesis
    using f32_fields_inj by blast
qed

lemma show_int_inj: "show_int a = show_int b \<Longrightarrow> a = b"
proof -
  have head: "CHR ''-'' # s \<noteq> show_nat n" for s n
  proof
    assume "CHR ''-'' # s = show_nat n"
    then have "CHR ''-'' \<in> set (show_nat n)" by (metis list.set_intros(1))
    from show_nat_digits [OF this] show False by (simp add: is_digit_def)
  qed
  assume "show_int a = show_int b"
  with head head [symmetric] show "a = b" by (auto simp: show_int_def show_nat_inj split: if_splits)
qed

section \<open>Properties\<close>

text \<open>C22: in the module that code generation returns, every instruction has the number of operands
  and the data its class needs, none is null, and each is an object of the module that was made
  before the instruction. Branches go to blocks, loads and addresses go through pointers, and the
  arguments of a call have the parameter types of the function called. The types of the operands of
  comparisons, stores, arithmetic, conversions and of conditions are not claimed: a loop compares a
  float condition with an integer.\<close>

theorem codegen_operands_typed:
  assumes "codegen prog = Inr s" and "i < length (instrs s)"
  shows "\<exists>ops. operands (graph s) (V_Inst i) = map Some ops \<and> (\<forall>v \<in> set ops. made_before s i v) \<and>
    shape_ok s (i_op (instrs s ! i)) (i_data (instrs s ! i)) ops"
  using codegen_code_ok [OF assms(1)] assms(2) by (simp add: code_ok_def shaped_instr_def)

lemma codegen_operands_typed_witness:
  "\<exists>s ops. codegen sample_program = Inr s \<and> i_op (instrs s ! 3) = I_load \<and>
    operands (graph s) (V_Inst 3) = map Some ops \<and> shape_ok s I_load X_None ops"
proof -
  obtain s where s: "codegen sample_program = Inr s" using codegen_sample by blast
  have "case codegen sample_program of Inl _ \<Rightarrow> False
    | Inr s \<Rightarrow> 3 < length (instrs s) \<and> i_op (instrs s ! 3) = I_load \<and> i_data (instrs s ! 3) = X_None" by code_simp
  then have i: "3 < length (instrs s)" "i_op (instrs s ! 3) = I_load" "i_data (instrs s ! 3) = X_None" by (simp_all add: s)
  from codegen_operands_typed [OF s i(1)] i s show ?thesis by auto
qed

text \<open>C23: printing a generated module fails nowhere: no assertion of a \<open>print\<close> method fails
  and none reads a missing or null operand. All it changes are the names, and those are the names
  \<open>set_print_name\<close> gives.\<close>

theorem module_print_total:
  assumes "codegen prog = Inr s"
  shows "\<exists>t. module_print s = Inr (t, set_print_name s)"
  by (rule module_print_run [OF assms])

lemma module_print_total_witness:
  "\<exists>s t. codegen sample_program = Inr s \<and> module_print s = Inr (t, set_print_name s) \<and>
    take 44 t = ''@g = global [4 x float] zeroinitializer'' @ [CHR 0x0A] @ ''decl''"
proof -
  obtain s where s: "codegen sample_program = Inr s" using codegen_sample by blast
  have "case codegen sample_program of Inl _ \<Rightarrow> False
    | Inr s \<Rightarrow> (case module_print s of Inl _ \<Rightarrow> False | Inr (t, _) \<Rightarrow>
       take 44 t = ''@g = global [4 x float] zeroinitializer'' @ [CHR 0x0A] @ ''decl'')" by code_simp
  with module_print_total [OF s] s show ?thesis by auto
qed

text \<open>C24: when a generated module has been printed, every argument, block and non-void instruction of
  a function has a name and no two of the same function have the same; naming once more changes
  nothing.\<close>

theorem printed_names_unique:
  assumes "codegen prog = Inr s" and "f < length (function_list s)" and "module_print s = Inr (t, s')"
  shows "distinct (map (get_name s') (named_values s' f)) \<and> [] \<notin> get_name s' ` set (named_values s' f) \<and>
    set_instr_name f s' = s'"
proof -
  from module_print_run [OF assms(1)] assms(3) have s': "s' = fold set_instr_name [0..<nf s] s"
    by (auto simp: set_print_name_def)
  have "well_named s' f" using naming_functions [OF assms(1), of "[0..<nf s]"] assms(2)
    by (simp add: s' atLeast0LessThan)
  then show ?thesis using set_instr_name_done by (simp add: well_named_def)
qed

lemma printed_names_unique_witness:
  "\<exists>s t s'. codegen sample_program = Inr s \<and> module_print s = Inr (t, s') \<and>
    map (get_name s') (named_values s' 4) = [''arg0'', ''label_entry'', ''op1'', ''label2'', ''op3'', ''op4'', ''op5'', ''op6'',
      ''label7'', ''label8''] \<and> distinct (map (get_name s') (named_values s' 4))"
proof -
  obtain s where s: "codegen sample_program = Inr s" using codegen_sample by blast
  have "case codegen sample_program of Inl _ \<Rightarrow> False
    | Inr s \<Rightarrow> 4 < length (function_list s) \<and> (case module_print s of Inl _ \<Rightarrow> False | Inr (t, s') \<Rightarrow>
       map (get_name s') (named_values s' 4) = [''arg0'', ''label_entry'', ''op1'', ''label2'', ''op3'', ''op4'', ''op5'', ''op6'',
      ''label7'', ''label8''])" by code_simp
  then obtain t s' where p: "4 < length (function_list s)" "module_print s = Inr (t, s')"
    "map (get_name s') (named_values s' 4) = [''arg0'', ''label_entry'', ''op1'', ''label2'', ''op3'', ''op4'', ''op5'', ''op6'',
      ''label7'', ''label8'']" by (auto simp: s split: sum.splits)
  from printed_names_unique [OF s p(1,2)] p(2,3) s show ?thesis by (intro exI [of _ s] exI [of _ t] exI [of _ s']) simp
qed

text \<open>Integers, truth values and the floats that are numbers, which a module holds once each.\<close>

fun shared_constant :: "irval \<Rightarrow> bool" where
  "shared_constant (V_Int _) = True" | "shared_constant (V_Bool _) = True"
| "shared_constant (V_FP w) = (\<not> f32_is_nan w)" | "shared_constant _ = False"

text \<open>C25: two integer, truth value or float constants of the same type, no NaN among them, print
  alike only when they are the same constant; for floats the text gives the bits of the double, so
  -0.0 and 0.0 print apart. (A NaN is a new object at each request, and all that differ in the quiet
  bit only print alike.)\<close>

theorem print_constant_inject:
  assumes "shared_constant v" and "shared_constant w" and "get_type m v = get_type m w"
    and "print_constant v = print_constant w"
  shows "v = w"
proof (cases v)
  case (V_Int i)
  with assms obtain j where w: "w = V_Int j" by (cases w) auto
  with V_Int assms(4) have "sint i = sint j" by (auto simp: print_constant_def print_ConstantInt_def dest: show_int_inj)
  then show ?thesis using V_Int w by (simp add: signed_word_eqI)
next
  case (V_Bool b)
  with assms obtain c where w: "w = V_Bool c" by (cases w) auto
  with V_Bool assms(4) show ?thesis by (cases b; cases c) (simp_all add: print_constant_def print_ConstantInt_def)
next
  case (V_FP x)
  with assms obtain y where w: "w = V_FP y" by (cases w) auto
  with V_FP assms show ?thesis
    by (auto simp: print_constant_def print_ConstantFP_def dest!: show_hex_inj f64_bits_inj)
qed (use assms in auto)

lemma print_constant_inject_witness:
  "print_constant (V_FP 0x80000000) = ''0x8000000000000000'' \<and> print_constant (V_FP 0x80000000) \<noteq> print_constant (V_FP 0)"
proof
  have number: "\<not> f32_is_nan 0x80000000" "\<not> f32_is_nan 0"
    by (simp_all add: f32_is_nan_def f32_bits_def f32_inf_bits_def)
  then have "f64_bits_of_f32 0x80000000 = 0x8000000000000000"
    by (simp add: f64_bits_of_f32_def f32_exp_def f32_frac_def f32_bits_def f32_sign_def)
  moreover have "show_hex 0x8000000000000000 = ''8000000000000000''"
    by (simp add: show_hex.simps hex_char_def digit_char_def char_of_def bit_Suc_0_iff)
  ultimately show "print_constant (V_FP 0x80000000) = ''0x8000000000000000''"
    by (simp add: print_constant_def print_ConstantFP_def)
  show "print_constant (V_FP 0x80000000) \<noteq> print_constant (V_FP 0)"
  proof
    assume "print_constant (V_FP 0x80000000) = print_constant (V_FP 0)"
    from print_constant_inject [OF _ _ _ this, of new_module] number have "V_FP 0x80000000 = V_FP 0" by simp
    then show False by simp
  qed
qed

text \<open>Two requests for a NaN give two constants that print alike, quiet or not.\<close>

lemma nan_constants_print_alike:
  "V_NaN f32_nan 0 \<noteq> V_NaN 0x7F800001 1 \<and> print_constant (V_NaN 0x7FC00001 0) = print_constant (V_NaN 0x7F800001 1)"
  by (simp add: print_constant_def print_ConstantFP_def f64_bits_of_f32_def f32_is_nan_def f32_inf_bits_def f32_exp_def
      f32_frac_def f32_bits_def f32_sign_def)

end
