(* ===== verification/FuncInfo.thy ===== *)
theory FuncInfo
  imports IrPrint Worklist
begin

text \<open>
  The analysis \<open>FuncInfo\<close> of \<open>optimization/FuncInfo.h\<close>: which functions are pure.
\<close>

section \<open>State and queries\<close>

text \<open>Reading \<open>is_pure\<close> with \<open>[]\<close> adds \<open>false\<close> for a function that is not in the map.\<close>

record func_info =
  is_pure :: "nat \<Rightarrow> bool option"
  worklist :: "nat list"

definition new_func_info :: func_info where
  "new_func_info = \<lparr>is_pure = Map.empty, worklist = []\<rparr>"

definition is_pure_function :: "func_info \<Rightarrow> nat option \<Rightarrow> bool result" where
  "is_pure_function fi f = (case Option.bind f (is_pure fi) of None \<Rightarrow> Inl OutOfRange | Some p \<Rightarrow> Inr p)"

definition set_pure :: "nat \<Rightarrow> bool \<Rightarrow> func_info \<Rightarrow> func_info" where
  "set_pure f p fi = fi\<lparr>is_pure := (is_pure fi)(f \<mapsto> p)\<rparr>"

definition is_declaration :: "ir_function \<Rightarrow> bool" where
  "is_declaration f \<longleftrightarrow> basic_blocks f = []"

definition inst_function :: "'b ir_module_scheme \<Rightarrow> nat \<Rightarrow> nat result" where
  "inst_function m i = (case i_parent (instrs m ! i) of None \<Rightarrow> Inl NullDeref | Some b \<Rightarrow> Inr (bb_parent (blocks m ! b)))"

definition function_instrs :: "'b ir_module_scheme \<Rightarrow> nat \<Rightarrow> nat list" where
  "function_instrs m f = concat (map (\<lambda>b. instr_list (blocks m ! b)) (basic_blocks (function_list m ! f)))"

section \<open>Side effects\<close>

text \<open>The loop over the operands: the first one of pointer type.\<close>

fun first_pointer :: "'b ir_module_scheme \<Rightarrow> irval option list \<Rightarrow> irval option result" where
  "first_pointer m [] = Inr None"
| "first_pointer m (op # ops) = (case op of
     None \<Rightarrow> Inl NullDeref
   | Some v \<Rightarrow> if is_pointer_type (get_type m v) then Inr (Some v) else first_pointer m ops)"

partial_function (option) get_first_addr :: "'b ir_module_scheme \<Rightarrow> irval option \<Rightarrow> irval option run" where
  "get_first_addr m val = (case val of
     Some (V_Inst i) \<Rightarrow>
       if i_op (instrs m ! i) = I_alloca then returnP val
       else if i_op (instrs m ! i) = I_getelementptr then
         bindP (Some (nth_checked (operands (graph m) (V_Inst i)) 0)) (get_first_addr m)
       else if i_op (instrs m ! i) = I_load then returnP val
       else bindP (Some (first_pointer m (operands (graph m) (V_Inst i)))) (\<lambda>op.
              if op \<noteq> None then get_first_addr m op else returnP val)
   | _ \<Rightarrow> returnP val)"

declare get_first_addr.simps [code]

definition is_local_addr :: "'b ir_module_scheme \<Rightarrow> irval option \<Rightarrow> bool run" where
  "is_local_addr m val = bindP (get_first_addr m val) (\<lambda>addr. returnP (case addr of
     Some (V_Inst i) \<Rightarrow> i_op (instrs m ! i) = I_alloca | _ \<Rightarrow> False))"

definition is_local_load :: "'b ir_module_scheme \<Rightarrow> nat \<Rightarrow> bool run" where
  "is_local_load m i = bindP (Some (nth_checked (operands (graph m) (V_Inst i)) 0)) (is_local_addr m)"

definition is_local_store :: "'b ir_module_scheme \<Rightarrow> nat \<Rightarrow> bool run" where
  "is_local_store m i = bindP (Some (nth_checked (operands (graph m) (V_Inst i)) 1)) (is_local_addr m)"

definition is_side_effect_inst :: "'b ir_module_scheme \<Rightarrow> nat \<Rightarrow> bool run" where
  "is_side_effect_inst m i =
     (if i_op (instrs m ! i) = I_store then bindP (is_local_store m i) (\<lambda>l. returnP (\<not> l))
      else if i_op (instrs m ! i) = I_load then bindP (is_local_load m i) (\<lambda>l. returnP (\<not> l))
      else returnP False)"

fun any_side_effect :: "'b ir_module_scheme \<Rightarrow> nat list \<Rightarrow> bool run" where
  "any_side_effect m [] = returnP False"
| "any_side_effect m (i # is) = bindP (is_side_effect_inst m i) (\<lambda>e. if e then returnP True else any_side_effect m is)"

section \<open>Marking\<close>

definition trivial_mark :: "'b ir_module_scheme \<Rightarrow> nat \<Rightarrow> func_info \<Rightarrow> func_info run" where
  "trivial_mark m f fi =
     (if is_declaration (function_list m ! f) \<or> f_name (function_list m ! f) = ''main'' then returnP (set_pure f False fi)
      else if \<exists>t \<in> set (function_param_types (f_type (function_list m ! f))). \<not> is_integer_type t \<and> \<not> is_float_type t
      then returnP (set_pure f False fi)
      else bindP (any_side_effect m (function_instrs m f)) (\<lambda>e. returnP (set_pure f (\<not> e) fi)))"

text \<open>
  The text of a user, which \<open>process\<close> builds for the log whether the log is written or
  not. The users of the code are instructions, global variables and constants.
\<close>

definition user_print :: "'b ir_module_scheme \<Rightarrow> irval \<Rightarrow> string result" where
  "user_print m u = (case u of
     V_Inst i \<Rightarrow> print_instruction m i
   | V_Global g \<Rightarrow> print_GlobalVariable m g
   | _ \<Rightarrow> Inr (print_constant u))"

fun process_uses :: "'b ir_module_scheme \<Rightarrow> (irval \<times> nat) list \<Rightarrow> func_info \<Rightarrow> func_info result" where
  "process_uses m [] fi = Inr fi"
| "process_uses m (u # us) fi = bindR (user_print m (fst u)) (\<lambda>_. case fst u of
     V_Inst i \<Rightarrow> bindR (inst_function m i) (\<lambda>f.
       if is_pure fi f = Some True
       then process_uses m us ((set_pure f False fi)\<lparr>worklist := worklist fi @ [f]\<rparr>)
       else process_uses m us (set_pure f False fi))
   | _ \<Rightarrow> process_uses m us fi)"

definition process :: "'b ir_module_scheme \<Rightarrow> nat \<Rightarrow> func_info \<Rightarrow> func_info result" where
  "process m f fi = process_uses m (use_list (graph m) (V_Fun f)) fi"

partial_function (option) process_loop :: "'b ir_module_scheme \<Rightarrow> func_info \<Rightarrow> func_info run" where
  "process_loop m fi = (case worklist fi of
     [] \<Rightarrow> returnP fi
   | now # rest \<Rightarrow> bindP (Some (process m now (fi\<lparr>worklist := rest\<rparr>))) (process_loop m))"

definition mark_and_queue :: "'b ir_module_scheme \<Rightarrow> nat \<Rightarrow> func_info \<Rightarrow> func_info run" where
  "mark_and_queue m f fi = bindP (trivial_mark m f fi) (\<lambda>fi.
     if is_pure fi f \<noteq> Some True then returnP (fi\<lparr>worklist := worklist fi @ [f]\<rparr>) else returnP fi)"

definition func_info_run :: "'b ir_module_scheme \<Rightarrow> func_info \<Rightarrow> func_info run" where
  "func_info_run m fi = bindP (foldP (mark_and_queue m) [0..<length (function_list m)] fi) (process_loop m)"

end
