(* ===== verification/DeadCode.thy ===== *)
theory DeadCode
  imports FuncInfo
begin

text \<open>
  The pass \<open>DeadCode\<close> of \<open>optimization/DeadCode.h\<close>: instructions with
  an effect are marked, then what they use; the others are erased, until nothing changes.
\<close>

section \<open>State\<close>

record dead_code =
  ins_count :: nat
  work_list :: "nat list"
  marked :: "nat \<Rightarrow> bool"

definition new_dead_code :: dead_code where
  "new_dead_code = \<lparr>ins_count = 0, work_list = [], marked = (\<lambda>_. False)\<rparr>"

section \<open>Marking\<close>

definition is_critical :: "'b ir_module_scheme \<Rightarrow> func_info \<Rightarrow> nat \<Rightarrow> bool result" where
  "is_critical m fi i =
     (if i_op (instrs m ! i) = I_call then
        bindR (nth_checked (operands (graph m) (V_Inst i)) 0) (\<lambda>op.
        bindR (is_pure_function fi (case op of Some (V_Fun f) \<Rightarrow> Some f | _ \<Rightarrow> None)) (\<lambda>p. Inr (\<not> p)))
      else if i_op (instrs m ! i) = I_br \<or> i_op (instrs m ! i) = I_ret then Inr True
      else if i_op (instrs m ! i) = I_store then Inr True
      else Inr False)"

definition mark_inst :: "nat \<Rightarrow> dead_code \<Rightarrow> dead_code" where
  "mark_inst i dc = dc\<lparr>marked := (marked dc)(i := True), work_list := work_list dc @ [i]\<rparr>"

fun mark_critical :: "'b ir_module_scheme \<Rightarrow> func_info \<Rightarrow> nat list \<Rightarrow> dead_code \<Rightarrow> dead_code result" where
  "mark_critical m fi [] dc = Inr dc"
| "mark_critical m fi (i # is) dc =
     bindR (is_critical m fi i) (\<lambda>c. mark_critical m fi is (if c then mark_inst i dc else dc))"

text \<open>\<open>mark (ins)\<close>: the loop over the operands of \<open>i\<close>.\<close>

fun mark_operands :: "'b ir_module_scheme \<Rightarrow> nat \<Rightarrow> irval option list \<Rightarrow> dead_code \<Rightarrow> dead_code result" where
  "mark_operands m i [] dc = Inr dc"
| "mark_operands m i (op # ops) dc = (case op of
     Some (V_Inst d) \<Rightarrow>
       if marked dc d then mark_operands m i ops dc
       else bindR (inst_function m d) (\<lambda>fd. bindR (inst_function m i) (\<lambda>fi.
            if fd \<noteq> fi then mark_operands m i ops dc
            else mark_operands m i ops (mark_inst d dc)))
   | _ \<Rightarrow> mark_operands m i ops dc)"

definition mark_uses :: "'b ir_module_scheme \<Rightarrow> nat \<Rightarrow> dead_code \<Rightarrow> dead_code result" where
  "mark_uses m i dc = mark_operands m i (operands (graph m) (V_Inst i)) dc"

partial_function (option) mark_loop :: "'b ir_module_scheme \<Rightarrow> dead_code \<Rightarrow> dead_code run" where
  "mark_loop m dc = (case work_list dc of
     [] \<Rightarrow> returnP dc
   | now # rest \<Rightarrow> bindP (Some (mark_uses m now (dc\<lparr>work_list := rest\<rparr>))) (mark_loop m))"

definition mark_function :: "'b ir_module_scheme \<Rightarrow> func_info \<Rightarrow> nat \<Rightarrow> dead_code \<Rightarrow> dead_code run" where
  "mark_function m fi f dc =
     bindP (Some (mark_critical m fi (function_instrs m f) (dc\<lparr>work_list := [], marked := (\<lambda>_. False)\<rparr>))) (mark_loop m)"

section \<open>Sweeping\<close>

text \<open>
  \<open>wait_del\<close> is an unordered set; here it has the order of the instructions. The
  removals do not depend on it: each takes away the uses of one user, or one list entry.
\<close>

definition remove_use_of_ops_ir :: "nat \<Rightarrow> ('b, unit) ir" where
  "remove_use_of_ops_ir i = bindS (getS graph) (\<lambda>g. bindS (liftR (remove_use_of_ops (V_Inst i) g)) (\<lambda>g'.
     modifyS (\<lambda>m. m\<lparr>graph := g'\<rparr>)))"

definition erase_instruction :: "nat \<Rightarrow> ('b, unit) ir" where
  "erase_instruction i = bindS (getS (\<lambda>m. i_parent (instrs m ! i))) (\<lambda>p. bindS (derefS p) (\<lambda>b.
     upd_block b (\<lambda>B. B\<lparr>instr_list := remove1 i (instr_list B)\<rparr>)))"

definition sweep :: "nat \<Rightarrow> dead_code \<Rightarrow> ('b, bool \<times> dead_code) ir" where
  "sweep f dc = bindS (getS (\<lambda>m. filter (\<lambda>i. \<not> marked dc i) (function_instrs m f))) (\<lambda>wait_del.
     thenS (seqS (map remove_use_of_ops_ir wait_del))
     (thenS (seqS (map erase_instruction wait_del))
     (returnS (wait_del \<noteq> [], dc\<lparr>ins_count := ins_count dc + length wait_del\<rparr>))))"

section \<open>The pass\<close>

definition dead_code_function :: "func_info \<Rightarrow> nat \<Rightarrow> bool \<times> dead_code \<times> 'b ir_module_scheme \<Rightarrow>
    (bool \<times> dead_code \<times> 'b ir_module_scheme) run" where
  "dead_code_function fi f = (\<lambda>(changed, dc, m). bindP (mark_function m fi f dc) (\<lambda>dc.
     bindP (Some (sweep f dc m)) (\<lambda>((c, dc), m). returnP (changed \<or> c, dc, m))))"

partial_function (option) dead_code_loop :: "func_info \<Rightarrow> dead_code \<times> 'b ir_module_scheme \<Rightarrow>
    (dead_code \<times> 'b ir_module_scheme) run" where
  "dead_code_loop fi s = bindP (foldP (dead_code_function fi) [0..<length (function_list (snd s))] (False, s)) (\<lambda>r.
     if fst r then dead_code_loop fi (snd r) else returnP (snd r))"

definition dead_code_run :: "'b ir_module_scheme \<Rightarrow> (dead_code \<times> 'b ir_module_scheme) run" where
  "dead_code_run m = bindP (func_info_run m new_func_info) (\<lambda>fi. dead_code_loop fi (new_dead_code, m))"

declare mark_loop.simps [code]
declare dead_code_loop.simps [code]
declare process_loop.simps [code]

end
