(* ===== verification/ConstFold.thy ===== *)
theory ConstFold
  imports Ir "HOL-Library.Signed_Division"
begin

text \<open>
  \<open>ConstFolder::compute\<close> of \<open>optimization/GVN.cpp\<close>: the value of an
  instruction whose operands are constants, against the value the instruction has in the
  IR. The folder computes with the \<open>int\<close> and \<open>float\<close> of the compiler: signed
  overflow is undefined there and a division can trap.
\<close>

section \<open>The folder\<close>

text \<open>\<open>dynamic_cast<ConstantInt *> (v)->get_value ()\<close>, null for another class.\<close>

definition get_const_int_value :: "irval \<Rightarrow> int result" where
  "get_const_int_value v = (case v of
     V_Int w \<Rightarrow> Inr (sint w) | V_Bool b \<Rightarrow> Inr (if b then 1 else 0) | _ \<Rightarrow> Inl NullDeref)"

definition get_const_fp_value :: "irval \<Rightarrow> f32 result" where
  "get_const_fp_value v = (case v of V_FP w \<Rightarrow> Inr w | V_NaN w _ \<Rightarrow> Inr w | _ \<Rightarrow> Inl NullDeref)"

definition int_of_result :: "int \<Rightarrow> i32 result" where
  "int_of_result i = (if int_min \<le> i \<and> i \<le> int_max then Inr (word_of_int i) else Inl IntOverflow)"

definition int_quotient :: "int \<Rightarrow> int \<Rightarrow> i32 result" where
  "int_quotient a b =
     (if b = 0 \<or> (a = int_min \<and> b = - 1) then Inl ArithTrap else Inr (word_of_int (trunc_div a b)))"

definition fold_int :: "(int \<Rightarrow> int \<Rightarrow> i32 result) \<Rightarrow> irval \<Rightarrow> irval \<Rightarrow> ('b, irval option) ir" where
  "fold_int f v1 v2 = bindS (liftR (get_const_int_value v1)) (\<lambda>a. bindS (liftR (get_const_int_value v2)) (\<lambda>b.
     bindS (liftR (f a b)) (\<lambda>w. bindS (ConstantInt_get w) (\<lambda>c. returnS (Some c)))))"

definition fold_fp :: "(f32 \<Rightarrow> f32 \<Rightarrow> f32) \<Rightarrow> irval \<Rightarrow> irval \<Rightarrow> ('b, irval option) ir" where
  "fold_fp f v1 v2 = bindS (liftR (get_const_fp_value v1)) (\<lambda>a. bindS (liftR (get_const_fp_value v2)) (\<lambda>b.
     bindS (ConstantFP_get (f a b)) (\<lambda>c. returnS (Some c))))"

fun int_compare :: "CmpOp \<Rightarrow> int \<Rightarrow> int \<Rightarrow> bool" where
  "int_compare C_EQ a b = (a = b)" | "int_compare C_NE a b = (a \<noteq> b)"
| "int_compare C_GT a b = (a > b)" | "int_compare C_GE a b = (a \<ge> b)"
| "int_compare C_LT a b = (a < b)" | "int_compare C_LE a b = (a \<le> b)"

text \<open>The comparisons of C++: false when an operand is not a number, but for \<open>!=\<close>.\<close>

fun fp_compare :: "CmpOp \<Rightarrow> f32 \<Rightarrow> f32 \<Rightarrow> bool" where
  "fp_compare C_EQ a b = f32_eq a b" | "fp_compare C_NE a b = (\<not> f32_eq a b)"
| "fp_compare C_GT a b = f32_lt b a" | "fp_compare C_GE a b = f32_le b a"
| "fp_compare C_LT a b = f32_lt a b" | "fp_compare C_LE a b = f32_le a b"

definition fold_cmp :: "inst_data \<Rightarrow> irval \<Rightarrow> irval \<Rightarrow> ('b, irval option) ir" where
  "fold_cmp x v1 v2 = (case x of
     X_Cmp op \<Rightarrow>
       bindS (liftR (get_const_int_value v1)) (\<lambda>a. bindS (liftR (get_const_int_value v2)) (\<lambda>b.
       bindS (ConstantInt_get_bool (int_compare op a b)) (\<lambda>c. returnS (Some c))))
   | _ \<Rightarrow> failS NullDeref)"

definition fold_fcmp :: "inst_data \<Rightarrow> irval \<Rightarrow> irval \<Rightarrow> ('b, irval option) ir" where
  "fold_fcmp x v1 v2 = (case x of
     X_Cmp op \<Rightarrow>
       bindS (liftR (get_const_fp_value v1)) (\<lambda>a. bindS (liftR (get_const_fp_value v2)) (\<lambda>b.
       bindS (ConstantInt_get_bool (fp_compare op a b)) (\<lambda>c. returnS (Some c))))
   | _ \<Rightarrow> failS NullDeref)"

definition compute_binary :: "OpID \<Rightarrow> inst_data \<Rightarrow> irval \<Rightarrow> irval \<Rightarrow> ('b, irval option) ir" where
  "compute_binary op x v1 v2 = (case op of
     I_add \<Rightarrow> fold_int (\<lambda>a b. int_of_result (a + b)) v1 v2
   | I_sub \<Rightarrow> fold_int (\<lambda>a b. int_of_result (a - b)) v1 v2
   | I_mul \<Rightarrow> fold_int (\<lambda>a b. int_of_result (a * b)) v1 v2
   | I_sdiv \<Rightarrow> fold_int int_quotient v1 v2
   | I_fadd \<Rightarrow> fold_fp f32_add v1 v2
   | I_fsub \<Rightarrow> fold_fp f32_sub v1 v2
   | I_fmul \<Rightarrow> fold_fp f32_mul v1 v2
   | I_fdiv \<Rightarrow> fold_fp f32_div v1 v2
   | I_cmp \<Rightarrow> fold_cmp x v1 v2
   | I_fcmp \<Rightarrow> fold_fcmp x v1 v2
   | _ \<Rightarrow> returnS None)"

definition compute_unary :: "OpID \<Rightarrow> irval \<Rightarrow> ('b, irval option) ir" where
  "compute_unary op v = (case op of
     I_sitofp \<Rightarrow> bindS (liftR (get_const_int_value v)) (\<lambda>a.
       bindS (ConstantFP_get (f32_of_int a)) (\<lambda>c. returnS (Some c)))
   | I_fptosi \<Rightarrow> bindS (liftR (get_const_fp_value v)) (\<lambda>a.
       case f32_to_int a of
         None \<Rightarrow> failS IntOverflow
       | Some w \<Rightarrow> bindS (ConstantInt_get w) (\<lambda>c. returnS (Some c)))
   | I_zext \<Rightarrow> bindS (liftR (get_const_int_value v)) (\<lambda>a.
       bindS (ConstantInt_get (word_of_int a)) (\<lambda>c. returnS (Some c)))
   | _ \<Rightarrow> returnS None)"

section \<open>What the instructions mean\<close>

text \<open>
  The values of the IR at run time. Integer arithmetic wraps around, a division by zero or
  of the least integer by \<open>-1\<close> has no value, and the printed predicates of
  \<open>fcmp\<close> (\<open>ueq\<close>, \<open>ugt\<close>, ...) hold when an operand is not a number.
\<close>

datatype rtval = R_Int i32 | R_Bool bool | R_FP f32

fun eval_const :: "irval \<Rightarrow> rtval option" where
  "eval_const (V_Int w) = Some (R_Int w)"
| "eval_const (V_Bool b) = Some (R_Bool b)"
| "eval_const (V_FP w) = Some (R_FP w)"
| "eval_const (V_NaN w _) = Some (R_FP w)"
| "eval_const _ = None"

text \<open>The predicates of \<open>icmp\<close>: \<open>eq\<close>, \<open>ne\<close> and the signed orders.\<close>

fun icmp_signed :: "CmpOp \<Rightarrow> i32 \<Rightarrow> i32 \<Rightarrow> bool" where
  "icmp_signed C_EQ a b = (a = b)" | "icmp_signed C_NE a b = (a \<noteq> b)"
| "icmp_signed C_GT a b = word_sless b a" | "icmp_signed C_GE a b = word_sle b a"
| "icmp_signed C_LT a b = word_sless a b" | "icmp_signed C_LE a b = word_sle a b"

text \<open>An unordered predicate is the negation of the ordered opposite.\<close>

fun fcmp_unordered :: "CmpOp \<Rightarrow> f32 \<Rightarrow> f32 \<Rightarrow> bool" where
  "fcmp_unordered C_EQ a b = (\<not> f32_lt a b \<and> \<not> f32_lt b a)" | "fcmp_unordered C_NE a b = (\<not> f32_eq a b)"
| "fcmp_unordered C_GT a b = (\<not> f32_le a b)" | "fcmp_unordered C_GE a b = (\<not> f32_lt a b)"
| "fcmp_unordered C_LT a b = (\<not> f32_le b a)" | "fcmp_unordered C_LE a b = (\<not> f32_lt b a)"

definition eval_int :: "OpID \<Rightarrow> inst_data \<Rightarrow> i32 \<Rightarrow> i32 \<Rightarrow> rtval option" where
  "eval_int op x a b = (case op of
     I_add \<Rightarrow> Some (R_Int (a + b))
   | I_sub \<Rightarrow> Some (R_Int (a - b))
   | I_mul \<Rightarrow> Some (R_Int (a * b))
   | I_sdiv \<Rightarrow> if sint b = 0 \<or> (sint a = int_min \<and> sint b = - 1) then None
               else Some (R_Int (word_of_int (sint a sdiv sint b)))
   | I_cmp \<Rightarrow> (case x of X_Cmp c \<Rightarrow> Some (R_Bool (icmp_signed c a b)) | _ \<Rightarrow> None)
   | _ \<Rightarrow> None)"

definition eval_fp :: "OpID \<Rightarrow> inst_data \<Rightarrow> f32 \<Rightarrow> f32 \<Rightarrow> rtval option" where
  "eval_fp op x a b = (case op of
     I_fadd \<Rightarrow> Some (R_FP (f32_add a b))
   | I_fsub \<Rightarrow> Some (R_FP (f32_sub a b))
   | I_fmul \<Rightarrow> Some (R_FP (f32_mul a b))
   | I_fdiv \<Rightarrow> Some (R_FP (f32_div a b))
   | I_fcmp \<Rightarrow> (case x of X_Cmp c \<Rightarrow> Some (R_Bool (fcmp_unordered c a b)) | _ \<Rightarrow> None)
   | _ \<Rightarrow> None)"

fun eval_binary :: "OpID \<Rightarrow> inst_data \<Rightarrow> rtval \<Rightarrow> rtval \<Rightarrow> rtval option" where
  "eval_binary op x (R_Int a) (R_Int b) = eval_int op x a b"
| "eval_binary op x (R_FP a) (R_FP b) = eval_fp op x a b"
| "eval_binary op x _ _ = None"

fun eval_unary :: "OpID \<Rightarrow> rtval \<Rightarrow> rtval option" where
  "eval_unary I_sitofp (R_Int a) = Some (R_FP (f32_of_int (sint a)))"
| "eval_unary I_fptosi (R_FP a) = map_option R_Int (f32_to_int a)"
| "eval_unary I_zext (R_Bool b) = Some (R_Int (if b then 1 else 0))"
| "eval_unary _ _ = None"

text \<open>
  The float constants of a module are shared between values that compare equal, so a
  folded float is right up to the sign of zero.
\<close>

fun same_value :: "rtval \<Rightarrow> rtval \<Rightarrow> bool" where
  "same_value (R_FP a) (R_FP b) = (a = b \<or> f32_eq a b)"
| "same_value a b = (a = b)"

section \<open>Agreement\<close>

lemma ConstantFP_get_result:
  assumes "ConstantFP_get w s = Inr (c, s')"
  obtains v where "eval_const c = Some (R_FP v)" and "v = w \<or> f32_eq v w"
proof (cases "find (\<lambda>v. f32_eq v w) (cached_float s)")
  case None
  with assms show ?thesis by (intro that [of w]) (auto simp: ConstantFP_get_def bindS_def thenS_def split: if_splits)
next
  case (Some v)
  then have "f32_eq v w" by (auto simp: find_Some_iff)
  with assms Some show ?thesis by (intro that [of v]) (auto simp: ConstantFP_get_def bindS_def)
qed

lemma word_of_sint_ops:
  fixes a b :: i32
  shows "word_of_int (sint a + sint b) = a + b" "word_of_int (sint a - sint b) = a - b"
    "word_of_int (sint a * sint b) = a * b"
  by (simp_all add: wi_hom_syms)

lemma int_compare_signed: "int_compare c (sint a) (sint b) = icmp_signed c a b" for a b :: i32
  using word_eq_iff_signed [of a b] by (cases c) (auto simp: word_sless_alt word_sle_eq)

lemma fp_compare_numbers: "\<not> f32_is_nan a \<Longrightarrow> \<not> f32_is_nan b \<Longrightarrow> fp_compare c a b = fcmp_unordered c a b"
  by (cases c) (auto simp: f32_eq_def f32_lt_def f32_le_def f32_unordered_def)

lemma trunc_div_sdiv: "trunc_div a b = a sdiv b"
  by (simp add: trunc_div_def signed_divide_int_def)

lemma get_const_values [simp]:
  "get_const_int_value (V_Int a) = Inr (sint a)" "get_const_int_value (V_Bool b) = Inr (if b then 1 else 0)"
  "get_const_int_value (V_FP w) = Inl NullDeref" "get_const_int_value (V_Zero t) = Inl NullDeref"
  "get_const_int_value (V_NaN w k) = Inl NullDeref"
  "get_const_fp_value (V_FP w) = Inr w" "get_const_fp_value (V_NaN w k) = Inr w" "get_const_fp_value (V_Int a) = Inl NullDeref"
  "get_const_fp_value (V_Bool b) = Inl NullDeref" "get_const_fp_value (V_Zero t) = Inl NullDeref"
  by (simp_all add: get_const_int_value_def get_const_fp_value_def)

lemma fold_run [simp]:
  "fold_int f (V_Int a) (V_Int b) s = bindR (f (sint a) (sint b)) (\<lambda>w. Inr (Some (V_Int w), s))"
  "fold_fp g (V_FP v) (V_FP w) s = bindR (ConstantFP_get (g v w) s) (\<lambda>(c, s'). Inr (Some c, s'))"
  "fold_fp g (V_Int a) u s = Inl NullDeref"
  "fold_int f (V_FP v) u s = Inl NullDeref"
  "fold_cmp (X_Cmp c) (V_FP v) u s = Inl NullDeref"
  "fold_cmp (X_Cmp c) (V_Int a) (V_Int b) s = Inr (Some (V_Bool (int_compare c (sint a) (sint b))), s)"
  "fold_fcmp (X_Cmp c) (V_FP v) (V_FP w) s = Inr (Some (V_Bool (fp_compare c v w)), s)"
  "fold_fcmp (X_Cmp c) (V_Int a) u s = Inl NullDeref"
  "\<forall>c. x \<noteq> X_Cmp c \<Longrightarrow> fold_cmp x u u' s = Inl NullDeref"
  "\<forall>c. x \<noteq> X_Cmp c \<Longrightarrow> fold_fcmp x u u' s = Inl NullDeref"
  by (simp_all add: fold_int_def fold_fp_def fold_cmp_def fold_fcmp_def bindS_def liftR_def bindR_assoc
      ConstantInt_get_def ConstantInt_get_bool_def split_def split: inst_data.split)


text \<open>C36: when the folder gives a constant for an instruction on two integer constants, that is
  the value of the instruction.\<close>

theorem fold_int_agrees:
  assumes "compute_binary op x (V_Int a) (V_Int b) s = Inr (Some c, s')"
  shows "eval_binary op x (R_Int a) (R_Int b) = eval_const c"
proof (cases "\<exists>k. x = X_Cmp k")
  case True
  with assms show ?thesis
    by (cases op) (auto simp: compute_binary_def int_of_result_def int_quotient_def eval_int_def word_of_sint_ops
        int_compare_signed trunc_div_sdiv split: if_splits)
next
  case False
  with assms show ?thesis
    by (cases op) (auto simp: compute_binary_def int_of_result_def int_quotient_def eval_int_def word_of_sint_ops
        trunc_div_sdiv split: if_splits)
qed

lemma fold_int_agrees_witness:
  "compute_binary I_sdiv X_None (V_Int (- 7)) (V_Int 2) new_module = Inr (Some (V_Int (- 3)), new_module) \<and>
   eval_binary I_sdiv X_None (R_Int (- 7)) (R_Int 2) = Some (R_Int (- 3))"
proof -
  have "compute_binary I_sdiv X_None (V_Int (- 7)) (V_Int 2) new_module = Inr (Some (V_Int (- 3)), new_module)"
    by (simp add: compute_binary_def int_quotient_def trunc_div_def int_min_def)
  with fold_int_agrees [OF this] show ?thesis by simp
qed

text \<open>C37: when the folder gives a constant for an instruction on two float constants that are
  numbers, that is the value of the instruction, up to the sign of a zero.\<close>

theorem fold_fp_agrees:
  assumes "compute_binary op x (V_FP a) (V_FP b) s = Inr (Some c, s')"
    and "\<not> f32_is_nan a" and "\<not> f32_is_nan b"
  shows "\<exists>r r'. eval_binary op x (R_FP a) (R_FP b) = Some r \<and> eval_const c = Some r' \<and> same_value r' r"
proof (cases "\<exists>k. x = X_Cmp k")
  case True
  with assms show ?thesis
    by (cases op) (auto simp: compute_binary_def eval_fp_def fp_compare_numbers
        elim!: ConstantFP_get_result)
next
  case False
  with assms show ?thesis
    by (cases op) (auto simp: compute_binary_def eval_fp_def elim!: ConstantFP_get_result)
qed

lemma fold_fp_agrees_witness:
  "\<exists>c s' r r'. compute_binary I_fcmp (X_Cmp C_LT) (V_FP 0) (V_FP 0x3F800000) new_module = Inr (Some c, s') \<and>
     eval_binary I_fcmp (X_Cmp C_LT) (R_FP 0) (R_FP 0x3F800000) = Some r \<and> eval_const c = Some r' \<and> same_value r' r"
proof -
  have run: "compute_binary I_fcmp (X_Cmp C_LT) (V_FP 0) (V_FP 0x3F800000) new_module =
      Inr (Some (V_Bool (f32_lt 0 0x3F800000)), new_module)"
    by (simp add: compute_binary_def)
  have "\<not> f32_is_nan 0" "\<not> f32_is_nan 0x3F800000"
    by (simp_all add: f32_is_nan_def f32_bits_def f32_inf_bits_def)
  from fold_fp_agrees [OF run this] run show ?thesis by blast
qed

text \<open>C39: a comparison of float constants of which one is not a number folds to false, or to
  true for \<open>!=\<close>; the instruction, whose predicates are the unordered ones, gives true for
  every operator, so the two differ for all but \<open>!=\<close>.\<close>

theorem fold_fcmp_nan_differs:
  assumes "eval_const u = Some (R_FP a)" and "eval_const v = Some (R_FP b)" and "f32_is_nan a \<or> f32_is_nan b"
  shows "compute_binary I_fcmp (X_Cmp op) u v s = Inr (Some (V_Bool (op = C_NE)), s) \<and>
    eval_binary I_fcmp (X_Cmp op) (R_FP a) (R_FP b) = Some (R_Bool True)"
proof -
  have "get_const_fp_value u = Inr a" "get_const_fp_value v = Inr b"
    using assms(1,2) by (cases u; cases v; simp)+
  then have "compute_binary I_fcmp (X_Cmp op) u v s = Inr (Some (V_Bool (fp_compare op a b)), s)"
    by (simp add: compute_binary_def fold_fcmp_def bindS_def liftR_def ConstantInt_get_bool_def)
  moreover have "fp_compare op a b = (op = C_NE)" "fcmp_unordered op a b"
    using assms(3) by (cases op; auto simp: f32_unordered_def f32_eq_def f32_lt_def f32_le_def)+
  ultimately show ?thesis by (simp add: eval_fp_def)
qed

lemma fold_fcmp_nan_differs_witness:
  "compute_binary I_fcmp (X_Cmp C_EQ) (V_NaN f32_nan 0) (V_FP 0) new_module = Inr (Some (V_Bool False), new_module) \<and>
   eval_binary I_fcmp (X_Cmp C_EQ) (R_FP f32_nan) (R_FP 0) = Some (R_Bool True)"
proof -
  have "f32_is_nan f32_nan" by (simp add: f32_is_nan_def f32_bits_def f32_inf_bits_def f32_nan_def)
  with fold_fcmp_nan_differs [of "V_NaN f32_nan 0" f32_nan "V_FP 0" 0 C_EQ new_module] show ?thesis by simp
qed

text \<open>C38: when the folder gives a constant for a conversion of a constant of the conversion's
  source type, that is the value of the conversion, up to the sign of a zero.\<close>

theorem fold_unary_agrees:
  assumes "compute_unary op v s = Inr (Some c, s')" and "eval_const v = Some r" and "eval_unary op r \<noteq> None"
  shows "\<exists>q q'. eval_unary op r = Some q \<and> eval_const c = Some q' \<and> same_value q' q"
  using assms
  by (cases v; cases op)
    (auto simp: compute_unary_def ConstantInt_get_def bindS_def liftR_def split: option.splits
      elim!: ConstantFP_get_result)

lemma fold_unary_agrees_witness:
  "\<exists>q q'. compute_unary I_zext (V_Bool True) new_module = Inr (Some (V_Int 1), new_module) \<and>
     eval_unary I_zext (R_Bool True) = Some q \<and> eval_const (V_Int 1) = Some q' \<and> same_value q' q"
proof -
  have "compute_unary I_zext (V_Bool True) new_module = Inr (Some (V_Int 1), new_module)"
    by (simp add: compute_unary_def ConstantInt_get_def bindS_def liftR_def)
  from fold_unary_agrees [OF this, of "R_Bool True"] this show ?thesis by simp
qed

section \<open>Objects of float constants\<close>

text \<open>The cache holds each value, up to \<open>==\<close>, once; the object that answers a request.\<close>

definition floats_differ :: "f32 list \<Rightarrow> bool" where
  "floats_differ c \<longleftrightarrow> (\<forall>v \<in> set c. \<forall>w \<in> set c. f32_eq v w \<longrightarrow> v = w)"

definition answers :: "f32 list \<Rightarrow> f32 \<Rightarrow> irval \<Rightarrow> bool" where
  "answers c w a \<longleftrightarrow> (if f32_is_nan w then \<exists>k < length c. a = V_NaN w k else \<exists>v \<in> set c. a = V_FP v \<and> f32_eq v w)"

lemma f32_eq_simps:
  "f32_eq v v \<longleftrightarrow> \<not> f32_is_nan v" "f32_eq v w \<Longrightarrow> f32_eq w v" "f32_eq u v \<Longrightarrow> f32_eq v w \<Longrightarrow> f32_eq u w"
  "f32_is_nan v \<Longrightarrow> \<not> f32_eq v w" "f32_is_nan w \<Longrightarrow> \<not> f32_eq v w"
  by (auto simp: f32_eq_def f32_unordered_def)

lemma ConstantFP_get_answers:
  assumes c: "floats_differ (cached_float s)"
  shows "\<exists>a s'. ConstantFP_get w s = Inr (a, s') \<and> answers (cached_float s') w a \<and> floats_differ (cached_float s') \<and>
    (\<forall>x b. answers (cached_float s) x b \<longrightarrow> answers (cached_float s') x b \<and> (b = a \<longleftrightarrow> f32_eq x w))"
proof (cases "find (\<lambda>v. f32_eq v w) (cached_float s)")
  case (Some v)
  then have v: "v \<in> set (cached_float s)" "f32_eq v w" by (auto simp: find_Some_iff)
  then have num: "\<not> f32_is_nan w" using f32_eq_simps(5) by blast
  have get: "ConstantFP_get w s = Inr (V_FP v, s)" using Some by (simp add: ConstantFP_get_def bindS_def)
  have same: "b = V_FP v \<longleftrightarrow> f32_eq x w" if b: "answers (cached_float s) x b" for x b
  proof (cases "f32_is_nan x")
    case True
    with b f32_eq_simps(4) show ?thesis by (auto simp: answers_def)
  next
    case False
    with b obtain u where u: "u \<in> set (cached_float s)" "b = V_FP u" "f32_eq u x" by (auto simp: answers_def)
    then have "u = v \<longleftrightarrow> f32_eq u v" using c v(1) f32_eq_simps(1) [of u] f32_eq_simps(4) unfolding floats_differ_def by blast
    also have "\<dots> \<longleftrightarrow> f32_eq x w" using u(3) v(2) by (auto simp: f32_eq_def f32_unordered_def)
    finally show ?thesis using u(2) by simp
  qed
  have "answers (cached_float s) w (V_FP v)" using v num by (auto simp: answers_def)
  with same c show ?thesis by (simp add: get)
next
  case None
  then have none: "\<not> f32_eq v w" if "v \<in> set (cached_float s)" for v using that by (auto simp: find_None_iff)
  let ?a = "if f32_is_nan w then V_NaN w (length (cached_float s)) else V_FP w"
  have run: "ConstantFP_get w s = Inr (?a, s\<lparr>cached_float := cached_float s @ [w]\<rparr>)"
    using None by (simp add: ConstantFP_get_def bindS_def thenS_def)
  have differ: "floats_differ (cached_float s @ [w])"
    using c none f32_eq_simps(2) unfolding floats_differ_def by auto
  have own: "answers (cached_float s @ [w]) w ?a" using f32_eq_simps(1) [of w] by (auto simp: answers_def)
  have "answers (cached_float s @ [w]) x b \<and> (b = ?a \<longleftrightarrow> f32_eq x w)" if b: "answers (cached_float s) x b" for x b
  proof (cases "f32_is_nan x")
    case True
    with b f32_eq_simps(4) [OF True] show ?thesis by (auto simp: answers_def)
  next
    case False
    with b obtain u where u: "u \<in> set (cached_float s)" "b = V_FP u" "f32_eq u x" by (auto simp: answers_def)
    have "\<not> f32_eq x w" using none [OF u(1)] f32_eq_simps(3) [OF u(3)] by blast
    moreover have "u \<noteq> w \<or> f32_is_nan w" using none [OF u(1)] f32_eq_simps(1) by blast
    ultimately show ?thesis using u False by (auto simp: answers_def)
  qed
  with differ own show ?thesis by (simp add: run)
qed

text \<open>Requests one after the other.\<close>

fun get_floats :: "f32 list \<Rightarrow> ('b, irval list) ir" where
  "get_floats [] = returnS []"
| "get_floats (w # ws) = bindS (ConstantFP_get w) (\<lambda>a. bindS (get_floats ws) (\<lambda>xs. returnS (a # xs)))"

lemma get_floats_answers:
  "floats_differ (cached_float s) \<Longrightarrow> \<exists>xs s'. get_floats ws s = Inr (xs, s') \<and> length xs = length ws \<and>
     (\<forall>i < length ws. \<forall>j < length ws. xs ! i = xs ! j \<longleftrightarrow> i = j \<or> f32_eq (ws ! i) (ws ! j)) \<and>
     (\<forall>x b. answers (cached_float s) x b \<longrightarrow> (\<forall>j < length ws. b = xs ! j \<longleftrightarrow> f32_eq x (ws ! j)))"
proof (induction ws arbitrary: s)
  case (Cons w ws)
  from ConstantFP_get_answers [OF Cons.prems, of w] obtain a s1 where a: "ConstantFP_get w s = Inr (a, s1)"
      "answers (cached_float s1) w a" "floats_differ (cached_float s1)"
    and old: "\<And>x b. answers (cached_float s) x b \<Longrightarrow> answers (cached_float s1) x b \<and> (b = a \<longleftrightarrow> f32_eq x w)" by blast
  from Cons.IH [OF a(3)] obtain xs s' where xs: "get_floats ws s1 = Inr (xs, s')" "length xs = length ws"
    and pair: "\<And>i j. i < length ws \<Longrightarrow> j < length ws \<Longrightarrow> xs ! i = xs ! j \<longleftrightarrow> i = j \<or> f32_eq (ws ! i) (ws ! j)"
    and new: "\<And>x b j. answers (cached_float s1) x b \<Longrightarrow> j < length ws \<Longrightarrow> b = xs ! j \<longleftrightarrow> f32_eq x (ws ! j)" by blast
  have sym: "f32_eq x y \<longleftrightarrow> f32_eq y x" for x y using f32_eq_simps(2) by blast
  show ?case
  proof (intro exI conjI allI impI)
    show "get_floats (w # ws) s = Inr (a # xs, s')" by (simp add: a xs bindS_def)
    show "length (a # xs) = length (w # ws)" by (simp add: xs)
    show "(a # xs) ! i = (a # xs) ! j \<longleftrightarrow> i = j \<or> f32_eq ((w # ws) ! i) ((w # ws) ! j)"
      if "i < length (w # ws)" "j < length (w # ws)" for i j
      using that pair new [OF a(2)] sym by (cases i; cases j) (auto simp: eq_commute [of "xs ! _" a])
    show "b = (a # xs) ! j \<longleftrightarrow> f32_eq x ((w # ws) ! j)" if "answers (cached_float s) x b" "j < length (w # ws)" for x b j
      using old [OF that(1)] new [of x b] that(2) by (cases j) auto
  qed
qed simp

text \<open>C40: of any sequence of requests for float constants of a new module, none fails, and two of them
  get the same object exactly when their values compare equal with \<open>==\<close>: the signs of
  zero are not told apart, and a NaN never gets an object again that it got before.\<close>

theorem float_requests_shared:
  "\<exists>xs s. get_floats ws new_module = Inr (xs, s) \<and> length xs = length ws \<and>
     (\<forall>i < length ws. \<forall>j < length ws. xs ! i = xs ! j \<longleftrightarrow> i = j \<or> f32_eq (ws ! i) (ws ! j))"
proof -
  have "floats_differ (cached_float new_module)" by (simp add: floats_differ_def new_module_def)
  from get_floats_answers [OF this] show ?thesis by blast
qed

lemma float_requests_shared_witness:
  "\<exists>xs s. get_floats [f32_zero False, f32_zero True, f32_nan, f32_nan] new_module = Inr (xs, s) \<and> xs ! 0 = xs ! 1 \<and> xs ! 2 \<noteq> xs ! 3"
proof -
  let ?ws = "[f32_zero False, f32_zero True, f32_nan, f32_nan]"
  obtain xs s where run: "get_floats ?ws new_module = Inr (xs, s)"
    and at: "\<And>i j. i < 4 \<Longrightarrow> j < 4 \<Longrightarrow> xs ! i = xs ! j \<longleftrightarrow> i = j \<or> f32_eq (?ws ! i) (?ws ! j)"
  proof -
    from float_requests_shared [of ?ws] obtain xs s where "get_floats ?ws new_module = Inr (xs, s)"
      "\<forall>i < length ?ws. \<forall>j < length ?ws. xs ! i = xs ! j \<longleftrightarrow> i = j \<or> f32_eq (?ws ! i) (?ws ! j)" by blast
    then show ?thesis by (intro that [of xs s]) simp_all
  qed
  have "f32_eq (f32_zero False) (f32_zero True)" "f32_is_nan f32_nan"
    by (simp_all add: f32_eq_def f32_key_def f32_unordered_def f32_is_nan_def f32_bits_def f32_sign_def f32_zero_def f32_make_def
        f32_inf_bits_def f32_nan_def)
  with run at [of 0 1] at [of 2 3] f32_eq_simps(4) show ?thesis by auto
qed

text \<open>Asking for the constant \<open>-0.0\<close> in a module that already has \<open>0.0\<close> gives
  \<open>0.0\<close>, another value: its reciprocal is the other infinity.\<close>

theorem negative_zero_is_lost:
  assumes "cached_float s = [f32_zero False]"
  shows "ConstantFP_get (f32_zero True) s = Inr (V_FP (f32_zero False), s) \<and>
    f32_div 0x3F800000 (f32_zero False) = f32_inf False \<and> f32_div 0x3F800000 (f32_zero True) = f32_inf True"
proof -
  have "f32_eq (f32_zero False) (f32_zero True)"
    "f32_div 0x3F800000 (f32_zero False) = f32_inf False" "f32_div 0x3F800000 (f32_zero True) = f32_inf True"
    by (simp_all add: f32_eq_def f32_div_def f32_key_def f32_unordered_def f32_is_nan_def f32_is_inf_def f32_is_zero_def
        f32_bits_def f32_sign_def f32_zero_def f32_inf_def f32_make_def f32_inf_bits_def)
  with assms show ?thesis by (simp add: ConstantFP_get_def bindS_def)
qed

lemma negative_zero_is_lost_witness:
  "ConstantFP_get (f32_zero True) (new_module\<lparr>cached_float := [f32_zero False]\<rparr>) =
     Inr (V_FP (f32_zero False), new_module\<lparr>cached_float := [f32_zero False]\<rparr>)"
  using negative_zero_is_lost [of "new_module\<lparr>cached_float := [f32_zero False]\<rparr>"] by simp

end
