(* ===== verification/GVN.thy ===== *)
theory GVN
  imports DeadCode ConstFold IrPrint
begin

text \<open>
  Global value numbering: \<open>optimization/GVN.cpp\<close> and \<open>GVN.h\<close>.
  A partition is the list of its congruence classes by their index; two classes with one
  index are the same element of the code's set, and the second is not inserted. What is read
  through an end iterator is a failure. \<open>address\<close> orders the members of a class.
\<close>

section \<open>Expressions\<close>

text \<open>
  A variable expression carries the number of its object: two of them are equal when they are
  the same object, and an impure call or an alloca equals nothing else.
\<close>

datatype gvn_expr =
    ConstantExpression "irval option"
  | BinaryExpression OpID CmpOp gvn_expr gvn_expr
  | PhiExpression gvn_expr gvn_expr
  | VariableExpression nat "gvn_expr list" nat

fun expr_equiv :: "gvn_expr \<Rightarrow> gvn_expr \<Rightarrow> bool"
and exprs_equiv :: "gvn_expr list \<Rightarrow> gvn_expr list \<Rightarrow> bool" where
  "expr_equiv (ConstantExpression c) (ConstantExpression d) = (c = d)"
| "expr_equiv (BinaryExpression op k l r) (BinaryExpression op' k' l' r') =
     (op = op' \<and> expr_equiv l l' \<and> expr_equiv r r' \<and> k = k')"
| "expr_equiv (PhiExpression l r) (PhiExpression l' r') = (expr_equiv l l' \<and> expr_equiv r r')"
| "expr_equiv (VariableExpression a ops t) (VariableExpression b ops' t') =
     (a = b \<or> (length ops = length ops' \<and> t = t' \<and> t \<noteq> 2 \<and> t \<noteq> 6 \<and> exprs_equiv ops ops'))"
| "expr_equiv _ _ = False"
| "exprs_equiv (e # es) (f # fs) = (expr_equiv e f \<and> exprs_equiv es fs)"
| "exprs_equiv [] fs = True"
| "exprs_equiv es [] = True"

text \<open>The comparison of two pointers to expressions.\<close>

fun same_expr :: "gvn_expr option \<Rightarrow> gvn_expr option \<Rightarrow> bool" where
  "same_expr None None = True"
| "same_expr (Some e) (Some f) = expr_equiv e f"
| "same_expr _ _ = False"

definition holds_expr :: "gvn_expr option \<Rightarrow> gvn_expr \<Rightarrow> bool" where
  "holds_expr x e = (case x of None \<Rightarrow> False | Some y \<Rightarrow> expr_equiv y e)"

section \<open>Congruence classes and partitions\<close>

record congruence_class =
  cc_index :: nat
  leader :: "irval option"
  value_expr :: "gvn_expr option"
  value_phi :: "gvn_expr option"
  members :: "irval list"

type_synonym partitions = "congruence_class list"

definition new_class :: "nat \<Rightarrow> congruence_class" where
  "new_class n = \<lparr>cc_index = n, leader = None, value_expr = None, value_phi = None, members = []\<rparr>"

text \<open>\<open>(size_t)-1\<close>\<close>

definition top_index :: nat where
  "top_index = 2 ^ 64 - 1"

fun emplace :: "congruence_class \<Rightarrow> partitions \<Rightarrow> partitions" where
  "emplace c [] = [c]"
| "emplace c (d # ds) = (if cc_index c < cc_index d then c # d # ds
     else if cc_index d < cc_index c then d # emplace c ds else d # ds)"

definition is_member :: "irval option \<Rightarrow> congruence_class \<Rightarrow> bool" where
  "is_member v c = (case v of None \<Rightarrow> False | Some w \<Rightarrow> w \<in> set (members c))"

definition insert_member :: "(irval \<Rightarrow> nat) \<Rightarrow> irval \<Rightarrow> congruence_class \<Rightarrow> congruence_class" where
  "insert_member address v c = c\<lparr>members := (if v \<in> set (members c) then members c else insort_key address v (members c))\<rparr>"

definition erase_member :: "irval \<Rightarrow> congruence_class \<Rightarrow> congruence_class" where
  "erase_member v c = c\<lparr>members := removeAll v (members c)\<rparr>"

definition same_partition :: "partitions \<Rightarrow> partitions \<Rightarrow> bool" where
  "same_partition p q \<longleftrightarrow> length p = length q \<and> list_all (\<lambda>c. list_ex (\<lambda>d. leader c = leader d) q) p"

section \<open>Join\<close>

definition intersect_classes :: "nat \<Rightarrow> congruence_class \<Rightarrow> congruence_class \<Rightarrow> congruence_class option \<times> nat" where
  "intersect_classes n Ci Cj =
     (let cc = \<lparr>cc_index = (if cc_index Ci = cc_index Cj then cc_index Ci else 0),
            leader = (if leader Ci = leader Cj then leader Ci else None),
            value_expr = (if same_expr (value_expr Ci) (value_expr Cj) then value_expr Ci else None),
            value_phi = (if same_expr (value_phi Ci) (value_phi Cj) then value_phi Ci else None),
            members = filter (\<lambda>v. v \<in> set (members Cj)) (members Ci)\<rparr>
      in if members cc = [] then (None, n)
         else if cc_index cc = 0
         then (Some (cc\<lparr>cc_index := n, leader := (if leader cc = None then Some (hd (members cc)) else leader cc),
                 value_phi := Some (PhiExpression (ConstantExpression (leader Ci)) (ConstantExpression (leader Cj)))\<rparr>), n + 1)
         else (Some cc, n))"

fun join_row :: "congruence_class \<Rightarrow> partitions \<Rightarrow> partitions \<Rightarrow> nat \<Rightarrow> partitions \<times> nat" where
  "join_row c [] P n = (P, n)"
| "join_row c (d # ds) P n = (case intersect_classes n c d of
     (None, n) \<Rightarrow> join_row c ds P n
   | (Some k, n) \<Rightarrow> join_row c ds (emplace k P) n)"

fun join_rows :: "partitions \<Rightarrow> partitions \<Rightarrow> partitions \<Rightarrow> nat \<Rightarrow> partitions \<times> nat" where
  "join_rows [] ds P n = (P, n)"
| "join_rows (c # cs) ds P n = (case join_row c ds P n of (P, n) \<Rightarrow> join_rows cs ds P n)"

fun join :: "partitions \<Rightarrow> partitions \<Rightarrow> nat \<Rightarrow> (partitions \<times> nat) result" where
  "join [] Q n = Inl BadIndex"
| "join (c # P) Q n =
     (if cc_index c = top_index then Inr (Q, n)
      else case Q of [] \<Rightarrow> Inl BadIndex
           | d # _ \<Rightarrow> if cc_index d = top_index then Inr (c # P, n) else Inr (join_rows (c # P) Q [] n))"

section \<open>Value expressions\<close>

text \<open>The leader of the last class with the operand, if it is not null; else the operand.\<close>

definition class_leader :: "partitions \<Rightarrow> irval option \<Rightarrow> irval option" where
  "class_leader p v = fold (\<lambda>c l. if is_member v c then leader c else l) p None"

definition operand_expr :: "partitions \<Rightarrow> irval option \<Rightarrow> gvn_expr" where
  "operand_expr p v = ConstantExpression (case class_leader p v of None \<Rightarrow> v | Some l \<Rightarrow> Some l)"

definition expr_type :: "func_info \<Rightarrow> OpID \<Rightarrow> irval option list \<Rightarrow> nat result" where
  "expr_type fi op ops = (case op of
     I_call \<Rightarrow> bindR (nth_checked ops 0) (\<lambda>f.
       bindR (is_pure_function fi (case f of Some (V_Fun g) \<Rightarrow> Some g | _ \<Rightarrow> None)) (\<lambda>pure. Inr (if pure then 1 else 2)))
   | I_sitofp \<Rightarrow> Inr 3 | I_fptosi \<Rightarrow> Inr 4 | I_zext \<Rightarrow> Inr 5 | I_alloca \<Rightarrow> Inr 6
   | _ \<Rightarrow> Inr 0)"

definition cmp_of :: "OpID \<Rightarrow> inst_data \<Rightarrow> CmpOp" where
  "cmp_of op x = (if op = I_cmp \<or> op = I_fcmp then (case x of X_Cmp k \<Rightarrow> k | _ \<Rightarrow> C_EQ) else C_EQ)"

definition valueExpr :: "func_info \<Rightarrow> 'b ir_module_scheme \<Rightarrow> partitions \<Rightarrow> nat \<Rightarrow> nat \<Rightarrow> gvn_expr result" where
  "valueExpr fi m p i object =
     (let op = i_op (instrs m ! i); ops = operands (graph m) (V_Inst i) in
      if length ops > 2 \<or> op \<in> {I_call, I_getelementptr, I_sitofp, I_fptosi, I_zext, I_alloca}
      then bindR (expr_type fi op ops) (\<lambda>t. Inr (VariableExpression object (map (operand_expr p) ops) t))
      else if length ops = 2
      then Inr (BinaryExpression op (cmp_of op (i_data (instrs m ! i))) (operand_expr p (ops ! 0)) (operand_expr p (ops ! 1)))
      else bindR (nth_checked ops 0) (\<lambda>v. Inr (ConstantExpression v)))"

definition getVN :: "partitions \<Rightarrow> gvn_expr \<Rightarrow> gvn_expr option" where
  "getVN p ve = map_option (\<lambda>c. ConstantExpression (leader c)) (find (\<lambda>c. holds_expr (value_expr c) ve) p)"

section \<open>Value phi functions\<close>

text \<open>The cast to \<open>ConstantExpression\<close> is not checked by the code.\<close>

fun constant_of :: "gvn_expr \<Rightarrow> irval option result" where
  "constant_of (ConstantExpression c) = Inr c"
| "constant_of _ = Inl BadCast"

definition holds_constant :: "irval option \<Rightarrow> bool" where
  "holds_constant v = (case v of None \<Rightarrow> False | Some w \<Rightarrow> is_constant w)"

definition leader_phi :: "partitions \<Rightarrow> irval option \<Rightarrow> gvn_expr option" where
  "leader_phi p v = fold (\<lambda>c f. if value_phi c \<noteq> None \<and> leader c = v then value_phi c else f) p None"

definition phi_leader :: "partitions \<Rightarrow> gvn_expr \<Rightarrow> gvn_expr" where
  "phi_leader p e = (case find (\<lambda>c. holds_expr (value_phi c) e) p of None \<Rightarrow> e | Some c \<Rightarrow> ConstantExpression (leader c))"

text \<open>The expressions to look up in the two predecessors, when there are any.\<close>

definition phi_sides :: "nat list \<Rightarrow> partitions \<Rightarrow> gvn_expr \<Rightarrow> (gvn_expr \<times> gvn_expr) option result" where
  "phi_sides preds p ve = (case ve of
     BinaryExpression op k l r \<Rightarrow>
       if op = I_cmp \<or> op = I_fcmp then Inr None
       else bindR (constant_of l) (\<lambda>lv. bindR (constant_of r) (\<lambda>rv.
            if holds_constant lv \<or> holds_constant rv \<or> length preds \<noteq> 2 then Inr None
            else Inr (case (leader_phi p lv, leader_phi p rv) of
              (Some (PhiExpression l1 l2), Some (PhiExpression r1 r2)) \<Rightarrow>
                Some (BinaryExpression op C_EQ l1 r1, BinaryExpression op C_EQ l2 r2)
            | _ \<Rightarrow> None)))
   | _ \<Rightarrow> Inr None)"

partial_function (option) valuePhiFunc ::
  "(nat \<Rightarrow> nat list) \<Rightarrow> (nat \<Rightarrow> partitions) \<Rightarrow> nat \<Rightarrow> gvn_expr \<Rightarrow> partitions \<Rightarrow> gvn_expr option run" where
  "valuePhiFunc preds pout bb ve p = bindP (Some (phi_sides (preds bb) p ve)) (\<lambda>sides.
     if sides = None then returnP None
     else bindP (if getVN (pout (hd (preds bb))) (fst (the sides)) \<noteq> None
                 then returnP (getVN (pout (hd (preds bb))) (fst (the sides)))
                 else bindP (valuePhiFunc preds pout (hd (preds bb)) (fst (the sides)) (pout (hd (preds bb))))
                        (\<lambda>v. returnP (map_option (phi_leader (pout (hd (preds bb)))) v))) (\<lambda>vi.
          bindP (if getVN (pout (last (preds bb))) (snd (the sides)) \<noteq> None
                 then returnP (getVN (pout (last (preds bb))) (snd (the sides)))
                 else bindP (valuePhiFunc preds pout (last (preds bb)) (snd (the sides)) (pout (last (preds bb))))
                        (\<lambda>v. returnP (map_option (phi_leader (pout (last (preds bb)))) v))) (\<lambda>vj.
          returnP (case (vi, vj) of (Some a, Some b) \<Rightarrow> Some (PhiExpression a b) | _ \<Rightarrow> None))))"

section \<open>The transfer function\<close>

text \<open>
  The loop that takes a value out of the classes: a class that becomes empty is erased, and
  the increment of the loop skips the class after it.
\<close>

fun erase_value :: "irval \<Rightarrow> partitions \<Rightarrow> partitions result" where
  "erase_value v [] = Inr []"
| "erase_value v (c # cs) =
     (if v \<notin> set (members c) then bindR (erase_value v cs) (\<lambda>r. Inr (c # r))
      else if members (erase_member v c) \<noteq> [] then bindR (erase_value v cs) (\<lambda>r. Inr (erase_member v c # r))
      else case cs of [] \<Rightarrow> Inl BadIndex | d # ds \<Rightarrow> bindR (erase_value v ds) (\<lambda>r. Inr (d # r)))"

text \<open>Adding a value to the first class that computes the same.\<close>

fun insert_same :: "(irval \<Rightarrow> nat) \<Rightarrow> irval \<Rightarrow> gvn_expr \<Rightarrow> gvn_expr option \<Rightarrow> partitions \<Rightarrow> partitions option" where
  "insert_same address v ve vpf [] = None"
| "insert_same address v ve vpf (c # cs) =
     (if holds_expr (value_expr c) ve \<or> (case vpf of None \<Rightarrow> False | Some f \<Rightarrow> holds_expr (value_phi c) f)
      then Some (insert_member address v c # cs)
      else map_option (\<lambda>r. c # r) (insert_same address v ve vpf cs))"

definition constant_operand :: "partitions \<Rightarrow> irval option \<Rightarrow> irval option" where
  "constant_operand p v = (if holds_constant v then v
     else case find (\<lambda>c. is_member v c \<and> holds_constant (leader c)) p of None \<Rightarrow> None | Some c \<Rightarrow> leader c)"

definition is_binary :: "OpID \<Rightarrow> irval option list \<Rightarrow> bool" where
  "is_binary op ops \<longleftrightarrow> op \<in> {I_add, I_sub, I_mul, I_sdiv, I_fadd, I_fsub, I_fmul, I_fdiv} \<and> length ops = 2"

definition new_leader :: "partitions \<Rightarrow> nat \<Rightarrow> ('b, irval option) ir" where
  "new_leader p i = bindS (getS (\<lambda>m. (instrs m ! i, operands (graph m) (V_Inst i)))) (\<lambda>(x, ops).
     if is_binary (i_op x) ops \<or> i_op x = I_cmp \<or> i_op x = I_fcmp
     then bindS (liftR (nth_checked ops 0)) (\<lambda>op1. bindS (liftR (nth_checked ops 1)) (\<lambda>op2.
          case (constant_operand p op1, constant_operand p op2) of
            (Some a, Some b) \<Rightarrow> compute_binary (i_op x) (i_data x) a b
          | _ \<Rightarrow> returnS (Some (V_Inst i))))
     else if i_op x \<in> {I_sitofp, I_fptosi, I_zext}
     then bindS (liftR (nth_checked ops 0)) (\<lambda>op. case constant_operand p op of
            Some a \<Rightarrow> compute_unary (i_op x) a
          | None \<Rightarrow> returnS (Some (V_Inst i)))
     else returnS (Some (V_Inst i)))"

text \<open>
  The members of the pass. \<open>pin_\<close> has the blocks that have got an input; it is only
  printed. \<open>next_object\<close> numbers the variable expressions.
\<close>

record gvn =
  next_value_number :: nat
  next_object :: nat
  pin_at :: "nat \<Rightarrow> partitions option"
  pout :: "nat \<Rightarrow> partitions"

definition new_gvn :: gvn where
  "new_gvn = \<lparr>next_value_number = 1, next_object = 0, pin_at = Map.empty, pout = (\<lambda>_. [])\<rparr>"

definition initPerFunction :: "gvn \<Rightarrow> gvn" where
  "initPerFunction g = g\<lparr>next_value_number := 1, pin_at := Map.empty, pout := (\<lambda>_. [])\<rparr>"

definition set_pout :: "nat \<Rightarrow> partitions \<Rightarrow> gvn \<Rightarrow> gvn" where
  "set_pout b p g = g\<lparr>pout := (pout g)(b := p)\<rparr>"

definition preds_in :: "'b ir_module_scheme \<Rightarrow> nat \<Rightarrow> nat list" where
  "preds_in m b = pre_bbs (blocks m ! b)"

text \<open>A class of its own for an instruction.\<close>

definition add_class :: "gvn_expr \<Rightarrow> irval option \<Rightarrow> irval \<Rightarrow> partitions \<times> gvn \<Rightarrow> partitions \<times> gvn" where
  "add_class ve l v s = (emplace ((new_class (next_value_number (snd s)))\<lparr>leader := l, value_expr := Some ve, members := [v]\<rparr>) (fst s),
     (snd s)\<lparr>next_value_number := next_value_number (snd s) + 1\<rparr>)"

definition skipped :: "'b ir_module_scheme \<Rightarrow> nat \<Rightarrow> bool" where
  "skipped m i \<longleftrightarrow> i_op (instrs m ! i) = I_phi \<or> is_void_type (i_type (instrs m ! i))"

definition transfer_instr :: "(irval \<Rightarrow> nat) \<Rightarrow> func_info \<Rightarrow> nat \<Rightarrow> nat \<Rightarrow> (partitions \<times> gvn) \<times> 'b ir_module_scheme \<Rightarrow>
    ((partitions \<times> gvn) \<times> 'b ir_module_scheme) run" where
  "transfer_instr address fi bb i s = (case s of ((p, g), m) \<Rightarrow>
     if skipped m i then returnP s
     else bindP (Some (erase_value (V_Inst i) p)) (\<lambda>p.
          bindP (Some (valueExpr fi m p i (next_object g))) (\<lambda>ve.
          bindP (valuePhiFunc (preds_in m) (pout g) bb ve p) (\<lambda>vpf.
          case (if i_op (instrs m ! i) = I_load then None else insert_same address (V_Inst i) ve vpf p) of
            Some p \<Rightarrow> returnP ((p, g\<lparr>next_object := next_object g + 1\<rparr>), m)
          | None \<Rightarrow> bindP (Some (new_leader p i m)) (\<lambda>(l, m).
              returnP (add_class ve l (V_Inst i) (p, g\<lparr>next_object := next_object g + 1\<rparr>), m))))))"

definition transferFunction :: "(irval \<Rightarrow> nat) \<Rightarrow> func_info \<Rightarrow> nat \<Rightarrow> partitions \<Rightarrow> gvn \<times> 'b ir_module_scheme \<Rightarrow>
    ((partitions \<times> gvn) \<times> 'b ir_module_scheme) run" where
  "transferFunction address fi bb pin s =
     foldP (transfer_instr address fi bb) (instr_list (blocks (snd s) ! bb)) ((pin, fst s), snd s)"

section \<open>Copy statements\<close>

text \<open>
  The loop over the classes for a phi: as \<open>erase_value\<close>, with the check for the
  operand, which looks at the class after an erased one.
\<close>

definition holds_operand :: "irval option \<Rightarrow> congruence_class \<Rightarrow> bool" where
  "holds_operand op c \<longleftrightarrow> is_member op c \<or>
     holds_constant op \<and> (case value_expr c of Some (ConstantExpression k) \<Rightarrow> op = k | _ \<Rightarrow> False)"

definition copy_into :: "(irval \<Rightarrow> nat) \<Rightarrow> irval \<Rightarrow> irval option \<Rightarrow> congruence_class \<Rightarrow> congruence_class" where
  "copy_into address v op c = (if holds_operand op c then insert_member address v c else c)"

fun copy_classes :: "(irval \<Rightarrow> nat) \<Rightarrow> irval \<Rightarrow> irval option \<Rightarrow> partitions \<Rightarrow> (bool \<times> partitions) result" where
  "copy_classes address v op [] = Inr (False, [])"
| "copy_classes address v op (c # cs) =
     (let c' = (if v \<in> set (members c) then erase_member v c else c) in
      if v \<in> set (members c) \<and> members c' = []
      then (case cs of [] \<Rightarrow> Inl BadIndex
            | d # ds \<Rightarrow> bindR (copy_classes address v op ds) (\<lambda>(flag, r).
                Inr (flag \<or> holds_operand op d, copy_into address v op d # r)))
      else bindR (copy_classes address v op cs) (\<lambda>(flag, r). Inr (flag \<or> holds_operand op c', copy_into address v op c' # r)))"

definition copy_phi :: "(irval \<Rightarrow> nat) \<Rightarrow> nat \<Rightarrow> irval \<Rightarrow> irval option \<Rightarrow> gvn \<Rightarrow> gvn result" where
  "copy_phi address bb v op g = bindR (copy_classes address v op (pout g bb)) (\<lambda>(flag, p).
     if flag then Inr (set_pout bb p g)
     else case add_class (ConstantExpression op) op v (p, g) of (p, g) \<Rightarrow> Inr (set_pout bb p g))"

fun copy_instrs :: "(irval \<Rightarrow> nat) \<Rightarrow> 'b ir_module_scheme \<Rightarrow> nat \<Rightarrow> nat list \<Rightarrow> gvn \<Rightarrow> gvn result" where
  "copy_instrs address m bb [] g = Inr g"
| "copy_instrs address m bb (i # is) g =
     (if i_op (instrs m ! i) = I_phi
      then (case operands (graph m) (V_Inst i) of
          op0 # op1 # op2 # op3 # _ \<Rightarrow>
            bindR (if op1 = Some (V_Block bb) then copy_phi address bb (V_Inst i) op0 g else Inr g) (\<lambda>g.
            bindR (if op3 = Some (V_Block bb) then copy_phi address bb (V_Inst i) op2 g else Inr g) (\<lambda>g.
            copy_instrs address m bb is g))
        | _ \<Rightarrow> Inl BadIndex)
      else copy_instrs address m bb is g)"

definition copy_stmt :: "(irval \<Rightarrow> nat) \<Rightarrow> 'b ir_module_scheme \<Rightarrow> nat \<Rightarrow> gvn \<Rightarrow> gvn result" where
  "copy_stmt address m bb g =
     copy_instrs address m bb (concat (map (\<lambda>s. instr_list (blocks m ! s)) (succ_bbs (blocks m ! bb)))) g"

section \<open>Detecting equivalences\<close>

fun add_leaders :: "irval list \<Rightarrow> partitions \<times> nat \<Rightarrow> partitions \<times> nat" where
  "add_leaders [] s = s"
| "add_leaders (v # vs) s =
     add_leaders vs (emplace ((new_class (snd s))\<lparr>leader := Some v, members := [v]\<rparr>) (fst s), snd s + 1)"

definition arguments_of :: "'b ir_module_scheme \<Rightarrow> nat \<Rightarrow> irval list" where
  "arguments_of m f = map (V_Arg f) [0..<length (function_param_types (f_type (function_list m ! f)))]"

definition top :: partitions where
  "top = [new_class top_index]"

text \<open>The input of a block, stored, its transfer function, stored, and its copy statements.\<close>

definition set_pin :: "nat \<Rightarrow> partitions \<Rightarrow> gvn \<Rightarrow> gvn" where
  "set_pin b p g = g\<lparr>pin_at := (pin_at g)(b \<mapsto> p)\<rparr>"

definition flow :: "(irval \<Rightarrow> nat) \<Rightarrow> func_info \<Rightarrow> nat \<Rightarrow> partitions \<Rightarrow> gvn \<times> 'b ir_module_scheme \<Rightarrow> (gvn \<times> 'b ir_module_scheme) run" where
  "flow address fi bb pin s = bindP (transferFunction address fi bb pin (set_pin bb pin (fst s), snd s)) (\<lambda>((p, g), m).
     bindP (Some (copy_stmt address m bb (set_pout bb p g))) (\<lambda>g. returnP (g, m)))"

definition init_block :: "(irval \<Rightarrow> nat) \<Rightarrow> func_info \<Rightarrow> nat \<Rightarrow> gvn \<times> 'b ir_module_scheme \<Rightarrow> (gvn \<times> 'b ir_module_scheme) run" where
  "init_block address fi bb s = (case s of (g, m) \<Rightarrow>
     if pre_bbs (blocks m ! bb) = []
     then (case add_leaders (arguments_of m (bb_parent (blocks m ! bb)) @ map V_Global [0..<length (global_list m)])
             ([], next_value_number g) of
             (pin, n) \<Rightarrow> flow address fi bb pin (g\<lparr>next_value_number := n\<rparr>, m))
     else returnP (set_pout bb top g, m))"

definition block_input :: "'b ir_module_scheme \<Rightarrow> nat \<Rightarrow> gvn \<Rightarrow> (partitions \<times> gvn) option result" where
  "block_input m bb g = (case pre_bbs (blocks m ! bb) of
     [a, b] \<Rightarrow> bindR (join (pout g a) (pout g b) (next_value_number g)) (\<lambda>(p, n). Inr (Some (p, g\<lparr>next_value_number := n\<rparr>)))
   | [a] \<Rightarrow> Inr (Some (pout g a, g))
   | _ \<Rightarrow> Inr None)"

definition iterate_block :: "(irval \<Rightarrow> nat) \<Rightarrow> func_info \<Rightarrow> nat \<Rightarrow> bool \<times> gvn \<times> 'b ir_module_scheme \<Rightarrow>
    (bool \<times> gvn \<times> 'b ir_module_scheme) run" where
  "iterate_block address fi bb s = (case s of (changed, g, m) \<Rightarrow>
     bindP (Some (block_input m bb g)) (\<lambda>input. case input of
       None \<Rightarrow> returnP s
     | Some (pin, g') \<Rightarrow> bindP (flow address fi bb pin (g', m)) (\<lambda>(g', m).
         returnP (changed \<or> \<not> same_partition (pout g bb) (pout g' bb), g', m))))"

partial_function (option) iterate :: "(irval \<Rightarrow> nat) \<Rightarrow> func_info \<Rightarrow> nat list \<Rightarrow> nat \<Rightarrow> gvn \<times> 'b ir_module_scheme \<Rightarrow>
    (gvn \<times> 'b ir_module_scheme) run" where
  "iterate address fi bbs n s =
     bindP (foldP (iterate_block address fi) bbs (False, (fst s)\<lparr>next_value_number := n\<rparr>, snd s)) (\<lambda>r.
     if fst r then iterate address fi bbs n (snd r) else returnP (snd r))"

definition detectEquivalences :: "(irval \<Rightarrow> nat) \<Rightarrow> func_info \<Rightarrow> nat \<Rightarrow> gvn \<times> 'b ir_module_scheme \<Rightarrow>
    (gvn \<times> 'b ir_module_scheme) run" where
  "detectEquivalences address fi f s = (let bbs = basic_blocks (function_list (snd s) ! f) in
     bindP (foldP (init_block address fi) bbs s) (\<lambda>s. iterate address fi bbs (next_value_number (fst s)) s))"

section \<open>Replacing members by leaders\<close>

text \<open>The users in the block, and the phis of the block's successors.\<close>

definition user_in_block :: "'b ir_module_scheme \<Rightarrow> nat \<Rightarrow> irval \<Rightarrow> bool" where
  "user_in_block m bb u = (case u of
     V_Inst i \<Rightarrow> (case i_parent (instrs m ! i) of None \<Rightarrow> False | Some b \<Rightarrow>
       if i_op (instrs m ! i) = I_phi then bb \<in> set (pre_bbs (blocks m ! b)) else b = bb)
   | _ \<Rightarrow> False)"

definition has_parent :: "'b ir_module_scheme \<Rightarrow> irval \<Rightarrow> bool" where
  "has_parent m u = (case u of V_Inst i \<Rightarrow> i_parent (instrs m ! i) \<noteq> None | _ \<Rightarrow> True)"

definition replace_member :: "nat \<Rightarrow> congruence_class \<Rightarrow> irval \<Rightarrow> 'b ir_module_scheme \<Rightarrow> 'b ir_module_scheme run" where
  "replace_member bb c v m =
     (if Some v \<noteq> leader c \<and> (value_phi c \<noteq> None \<or> \<not> (case v of V_Inst i \<Rightarrow> i_op (instrs m ! i) = I_phi | _ \<Rightarrow> False))
      then if \<not> list_all (\<lambda>u. has_parent m (fst u)) (use_list (graph m) v) then failP NullDeref
           else case leader c of
             None \<Rightarrow> if list_ex (\<lambda>u. user_in_block m bb (fst u)) (use_list (graph m) v) then failP NullDeref else returnP m
           | Some l \<Rightarrow> bindP (replace_use_with_when (user_in_block m bb) v l (graph m)) (\<lambda>g. returnP (m\<lparr>graph := g\<rparr>))
      else returnP m)"

definition replace_class :: "nat \<Rightarrow> congruence_class \<Rightarrow> 'b ir_module_scheme \<Rightarrow> 'b ir_module_scheme run" where
  "replace_class bb c m = (if cc_index c = 0 then returnP m else foldP (replace_member bb c) (members c) m)"

text \<open>The blocks come in the order of their addresses: that in which they were made.\<close>

definition replace_cc_members :: "gvn \<Rightarrow> nat \<Rightarrow> 'b ir_module_scheme \<Rightarrow> 'b ir_module_scheme run" where
  "replace_cc_members g f m =
     foldP (\<lambda>bb. foldP (replace_class bb) (pout g bb)) (sort (basic_blocks (function_list m ! f))) m"

section \<open>Printing\<close>

text \<open>
  What the log shows; the texts are built whether the log is written or not. The operands of
  \<open>+\<close> are evaluated from the left. To print a function names its values.
\<close>

fun value_print :: "irval \<Rightarrow> ('b, string) ir" where
  "value_print (V_Inst i) = bindS (getS (\<lambda>m. print_instruction m i)) liftR"
| "value_print (V_Block b) = bindS (getS (\<lambda>m. print_BasicBlock m b)) liftR"
| "value_print (V_Arg f k) = getS (\<lambda>m. print_Argument m (V_Arg f k))"
| "value_print (V_Fun f) = print_Function f"
| "value_print (V_Global g) = bindS (getS (\<lambda>m. print_GlobalVariable m g)) liftR"
| "value_print c = returnS (print_constant c)"

fun instr_op_name :: "OpID \<Rightarrow> string" where
  "instr_op_name I_cmp = ''cmp''"
| "instr_op_name op = get_instr_op_name op"

fun expr_print :: "gvn_expr \<Rightarrow> ('b, string) ir"
and exprs_print :: "gvn_expr list \<Rightarrow> ('b, string) ir" where
  "expr_print (ConstantExpression c) = bindS (derefS c) value_print"
| "expr_print (BinaryExpression op k l r) = bindS (expr_print l) (\<lambda>s. bindS (expr_print r) (\<lambda>t.
     returnS (''('' @ instr_op_name op @ '' '' @ s @ '' '' @ t @ '')'')))"
| "expr_print (PhiExpression l r) = bindS (expr_print l) (\<lambda>s. bindS (expr_print r) (\<lambda>t.
     returnS (''(phi '' @ s @ '' '' @ t @ '')'')))"
| "expr_print (VariableExpression a ops t) = bindS (exprs_print ops) (\<lambda>s. returnS (''(var '' @ s @ '')''))"
| "exprs_print [] = returnS []"
| "exprs_print (e # es) = bindS (expr_print e) (\<lambda>s. bindS (exprs_print es) (\<lambda>t. returnS (s @ '' '' @ t)))"

definition annotation_print :: "gvn_expr option \<Rightarrow> ('b, string) ir" where
  "annotation_print e = (case e of None \<Rightarrow> returnS ''nullptr'' | Some e \<Rightarrow> expr_print e)"

fun members_print :: "irval list \<Rightarrow> ('b, string) ir" where
  "members_print [] = returnS []"
| "members_print (v # vs) = bindS (value_print v) (\<lambda>s. bindS (members_print vs) (\<lambda>t. returnS (s @ ''; '' @ t)))"

definition print_congruence_class :: "congruence_class \<Rightarrow> ('b, string) ir" where
  "print_congruence_class c =
     (if cc_index c = 0 then returnS (''top class'' @ [CHR 0x0A])
      else bindS (derefS (leader c)) (\<lambda>l. bindS (value_print l) (\<lambda>ld. bindS (annotation_print (value_phi c)) (\<lambda>vp.
           bindS (annotation_print (value_expr c)) (\<lambda>ve. bindS (members_print (members c)) (\<lambda>ms.
           returnS (CHR 0x0A # ''index: '' @ show_nat (cc_index c) @ [CHR 0x0A] @ ''leader: '' @ ld @ [CHR 0x0A] @ ''value phi: '' @ vp @
             [CHR 0x0A] @ ''value expr: '' @ ve @ [CHR 0x0A] @ ''members: {'' @ ms @ ''}'' @ [CHR 0x0A])))))))"

text \<open>The loops of \<open>run\<close> over \<open>pin_\<close> and \<open>pout_\<close>, the blocks in the order in which they were made.\<close>

fun print_partition :: "partitions \<Rightarrow> ('b, unit) ir" where
  "print_partition [] = returnS ()"
| "print_partition (c # p) = bindS (print_congruence_class c) (\<lambda>_. print_partition p)"

definition print_pins :: "gvn \<Rightarrow> nat list \<Rightarrow> ('b, unit) ir" where
  "print_pins g bbs = seqS (map (\<lambda>bb. case pin_at g bb of None \<Rightarrow> returnS () | Some p \<Rightarrow> print_partition p) bbs)"

definition print_pouts :: "gvn \<Rightarrow> nat list \<Rightarrow> ('b, unit) ir" where
  "print_pouts g bbs = seqS (map (\<lambda>bb. print_partition (pout g bb)) bbs)"

definition log_partitions :: "gvn \<Rightarrow> nat \<Rightarrow> ('b, unit) ir" where
  "log_partitions g f = bindS (getS (\<lambda>m. sort (basic_blocks (function_list m ! f)))) (\<lambda>bbs.
     thenS (print_pins g bbs) (print_pouts g bbs))"

section \<open>The dump\<close>

definition quoted :: "string \<Rightarrow> string" where
  "quoted s = CHR 0x22 # s @ [CHR 0x22]"

definition dump_cc_json :: "'b ir_module_scheme \<Rightarrow> congruence_class \<Rightarrow> string" where
  "dump_cc_json m c = ''['' @ concat (map (\<lambda>v. if is_constant v then print_constant v @ '', ''
     else quoted (CHR 0x25 # get_name m v) @ '', '') (members c)) @ '']''"

definition dump_partition_json :: "'b ir_module_scheme \<Rightarrow> partitions \<Rightarrow> string" where
  "dump_partition_json m p = ''['' @ concat (map (\<lambda>c. dump_cc_json m c @ '', '') p) @ '']''"

definition dump_bb2partition :: "'b ir_module_scheme \<Rightarrow> (nat \<times> partitions) list \<Rightarrow> string" where
  "dump_bb2partition m mp = ''{'' @ concat (map (\<lambda>(bb, p). quoted (bb_name (blocks m ! bb)) @ '': '' @ dump_partition_json m p @ '','') mp) @ ''}''"

definition function_json :: "'b ir_module_scheme \<Rightarrow> gvn \<Rightarrow> nat \<Rightarrow> string" where
  "function_json m g f = ''{'' @ [CHR 0x0A] @ quoted ''function'' @ '': '' @ quoted (f_name (function_list m ! f)) @ '', '' @
     [CHR 0x0A] @ quoted ''pout'' @ '': '' @
     dump_bb2partition m (map (\<lambda>bb. (bb, pout g bb)) (sort (basic_blocks (function_list m ! f)))) @ ''},''"

section \<open>The pass\<close>

text \<open>The state carries the text of the dump.\<close>

definition gvn_function :: "(irval \<Rightarrow> nat) \<Rightarrow> func_info \<Rightarrow> bool \<Rightarrow> nat \<Rightarrow> string \<times> gvn \<times> 'b ir_module_scheme \<Rightarrow>
    (string \<times> gvn \<times> 'b ir_module_scheme) run" where
  "gvn_function address fi dump_json f s =
     (if basic_blocks (function_list (snd (snd s)) ! f) = [] then returnP s
      else bindP (detectEquivalences address fi f (initPerFunction (fst (snd s)), snd (snd s))) (\<lambda>(g, m).
           bindP (Some (log_partitions g f m)) (\<lambda>(_, m).
           bindP (replace_cc_members g f m) (\<lambda>m'.
           returnP (if dump_json then fst s @ function_json m g f else fst s, g, m')))))"

definition gvn_run :: "(irval \<Rightarrow> nat) \<Rightarrow> bool \<Rightarrow> 'b ir_module_scheme \<Rightarrow> (string option \<times> 'b ir_module_scheme) run" where
  "gvn_run address dump_json m = bindP (func_info_run m new_func_info) (\<lambda>fi.
     bindP (dead_code_run m) (\<lambda>(_, m).
     bindP (foldP (gvn_function address fi dump_json) [0..<length (function_list m)] (if dump_json then ''['' else [], new_gvn, m)) (\<lambda>(json, _, m).
     bindP (dead_code_run m) (\<lambda>(_, m).
     returnP (if dump_json then Some (json @ '']'') else None, m)))))"

declare valuePhiFunc.simps [code] iterate.simps [code]

end
