(* ===== verification/Driver.thy ===== *)
theory Driver
  imports AstTotal Mem2RegCode IrPrintProps GVN
begin

text \<open>
  The compiler driver and the pass manager: \<open>cminusfc/cminusfc.cpp\<close> and
  \<open>optimization/PassManager.hpp\<close>. The generated parser is the parameter
  \<open>parse\<close>, from the path of a file to the tree it leaves in \<open>gt->root\<close>, and
  the C library's \<open>system\<close> is the parameter \<open>system\<close>. What the run prints is part
  of the result, the help included; what it writes to the standard error, and the log, are
  not.
\<close>

section \<open>The pass manager\<close>

datatype pass = Pass_Mem2Reg | Pass_GVN bool

text \<open>The addresses of values, which order the sets the passes keep.\<close>

fun pass_run :: "(irval option \<Rightarrow> nat) \<Rightarrow> pass \<Rightarrow> 'b ir_module_scheme \<Rightarrow> (string option \<times> 'b ir_module_scheme) run" where
  "pass_run address Pass_Mem2Reg m = bindP (mem2reg_run address m) (\<lambda>m. returnP (None, m))"
| "pass_run address (Pass_GVN dump) m = gvn_run (\<lambda>v. address (Some v)) dump m"

definition add_pass :: "pass \<Rightarrow> bool \<Rightarrow> (pass \<times> bool) list \<Rightarrow> (pass \<times> bool) list" where
  "add_pass p print_ir passes = passes @ [(p, print_ir)]"

text \<open>The standard output, the dump of the last pass that has one, and the module.\<close>

definition pass_step :: "(irval option \<Rightarrow> nat) \<Rightarrow> pass \<times> bool \<Rightarrow> string \<times> string option \<times> 'b ir_module_scheme \<Rightarrow>
    (string \<times> string option \<times> 'b ir_module_scheme) run" where
  "pass_step address p s = bindP (pass_run address (fst p) (snd (snd s))) (\<lambda>(json, m).
     bindP (if snd p then Some (module_print (set_print_name m)) else returnP ([], m)) (\<lambda>(t, m).
     returnP (fst s @ t, if json = None then fst (snd s) else json, m)))"

definition pass_manager_run :: "(irval option \<Rightarrow> nat) \<Rightarrow> (pass \<times> bool) list \<Rightarrow> 'b ir_module_scheme \<Rightarrow>
    (string \<times> string option \<times> 'b ir_module_scheme) run" where
  "pass_manager_run address passes m = foldP (pass_step address) passes ([], None, m)"

section \<open>Options\<close>

record options =
  target_path :: string
  input_path :: string
  opt_mem2reg :: bool
  opt_gvn :: bool
  opt_dump_json :: bool
  opt_emit :: bool

definition no_options :: options where
  "no_options = \<lparr>target_path = [], input_path = [], opt_mem2reg = False, opt_gvn = False, opt_dump_json = False, opt_emit = False\<rparr>"

text \<open>\<open>None\<close> when the help is printed.\<close>

fun read_options :: "string list \<Rightarrow> options \<Rightarrow> options option" where
  "read_options [] opts = Some opts"
| "read_options (a # args) opts =
     (if a = ''-h'' \<or> a = ''--help'' then None
      else if a = ''-o'' then (case args of [] \<Rightarrow> None
             | t # args \<Rightarrow> if target_path opts = [] then read_options args (opts\<lparr>target_path := t\<rparr>) else None)
      else if a = ''-emit-llvm'' then read_options args (opts\<lparr>opt_emit := True\<rparr>)
      else if a = ''-mem2reg'' then read_options args (opts\<lparr>opt_mem2reg := True\<rparr>)
      else if a = ''-gvn'' then read_options args (opts\<lparr>opt_gvn := True\<rparr>)
      else if a = ''-dump-json'' then read_options args (opts\<lparr>opt_dump_json := True\<rparr>)
      else if input_path opts = [] then read_options args (opts\<lparr>input_path := a\<rparr>)
      else None)"

definition target_of :: "options \<Rightarrow> string option" where
  "target_of opts =
     (if target_path opts \<noteq> [] then Some (target_path opts)
      else case rfind (CHR ''.'') (input_path opts) of
        None \<Rightarrow> None
      | Some pos \<Rightarrow> if drop pos (input_path opts) \<noteq> ''.cminus'' then None else Some (take pos (input_path opts)))"

definition passes_of :: "options \<Rightarrow> (pass \<times> bool) list" where
  "passes_of opts =
     (let passes = (if opt_mem2reg opts then add_pass Pass_Mem2Reg (opt_emit opts) [] else [])
      in if opt_gvn opts then add_pass (Pass_GVN (opt_dump_json opts)) (opt_emit opts) passes else passes)"

section \<open>The main function\<close>

text \<open>What a run leaves: the written file, the dump, the standard output and the exit status.\<close>

record outcome =
  ll_file :: "(string \<times> string) option"
  gvn_json :: "string option"
  std_output :: string
  exit_status :: int

definition ll_text :: "string \<Rightarrow> string \<Rightarrow> string" where
  "ll_text input ir = ''; ModuleID = '' @ [CHR 0x27] @ ''cminus'' @ [CHR 0x27, CHR 0x0A] @
     ''source_filename = '' @ quoted input @ [CHR 0x0A, CHR 0x0A] @ ir"

definition lib_path :: "string \<Rightarrow> string" where
  "lib_path exe = (let p = '' -L'' @ exe in case rfind (CHR ''/'') p of Some idx \<Rightarrow> take idx p | None \<Rightarrow> [])"

text \<open>After the two commands the file is gone, when \<open>rm\<close> does its work.\<close>

definition link_status :: "(string \<Rightarrow> int) \<Rightarrow> string \<Rightarrow> string \<Rightarrow> int" where
  "link_status system exe target =
     (let re_code0 = system (''clang -O0 -w -no-pie '' @ target @ ''.ll -o '' @ target @ lib_path exe @ '' -lcminus_io'');
          re_code1 = system (''rm '' @ target @ ''.ll'')
      in if re_code0 = 0 \<and> re_code1 = 0 then 0 else 1)"

definition compile :: "(string \<Rightarrow> syntax_tree_node option) \<Rightarrow> (irval option \<Rightarrow> nat) \<Rightarrow> options \<Rightarrow> (string \<times> string option \<times> string) run" where
  "compile parse address opts =
     bindP (Some (AST_of (parse (input_path opts)))) (\<lambda>a.
     bindP (Some (codegen a)) (\<lambda>m.
     bindP (pass_manager_run address (passes_of opts) m) (\<lambda>(out, json, m).
     bindP (Some (module_print m)) (\<lambda>(ir, _).
     returnP (ll_text (input_path opts) ir, json, out)))))"

definition print_help :: "string \<Rightarrow> string" where
  "print_help exe_name = ''Usage: '' @ exe_name @
     '' [ -h | --help ] [ -o <target-file> ] [ -emit-llvm ] [-mem2reg] [-gvn] [-dump-json] <input-file>'' @ [CHR 0x0A]"

definition nothing :: "string \<Rightarrow> int \<Rightarrow> outcome" where
  "nothing text status = \<lparr>ll_file = None, gvn_json = None, std_output = text, exit_status = status\<rparr>"

definition main_function :: "(string \<Rightarrow> syntax_tree_node option) \<Rightarrow> (string \<Rightarrow> int) \<Rightarrow> (irval option \<Rightarrow> nat) \<Rightarrow> string \<Rightarrow> string list \<Rightarrow> outcome run" where
  "main_function parse system address exe args =
     (case read_options args no_options of
        None \<Rightarrow> returnP (nothing (print_help exe) 0)
      | Some opts \<Rightarrow>
          if input_path opts = [] then returnP (nothing (print_help exe) 0)
          else case target_of opts of
            None \<Rightarrow> returnP (nothing [] (- 1))
          | Some target \<Rightarrow> bindP (compile parse address opts) (\<lambda>(text, json, out).
              returnP \<lparr>ll_file = Some (target @ ''.ll'', text), gvn_json = json, std_output = out,
                exit_status = (if opt_emit opts then 0 else link_status system exe target)\<rparr>))"

section \<open>A run without passes\<close>

lemma no_passes: "\<not> opt_mem2reg opts \<Longrightarrow> \<not> opt_gvn opts \<Longrightarrow> pass_manager_run address (passes_of opts) m = Some (Inr ([], None, m))"
  by (simp add: passes_of_def pass_manager_run_def returnP_def)

text \<open>C21: on a source the grammar derives whose names and literals have fewer than 30 characters and
  whose literals fit their type (a larger literal throws before code generation), a run with an input file, a target and no passes only fails when
  code generation does, with its failure, and else writes the target's file with the header and the printed
  module and nothing else; neither the construction of the AST nor the print can fail.\<close>

theorem main_without_passes:
  assumes "derives literal_fits (Nt ''program'') t" and "parse (input_path opts) = Some t"
    and "read_options args no_options = Some opts" and "input_path opts \<noteq> []" and "target_of opts = Some target"
    and "\<not> opt_mem2reg opts" and "\<not> opt_gvn opts"
  shows "\<exists>p. AST_of (Some t) = Inr p \<and> (case codegen p of
      Inl e \<Rightarrow> main_function parse system address exe args = Some (Inl e)
    | Inr s \<Rightarrow> \<exists>ir. module_print s = Inr (ir, set_print_name s) \<and> main_function parse system address exe args =
        Some (Inr \<lparr>ll_file = Some (target @ ''.ll'', ll_text (input_path opts) ir), gvn_json = None, std_output = [],
          exit_status = (if opt_emit opts then 0 else link_status system exe target)\<rparr>))"
proof -
  from derives_sound [OF assms(1)] obtain p where p: "AST_of (Some t) = Inr p"
    by (auto simp: nt_sound_simps AstTotal.gives_def AST_of_def)
  have main: "main_function parse system address exe args = bindP (compile parse address opts) (\<lambda>(text, json, out).
      returnP \<lparr>ll_file = Some (target @ ''.ll'', text), gvn_json = json, std_output = out,
        exit_status = (if opt_emit opts then 0 else link_status system exe target)\<rparr>)"
    using assms(3-5) by (simp add: main_function_def)
  show ?thesis
  proof (cases "codegen p")
    case (Inl e)
    with p show ?thesis by (simp add: main compile_def assms(2))
  next
    case (Inr s)
    from module_print_run [OF Inr] obtain ir where ir: "module_print s = Inr (ir, set_print_name s)" by blast
    with p Inr show ?thesis by (simp add: main compile_def assms(2) no_passes [OF assms(6,7)] returnP_def)
  qed
qed

lemma main_without_passes_witness:
  "\<exists>text. main_function (\<lambda>_. Some sample_tree) (\<lambda>_. 0) allocation_order ''cminusfc'' [''-emit-llvm'', ''x.cminus''] =
     Some (Inr \<lparr>ll_file = Some (''x.ll'', text), gvn_json = None, std_output = [], exit_status = 0\<rparr>)"
proof -
  let ?opts = "no_options\<lparr>input_path := ''x.cminus'', opt_emit := True\<rparr>"
  have opts: "read_options [''-emit-llvm'', ''x.cminus''] no_options = Some ?opts" "input_path ?opts \<noteq> []" "target_of ?opts = Some ''x''"
    by (simp_all add: no_options_def target_of_def)
  have "case AST_of (Some sample_tree) of Inl _ \<Rightarrow> False | Inr p \<Rightarrow> (case codegen p of Inl _ \<Rightarrow> False | Inr s \<Rightarrow> True)" by code_simp
  from case_InrD [OF this] obtain p where p: "AST_of (Some sample_tree) = Inr p" "case codegen p of Inl _ \<Rightarrow> False | Inr s \<Rightarrow> True" by blast
  from case_InrD [OF p(2)] obtain s where "codegen p = Inr s" by blast
  with p(1) main_without_passes [OF sample_tree_derives _ opts, of "\<lambda>_. Some sample_tree" "\<lambda>_. 0" allocation_order "''cminusfc''"]
  show ?thesis by (auto simp: no_options_def)
qed

end
