(* ===== verification/FuncInfoProps.thy ===== *)
theory FuncInfoProps
  imports FuncInfo IrPrintProps
begin

text \<open>
  What the purity analysis computes: a function is pure when neither it nor a function it
  reaches through uses is impure by itself.
\<close>

section \<open>The loop\<close>

definition users_of :: "'b ir_module_scheme \<Rightarrow> nat \<Rightarrow> nat set" where
  "users_of m f = {g. \<exists>u \<in> set (use_list (graph m) (V_Fun f)). \<exists>i. fst u = V_Inst i \<and> inst_function m i = Inr g}"

definition users_placed :: "'b ir_module_scheme \<Rightarrow> nat \<Rightarrow> bool" where
  "users_placed m f \<longleftrightarrow> (\<forall>u \<in> set (use_list (graph m) (V_Fun f)). (\<exists>t. user_print m (fst u) = Inr t) \<and>
     (\<forall>i. fst u = V_Inst i \<longrightarrow> i_parent (instrs m ! i) \<noteq> None))"

definition not_pure :: "func_info \<Rightarrow> nat set" where
  "not_pure fi = {f. is_pure fi f \<noteq> Some True}"

definition pop_worklist :: "func_info \<Rightarrow> func_info" where
  "pop_worklist fi = fi\<lparr>worklist := tl (worklist fi)\<rparr>"

definition known_functions :: "func_info \<Rightarrow> func_info \<Rightarrow> bool" where
  "known_functions fi fi' \<longleftrightarrow> dom (is_pure fi) \<subseteq> dom (is_pure fi')"

lemma set_pure_simps [simp]:
  "is_pure (set_pure f p fi) = (is_pure fi)(f \<mapsto> p)"
  "worklist (set_pure f p fi) = worklist fi"
  by (simp_all add: set_pure_def)

lemma process_uses_spec:
  assumes "\<forall>u \<in> set us. (\<exists>t. user_print m (fst u) = Inr t) \<and> (\<forall>i. fst u = V_Inst i \<longrightarrow> i_parent (instrs m ! i) \<noteq> None)"
  shows "\<exists>fi' new. process_uses m us fi = Inr fi' \<and> worklist fi' = worklist fi @ new \<and>
    set new = {g. \<exists>u \<in> set us. \<exists>i. fst u = V_Inst i \<and> inst_function m i = Inr g} - not_pure fi \<and>
    not_pure fi' = not_pure fi \<union> {g. \<exists>u \<in> set us. \<exists>i. fst u = V_Inst i \<and> inst_function m i = Inr g} \<and>
    known_functions fi fi'"
  using assms
proof (induction us arbitrary: fi)
  case Nil
  then show ?case by (simp add: known_functions_def)
next
  case (Cons u us)
  then have placed: "\<forall>u \<in> set us. (\<exists>t. user_print m (fst u) = Inr t) \<and>
      (\<forall>i. fst u = V_Inst i \<longrightarrow> i_parent (instrs m ! i) \<noteq> None)" by simp
  from Cons.prems obtain t where t: "user_print m (fst u) = Inr t" by auto
  show ?case
  proof (cases "\<exists>i. fst u = V_Inst i")
    case False
    then have "process_uses m (u # us) fi = process_uses m us fi" using t by (auto split: irval.split)
    moreover have "{g. \<exists>u \<in> set (u # us). \<exists>i. fst u = V_Inst i \<and> inst_function m i = Inr g} =
        {g. \<exists>u \<in> set us. \<exists>i. fst u = V_Inst i \<and> inst_function m i = Inr g}" using False by auto
    ultimately show ?thesis using Cons.IH [OF placed, of fi] by simp
  next
    case True
    then obtain i where i: "fst u = V_Inst i" by blast
    with Cons.prems obtain f where f: "inst_function m i = Inr f" by (fastforce simp: inst_function_def)
    define fi1 where "fi1 = (set_pure f False fi)\<lparr>worklist := worklist fi @ (if is_pure fi f = Some True then [f] else [])\<rparr>"
    have step: "process_uses m (u # us) fi = process_uses m us fi1"
      using i f t by (simp add: fi1_def set_pure_def)
    have marks: "not_pure fi1 = insert f (not_pure fi)" by (auto simp: not_pure_def fi1_def)
    have set: "{g. \<exists>u \<in> set (u # us). \<exists>i. fst u = V_Inst i \<and> inst_function m i = Inr g} =
        insert f {g. \<exists>u \<in> set us. \<exists>i. fst u = V_Inst i \<and> inst_function m i = Inr g}" using i f by auto
    have known: "known_functions fi fi1" by (auto simp: known_functions_def fi1_def)
    from Cons.IH [OF placed, of fi1] obtain fi' new where "process_uses m us fi1 = Inr fi'" "worklist fi' = worklist fi1 @ new"
      "set new = {g. \<exists>u \<in> set us. \<exists>i. fst u = V_Inst i \<and> inst_function m i = Inr g} - not_pure fi1"
      "not_pure fi' = not_pure fi1 \<union> {g. \<exists>u \<in> set us. \<exists>i. fst u = V_Inst i \<and> inst_function m i = Inr g}"
      "known_functions fi1 fi'" by blast
    then show ?thesis
      unfolding set step marks using known
      by (intro exI [of _ fi'] exI [of _ "(if is_pure fi f = Some True then [f] else []) @ new"])
        (auto simp: fi1_def not_pure_def known_functions_def)
  qed
qed

interpretation purity: marking_loop worklist pop_worklist not_pure "process m" "process_loop m" "users_of m" "users_placed m"
    "\<lambda>_. True" known_functions
  for m :: "'b ir_module_scheme"
proof
  show "process_loop m fi = returnP fi" if "worklist fi = []" for fi
    using that by (subst process_loop.simps) simp
  show "process_loop m fi = bindP (Some (process m f (pop_worklist fi))) (process_loop m)" if "worklist fi = f # rest" for fi f rest
    using that by (subst process_loop.simps) (simp add: pop_worklist_def)
  show "worklist (pop_worklist fi) = rest \<and> not_pure (pop_worklist fi) = not_pure fi \<and> known_functions fi (pop_worklist fi) \<and> (True \<longrightarrow> True)"
    if "worklist fi = f # rest" for fi f rest
    using that by (simp add: pop_worklist_def not_pure_def known_functions_def)
  show "\<exists>fi' new. process m f fi = Inr fi' \<and> worklist fi' = worklist fi @ new \<and> set new = users_of m f - not_pure fi \<and>
      not_pure fi' = not_pure fi \<union> users_of m f \<and> known_functions fi fi' \<and> True" if "users_placed m f" for f fi
    using process_uses_spec [of "use_list (graph m) (V_Fun f)" m fi] that
    by (simp add: users_placed_def users_of_def process_def)
qed (auto simp: known_functions_def)

section \<open>Where an address comes from\<close>

text \<open>
  The specification of the search for the start of an address: a variable of the function, a
  loaded pointer or what is no instruction is where it ends; an element address goes on with
  its first operand, another instruction with its first operand of a pointer type, if any.
\<close>

inductive origin :: "'b ir_module_scheme \<Rightarrow> irval \<Rightarrow> irval \<Rightarrow> bool" for m :: "'b ir_module_scheme" where
  outside: "\<forall>i. v \<noteq> V_Inst i \<Longrightarrow> origin m v v"
| variable: "i_op (instrs m ! i) \<in> {I_alloca, I_load} \<Longrightarrow> origin m (V_Inst i) (V_Inst i)"
| element: "i_op (instrs m ! i) = I_getelementptr \<Longrightarrow> operands (graph m) (V_Inst i) = Some w # ops \<Longrightarrow>
    origin m w a \<Longrightarrow> origin m (V_Inst i) a"
| operand: "i_op (instrs m ! i) \<notin> {I_alloca, I_load, I_getelementptr} \<Longrightarrow> operands (graph m) (V_Inst i) = map Some (vs @ w # ws) \<Longrightarrow>
    \<forall>v \<in> set vs. \<not> is_pointer_type (get_type m v) \<Longrightarrow> is_pointer_type (get_type m w) \<Longrightarrow> origin m w a \<Longrightarrow> origin m (V_Inst i) a"
| no_operand: "i_op (instrs m ! i) \<notin> {I_alloca, I_load, I_getelementptr} \<Longrightarrow> operands (graph m) (V_Inst i) = map Some vs \<Longrightarrow>
    \<forall>v \<in> set vs. \<not> is_pointer_type (get_type m v) \<Longrightarrow> origin m (V_Inst i) (V_Inst i)"

definition local_variable :: "'b ir_module_scheme \<Rightarrow> irval \<Rightarrow> bool" where
  "local_variable m a \<longleftrightarrow> (\<exists>i. a = V_Inst i \<and> i_op (instrs m ! i) = I_alloca)"

text \<open>What a load reads from and a store writes to.\<close>

definition accessed_address :: "'b ir_module_scheme \<Rightarrow> nat \<Rightarrow> irval \<Rightarrow> bool" where
  "accessed_address m i v \<longleftrightarrow>
     (i_op (instrs m ! i) = I_load \<and> (\<exists>ops. operands (graph m) (V_Inst i) = Some v # ops)) \<or>
     (i_op (instrs m ! i) = I_store \<and> (\<exists>x ops. operands (graph m) (V_Inst i) = x # Some v # ops))"

definition accesses_outside :: "'b ir_module_scheme \<Rightarrow> nat \<Rightarrow> bool" where
  "accesses_outside m i \<longleftrightarrow> (\<exists>v a. accessed_address m i v \<and> origin m v a \<and> \<not> local_variable m a)"

text \<open>Every load and store has an address, and it comes from somewhere.\<close>

definition addresses_found :: "'b ir_module_scheme \<Rightarrow> bool" where
  "addresses_found m \<longleftrightarrow> (\<forall>f < length (function_list m). \<forall>i \<in> set (function_instrs m f).
     i_op (instrs m ! i) \<in> {I_load, I_store} \<longrightarrow> (\<exists>v a. accessed_address m i v \<and> origin m v a))"

lemma first_pointer_found:
  assumes "\<forall>v \<in> set vs. \<not> is_pointer_type (get_type m v)"
  shows "first_pointer m (map Some vs) = Inr None"
    and "is_pointer_type (get_type m w) \<Longrightarrow> first_pointer m (map Some (vs @ w # ws)) = Inr (Some w)"
  using assms by (induction vs) simp_all

lemma get_first_addr_origin: "origin m v a \<Longrightarrow> get_first_addr m (Some v) = Some (Inr (Some a))"
proof (induction rule: origin.induct)
  case (outside v)
  then show ?case by (subst get_first_addr.simps) (auto simp: returnP_def split: irval.split)
next
  case (variable i)
  then show ?case by (subst get_first_addr.simps) (auto simp: returnP_def)
next
  case (element i w ops a)
  then show ?case by (subst get_first_addr.simps) (simp add: nth_checked_def)
next
  case (operand i vs w ws a)
  then show ?case
    by (subst get_first_addr.simps) (simp add: first_pointer_found(2) [OF operand.hyps(3,4)] del: map_append)
next
  case (no_operand i vs)
  then show ?case by (subst get_first_addr.simps) (simp add: first_pointer_found(1) returnP_def)
qed

lemma origin_unique: "origin m v a \<Longrightarrow> origin m v b \<Longrightarrow> a = b"
  using get_first_addr_origin [of m v a] get_first_addr_origin [of m v b] by simp

lemma accessed_unique: "accessed_address m i v \<Longrightarrow> accessed_address m i w \<Longrightarrow> v = w"
  by (auto simp: accessed_address_def)

text \<open>The code finds a side effect where something outside the function's variables is accessed.\<close>

lemma is_side_effect_inst_spec:
  assumes "i_op (instrs m ! i) \<in> {I_load, I_store} \<longrightarrow> (\<exists>v a. accessed_address m i v \<and> origin m v a)"
  shows "is_side_effect_inst m i = Some (Inr (accesses_outside m i))"
proof (cases "i_op (instrs m ! i) \<in> {I_load, I_store}")
  case True
  with assms obtain v a where v: "accessed_address m i v" and a: "origin m v a" by blast
  have "accesses_outside m i \<longleftrightarrow> \<not> local_variable m a"
    unfolding accesses_outside_def using v a accessed_unique [OF v] origin_unique [OF a] by blast
  moreover have "is_local_addr m (Some v) = Some (Inr (local_variable m a))"
    by (cases a) (simp_all add: is_local_addr_def get_first_addr_origin [OF a] local_variable_def returnP_def)
  ultimately show ?thesis using True v
    by (auto simp: is_side_effect_inst_def is_local_load_def is_local_store_def accessed_address_def nth_checked_def returnP_def)
next
  case False
  then show ?thesis
    by (auto simp: is_side_effect_inst_def accesses_outside_def accessed_address_def returnP_def)
qed

section \<open>The first pass\<close>

definition impure_itself :: "'b ir_module_scheme \<Rightarrow> nat \<Rightarrow> bool" where
  "impure_itself m f \<longleftrightarrow> basic_blocks (function_list m ! f) = [] \<or> f_name (function_list m ! f) = ''main'' \<or>
     (\<exists>t \<in> set (function_param_types (f_type (function_list m ! f))). \<not> is_integer_type t \<and> \<not> is_float_type t) \<or>
     (\<exists>i \<in> set (function_instrs m f). accesses_outside m i)"

definition function_uses_known :: "'b ir_module_scheme \<Rightarrow> bool" where
  "function_uses_known m \<longleftrightarrow> (\<forall>f. users_placed m f) \<and>
     (\<forall>f i k. (V_Inst i, k) \<in> set (use_list (graph m) (V_Fun f)) \<longrightarrow> f < length (function_list m))"

lemma any_side_effect_spec:
  "\<forall>i \<in> set is. is_side_effect_inst m i = Some (Inr (accesses_outside m i)) \<Longrightarrow>
   any_side_effect m is = Some (Inr (\<exists>i \<in> set is. accesses_outside m i))"
  by (induction "is") (simp_all add: returnP_def)

lemma trivial_mark_spec:
  assumes "addresses_found m" and "f < length (function_list m)"
  shows "trivial_mark m f fi = Some (Inr (set_pure f (\<not> impure_itself m f) fi))"
proof -
  have eff: "any_side_effect m (function_instrs m f) = Some (Inr (\<exists>i \<in> set (function_instrs m f). accesses_outside m i))"
    using assms by (intro any_side_effect_spec) (auto simp: addresses_found_def intro!: is_side_effect_inst_spec)
  consider (skip) "basic_blocks (function_list m ! f) = [] \<or> f_name (function_list m ! f) = ''main''"
    | (arg) "basic_blocks (function_list m ! f) \<noteq> []" "f_name (function_list m ! f) \<noteq> ''main''"
        "\<exists>t \<in> set (function_param_types (f_type (function_list m ! f))). \<not> is_integer_type t \<and> \<not> is_float_type t"
    | (body) "basic_blocks (function_list m ! f) \<noteq> []" "f_name (function_list m ! f) \<noteq> ''main''"
        "\<not> (\<exists>t \<in> set (function_param_types (f_type (function_list m ! f))). \<not> is_integer_type t \<and> \<not> is_float_type t)"
    by blast
  then show ?thesis
  proof cases
    case skip
    then have "impure_itself m f" by (auto simp: impure_itself_def)
    with skip show ?thesis by (simp add: trivial_mark_def is_declaration_def returnP_def)
  next
    case arg
    then have "impure_itself m f" by (auto simp: impure_itself_def)
    with arg show ?thesis by (simp add: trivial_mark_def is_declaration_def returnP_def)
  next
    case body
    then have "impure_itself m f \<longleftrightarrow> (\<exists>i \<in> set (function_instrs m f). accesses_outside m i)" by (auto simp: impure_itself_def)
    with body eff show ?thesis by (auto simp: trivial_mark_def is_declaration_def returnP_def)
  qed
qed

lemma first_pass_spec:
  assumes "addresses_found m"
  shows "set fs \<subseteq> {..<length (function_list m)} \<Longrightarrow>
    \<exists>fi'. foldP (mark_and_queue m) fs fi = Some (Inr fi') \<and>
      (\<forall>f. is_pure fi' f = (if f \<in> set fs then Some (\<not> impure_itself m f) else is_pure fi f)) \<and>
      worklist fi' = worklist fi @ filter (impure_itself m) fs"
proof (induction fs arbitrary: fi)
  case Nil
  then show ?case by (simp add: returnP_def)
next
  case (Cons f fs)
  define fi1 where "fi1 = (set_pure f (\<not> impure_itself m f) fi)\<lparr>worklist := worklist fi @ (if impure_itself m f then [f] else [])\<rparr>"
  have step: "mark_and_queue m f fi = Some (Inr fi1)"
    using trivial_mark_spec [OF assms, of f fi] Cons.prems by (simp add: mark_and_queue_def returnP_def fi1_def set_pure_def)
  from Cons.IH [of fi1] Cons.prems obtain fi' where "foldP (mark_and_queue m) fs fi1 = Some (Inr fi')"
    "\<forall>f. is_pure fi' f = (if f \<in> set fs then Some (\<not> impure_itself m f) else is_pure fi1 f)"
    "worklist fi' = worklist fi1 @ filter (impure_itself m) fs" by auto
  then show ?case by (intro exI [of _ fi']) (auto simp: step fi1_def)
qed

section \<open>Generated modules\<close>

lemma codegen_origin:
  assumes ok: "\<forall>i < ni m. shaped_instr m i" and v: "valid_value m v"
  shows "\<exists>a. origin m v a"
proof (cases "\<exists>i. v = V_Inst i")
  case False
  then have "origin m v v" by (intro origin.outside) blast
  then show ?thesis ..
next
  case True
  then obtain i where i: "v = V_Inst i" by blast
  with v have "i < ni m" by simp
  then have "\<exists>a. origin m (V_Inst i) a"
  proof (induction i rule: less_induct)
    case (less i)
    from ok less.prems obtain ops where ops: "operands (graph m) (V_Inst i) = map Some ops" "\<forall>v \<in> set ops. made_before m i v"
      and shape: "shape_ok m (i_op (instrs m ! i)) (i_data (instrs m ! i)) ops" by (auto simp: shaped_instr_def)
    have from_ops: "\<exists>a. origin m w a" if "w \<in> set ops" for w
    proof (cases "\<exists>j. w = V_Inst j")
      case True
      then show ?thesis using ops(2) that less.IH by (fastforce simp: made_before_def)
    next
      case False
      then have "origin m w w" by (intro origin.outside) blast
      then show ?thesis ..
    qed
    consider (stop) "i_op (instrs m ! i) \<in> {I_alloca, I_load}" | (gep) "i_op (instrs m ! i) = I_getelementptr"
      | (other) "i_op (instrs m ! i) \<notin> {I_alloca, I_load, I_getelementptr}" by blast
    then show ?case
    proof cases
      case stop
      then show ?thesis using origin.variable by blast
    next
      case gep
      with shape obtain p "is" where p: "ops = p # is" by auto
      from from_ops [of p] obtain a where "origin m p a" by (auto simp: p)
      with origin.element [OF gep, of p "map Some is" a] ops(1) show ?thesis by (auto simp: p)
    next
      case other
      show ?thesis
      proof (cases "\<exists>w \<in> set ops. is_pointer_type (get_type m w)")
        case True
        then obtain vs w ws where w: "ops = vs @ w # ws" "is_pointer_type (get_type m w)"
          "\<forall>v \<in> set vs. \<not> is_pointer_type (get_type m v)" by (rule split_list_first_propE)
        with from_ops [of w] obtain a where "origin m w a" by auto
        from origin.operand [OF other ops(1) [unfolded w(1)] w(3,2) this] show ?thesis ..
      next
        case False
        with origin.no_operand [OF other ops(1)] show ?thesis by blast
      qed
    qed
  qed
  with i show ?thesis by simp
qed

lemma codegen_addresses_found:
  assumes "codegen prog = Inr s"
  shows "addresses_found s"
  unfolding addresses_found_def
proof (intro allI ballI impI)
  fix f i assume f: "f < length (function_list s)" and i: "i \<in> set (function_instrs s f)"
    and op: "i_op (instrs s ! i) \<in> {I_load, I_store}"
  have ok: "\<forall>i < ni s. shaped_instr s i" using codegen_code_ok [OF assms] by (simp add: code_ok_def)
  have "i < ni s" using codegen_printable [OF assms] f i by (auto simp: printable_def function_instrs_def)
  with ok obtain ops where ops: "operands (graph s) (V_Inst i) = map Some ops" "\<forall>v \<in> set ops. made_before s i v"
    "shape_ok s (i_op (instrs s ! i)) (i_data (instrs s ! i)) ops" by (auto simp: shaped_instr_def)
  have "\<exists>v \<in> set ops. accessed_address s i v"
    using op ops(1,3) by (auto simp: accessed_address_def length_Suc_conv numeral_2_eq_2)
  then obtain v where v: "v \<in> set ops" "accessed_address s i v" by blast
  with ops(2) codegen_origin [OF ok, of v] show "\<exists>v a. accessed_address s i v \<and> origin s v a" by (auto simp: made_before_def)
qed

lemma codegen_function_uses_known:
  assumes "codegen prog = Inr s"
  shows "function_uses_known s"
proof -
  have ir: "ir_ok s" by (rule codegen_ir_ok [OF assms])
  have code: "code_ok s" by (rule codegen_code_ok [OF assms])
  have use: "existing_user s u \<and> Some (V_Fun f) \<in> set (operands (graph s) u)" if "(u, k) \<in> set (use_list (graph s) (V_Fun f))" for u k f
  proof -
    have "k < length (operands (graph s) u)" "operands (graph s) u ! k = Some (V_Fun f)"
      using that ir uses_agreeD(2) [of "{}" "graph s" u k "V_Fun f"] by (auto simp: ir_ok_def users_agree_def)
    then have "Some (V_Fun f) \<in> set (operands (graph s) u)" by (metis nth_mem)
    moreover from this have "existing_user s u" using ir unfolding ir_ok_def users_agree_def by force
    ultimately show ?thesis by simp
  qed
  have "f < nf s" if u: "(V_Inst i, k) \<in> set (use_list (graph s) (V_Fun f))" for i k f
  proof -
    from use [OF u] have "shaped_instr s i" using code by (simp add: code_ok_def)
    with use [OF u] have "made_before s i (V_Fun f)" by (auto simp: shaped_instr_def)
    then show ?thesis by (simp add: made_before_def)
  qed
  moreover have "(\<exists>t. user_print s (fst u) = Inr t) \<and> (\<forall>i. fst u = V_Inst i \<longrightarrow> i_parent (instrs s ! i) \<noteq> None)"
    if u: "u \<in> set (use_list (graph s) (V_Fun f))" for u f
  proof -
    obtain v k where v: "u = (v, k)" by (cases u)
    from use u v have "existing_user s v" by blast
    then show ?thesis using v code ir print_instruction_total [of s] print_GlobalVariable_total [of s]
      by (cases v) (auto simp: user_print_def code_ok_def ir_ok_def instrs_placed_def)
  qed
  ultimately show ?thesis by (auto simp: function_uses_known_def users_placed_def)
qed

section \<open>The result\<close>

lemma reached_by_uses:
  "f \<in> marking_loop.closure (users_of m) A \<longleftrightarrow> (\<exists>g \<in> A. (g, f) \<in> {(g, h). h \<in> users_of m g}\<^sup>*)"
  by (auto simp: purity.closure_def purity.edges_def)

text \<open>The function is called impure in the end.\<close>

definition impure :: "'b ir_module_scheme \<Rightarrow> nat \<Rightarrow> bool" where
  "impure m f \<longleftrightarrow> (\<exists>g < length (function_list m). impure_itself m g \<and> (g, f) \<in> {(g, h). h \<in> users_of m g}\<^sup>*)"

lemma func_info_run_spec:
  assumes "addresses_found m" and "function_uses_known m"
  shows "\<exists>fi. func_info_run m new_func_info = Some (Inr fi) \<and>
    (\<forall>f < length (function_list m). is_pure fi f = Some (\<not> impure m f))"
proof -
  let ?n = "length (function_list m)"
  obtain fi1 where run1: "foldP (mark_and_queue m) [0..<?n] new_func_info = Some (Inr fi1)"
    and pure1: "\<And>f. is_pure fi1 f = (if f < ?n then Some (\<not> impure_itself m f) else None)"
    and work1: "worklist fi1 = filter (impure_itself m) [0..<?n]"
    using first_pass_spec [OF assms(1), of "[0..<?n]" new_func_info] by (auto simp: new_func_info_def subset_iff)
  have marks: "not_pure fi1 = {f. f < ?n \<longrightarrow> impure_itself m f}" by (auto simp: not_pure_def pure1)
  have unused: "users_of m f = {}" if "\<not> f < ?n" for f
    using assms(2) that by (fastforce simp: function_uses_known_def users_of_def)
  have "\<exists>fi. process_loop m fi1 = Some (Inr fi) \<and> not_pure fi = marking_loop.closure (users_of m) (not_pure fi1) \<and> worklist fi = [] \<and>
      known_functions fi1 fi"
  proof (rule purity.loop_marks)
    show "finite (marking_loop.closure (users_of m) (not_pure fi1) - not_pure fi1)" by (rule finite_subset [of _ "{..<?n}"]) (auto simp: marks)
    show "\<forall>f \<in> marking_loop.closure (users_of m) (set (worklist fi1)). users_placed m f" using assms(2) by (simp add: function_uses_known_def)
    show "\<forall>f \<in> not_pure fi1 - set (worklist fi1). users_of m f \<subseteq> not_pure fi1" using unused by (auto simp: marks work1)
  qed (auto simp: marks work1)
  then obtain fi where run: "process_loop m fi1 = Some (Inr fi)" and final: "not_pure fi = marking_loop.closure (users_of m) (not_pure fi1)"
    and known: "known_functions fi1 fi" by blast
  have "is_pure fi f = Some (\<not> impure m f)" if f: "f < ?n" for f
  proof -
    have stay: "g < ?n" if "(g, f) \<in> {(g, h). h \<in> users_of m g}\<^sup>*" for g
      using that f unused by (cases rule: converse_rtranclE) auto
    have "f \<in> not_pure fi \<longleftrightarrow> impure m f"
      unfolding impure_def final reached_by_uses marks using stay by auto
    moreover obtain p where "is_pure fi f = Some p" using known pure1 [of f] f by (auto simp: known_functions_def dom_def subset_iff)
    ultimately show ?thesis by (auto simp: not_pure_def)
  qed
  with run1 run show ?thesis by (simp add: func_info_run_def)
qed



end
