(* ===== verification/DeadCodeProps.thy ===== *)
theory DeadCodeProps
  imports DeadCode FuncInfoProps
begin

text \<open>
  What dead code elimination leaves: the instructions that an effect needs, in their
  order, with use lists that name no erased instruction. It ends after its second round.
\<close>

section \<open>The marking loop\<close>

definition uses_inst :: "'b ir_module_scheme \<Rightarrow> nat \<Rightarrow> nat set" where
  "uses_inst m i = {d. Some (V_Inst d) \<in> set (operands (graph m) (V_Inst i)) \<and> inst_function m d = inst_function m i}"

definition inst_ready :: "'b ir_module_scheme \<Rightarrow> nat \<Rightarrow> bool" where
  "inst_ready m i \<longleftrightarrow> i_parent (instrs m ! i) \<noteq> None \<and>
     (\<forall>d. Some (V_Inst d) \<in> set (operands (graph m) (V_Inst i)) \<longrightarrow> i_parent (instrs m ! d) \<noteq> None)"

definition marks :: "dead_code \<Rightarrow> nat set" where
  "marks dc = {i. marked dc i}"

definition pop_work :: "dead_code \<Rightarrow> dead_code" where
  "pop_work dc = dc\<lparr>work_list := tl (work_list dc)\<rparr>"

definition same_count :: "dead_code \<Rightarrow> dead_code \<Rightarrow> bool" where
  "same_count dc dc' \<longleftrightarrow> ins_count dc' = ins_count dc"

lemma mark_inst_simps [simp]:
  "marks (mark_inst i dc) = insert i (marks dc)"
  "work_list (mark_inst i dc) = work_list dc @ [i]"
  "ins_count (mark_inst i dc) = ins_count dc"
  by (auto simp: mark_inst_def marks_def)

lemma marked_iff: "marked dc i \<longleftrightarrow> i \<in> marks dc"
  by (simp add: marks_def)

lemma absorb_marked: "A = B \<or> A = insert d B \<and> d \<in> M \<Longrightarrow> A - M = B - M \<and> M \<union> A = M \<union> B"
  by auto

lemma mark_operands_spec:
  assumes i: "i_parent (instrs m ! i) \<noteq> None"
    and "\<forall>d. Some (V_Inst d) \<in> set ops \<longrightarrow> i_parent (instrs m ! d) \<noteq> None"
  shows "\<exists>dc' new. mark_operands m i ops dc = Inr dc' \<and> work_list dc' = work_list dc @ new \<and>
    set new = {d. Some (V_Inst d) \<in> set ops \<and> inst_function m d = inst_function m i} - marks dc \<and>
    marks dc' = marks dc \<union> {d. Some (V_Inst d) \<in> set ops \<and> inst_function m d = inst_function m i} \<and> same_count dc dc'"
  using assms(2)
proof (induction ops arbitrary: dc)
  case Nil
  then show ?case by (simp add: same_count_def)
next
  case (Cons op ops)
  then have placed: "\<forall>d. Some (V_Inst d) \<in> set ops \<longrightarrow> i_parent (instrs m ! d) \<noteq> None" by simp
  obtain fi where fi: "inst_function m i = Inr fi" using i by (auto simp: inst_function_def)
  show ?case
  proof (cases "\<exists>d. op = Some (V_Inst d)")
    case False
    then have "mark_operands m i (op # ops) dc = mark_operands m i ops dc" by (auto split: option.split irval.split)
    moreover have "Some (V_Inst d) \<in> set (op # ops) \<longleftrightarrow> Some (V_Inst d) \<in> set ops" for d using False by auto
    ultimately show ?thesis using Cons.IH [OF placed, of dc] by simp
  next
    case True
    then obtain d where d: "op = Some (V_Inst d)" by blast
    with Cons.prems obtain fd where fd: "inst_function m d = Inr fd" by (fastforce simp: inst_function_def)
    define dc1 where "dc1 = (if marked dc d \<or> fd \<noteq> fi then dc else mark_inst d dc)"
    have step: "mark_operands m i (op # ops) dc = mark_operands m i ops dc1" by (simp add: d fd fi dc1_def)
    from Cons.IH [OF placed, of dc1] obtain dc' new where "mark_operands m i ops dc1 = Inr dc'" "work_list dc' = work_list dc1 @ new"
      "set new = {d. Some (V_Inst d) \<in> set ops \<and> inst_function m d = inst_function m i} - marks dc1"
      "marks dc' = marks dc1 \<union> {d. Some (V_Inst d) \<in> set ops \<and> inst_function m d = inst_function m i}" "same_count dc1 dc'"
      by blast
    note rest = this
    show ?thesis
    proof (cases "marked dc d \<or> fd \<noteq> fi")
      case True
      then have dc1: "dc1 = dc" by (simp add: dc1_def)
      let ?N = "\<lambda>ops. {d. Some (V_Inst d) \<in> set ops \<and> inst_function m d = inst_function m i}"
      have "?N (op # ops) = ?N ops \<or> ?N (op # ops) = insert d (?N ops) \<and> d \<in> marks dc" using True d fd fi marked_iff by auto
      then have "?N (op # ops) - marks dc = ?N ops - marks dc \<and> marks dc \<union> ?N (op # ops) = marks dc \<union> ?N ops"
        by (rule absorb_marked)
      with rest show ?thesis unfolding step dc1 by simp
    next
      case False
      then have "dc1 = mark_inst d dc" "d \<notin> marks dc" by (simp_all add: dc1_def marked_iff)
      moreover have "{d. Some (V_Inst d) \<in> set (op # ops) \<and> inst_function m d = inst_function m i} =
          insert d {d. Some (V_Inst d) \<in> set ops \<and> inst_function m d = inst_function m i}" using False d fd fi by auto
      ultimately show ?thesis unfolding step using rest
        by (intro exI [of _ dc'] exI [of _ "d # new"]) (simp add: same_count_def, blast)
    qed
  qed
qed

interpretation marking: marking_loop work_list pop_work marks "mark_uses m" "mark_loop m" "uses_inst m" "inst_ready m" "\<lambda>_. True" same_count
  for m :: "'b ir_module_scheme"
proof
  show "mark_loop m dc = returnP dc" if "work_list dc = []" for dc
    using that by (subst mark_loop.simps) simp
  show "mark_loop m dc = bindP (Some (mark_uses m i (pop_work dc))) (mark_loop m)" if "work_list dc = i # rest" for dc i rest
    using that by (subst mark_loop.simps) (simp add: pop_work_def)
  show "work_list (pop_work dc) = rest \<and> marks (pop_work dc) = marks dc \<and> same_count dc (pop_work dc) \<and> (True \<longrightarrow> True)"
    if "work_list dc = i # rest" for dc i rest
    using that by (simp add: pop_work_def marks_def same_count_def)
  show "\<exists>dc' new. mark_uses m i dc = Inr dc' \<and> work_list dc' = work_list dc @ new \<and> set new = uses_inst m i - marks dc \<and>
      marks dc' = marks dc \<union> uses_inst m i \<and> same_count dc dc' \<and> True" if "inst_ready m i" for i dc
    using mark_operands_spec [of m i "operands (graph m) (V_Inst i)" dc] that
    by (simp add: inst_ready_def uses_inst_def mark_uses_def)
qed (auto simp: same_count_def)

section \<open>The modules the pass is for\<close>

definition listed :: "'b ir_module_scheme \<Rightarrow> nat set" where
  "listed m = {i. \<exists>f < length (function_list m). i \<in> set (function_instrs m f)}"

definition critical :: "'b ir_module_scheme \<Rightarrow> func_info \<Rightarrow> nat \<Rightarrow> bool" where
  "critical m fi i \<longleftrightarrow> is_critical m fi i = Inr True"

definition calls_known :: "'b ir_module_scheme \<Rightarrow> func_info \<Rightarrow> nat \<Rightarrow> bool" where
  "calls_known m fi i \<longleftrightarrow> (case is_critical m fi i of Inl _ \<Rightarrow> False | Inr _ \<Rightarrow> True)"

text \<open>Blocks and instructions are where they say, and operands are in the same function.\<close>

definition well_placed :: "'b ir_module_scheme \<Rightarrow> bool" where
  "well_placed m \<longleftrightarrow>
     (\<forall>f < length (function_list m). distinct (basic_blocks (function_list m ! f)) \<and>
        (\<forall>b \<in> set (basic_blocks (function_list m ! f)). b < length (blocks m) \<and> bb_parent (blocks m ! b) = f)) \<and>
     (\<forall>b < length (blocks m). distinct (instr_list (blocks m ! b)) \<and>
        (\<forall>i \<in> set (instr_list (blocks m ! b)). i_parent (instrs m ! i) = Some b) \<and>
        bb_parent (blocks m ! b) < length (function_list m) \<and>
        b \<in> set (basic_blocks (function_list m ! bb_parent (blocks m ! b))))"

definition operands_local :: "'b ir_module_scheme \<Rightarrow> bool" where
  "operands_local m \<longleftrightarrow> (\<forall>i \<in> listed m. None \<notin> set (operands (graph m) (V_Inst i)) \<and>
     (\<forall>d. Some (V_Inst d) \<in> set (operands (graph m) (V_Inst i)) \<longrightarrow> d \<in> listed m \<and> inst_function m d = inst_function m i))"

text \<open>What a critical instruction needs, directly or through other instructions.\<close>

definition useful :: "'b ir_module_scheme \<Rightarrow> func_info \<Rightarrow> nat \<Rightarrow> bool" where
  "useful m fi i \<longleftrightarrow> (\<exists>c \<in> listed m. critical m fi c \<and> (c, i) \<in> {(c, d). Some (V_Inst d) \<in> set (operands (graph m) (V_Inst c))}\<^sup>*)"

lemma function_instrs_in:
  "i \<in> set (function_instrs m f) \<longleftrightarrow> (\<exists>b \<in> set (basic_blocks (function_list m ! f)). i \<in> set (instr_list (blocks m ! b)))"
  by (auto simp: function_instrs_def)

lemma listed_in_block:
  assumes "well_placed m" and "f < length (function_list m)" and "i \<in> set (function_instrs m f)"
  obtains b where "b < length (blocks m)" and "bb_parent (blocks m ! b) = f" and "b \<in> set (basic_blocks (function_list m ! f))"
    and "i \<in> set (instr_list (blocks m ! b))" and "i_parent (instrs m ! i) = Some b"
proof -
  from assms(3) obtain b where b: "b \<in> set (basic_blocks (function_list m ! f))" "i \<in> set (instr_list (blocks m ! b))"
    by (auto simp: function_instrs_in)
  with assms(1,2) have "b < length (blocks m)" "bb_parent (blocks m ! b) = f" by (auto simp: well_placed_def)
  moreover from this(1) b(2) assms(1) have "i_parent (instrs m ! i) = Some b" by (auto simp: well_placed_def)
  ultimately show thesis using that b by blast
qed

lemma block_listed:
  assumes "well_placed m" and "b < length (blocks m)" and "i \<in> set (instr_list (blocks m ! b))"
  shows "i \<in> listed m"
proof -
  have "bb_parent (blocks m ! b) < length (function_list m)" "b \<in> set (basic_blocks (function_list m ! bb_parent (blocks m ! b)))"
    using assms(1,2) by (simp_all add: well_placed_def)
  with assms(3) show ?thesis unfolding listed_def function_instrs_in by blast
qed

lemma listed_function:
  assumes "well_placed m" and "f < length (function_list m)" and "i \<in> set (function_instrs m f)"
  shows "inst_function m i = Inr f"
  by (rule listed_in_block [OF assms]) (simp add: inst_function_def)

lemma listed_in_function:
  assumes "well_placed m" and "i \<in> listed m" and "inst_function m i = Inr f"
  shows "f < length (function_list m)" and "i \<in> set (function_instrs m f)"
proof -
  from assms(2) obtain g where g: "g < length (function_list m)" "i \<in> set (function_instrs m g)" by (auto simp: listed_def)
  with listed_function [OF assms(1) g] assms(3) show "f < length (function_list m)" "i \<in> set (function_instrs m f)" by auto
qed

lemma finite_listed: "finite (listed m)"
proof -
  have "listed m \<subseteq> (\<Union>f \<in> {..<length (function_list m)}. set (function_instrs m f))" by (auto simp: listed_def)
  then show ?thesis by (rule finite_subset) simp
qed

lemma uses_inst_local:
  assumes "operands_local m" and "i \<in> listed m"
  shows "uses_inst m i = {d. Some (V_Inst d) \<in> set (operands (graph m) (V_Inst i))}" and "uses_inst m i \<subseteq> listed m"
  using assms by (auto simp: operands_local_def uses_inst_def)

lemma useful_listed:
  assumes "operands_local m" and "c \<in> listed m"
    and "(c, i) \<in> {(c, d). Some (V_Inst d) \<in> set (operands (graph m) (V_Inst c))}\<^sup>*"
  shows "i \<in> listed m \<and> inst_function m i = inst_function m c \<and> (c, i) \<in> {(c, d). d \<in> uses_inst m c}\<^sup>*"
  using assms(3)
proof (induction rule: rtrancl_induct)
  case (step i d)
  then have "d \<in> uses_inst m i" "d \<in> listed m" "inst_function m d = inst_function m i"
    using assms(1) by (auto simp: operands_local_def uses_inst_def)
  with step.IH show ?case by (auto intro: rtrancl_into_rtrancl)
qed (use assms(2) in simp)

lemma uses_rtrancl:
  assumes "(c, i) \<in> {(c, d). d \<in> uses_inst m c}\<^sup>*"
  shows "(c, i) \<in> {(c, d). Some (V_Inst d) \<in> set (operands (graph m) (V_Inst c))}\<^sup>*"
  using assms by (rule rtrancl_mono [THEN subsetD, rotated]) (auto simp: uses_inst_def)

lemma closure_useful:
  assumes well: "well_placed m" and loc: "operands_local m" and f: "f < length (function_list m)" and i: "i \<in> set (function_instrs m f)"
  shows "i \<in> marking_loop.closure (uses_inst m) {c \<in> set (function_instrs m f). critical m fi c} \<longleftrightarrow> useful m fi i"
proof
  assume "i \<in> marking_loop.closure (uses_inst m) {c \<in> set (function_instrs m f). critical m fi c}"
  then obtain c where "c \<in> set (function_instrs m f)" "critical m fi c" "(c, i) \<in> {(c, d). d \<in> uses_inst m c}\<^sup>*"
    by (auto simp: marking.closure_def marking.edges_def)
  with uses_rtrancl f show "useful m fi i" by (auto simp: useful_def listed_def)
next
  assume "useful m fi i"
  then obtain c where c: "c \<in> listed m" "critical m fi c"
    "(c, i) \<in> {(c, d). Some (V_Inst d) \<in> set (operands (graph m) (V_Inst c))}\<^sup>*" by (auto simp: useful_def)
  note u = useful_listed [OF loc c(1,3)]
  then have "inst_function m c = Inr f" using listed_function [OF well f i] by simp
  from listed_in_function(2) [OF well c(1) this] c(2) u
  show "i \<in> marking_loop.closure (uses_inst m) {c \<in> set (function_instrs m f). critical m fi c}"
    by (auto simp: marking.closure_def marking.edges_def)
qed

lemma mark_critical_spec:
  "\<forall>i \<in> set is. calls_known m fi i \<Longrightarrow> \<exists>dc'. mark_critical m fi is dc = Inr dc' \<and>
     work_list dc' = work_list dc @ filter (critical m fi) is \<and> marks dc' = marks dc \<union> {i \<in> set is. critical m fi i} \<and> same_count dc dc'"
proof (induction "is" arbitrary: dc)
  case (Cons i "is")
  then obtain c where c: "is_critical m fi i = Inr c" by (auto simp: calls_known_def split: sum.splits)
  then have crit: "critical m fi i = c" by (simp add: critical_def)
  from Cons.IH [of "if c then mark_inst i dc else dc"] Cons.prems obtain dc' where
    "mark_critical m fi is (if c then mark_inst i dc else dc) = Inr dc'"
    "work_list dc' = work_list (if c then mark_inst i dc else dc) @ filter (critical m fi) is"
    "marks dc' = marks (if c then mark_inst i dc else dc) \<union> {i \<in> set is. critical m fi i}"
    "same_count (if c then mark_inst i dc else dc) dc'" by auto
  moreover have "{j \<in> set (i # is). critical m fi j} = (if c then insert i {j \<in> set is. critical m fi j} else {j \<in> set is. critical m fi j})"
    using crit by auto
  ultimately show ?case by (intro exI [of _ dc']) (cases c; simp add: c crit same_count_def)
qed (simp add: same_count_def)

lemma mark_function_spec:
  assumes well: "well_placed m" and loc: "operands_local m" and known: "\<forall>i \<in> listed m. calls_known m fi i"
    and f: "f < length (function_list m)"
  shows "\<exists>dc'. mark_function m fi f dc = Some (Inr dc') \<and> ins_count dc' = ins_count dc \<and>
    (\<forall>i \<in> set (function_instrs m f). marked dc' i \<longleftrightarrow> useful m fi i)"
proof -
  let ?C = "{c \<in> set (function_instrs m f). critical m fi c}"
  let ?dc0 = "dc\<lparr>work_list := [], marked := (\<lambda>_. False)\<rparr>"
  have fl: "set (function_instrs m f) \<subseteq> listed m" using f by (auto simp: listed_def)
  obtain dc1 where run1: "mark_critical m fi (function_instrs m f) ?dc0 = Inr dc1"
    and w1: "work_list dc1 = filter (critical m fi) (function_instrs m f)" and m1: "marks dc1 = ?C" and s1: "same_count ?dc0 dc1"
    using mark_critical_spec [of "function_instrs m f" m fi ?dc0] known fl by (auto simp: marks_def)
  have closed: "marking_loop.closure (uses_inst m) ?C \<subseteq> listed m"
    by (rule marking.closure_least) (use fl uses_inst_local(2) [OF loc] in auto)
  have "\<exists>dc'. mark_loop m dc1 = Some (Inr dc') \<and> marks dc' = marking_loop.closure (uses_inst m) (marks dc1) \<and> work_list dc' = [] \<and>
      same_count dc1 dc'"
  proof (rule marking.loop_marks)
    show "finite (marking_loop.closure (uses_inst m) (marks dc1) - marks dc1)"
      using closed finite_subset [OF _ finite_listed] m1 by auto
    show "\<forall>i \<in> marking_loop.closure (uses_inst m) (set (work_list dc1)). inst_ready m i"
    proof
      fix i assume "i \<in> marking_loop.closure (uses_inst m) (set (work_list dc1))"
      then have i: "i \<in> listed m" using closed w1 by auto
      have placed: "i_parent (instrs m ! d) \<noteq> None" if "d \<in> listed m" for d
        using that by (auto simp: listed_def elim: listed_in_block [OF well])
      with i loc show "inst_ready m i" by (auto simp: inst_ready_def operands_local_def)
    qed
  qed (auto simp: m1 w1)
  then obtain dc' where "mark_loop m dc1 = Some (Inr dc')" and final: "marks dc' = marking_loop.closure (uses_inst m) ?C"
    and "same_count dc1 dc'" by (auto simp: m1)
  moreover have "marked dc' i \<longleftrightarrow> useful m fi i" if "i \<in> set (function_instrs m f)" for i
    using closure_useful [OF well loc f that, of fi] final by (auto simp: marks_def)
  ultimately show ?thesis using run1 s1 by (auto simp: mark_function_def same_count_def)
qed

section \<open>Erasing\<close>

text \<open>The module after the instructions of a set were taken out of their blocks.\<close>

definition erased :: "nat set \<Rightarrow> 'b ir_module_scheme \<Rightarrow> 'b ir_module_scheme \<Rightarrow> bool" where
  "erased S m m' \<longleftrightarrow> m' = m\<lparr>graph := graph m', blocks := blocks m'\<rparr> \<and> operands (graph m') = operands (graph m) \<and>
     length (blocks m') = length (blocks m) \<and>
     (\<forall>b < length (blocks m). blocks m' ! b = (blocks m ! b)\<lparr>instr_list := filter (\<lambda>i. i \<notin> S) (instr_list (blocks m ! b))\<rparr>)"

lemma erasedD:
  assumes "erased S m m'"
  shows "function_list m' = function_list m" "instrs m' = instrs m" "global_list m' = global_list m"
    "operands (graph m') = operands (graph m)" "length (blocks m') = length (blocks m)"
    and "b < length (blocks m) \<Longrightarrow> blocks m' ! b = (blocks m ! b)\<lparr>instr_list := filter (\<lambda>i. i \<notin> S) (instr_list (blocks m ! b))\<rparr>"
proof -
  from assms obtain g bs where "m' = m\<lparr>graph := g, blocks := bs\<rparr>" unfolding erased_def by blast
  then show "function_list m' = function_list m" "instrs m' = instrs m" "global_list m' = global_list m" by simp_all
qed (use assms in \<open>simp_all add: erased_def\<close>)

lemma erased_refl: "erased {} m m"
  by (simp add: erased_def)

lemma erased_trans:
  assumes "erased S m m'" and "erased T m' m''"
  shows "erased (S \<union> T) m m''"
proof -
  from assms obtain g bs g' bs' where "m' = m\<lparr>graph := g, blocks := bs\<rparr>" "m'' = m'\<lparr>graph := g', blocks := bs'\<rparr>"
    unfolding erased_def by blast
  then have "m'' = m\<lparr>graph := graph m'', blocks := blocks m''\<rparr>" by simp
  then show ?thesis using assms unfolding erased_def by (simp add: conj_commute)
qed

lemma remove_all_uses:
  assumes "\<forall>i \<in> set is. None \<notin> set (operands (graph m) (V_Inst i))" and "uses_agree D (graph m)"
  shows "\<exists>g'. seqS (map remove_use_of_ops_ir is) m = Inr ((), m\<lparr>graph := g'\<rparr>) \<and> operands g' = operands (graph m) \<and>
    uses_agree (D \<union> V_Inst ` set is) g'"
  using assms
proof (induction "is" arbitrary: m D)
  case Nil
  then show ?case by (intro exI [of _ "graph m"]) simp
next
  case (Cons i "is")
  obtain g1 where g1: "remove_use_of_ops (V_Inst i) (graph m) = Inr g1"
    using Cons.prems(1) remove_uses_total unfolding remove_use_of_ops_def by (metis list.set_intros(1))
  then have ops: "operands g1 = operands (graph m)" using remove_uses_result by (fastforce simp: remove_use_of_ops_def)
  have step: "remove_use_of_ops_ir i m = Inr ((), m\<lparr>graph := g1\<rparr>)" by (simp add: remove_use_of_ops_ir_def bindS_def g1 liftR_def)
  have "uses_agree (insert (V_Inst i) D) (graph (m\<lparr>graph := g1\<rparr>))" using remove_use_of_ops_agree [OF Cons.prems(2) g1] by simp
  moreover have "\<forall>j \<in> set is. None \<notin> set (operands (graph (m\<lparr>graph := g1\<rparr>)) (V_Inst j))" using Cons.prems(1) ops by simp
  ultimately obtain g' where "seqS (map remove_use_of_ops_ir is) (m\<lparr>graph := g1\<rparr>) = Inr ((), m\<lparr>graph := g'\<rparr>)"
    "operands g' = operands g1" "uses_agree (insert (V_Inst i) D \<union> V_Inst ` set is) g'" using Cons.IH by fastforce
  with step ops show ?case by (intro exI [of _ g']) (simp add: thenS_def bindS_def)
qed

lemma erase_all:
  assumes "\<forall>b < length (blocks m). distinct (instr_list (blocks m ! b)) \<and> (\<forall>i \<in> set (instr_list (blocks m ! b)). i_parent (instrs m ! i) = Some b)"
    and "\<forall>i \<in> set is. \<exists>b < length (blocks m). i_parent (instrs m ! i) = Some b"
  shows "\<exists>bs. seqS (map erase_instruction is) m = Inr ((), m\<lparr>blocks := bs\<rparr>) \<and> length bs = length (blocks m) \<and>
    (\<forall>b < length (blocks m). bs ! b = (blocks m ! b)\<lparr>instr_list := filter (\<lambda>i. i \<notin> set is) (instr_list (blocks m ! b))\<rparr>)"
  using assms
proof (induction "is" arbitrary: m)
  case Nil
  then show ?case by (intro exI [of _ "blocks m"]) simp
next
  case (Cons i "is")
  then obtain b where b: "b < length (blocks m)" "i_parent (instrs m ! i) = Some b" by auto
  let ?bs = "(blocks m)[b := (blocks m ! b)\<lparr>instr_list := remove1 i (instr_list (blocks m ! b))\<rparr>]"
  let ?m1 = "m\<lparr>blocks := ?bs\<rparr>"
  have step: "erase_instruction i m = Inr ((), ?m1)"
    by (simp add: erase_instruction_def bindS_def derefS_def b(2) upd_block_def)
  have one: "?bs ! c = (blocks m ! c)\<lparr>instr_list := filter (\<lambda>j. j \<noteq> i) (instr_list (blocks m ! c))\<rparr>" if c: "c < length (blocks m)" for c
  proof (cases "c = b")
    case True
    have "distinct (instr_list (blocks m ! b))" using Cons.prems(1) b(1) by blast
    then have "remove1 i (instr_list (blocks m ! b)) = filter (\<lambda>j. j \<noteq> i) (instr_list (blocks m ! b))"
      by (simp add: distinct_remove1_removeAll removeAll_filter_not_eq) (metis (mono_tags))
    with True b(1) show ?thesis by simp
  next
    case False
    have "i \<notin> set (instr_list (blocks m ! c))" using Cons.prems(1) c b(2) False by auto
    then have "filter (\<lambda>j. j \<noteq> i) (instr_list (blocks m ! c)) = instr_list (blocks m ! c)" by (auto simp: filter_id_conv)
    with False show ?thesis by simp
  qed
  have "\<exists>bs. seqS (map erase_instruction is) ?m1 = Inr ((), ?m1\<lparr>blocks := bs\<rparr>) \<and> length bs = length (blocks ?m1) \<and>
    (\<forall>b < length (blocks ?m1). bs ! b = (blocks ?m1 ! b)\<lparr>instr_list := filter (\<lambda>i. i \<notin> set is) (instr_list (blocks ?m1 ! b))\<rparr>)"
  proof (rule Cons.IH)
    show "\<forall>b < length (blocks ?m1). distinct (instr_list (blocks ?m1 ! b)) \<and>
        (\<forall>i \<in> set (instr_list (blocks ?m1 ! b)). i_parent (instrs ?m1 ! i) = Some b)"
      using Cons.prems(1) one by simp
    show "\<forall>i \<in> set is. \<exists>b < length (blocks ?m1). i_parent (instrs ?m1 ! i) = Some b" using Cons.prems(2) by simp
  qed
  then obtain bs where bs: "seqS (map erase_instruction is) ?m1 = Inr ((), m\<lparr>blocks := bs\<rparr>)" "length bs = length (blocks m)"
    "\<forall>c < length (blocks m). bs ! c = (?bs ! c)\<lparr>instr_list := filter (\<lambda>i. i \<notin> set is) (instr_list (?bs ! c))\<rparr>" by auto
  have "bs ! c = (blocks m ! c)\<lparr>instr_list := filter (\<lambda>j. j \<notin> set (i # is)) (instr_list (blocks m ! c))\<rparr>"
    if c: "c < length (blocks m)" for c
    using bs(3) [rule_format, OF c] unfolding one [OF c] by (simp add: conj_commute)
  with bs step show ?case by (intro exI [of _ bs]) (simp add: thenS_def bindS_def)
qed

section \<open>The rounds\<close>

lemma erased_same:
  assumes "erased S m m'" and well: "well_placed m"
  shows "is_critical m' fi i = is_critical m fi i" and "well_placed m'"
    and "f < length (function_list m) \<Longrightarrow> function_instrs m' f = filter (\<lambda>i. i \<notin> S) (function_instrs m f)"
    and "listed m' = listed m - S"
    and "i \<in> listed m \<Longrightarrow> inst_function m' i = inst_function m i"
proof -
  note e = erasedD [OF assms(1)]
  show "well_placed m'" using well unfolding well_placed_def e(1,2,5) by (simp add: e(6))
  show "is_critical m' fi i = is_critical m fi i" by (simp add: is_critical_def e)
  have instrs: "function_instrs m' f = filter (\<lambda>i. i \<notin> S) (function_instrs m f)" if f: "f < length (function_list m)" for f
  proof -
    have "\<forall>b \<in> set (basic_blocks (function_list m ! f)). b < length (blocks m)" using well f by (simp add: well_placed_def)
    then have "map (\<lambda>b. instr_list (blocks m' ! b)) (basic_blocks (function_list m ! f)) =
        map (filter (\<lambda>i. i \<notin> S)) (map (\<lambda>b. instr_list (blocks m ! b)) (basic_blocks (function_list m ! f)))" using e(6) by simp
    then show ?thesis unfolding function_instrs_def e(1) filter_concat by (rule arg_cong)
  qed
  then show "f < length (function_list m) \<Longrightarrow> function_instrs m' f = filter (\<lambda>i. i \<notin> S) (function_instrs m f)" .
  show "listed m' = listed m - S" using instrs by (auto simp: listed_def e(1))
  assume "i \<in> listed m"
  then obtain f where f: "f < length (function_list m)" "i \<in> set (function_instrs m f)" by (auto simp: listed_def)
  obtain b where "b < length (blocks m)" "i_parent (instrs m ! i) = Some b" by (rule listed_in_block [OF well f])
  then show "inst_function m' i = inst_function m i" by (simp add: inst_function_def e(2,6))
qed

lemma useful_step:
  "useful m fi i \<Longrightarrow> Some (V_Inst d) \<in> set (operands (graph m) (V_Inst i)) \<Longrightarrow> useful m fi d"
  unfolding useful_def by (fastforce intro: rtrancl_into_rtrancl)

lemma useful_critical: "i \<in> listed m \<Longrightarrow> critical m fi i \<Longrightarrow> useful m fi i"
  unfolding useful_def by blast

lemma useful_erased:
  assumes e: "erased S m m'" and well: "well_placed m" and S: "\<forall>i \<in> S. \<not> useful m fi i"
  shows "useful m' fi = useful m fi"
proof -
  have "c \<in> listed m' \<and> critical m' fi c \<longleftrightarrow> c \<in> listed m \<and> critical m fi c" for c
    using erased_same(1,4) [OF e well] useful_critical [of c m fi] S by (auto simp: critical_def)
  then show ?thesis by (auto simp: useful_def erasedD [OF e] fun_eq_iff)
qed

definition dead :: "'b ir_module_scheme \<Rightarrow> func_info \<Rightarrow> nat set \<Rightarrow> nat set" where
  "dead m fi F = {i. \<exists>f \<in> F. f < length (function_list m) \<and> i \<in> set (function_instrs m f) \<and> \<not> useful m fi i}"

lemma operands_local_erased:
  assumes e: "erased (dead m fi F) m m'" and well: "well_placed m" and loc: "operands_local m"
  shows "operands_local m'"
  unfolding operands_local_def
proof (intro ballI conjI allI impI)
  fix i assume "i \<in> listed m'"
  then have i: "i \<in> listed m" "i \<notin> dead m fi F" by (simp_all add: erased_same(4) [OF e well])
  show "None \<notin> set (operands (graph m') (V_Inst i))" using loc i(1) by (simp add: operands_local_def erasedD(4) [OF e])
  fix d assume "Some (V_Inst d) \<in> set (operands (graph m') (V_Inst i))"
  then have use: "Some (V_Inst d) \<in> set (operands (graph m) (V_Inst i))" by (simp add: erasedD(4) [OF e])
  with loc i(1) have d: "d \<in> listed m" "inst_function m d = inst_function m i" by (auto simp: operands_local_def)
  show "inst_function m' d = inst_function m' i" using d i(1) by (simp add: erased_same(5) [OF e well])
  have "d \<notin> dead m fi F"
  proof
    assume "d \<in> dead m fi F"
    then obtain f where f: "f \<in> F" "f < length (function_list m)" "d \<in> set (function_instrs m f)" "\<not> useful m fi d"
      by (auto simp: dead_def)
    then have "inst_function m i = Inr f" using listed_function [OF well] d(2) by simp
    with listed_in_function(2) [OF well i(1) this] i(2) f(1,2) have "useful m fi i" by (auto simp: dead_def)
    with useful_step use f(4) show False by blast
  qed
  with d(1) show "d \<in> listed m'" by (simp add: erased_same(4) [OF e well])
qed

definition round_ok :: "irval set \<Rightarrow> 'b ir_module_scheme \<Rightarrow> func_info \<Rightarrow> nat set \<Rightarrow> dead_code \<Rightarrow> 'b ir_module_scheme \<Rightarrow> bool" where
  "round_ok D m fi F dc m' \<longleftrightarrow> erased (dead m fi F) m m' \<and> uses_agree (D \<union> V_Inst ` dead m fi F) (graph m') \<and>
     ins_count dc = card (dead m fi F)"

lemma finite_dead: "finite (dead m fi F)"
  by (rule finite_subset [OF _ finite_listed [of m]]) (auto simp: dead_def listed_def)

lemma distinct_function_instrs:
  assumes "well_placed m" and "f < length (function_list m)"
  shows "distinct (function_instrs m f)"
proof -
  let ?bbs = "basic_blocks (function_list m ! f)"
  have bbs: "distinct ?bbs" "\<forall>b \<in> set ?bbs. b < length (blocks m)" using assms by (auto simp: well_placed_def)
  have "distinct (concat (map (\<lambda>b. instr_list (blocks m ! b)) bs))" if "distinct bs" "set bs \<subseteq> {..<length (blocks m)}" for bs
    using that
  proof (induction bs)
    case (Cons b bs)
    have parent: "i_parent (instrs m ! i) = Some c" if "i \<in> set (instr_list (blocks m ! c))" "c < length (blocks m)" for i c
      using that assms(1) by (simp add: well_placed_def)
    have "set (instr_list (blocks m ! b)) \<inter> set (instr_list (blocks m ! c)) = {}" if c: "c \<in> set bs" for c
    proof -
      have "c < length (blocks m)" "b < length (blocks m)" "c \<noteq> b" using Cons.prems c by auto
      with parent [of _ c] parent [of _ b] show ?thesis by fastforce
    qed
    with Cons assms(1) show ?case by (auto simp: well_placed_def)
  qed simp
  from this [OF bbs(1)] bbs(2) show ?thesis by (auto simp: function_instrs_def)
qed

lemma sweep_spec:
  assumes well: "well_placed m" and loc: "operands_local m" and known: "\<forall>i \<in> listed m. calls_known m fi i"
    and ok: "round_ok D m fi F dc m'" and f: "f < length (function_list m)"
  shows "\<exists>dc' m''. dead_code_function fi f (ch, dc, m') = Some (Inr (ch \<or> dead m fi (insert f F) \<noteq> dead m fi F, dc', m'')) \<and>
    round_ok D m fi (insert f F) dc' m''"
proof -
  let ?S = "dead m fi F"
  have e: "erased ?S m m'" and agree: "uses_agree (D \<union> V_Inst ` ?S) (graph m')" and count: "ins_count dc = card ?S"
    using ok by (simp_all add: round_ok_def)
  note same = erased_same [OF e well] and ed = erasedD [OF e]
  have useful: "useful m' fi = useful m fi" by (rule useful_erased [OF e well]) (auto simp: dead_def)
  have loc': "operands_local m'" by (rule operands_local_erased [OF e well loc])
  have known': "\<forall>i \<in> listed m'. calls_known m' fi i" using known same(1,4) by (simp add: calls_known_def)
  have f': "f < length (function_list m')" using f ed(1) by simp
  obtain dc1 where mark: "mark_function m' fi f dc = Some (Inr dc1)" and c1: "ins_count dc1 = ins_count dc"
    and marked: "\<forall>i \<in> set (function_instrs m' f). marked dc1 i \<longleftrightarrow> useful m fi i"
    using mark_function_spec [OF same(2) loc' known' f', of dc] useful by auto
  define W where "W = filter (\<lambda>i. \<not> marked dc1 i) (function_instrs m' f)"
  have W: "W = filter (\<lambda>i. i \<notin> ?S \<and> \<not> useful m fi i) (function_instrs m f)"
    unfolding W_def using marked by (auto simp: same(3) [OF f] intro: filter_cong)
  have split: "dead m fi (insert f F) = ?S \<union> set W" "?S \<inter> set W = {}" using f by (auto simp: W dead_def)
  have distW: "distinct W" using distinct_function_instrs [OF well f] by (simp add: W)
  have listedW: "i \<in> listed m'" if "i \<in> set W" for i using that f' by (auto simp: W_def listed_def)
  have "\<forall>i \<in> set W. None \<notin> set (operands (graph m') (V_Inst i))" using listedW loc' by (auto simp: operands_local_def)
  from remove_all_uses [OF this agree] obtain g' where g': "seqS (map remove_use_of_ops_ir W) m' = Inr ((), m'\<lparr>graph := g'\<rparr>)"
    "operands g' = operands (graph m')" "uses_agree (D \<union> V_Inst ` ?S \<union> V_Inst ` set W) g'" by blast
  let ?m1 = "m'\<lparr>graph := g'\<rparr>"
  have placed: "\<forall>b < length (blocks ?m1). distinct (instr_list (blocks ?m1 ! b)) \<and>
      (\<forall>i \<in> set (instr_list (blocks ?m1 ! b)). i_parent (instrs ?m1 ! i) = Some b)"
    using same(2) by (simp add: well_placed_def)
  have parents: "\<forall>i \<in> set W. \<exists>b < length (blocks ?m1). i_parent (instrs ?m1 ! i) = Some b"
  proof
    fix i assume "i \<in> set W"
    then have "i \<in> set (function_instrs m' f)" by (simp add: W_def)
    then show "\<exists>b < length (blocks ?m1). i_parent (instrs ?m1 ! i) = Some b"
      using f' by (auto elim: listed_in_block [OF same(2)])
  qed
  from erase_all [OF placed parents] obtain bs where bs: "seqS (map erase_instruction W) ?m1 = Inr ((), ?m1\<lparr>blocks := bs\<rparr>)"
    "length bs = length (blocks m')"
    "\<forall>b < length (blocks m'). bs ! b = (blocks m' ! b)\<lparr>instr_list := filter (\<lambda>i. i \<notin> set W) (instr_list (blocks m' ! b))\<rparr>"
    by auto
  let ?m2 = "?m1\<lparr>blocks := bs\<rparr>" and ?dc2 = "dc1\<lparr>ins_count := ins_count dc1 + length W\<rparr>"
  have "sweep f dc1 m' = Inr ((W \<noteq> [], ?dc2), ?m2)" using g'(1) bs(1) by (simp add: sweep_def W_def [symmetric] bindS_def thenS_def)
  moreover have "W \<noteq> [] \<longleftrightarrow> dead m fi (insert f F) \<noteq> ?S"
  proof
    assume "W \<noteq> []"
    then obtain i where "i \<in> set W" by (cases W) auto
    with split show "dead m fi (insert f F) \<noteq> ?S" by blast
  qed (use split in auto)
  ultimately have run: "dead_code_function fi f (ch, dc, m') = Some (Inr (ch \<or> dead m fi (insert f F) \<noteq> ?S, ?dc2, ?m2))"
    by (simp add: dead_code_function_def mark returnP_def)
  have "erased (set W) m' ?m2" using bs g'(2) by (simp add: erased_def)
  from erased_trans [OF e this] have "erased (dead m fi (insert f F)) m ?m2" by (simp add: split(1))
  moreover have "uses_agree (D \<union> V_Inst ` dead m fi (insert f F)) (graph ?m2)" using g'(3) by (simp add: split(1) image_Un Un_assoc)
  moreover have "ins_count ?dc2 = card (dead m fi (insert f F))"
    using c1 count split distinct_card [OF distW] by (simp add: card_Un_disjoint finite_dead)
  ultimately have "round_ok D m fi (insert f F) ?dc2 ?m2" by (simp add: round_ok_def)
  with run show ?thesis by blast
qed

lemma round_spec:
  assumes well: "well_placed m" and loc: "operands_local m" and known: "\<forall>i \<in> listed m. calls_known m fi i"
  shows "round_ok D m fi F dc m' \<Longrightarrow> set fs \<subseteq> {..<length (function_list m)} \<Longrightarrow>
    \<exists>dc' m''. foldP (dead_code_function fi) fs (ch, dc, m') = Some (Inr (ch \<or> dead m fi (F \<union> set fs) \<noteq> dead m fi F, dc', m'')) \<and>
      round_ok D m fi (F \<union> set fs) dc' m''"
proof (induction fs arbitrary: F ch dc m')
  case Nil
  then show ?case by (simp add: returnP_def)
next
  case (Cons f fs)
  then have f: "f < length (function_list m)" and fs: "set fs \<subseteq> {..<length (function_list m)}" by auto
  from sweep_spec [OF well loc known Cons.prems(1) f, of ch] obtain dc1 m1 where
    s1: "dead_code_function fi f (ch, dc, m') = Some (Inr (ch \<or> dead m fi (insert f F) \<noteq> dead m fi F, dc1, m1))"
    and ok1: "round_ok D m fi (insert f F) dc1 m1" by blast
  from Cons.IH [OF ok1 fs] obtain dc2 m2 where
    s2: "foldP (dead_code_function fi) fs (ch \<or> dead m fi (insert f F) \<noteq> dead m fi F, dc1, m1) =
      Some (Inr ((ch \<or> dead m fi (insert f F) \<noteq> dead m fi F) \<or> dead m fi (insert f F \<union> set fs) \<noteq> dead m fi (insert f F), dc2, m2))"
    and ok2: "round_ok D m fi (insert f F \<union> set fs) dc2 m2" by blast
  have mono: "dead m fi F \<subseteq> dead m fi (insert f F)" "dead m fi (insert f F) \<subseteq> dead m fi (insert f F \<union> set fs)"
    by (auto simp: dead_def)
  then have "(ch \<or> dead m fi (insert f F) \<noteq> dead m fi F) \<or> dead m fi (insert f F \<union> set fs) \<noteq> dead m fi (insert f F) \<longleftrightarrow>
      ch \<or> dead m fi (insert f F \<union> set fs) \<noteq> dead m fi F" by blast
  with s1 s2 ok2 show ?case by simp
qed

lemma dead_all: "dead m fi {..<length (function_list m)} = {i \<in> listed m. \<not> useful m fi i}"
  by (auto simp: dead_def listed_def)

lemma dead_code_loop_spec:
  assumes well: "well_placed m" and loc: "operands_local m" and known: "\<forall>i \<in> listed m. calls_known m fi i"
    and agree: "uses_agree D (graph m)"
  shows "\<exists>dc m'. dead_code_loop fi (new_dead_code, m) = Some (Inr (dc, m')) \<and> round_ok D m fi {..<length (function_list m)} dc m'"
proof -
  let ?n = "length (function_list m)"
  have "dead m fi {} = {}" by (simp add: dead_def)
  then have start: "round_ok D m fi {} new_dead_code m" using agree by (simp add: round_ok_def erased_refl new_dead_code_def)
  have fs: "set [0..<?n] \<subseteq> {..<?n}" by auto
  have F: "{} \<union> set [0..<?n] = {..<?n}" "{..<?n} \<union> set [0..<?n] = {..<?n}" by auto
  from round_spec [OF well loc known start fs, of False, unfolded F] obtain dc1 m1 where
    r1: "foldP (dead_code_function fi) [0..<?n] (False, new_dead_code, m) = Some (Inr (dead m fi {..<?n} \<noteq> dead m fi {}, dc1, m1))"
    and ok1: "round_ok D m fi {..<?n} dc1 m1" by auto
  from round_spec [OF well loc known ok1 fs, of False, unfolded F] obtain dc2 m2 where
    r2: "foldP (dead_code_function fi) [0..<?n] (False, dc1, m1) = Some (Inr (False, dc2, m2))"
    and ok2: "round_ok D m fi {..<?n} dc2 m2" by auto
  have n1: "length (function_list m1) = ?n" using ok1 erasedD(1) by (fastforce simp: round_ok_def)
  have second: "dead_code_loop fi (dc1, m1) = Some (Inr (dc2, m2))"
    by (subst dead_code_loop.simps) (simp add: n1 r2 returnP_def)
  show ?thesis
  proof (cases "dead m fi {..<?n} = dead m fi {}")
    case True
    then have "dead_code_loop fi (new_dead_code, m) = Some (Inr (dc1, m1))"
      using r1 by (subst dead_code_loop.simps) (simp add: returnP_def)
    with ok1 show ?thesis by blast
  next
    case False
    then have "dead_code_loop fi (new_dead_code, m) = dead_code_loop fi (dc1, m1)"
      using r1 by (subst dead_code_loop.simps) simp
    with second ok2 show ?thesis by auto
  qed
qed

section \<open>Modules that are fit for the pass\<close>

lemma ir_ok_well_placed:
  assumes "ir_ok m"
  shows "well_placed m"
proof -
  have "\<And>b. b < nb m \<Longrightarrow> bb_parent (blocks m ! b) < nf m"
    and "\<And>f. f < nf m \<Longrightarrow> basic_blocks (function_list m ! f) = filter (\<lambda>b. bb_parent (blocks m ! b) = f) [0..<nb m]"
    and "\<And>b. b < nb m \<Longrightarrow> instr_list (blocks m ! b) = filter (\<lambda>i. i_parent (instrs m ! i) = Some b) [0..<ni m]"
    using assms by (simp_all add: ir_ok_def instrs_placed_def blocks_placed_def)
  then show ?thesis by (simp add: well_placed_def)
qed

definition all_instrs :: "'b ir_module_scheme \<Rightarrow> nat list" where
  "all_instrs m = concat (map (function_instrs m) [0..<length (function_list m)])"

lemma listed_all_instrs: "listed m = set (all_instrs m)"
  by (auto simp: listed_def all_instrs_def)

definition local_operand :: "'b ir_module_scheme \<Rightarrow> nat \<Rightarrow> irval option \<Rightarrow> bool" where
  "local_operand m i op = (case op of None \<Rightarrow> False
     | Some (V_Inst d) \<Rightarrow> d \<in> set (all_instrs m) \<and> inst_function m d = inst_function m i
     | Some _ \<Rightarrow> True)"

lemma operands_localI:
  assumes "list_all (\<lambda>i. list_all (local_operand m i) (operands (graph m) (V_Inst i))) (all_instrs m)"
  shows "operands_local m"
  unfolding operands_local_def listed_all_instrs
proof (intro ballI conjI allI impI notI)
  fix i assume i: "i \<in> set (all_instrs m)"
  have ok: "local_operand m i op" if "op \<in> set (operands (graph m) (V_Inst i))" for op
    using assms i that by (simp add: list_all_iff)
  show False if "None \<in> set (operands (graph m) (V_Inst i))" using ok [OF that] by (simp add: local_operand_def)
  show "d \<in> set (all_instrs m)" "inst_function m d = inst_function m i"
    if "Some (V_Inst d) \<in> set (operands (graph m) (V_Inst i))" for d
    using ok [OF that] by (simp_all add: local_operand_def)
qed

section \<open>A function with a useless statement\<close>

text \<open>\<open>int f (int n) { n + 1; return n; }\<close>\<close>

definition variable_n :: ASTAdditiveExpression where
  "variable_n = AdditiveExpression None OP_PLUS (Term None OP_MUL (F_Var (Var ''n'' None)))"

definition useless_program :: ASTProgram where
  "useless_program = \<lparr>declarations = [D_Fun \<lparr>fd_type = TYPE_INT, fd_id = ''f'',
     fd_params = [\<lparr>p_type = TYPE_INT, p_id = ''n'', p_isarray = False\<rparr>], fd_compound_stmt = CompoundStmt []
       [ExpressionStmt (Some (SimpleExpression (AdditiveExpression (Some variable_n) OP_PLUS
          (Term None OP_MUL (F_Num \<lparr>num_type = TYPE_INT, num_val = 1\<rparr>))) None OP_LE)),
        ReturnStmt (Some (SimpleExpression variable_n None OP_LE))]\<rparr>]\<rparr>"

lemma useless_module:
  obtains s fi where "codegen useless_program = Inr s" and "func_info_run s new_func_info = Some (Inr fi)"
    and "operands_local s" and "\<forall>i \<in> listed s. calls_known s fi i" and "well_placed s" and "uses_agree {} (graph s)"
    and "map instr_list (blocks s) = [[0, 1, 2, 3, 4, 5]]"
    and "case dead_code_run s of Some (Inr (dc, m)) \<Rightarrow> map instr_list (blocks m) = [[0, 1, 4, 5]] | _ \<Rightarrow> False"
proof -
  have "case codegen useless_program of Inl _ \<Rightarrow> False | Inr s \<Rightarrow>
    list_all (\<lambda>i. list_all (local_operand s i) (operands (graph s) (V_Inst i))) (all_instrs s) \<and>
    map instr_list (blocks s) = [[0, 1, 2, 3, 4, 5]] \<and>
    (case func_info_run s new_func_info of Some (Inr fi) \<Rightarrow> list_all (calls_known s fi) (all_instrs s) | _ \<Rightarrow> False) \<and>
    (case dead_code_run s of Some (Inr (dc, m)) \<Rightarrow> map instr_list (blocks m) = [[0, 1, 4, 5]] | _ \<Rightarrow> False)" by code_simp
  from case_InrD [OF this] obtain s where s: "codegen useless_program = Inr s"
    and loc: "list_all (\<lambda>i. list_all (local_operand s i) (operands (graph s) (V_Inst i))) (all_instrs s)"
    and before: "map instr_list (blocks s) = [[0, 1, 2, 3, 4, 5]]"
    and fi: "case func_info_run s new_func_info of Some (Inr fi) \<Rightarrow> list_all (calls_known s fi) (all_instrs s) | _ \<Rightarrow> False"
    and after: "case dead_code_run s of Some (Inr (dc, m)) \<Rightarrow> map instr_list (blocks m) = [[0, 1, 4, 5]] | _ \<Rightarrow> False"
    by (elim exE conjE) (rule that)
  obtain fi where run: "func_info_run s new_func_info = Some (Inr fi)" and "list_all (calls_known s fi) (all_instrs s)"
    using fi by (cases "func_info_run s new_func_info"; cases "the (func_info_run s new_func_info)") simp_all
  then have known: "\<forall>i \<in> listed s. calls_known s fi i" by (simp add: listed_all_instrs list_all_iff)
  have ok: "ir_ok s" by (rule codegen_ir_ok [OF s])
  then have "uses_agree {} (graph s)" by (simp add: ir_ok_def users_agree_def)
  from that [OF s run operands_localI [OF loc] known ir_ok_well_placed [OF ok] this before after] show thesis .
qed

section \<open>The result\<close>

lemma dead_code_run_spec:
  assumes "func_info_run m new_func_info = Some (Inr fi)" and "well_placed m" and "operands_local m"
    and "\<forall>i \<in> listed m. calls_known m fi i" and "uses_agree {} (graph m)"
  shows "\<exists>dc m'. dead_code_run m = Some (Inr (dc, m')) \<and> function_list m' = function_list m \<and> instrs m' = instrs m \<and>
    operands (graph m') = operands (graph m) \<and> length (blocks m') = length (blocks m) \<and>
    (\<forall>b < length (blocks m). blocks m' ! b = (blocks m ! b)\<lparr>instr_list := filter (useful m fi) (instr_list (blocks m ! b))\<rparr>) \<and>
    uses_agree (V_Inst ` {i \<in> listed m. \<not> useful m fi i}) (graph m') \<and> ins_count dc = card {i \<in> listed m. \<not> useful m fi i}"
proof -
  obtain dc m' where run: "dead_code_loop fi (new_dead_code, m) = Some (Inr (dc, m'))"
    and ok: "round_ok {} m fi {..<length (function_list m)} dc m'"
    using dead_code_loop_spec [OF assms(2-5)] by blast
  then have e: "erased {i \<in> listed m. \<not> useful m fi i} m m'" by (simp add: round_ok_def dead_all)
  have "filter (\<lambda>i. i \<notin> {i \<in> listed m. \<not> useful m fi i}) (instr_list (blocks m ! b)) = filter (useful m fi) (instr_list (blocks m ! b))"
    if b: "b < length (blocks m)" for b
  proof (rule filter_cong [OF refl])
    fix i assume "i \<in> set (instr_list (blocks m ! b))"
    then have "i \<in> listed m" by (rule block_listed [OF assms(2) b])
    then show "i \<notin> {i \<in> listed m. \<not> useful m fi i} \<longleftrightarrow> useful m fi i" by simp
  qed
  with run assms(1) ok erasedD [OF e] show ?thesis
    by (intro exI [of _ dc] exI [of _ m']) (simp add: dead_code_run_def round_ok_def dead_all)
qed

text \<open>
  What an effect needs, said without the code's tests: an instruction has an effect when it
  ends a block, stores, or calls a function that is impure or reaches an impure one.
\<close>

definition calls_named :: "'b ir_module_scheme \<Rightarrow> bool" where
  "calls_named m \<longleftrightarrow> (\<forall>i \<in> listed m. i_op (instrs m ! i) = I_call \<longrightarrow>
     (\<exists>f ops. operands (graph m) (V_Inst i) = Some (V_Fun f) # ops \<and> f < length (function_list m)))"

definition has_effect :: "'b ir_module_scheme \<Rightarrow> nat \<Rightarrow> bool" where
  "has_effect m i \<longleftrightarrow> i_op (instrs m ! i) \<in> {I_br, I_ret, I_store} \<or>
     (i_op (instrs m ! i) = I_call \<and> (\<exists>f ops. operands (graph m) (V_Inst i) = Some (V_Fun f) # ops \<and> impure m f))"

definition needed :: "'b ir_module_scheme \<Rightarrow> nat \<Rightarrow> bool" where
  "needed m i \<longleftrightarrow> (\<exists>c \<in> listed m. has_effect m c \<and>
     (c, i) \<in> {(c, d). Some (V_Inst d) \<in> set (operands (graph m) (V_Inst c))}\<^sup>*)"

lemma critical_has_effect:
  assumes pure: "\<forall>f < length (function_list m). is_pure fi f = Some (\<not> impure m f)" and "calls_named m" and i: "i \<in> listed m"
  shows "calls_known m fi i" and "critical m fi i = has_effect m i"
proof -
  have "is_critical m fi i = Inr (has_effect m i)"
  proof (cases "i_op (instrs m ! i) = I_call")
    case True
    with assms(2) i obtain f ops where f: "operands (graph m) (V_Inst i) = Some (V_Fun f) # ops" "f < length (function_list m)"
      unfolding calls_named_def by blast
    with pure True show ?thesis by (simp add: is_critical_def nth_checked_def is_pure_function_def has_effect_def)
  next
    case False
    then show ?thesis by (auto simp: is_critical_def has_effect_def)
  qed
  then show "calls_known m fi i" and "critical m fi i = has_effect m i" by (simp_all add: calls_known_def critical_def)
qed

text \<open>C11: on a module whose blocks and instructions are where they say, whose operands are in the
  function of their user, whose calls name functions, whose loads and stores have addresses that come
  from somewhere and whose use lists are exact, dead code elimination ends; every block keeps, in their
  order, exactly the instructions that an effect needs: the terminators, the stores, the calls of
  functions that are impure or reach an impure one through uses, and what these use, directly or
  through others. Nothing else changes, the count is the number of the erased instructions, and the
  use lists hold exactly the uses by the other users.\<close>

theorem dead_code_run_correct:
  assumes "well_placed m" and "operands_local m" and "calls_named m" and "addresses_found m" and "function_uses_known m"
    and "uses_agree {} (graph m)"
  shows "\<exists>dc m'. dead_code_run m = Some (Inr (dc, m')) \<and> function_list m' = function_list m \<and> instrs m' = instrs m \<and>
    operands (graph m') = operands (graph m) \<and> length (blocks m') = length (blocks m) \<and>
    (\<forall>b < length (blocks m). blocks m' ! b = (blocks m ! b)\<lparr>instr_list := filter (needed m) (instr_list (blocks m ! b))\<rparr>) \<and>
    uses_agree (V_Inst ` {i \<in> listed m. \<not> needed m i}) (graph m') \<and> ins_count dc = card {i \<in> listed m. \<not> needed m i}"
proof -
  from func_info_run_spec [OF assms(4,5)] obtain fi where run: "func_info_run m new_func_info = Some (Inr fi)"
    and pure: "\<forall>f < length (function_list m). is_pure fi f = Some (\<not> impure m f)" by blast
  note effect = critical_has_effect [OF pure assms(3)]
  have same: "useful m fi = needed m" using effect(2) by (auto simp: useful_def needed_def fun_eq_iff)
  from dead_code_run_spec [OF run assms(1,2) _ assms(6)] effect(1) show ?thesis unfolding same by blast
qed

lemma codegen_calls_named:
  assumes "codegen prog = Inr s"
  shows "calls_named s"
  unfolding calls_named_def
proof (intro ballI impI)
  fix i assume i: "i \<in> listed s" and op: "i_op (instrs s ! i) = I_call"
  have "i < ni s" using codegen_printable [OF assms] i by (auto simp: printable_def listed_def function_instrs_def)
  then have "shaped_instr s i" using codegen_code_ok [OF assms] by (simp add: code_ok_def)
  with op show "\<exists>f ops. operands (graph s) (V_Inst i) = Some (V_Fun f) # ops \<and> f < length (function_list s)"
    by (auto simp: shaped_instr_def made_before_def)
qed

lemma dead_code_run_correct_witness:
  "\<exists>s dc m'. codegen useless_program = Inr s \<and> map instr_list (blocks s) = [[0, 1, 2, 3, 4, 5]] \<and>
     dead_code_run s = Some (Inr (dc, m')) \<and> map instr_list (blocks m') = [[0, 1, 4, 5]] \<and>
     uses_agree (V_Inst ` {i \<in> listed s. \<not> needed s i}) (graph m')"
proof -
  obtain s fi where s: "codegen useless_program = Inr s" "func_info_run s new_func_info = Some (Inr fi)" "operands_local s"
    "\<forall>i \<in> listed s. calls_known s fi i" "well_placed s" "uses_agree {} (graph s)" "map instr_list (blocks s) = [[0, 1, 2, 3, 4, 5]]"
    and out: "case dead_code_run s of Some (Inr (dc, m)) \<Rightarrow> map instr_list (blocks m) = [[0, 1, 4, 5]] | _ \<Rightarrow> False"
    by (rule useless_module)
  from dead_code_run_correct [OF s(5,3) codegen_calls_named [OF s(1)] codegen_addresses_found [OF s(1)]
      codegen_function_uses_known [OF s(1)] s(6)]
  obtain dc m' where "dead_code_run s = Some (Inr (dc, m'))" "uses_agree (V_Inst ` {i \<in> listed s. \<not> needed s i}) (graph m')" by blast
  with s(1,7) out show ?thesis by (intro exI [of _ s] exI [of _ dc] exI [of _ m']) simp
qed

text \<open>C12: after dead code elimination every instruction that is an operand of a remaining one
  remains, every critical instruction remains, and no use list names an erased instruction.\<close>

theorem dead_code_no_dangling:
  assumes "func_info_run m new_func_info = Some (Inr fi)" and "well_placed m" and "operands_local m"
    and "\<forall>i \<in> listed m. calls_known m fi i" and "uses_agree {} (graph m)" and "dead_code_run m = Some (Inr (dc, m'))"
  shows "(\<forall>i \<in> listed m'. \<forall>d. Some (V_Inst d) \<in> set (operands (graph m') (V_Inst i)) \<longrightarrow> d \<in> listed m') \<and>
    (\<forall>i \<in> listed m. critical m fi i \<longrightarrow> i \<in> listed m') \<and>
    (\<forall>v u k. (u, k) \<in> set (use_list (graph m') v) \<longrightarrow> u \<notin> V_Inst ` (listed m - listed m'))"
proof -
  have "dead_code_loop fi (new_dead_code, m) = Some (Inr (dc, m'))" using assms(1,6) by (simp add: dead_code_run_def)
  then have ok: "round_ok {} m fi {..<length (function_list m)} dc m'" using dead_code_loop_spec [OF assms(2-5)] by auto
  then have e: "erased {i \<in> listed m. \<not> useful m fi i} m m'"
    and agree: "uses_agree (V_Inst ` {i \<in> listed m. \<not> useful m fi i}) (graph m')" by (simp_all add: round_ok_def dead_all)
  have l: "listed m' = {i \<in> listed m. useful m fi i}" using erased_same(4) [OF e assms(2)] by auto
  have "erased (dead m fi {..<length (function_list m)}) m m'" using ok by (simp add: round_ok_def)
  then have "operands_local m'" by (rule operands_local_erased [OF _ assms(2,3)])
  then have "\<forall>i \<in> listed m'. \<forall>d. Some (V_Inst d) \<in> set (operands (graph m') (V_Inst i)) \<longrightarrow> d \<in> listed m'"
    unfolding operands_local_def by blast
  moreover have "\<forall>i \<in> listed m. critical m fi i \<longrightarrow> i \<in> listed m'" using useful_critical [of _ m fi] l by blast
  moreover have "u \<notin> V_Inst ` (listed m - listed m')" if "(u, k) \<in> set (use_list (graph m') v)" for u k v
  proof -
    have "listed m - listed m' = {i \<in> listed m. \<not> useful m fi i}" using l by blast
    with uses_agreeD(2) [OF agree, of u k v] that show ?thesis by simp
  qed
  ultimately show ?thesis by blast
qed

lemma dead_code_no_dangling_witness:
  "\<exists>s fi dc m'. codegen useless_program = Inr s \<and> dead_code_run s = Some (Inr (dc, m')) \<and>
     (\<forall>i \<in> listed s. critical s fi i \<longrightarrow> i \<in> listed m')"
proof -
  obtain s fi where s: "codegen useless_program = Inr s" "func_info_run s new_func_info = Some (Inr fi)" "operands_local s"
    "\<forall>i \<in> listed s. calls_known s fi i" "well_placed s" "uses_agree {} (graph s)"
    and out: "case dead_code_run s of Some (Inr (dc, m)) \<Rightarrow> map instr_list (blocks m) = [[0, 1, 4, 5]] | _ \<Rightarrow> False"
    by (rule useless_module)
  from out obtain dc m' where run: "dead_code_run s = Some (Inr (dc, m'))"
    by (cases "dead_code_run s"; cases "the (dead_code_run s)") auto
  with dead_code_no_dangling [OF s(2,5,3,4,6) run] s(1) show ?thesis by blast
qed

end
