(* ===== verification/GVNProps.thy ===== *)
theory GVNProps
  imports GVN
begin

text \<open>
  What the parts of value numbering promise: the comparison of expressions and the join of
  two partitions.
\<close>

section \<open>Comparing expressions\<close>

text \<open>The objects of variable expressions in an expression.\<close>

fun objects :: "gvn_expr \<Rightarrow> gvn_expr set" where
  "objects (ConstantExpression c) = {}"
| "objects (BinaryExpression op k l r) = objects l \<union> objects r"
| "objects (PhiExpression l r) = objects l \<union> objects r"
| "objects (VariableExpression a ops t) = insert (VariableExpression a ops t) (\<Union>e \<in> set ops. objects e)"

definition one_object_each :: "gvn_expr set \<Rightarrow> bool" where
  "one_object_each X \<longleftrightarrow> (\<forall>a ops t ops' t'. VariableExpression a ops t \<in> X \<longrightarrow> VariableExpression a ops' t' \<in> X \<longrightarrow> ops = ops' \<and> t = t')"

lemma one_object_eachD:
  "one_object_each X \<Longrightarrow> VariableExpression a ops t \<in> X \<Longrightarrow> VariableExpression a ops' t' \<in> X \<Longrightarrow> ops = ops' \<and> t = t'"
  unfolding one_object_each_def by blast

lemma exprs_equiv_list_all2: "length es = length fs \<Longrightarrow> exprs_equiv es fs \<longleftrightarrow> list_all2 expr_equiv es fs"
  by (induction es fs rule: list_induct2) simp_all

lemma expr_equiv_variable [simp]:
  "expr_equiv (VariableExpression a ops t) (VariableExpression b ops' t') \<longleftrightarrow>
     a = b \<or> t = t' \<and> t \<noteq> 2 \<and> t \<noteq> 6 \<and> list_all2 expr_equiv ops ops'"
  using exprs_equiv_list_all2 [of ops ops'] by (auto dest: list_all2_lengthD)

declare expr_equiv.simps(4) [simp del]

lemma expr_equiv_shape:
  "expr_equiv (ConstantExpression c) f \<longleftrightarrow> f = ConstantExpression c"
  "expr_equiv (BinaryExpression op k l r) f \<longleftrightarrow> (\<exists>l' r'. f = BinaryExpression op k l' r' \<and> expr_equiv l l' \<and> expr_equiv r r')"
  "expr_equiv (PhiExpression l r) f \<longleftrightarrow> (\<exists>l' r'. f = PhiExpression l' r' \<and> expr_equiv l l' \<and> expr_equiv r r')"
  "expr_equiv (VariableExpression a ops t) f \<longleftrightarrow> (\<exists>b ops' t'. f = VariableExpression b ops' t' \<and>
     (a = b \<or> t = t' \<and> t \<noteq> 2 \<and> t \<noteq> 6 \<and> list_all2 expr_equiv ops ops'))"
  by (cases f; force)+

lemma expr_equiv_refl: "expr_equiv e e"
  by (induction e) (simp_all add: list.rel_refl_strong)

lemma expr_equiv_sym: "expr_equiv e f \<Longrightarrow> expr_equiv f e"
proof (induction e arbitrary: f)
  case (VariableExpression a ops t)
  then obtain b ops' t' where f: "f = VariableExpression b ops' t'" by (auto simp: expr_equiv_shape)
  have "list_all2 expr_equiv ops' ops" if "list_all2 expr_equiv ops ops'"
    using that VariableExpression.IH by (auto simp: list_all2_conv_all_nth)
  with VariableExpression.prems show ?case by (auto simp: f)
qed (auto simp: expr_equiv_shape)

lemma one_object_each_sub:
  "one_object_each (X \<union> Y \<union> Z) \<Longrightarrow> X' \<subseteq> X \<Longrightarrow> Y' \<subseteq> Y \<Longrightarrow> Z' \<subseteq> Z \<Longrightarrow> one_object_each (X' \<union> Y' \<union> Z')"
  unfolding one_object_each_def by blast

lemma expr_equiv_trans:
  "one_object_each (objects e \<union> objects f \<union> objects g) \<Longrightarrow> expr_equiv e f \<Longrightarrow> expr_equiv f g \<Longrightarrow> expr_equiv e g"
proof (induction e arbitrary: f g)
  case (ConstantExpression c)
  then show ?case by (simp add: expr_equiv_shape)
next
  case (BinaryExpression op k l r)
  then obtain l1 r1 where f: "f = BinaryExpression op k l1 r1" "expr_equiv l l1" "expr_equiv r r1" by (auto simp: expr_equiv_shape)
  with BinaryExpression.prems(3) obtain l2 r2 where g: "g = BinaryExpression op k l2 r2" "expr_equiv l1 l2" "expr_equiv r1 r2"
    by (auto simp: expr_equiv_shape)
  have "one_object_each (objects l \<union> objects l1 \<union> objects l2)" "one_object_each (objects r \<union> objects r1 \<union> objects r2)"
    by (rule one_object_each_sub [OF BinaryExpression.prems(1)]; simp add: f(1) g(1))+
  with BinaryExpression.IH f(2,3) g(2,3) show ?case unfolding f(1) g(1) by simp
next
  case (PhiExpression l r)
  then obtain l1 r1 where f: "f = PhiExpression l1 r1" "expr_equiv l l1" "expr_equiv r r1" by (auto simp: expr_equiv_shape)
  with PhiExpression.prems(3) obtain l2 r2 where g: "g = PhiExpression l2 r2" "expr_equiv l1 l2" "expr_equiv r1 r2"
    by (auto simp: expr_equiv_shape)
  have "one_object_each (objects l \<union> objects l1 \<union> objects l2)" "one_object_each (objects r \<union> objects r1 \<union> objects r2)"
    by (rule one_object_each_sub [OF PhiExpression.prems(1)]; simp add: f(1) g(1))+
  with PhiExpression.IH f(2,3) g(2,3) show ?case unfolding f(1) g(1) by simp
next
  case (VariableExpression a ops t)
  then obtain b ops1 t1 where f: "f = VariableExpression b ops1 t1" by (auto simp: expr_equiv_shape)
  with VariableExpression.prems(3) obtain c ops2 t2 where g: "g = VariableExpression c ops2 t2" by (auto simp: expr_equiv_shape)
  note one = one_object_eachD [OF VariableExpression.prems(1)]
  show ?case
  proof (cases "a = b \<or> b = c")
    case True
    then show ?thesis
    proof
      assume "a = b"
      with one [of a ops t ops1 t1] have "VariableExpression a ops t = f" by (simp add: f)
      with VariableExpression.prems(3) show ?thesis by simp
    next
      assume "b = c"
      with one [of b ops1 t1 ops2 t2] have "f = g" by (simp add: f g)
      with VariableExpression.prems(2) show ?thesis by simp
    qed
  next
    case False
    with VariableExpression.prems(2,3) have ts: "t = t1" "t1 = t2" "t \<noteq> 2" "t \<noteq> 6"
      and ef: "list_all2 expr_equiv ops ops1" and fg: "list_all2 expr_equiv ops1 ops2" by (simp_all add: f g)
    have "expr_equiv (ops ! i) (ops2 ! i)" if i: "i < length ops" for i
    proof (rule VariableExpression.IH)
      have mem: "ops1 ! i \<in> set ops1" "ops2 ! i \<in> set ops2" "ops ! i \<in> set ops"
        using i ef fg by (auto simp: list_all2_conv_all_nth)
      show "one_object_each (objects (ops ! i) \<union> objects (ops1 ! i) \<union> objects (ops2 ! i))"
        by (rule one_object_each_sub [OF VariableExpression.prems(1)]) (use mem f g in auto)
      show "ops ! i \<in> set ops" by (rule mem)
    qed (use i ef fg in \<open>auto simp: list_all2_conv_all_nth\<close>)
    then have "list_all2 expr_equiv ops ops2" using ef fg by (auto simp: list_all2_conv_all_nth)
    with ts show ?thesis by (simp add: g)
  qed
qed

text \<open>C16: the comparison of value expressions is an equivalence on expressions in which a number
  stands for one object: reflexive also on impure calls and allocas, symmetric, and transitive
  through chains of equal structure and equal objects.\<close>

theorem expr_equiv_equivalence:
  assumes "one_object_each (objects e \<union> objects f \<union> objects g)"
  shows "expr_equiv e e \<and> (expr_equiv e f \<longrightarrow> expr_equiv f e) \<and> (expr_equiv e f \<and> expr_equiv f g \<longrightarrow> expr_equiv e g)"
  using expr_equiv_refl expr_equiv_sym expr_equiv_trans [OF assms] by blast

lemma expr_equiv_equivalence_witness:
  "let call = \<lambda>a. VariableExpression a [ConstantExpression (Some (V_Fun 0))] 1 in
   expr_equiv (call 0) (call 1) \<and> expr_equiv (call 1) (call 2) \<and> expr_equiv (call 0) (call 2)"
proof -
  let ?call = "\<lambda>a. VariableExpression a [ConstantExpression (Some (V_Fun 0))] 1"
  have "one_object_each (objects (?call 0) \<union> objects (?call 1) \<union> objects (?call 2))" by (auto simp: one_object_each_def)
  with expr_equiv_equivalence [of "?call 0" "?call 1" "?call 2"] show ?thesis by (simp add: Let_def)
qed

section \<open>Partitions\<close>

text \<open>The classes come by their index, and no value is in two of them.\<close>

definition sorted_classes :: "partitions \<Rightarrow> bool" where
  "sorted_classes p \<longleftrightarrow> sorted_wrt (<) (map cc_index p)"

definition classes_with :: "irval \<Rightarrow> partitions \<Rightarrow> nat" where
  "classes_with v p = length (filter (\<lambda>c. v \<in> set (members c)) p)"

definition disjoint_classes :: "partitions \<Rightarrow> bool" where
  "disjoint_classes p \<longleftrightarrow> (\<forall>v. classes_with v p \<le> 1)"

definition together :: "partitions \<Rightarrow> irval \<Rightarrow> irval \<Rightarrow> bool" where
  "together p v w \<longleftrightarrow> (\<exists>c \<in> set p. v \<in> set (members c) \<and> w \<in> set (members c))"

definition numbered_below :: "nat \<Rightarrow> partitions \<Rightarrow> bool" where
  "numbered_below n p \<longleftrightarrow> (\<forall>c \<in> set p. cc_index c < n \<or> members c = [])"

lemma classes_with_simps [simp]:
  "classes_with v [] = 0"
  "classes_with v (c # p) = (if v \<in> set (members c) then Suc (classes_with v p) else classes_with v p)"
  "classes_with v (p @ q) = classes_with v p + classes_with v q"
  by (simp_all add: classes_with_def)

lemma classes_with_pos: "0 < classes_with v p \<longleftrightarrow> (\<exists>c \<in> set p. v \<in> set (members c))"
  by (auto simp: classes_with_def filter_empty_conv)

lemma emplace_set: "set (emplace c p) \<subseteq> insert c (set p)"
  by (induction p) auto

lemma emplace_index_set: "cc_index ` set (emplace c p) = insert (cc_index c) (cc_index ` set p)"
  by (induction p) auto

lemma emplace_new:
  assumes "cc_index c \<notin> cc_index ` set p"
  shows "set (emplace c p) = insert c (set p)" and "classes_with v (emplace c p) = classes_with v (c # p)"
  using assms by (induction p) auto

lemma emplace_classes_with: "classes_with v (emplace c p) \<le> classes_with v (c # p)"
  by (induction p) auto

lemma emplace_sorted: "sorted_classes p \<Longrightarrow> sorted_classes (emplace c p)"
proof (induction p)
  case (Cons d p)
  have "\<forall>x \<in> cc_index ` set (emplace c p). cc_index d < x" if "cc_index d < cc_index c"
    using Cons.prems that by (simp add: emplace_index_set sorted_classes_def)
  with Cons show ?case by (auto simp: sorted_classes_def)
qed (simp add: sorted_classes_def)

section \<open>Join\<close>

definition meet :: "congruence_class \<Rightarrow> congruence_class \<Rightarrow> irval list" where
  "meet c d = filter (\<lambda>v. v \<in> set (members d)) (members c)"

lemma set_meet [simp]: "set (meet c d) = set (members c) \<inter> set (members d)"
  by (auto simp: meet_def)

text \<open>The class that two classes give, when they meet: the number is theirs or a new one.\<close>

definition keeps_number :: "congruence_class \<Rightarrow> congruence_class \<Rightarrow> bool" where
  "keeps_number c d \<longleftrightarrow> cc_index c = cc_index d \<and> cc_index c \<noteq> 0"

lemma intersect_classes_empty: "meet c d = [] \<Longrightarrow> intersect_classes n c d = (None, n)"
  by (simp add: intersect_classes_def Let_def meet_def)

lemma intersect_classes_meet:
  assumes "meet c d \<noteq> []"
  shows "\<exists>k. intersect_classes n c d = (Some k, if keeps_number c d then n else Suc n) \<and> members k = meet c d \<and>
    cc_index k = (if keeps_number c d then cc_index c else n)"
proof (cases "keeps_number c d")
  case True
  then have "cc_index c = cc_index d" "cc_index c \<noteq> 0" by (simp_all add: keeps_number_def)
  with True assms show ?thesis unfolding meet_def by (simp add: intersect_classes_def Let_def)
next
  case False
  then have "(if cc_index c = cc_index d then cc_index c else 0) = 0" by (auto simp: keeps_number_def)
  with False assms show ?thesis unfolding meet_def by (simp add: intersect_classes_def Let_def)
qed

definition meets :: "congruence_class \<Rightarrow> partitions \<Rightarrow> irval list set" where
  "meets c ds = {meet c d |d. d \<in> set ds \<and> meet c d \<noteq> []}"

lemma meets_Cons: "meets c (d # ds) = (if meet c d = [] then meets c ds else insert (meet c d) (meets c ds))"
  by (auto simp: meets_def)

lemma join_row_step:
  assumes "meet c d \<noteq> []"
  obtains k n1 where "join_row c (d # ds) P n = join_row c ds (emplace k P) n1" and "members k = meet c d" and "n \<le> n1"
    and "keeps_number c d \<Longrightarrow> cc_index k = cc_index c \<and> n1 = n" and "\<not> keeps_number c d \<Longrightarrow> cc_index k = n \<and> n1 = Suc n"
proof -
  from intersect_classes_meet [OF assms] obtain k where "intersect_classes n c d = (Some k, if keeps_number c d then n else Suc n)"
    "members k = meet c d" "cc_index k = (if keeps_number c d then cc_index c else n)" by blast
  with that [of k "if keeps_number c d then n else Suc n"] show thesis by simp
qed

lemma join_row_skip: "meet c d = [] \<Longrightarrow> join_row c (d # ds) P n = join_row c ds P n"
  by (simp add: intersect_classes_empty)

lemma members_emplace: "members ` set (emplace k P) \<subseteq> insert (members k) (members ` set P)"
  using emplace_set [of k P] by auto

lemma join_row_sound:
  "join_row c ds P n = (P', n') \<Longrightarrow> n \<le> n' \<and> members ` set P' \<subseteq> members ` set P \<union> meets c ds \<and>
   (sorted_classes P \<longrightarrow> sorted_classes P') \<and>
   classes_with v P' \<le> classes_with v P + (if v \<in> set (members c) then classes_with v ds else 0)"
proof (induction ds arbitrary: P n)
  case (Cons d ds)
  show ?case
  proof (cases "meet c d = []")
    case True
    then have "join_row c ds P n = (P', n')" using Cons.prems join_row_skip by simp
    note IH = Cons.IH [OF this]
    have "(if v \<in> set (members c) then classes_with v ds else 0) \<le> (if v \<in> set (members c) then classes_with v (d # ds) else 0)"
      by simp
    moreover from IH have "classes_with v P' \<le> classes_with v P + (if v \<in> set (members c) then classes_with v ds else 0)" by blast
    ultimately have "classes_with v P' \<le> classes_with v P + (if v \<in> set (members c) then classes_with v (d # ds) else 0)"
      by linarith
    with IH True show ?thesis unfolding meets_Cons by simp
  next
    case False
    obtain k n1 where row: "join_row c (d # ds) P n = join_row c ds (emplace k P) n1" and k: "members k = meet c d" "n \<le> n1"
      by (rule join_row_step [OF False]) blast
    from row Cons.prems have "join_row c ds (emplace k P) n1 = (P', n')" by simp
    note IH = Cons.IH [OF this]
    show ?thesis
    proof (intro conjI)
      show "n \<le> n'" using IH k(2) by linarith
      show "members ` set P' \<subseteq> members ` set P \<union> meets c (d # ds)"
      proof -
        have "members ` set P' \<subseteq> members ` set (emplace k P) \<union> meets c ds" using IH by blast
        moreover have "members ` set (emplace k P) \<subseteq> insert (meet c d) (members ` set P)" using members_emplace [of k P] k(1) by simp
        moreover have "meets c (d # ds) = insert (meet c d) (meets c ds)" using False by (simp add: meets_Cons)
        ultimately show ?thesis by blast
      qed
      show "sorted_classes P \<longrightarrow> sorted_classes P'" using IH emplace_sorted by blast
      show "classes_with v P' \<le> classes_with v P + (if v \<in> set (members c) then classes_with v (d # ds) else 0)"
        using IH emplace_classes_with [of v k P] k(1) by (simp split: if_splits)
    qed
  qed
qed simp

text \<open>
  No class is lost when the numbers in use are below the next one: the number that two
  classes keep is in no class yet.
\<close>

lemma join_row_complete:
  "join_row c ds P n = (P', n') \<Longrightarrow> cc_index c < n \<Longrightarrow> \<forall>i \<in> cc_index ` set P. i < n \<Longrightarrow> distinct (map cc_index ds) \<Longrightarrow>
   cc_index c \<notin> cc_index ` set P \<or> cc_index c \<notin> cc_index ` set ds \<Longrightarrow>
   members ` set P \<union> meets c ds \<subseteq> members ` set P' \<and> cc_index ` set P' \<subseteq> insert (cc_index c) (cc_index ` set P) \<union> {n..<n'}"
proof (induction ds arbitrary: P n)
  case (Cons d ds)
  show ?case
  proof (cases "meet c d = []")
    case True
    then have "join_row c ds P n = (P', n')" using Cons.prems(1) join_row_skip by simp
    from Cons.IH [OF this Cons.prems(2,3)] Cons.prems(4,5) True show ?thesis by (auto simp: meets_Cons)
  next
    case False
    obtain k n1 where row: "join_row c (d # ds) P n = join_row c ds (emplace k P) n1" and k: "members k = meet c d" "n \<le> n1"
      and kept: "keeps_number c d \<Longrightarrow> cc_index k = cc_index c \<and> n1 = n" and new: "\<not> keeps_number c d \<Longrightarrow> cc_index k = n \<and> n1 = Suc n"
      by (rule join_row_step [OF False]) blast
    from row Cons.prems(1) have run: "join_row c ds (emplace k P) n1 = (P', n')" by simp
    have fresh: "cc_index k \<notin> cc_index ` set P"
    proof (cases "keeps_number c d")
      case True
      then have "cc_index d = cc_index c" by (simp add: keeps_number_def)
      with Cons.prems(5) have "cc_index c \<notin> cc_index ` set P" by auto
      with kept [OF True] show ?thesis by simp
    next
      case False
      with new Cons.prems(3) show ?thesis by auto
    qed
    have small: "cc_index c < n1" using Cons.prems(2) k(2) by linarith
    have "cc_index k < n1" using small kept new by (cases "keeps_number c d") simp_all
    with Cons.prems(3) k(2) have below: "\<forall>i \<in> cc_index ` set (emplace k P). i < n1" by (auto simp: emplace_index_set)
    have free: "cc_index c \<notin> cc_index ` set (emplace k P) \<or> cc_index c \<notin> cc_index ` set ds"
    proof (cases "keeps_number c d")
      case True
      with Cons.prems(4) show ?thesis by (simp add: keeps_number_def)
    next
      case False
      with new Cons.prems(2,5) show ?thesis by (auto simp: emplace_index_set)
    qed
    have "distinct (map cc_index ds)" using Cons.prems(4) by simp
    note IH = Cons.IH [OF run small below this free]
    have "members ` set (emplace k P) = insert (meet c d) (members ` set P)" using emplace_new(1) [OF fresh] k(1) by simp
    with IH False have "members ` set P \<union> meets c (d # ds) \<subseteq> members ` set P'" by (auto simp: meets_Cons)
    moreover have "n1 \<le> n'" using join_row_sound [OF run] by blast
    then have "insert (cc_index c) (cc_index ` set (emplace k P)) \<union> {n1..<n'} \<subseteq> insert (cc_index c) (cc_index ` set P) \<union> {n..<n'}"
      using kept new k(2) by (cases "keeps_number c d") (auto simp: emplace_index_set)
    with IH have "cc_index ` set P' \<subseteq> insert (cc_index c) (cc_index ` set P) \<union> {n..<n'}" by blast
    ultimately show ?thesis by blast
  qed
qed (auto simp: meets_def)

lemma join_row_of_empty: "members c = [] \<Longrightarrow> join_row c ds P n = (P, n)"
  by (induction ds) (simp_all add: intersect_classes_empty meet_def)

lemma join_rows_sound:
  "join_rows cs ds P n = (P', n') \<Longrightarrow> n \<le> n' \<and> members ` set P' \<subseteq> members ` set P \<union> (\<Union>c \<in> set cs. meets c ds) \<and>
   (sorted_classes P \<longrightarrow> sorted_classes P') \<and> classes_with v P' \<le> classes_with v P + classes_with v cs * classes_with v ds"
proof (induction cs arbitrary: P n)
  case (Cons c cs)
  obtain P1 n1 where row: "join_row c ds P n = (P1, n1)" by (cases "join_row c ds P n") blast
  with Cons.prems have "join_rows cs ds P1 n1 = (P', n')" by simp
  note IH = Cons.IH [OF this] and first = join_row_sound [OF row, of v]
  have "classes_with v P' \<le> classes_with v P1 + classes_with v cs * classes_with v ds" using IH by blast
  moreover have "classes_with v P1 \<le> classes_with v P + (if v \<in> set (members c) then classes_with v ds else 0)" using first by blast
  ultimately have "classes_with v P' \<le> classes_with v P + classes_with v (c # cs) * classes_with v ds" by (simp split: if_splits)
  moreover have "members ` set P' \<subseteq> members ` set P \<union> (\<Union>c \<in> set (c # cs). meets c ds)"
  proof -
    have "members ` set P' \<subseteq> members ` set P1 \<union> (\<Union>c \<in> set cs. meets c ds)" using IH by blast
    moreover have "members ` set P1 \<subseteq> members ` set P \<union> meets c ds" using first by blast
    ultimately show ?thesis unfolding list.set(2) UN_insert by blast
  qed
  moreover have "n \<le> n'" using IH first by linarith
  ultimately show ?case using IH first by blast
qed simp

lemma join_rows_complete:
  "join_rows cs ds P n = (P', n') \<Longrightarrow> numbered_below n cs \<Longrightarrow> \<forall>i \<in> cc_index ` set P. i < n \<Longrightarrow>
   distinct (map cc_index cs) \<Longrightarrow> distinct (map cc_index ds) \<Longrightarrow>
   \<forall>c \<in> set cs. members c = [] \<or> cc_index c \<notin> cc_index ` set P \<Longrightarrow>
   members ` set P \<union> (\<Union>c \<in> set cs. meets c ds) \<subseteq> members ` set P'"
proof (induction cs arbitrary: P n)
  case (Cons c cs)
  obtain P1 n1 where row: "join_row c ds P n = (P1, n1)" by (cases "join_row c ds P n") blast
  with Cons.prems(1) have run: "join_rows cs ds P1 n1 = (P', n')" by simp
  show ?case
  proof (cases "members c = []")
    case True
    then have "P1 = P" "n1 = n" using row join_row_of_empty by simp_all
    moreover have "meets c ds = {}" using True by (simp add: meets_def meet_def)
    moreover have "numbered_below n cs" "distinct (map cc_index cs)" "\<forall>c \<in> set cs. members c = [] \<or> cc_index c \<notin> cc_index ` set P"
      using Cons.prems(2,4,6) by (simp_all add: numbered_below_def)
    ultimately show ?thesis using Cons.IH [OF run] Cons.prems(3,5) by simp
  next
    case False
    with Cons.prems(2,6) have small: "cc_index c < n" and free: "cc_index c \<notin> cc_index ` set P" by (auto simp: numbered_below_def)
    have result: "members ` set P \<union> meets c ds \<subseteq> members ` set P1"
      "cc_index ` set P1 \<subseteq> insert (cc_index c) (cc_index ` set P) \<union> {n..<n1}"
      using join_row_complete [OF row small Cons.prems(3,5)] free by blast+
    have n1: "n \<le> n1" using join_row_sound [OF row] by blast
    have "numbered_below n1 cs" using Cons.prems(2) n1 by (fastforce simp: numbered_below_def)
    moreover have "\<forall>i \<in> cc_index ` set P1. i < n1"
    proof
      fix i assume "i \<in> cc_index ` set P1"
      with result(2) consider "i = cc_index c" | "i \<in> cc_index ` set P" | "n \<le> i" "i < n1" by auto
      then show "i < n1" using small n1 Cons.prems(3) by cases (auto intro: less_le_trans)
    qed
    moreover have "\<forall>c \<in> set cs. members c = [] \<or> cc_index c \<notin> cc_index ` set P1"
    proof
      fix e assume e: "e \<in> set cs"
      have "cc_index e \<notin> cc_index ` set P1" if "members e \<noteq> []"
      proof -
        have "cc_index e < n" "cc_index e \<notin> cc_index ` set P" "cc_index e \<noteq> cc_index c"
          using Cons.prems(2,4,6) e that by (auto simp: numbered_below_def image_iff)
        with result(2) show ?thesis by fastforce
      qed
      then show "members e = [] \<or> cc_index e \<notin> cc_index ` set P1" by blast
    qed
    ultimately have "members ` set P1 \<union> (\<Union>c \<in> set cs. meets c ds) \<subseteq> members ` set P'"
      using Cons.IH [OF run] Cons.prems(4,5) by simp
    with result(1) show ?thesis unfolding list.set(2) UN_insert by blast
  qed
qed simp

lemma sorted_classes_distinct: "sorted_classes p \<Longrightarrow> distinct (map cc_index p)"
  unfolding sorted_classes_def by (rule strict_sorted_iff [THEN iffD1, THEN conjunct2])

text \<open>A partition that has been computed: not empty, and not the top that a block starts with.\<close>

definition computed :: "partitions \<Rightarrow> bool" where
  "computed p \<longleftrightarrow> p \<noteq> [] \<and> cc_index (hd p) \<noteq> top_index"

lemma join_computed: "computed P \<Longrightarrow> computed Q \<Longrightarrow> join P Q n = Inr (join_rows P Q [] n)"
  by (cases P; cases Q) (simp_all add: computed_def)

lemma together_in_join: "together R v w \<Longrightarrow> members ` set R \<subseteq> (\<Union>c \<in> set P. meets c Q) \<Longrightarrow> together P v w \<and> together Q v w"
proof -
  assume "together R v w" and sub: "members ` set R \<subseteq> (\<Union>c \<in> set P. meets c Q)"
  then obtain k where k: "k \<in> set R" "v \<in> set (members k)" "w \<in> set (members k)" by (auto simp: together_def)
  from sub k(1) obtain c d where "c \<in> set P" "d \<in> set Q" "members k = meet c d" by (auto simp: meets_def)
  with k(2,3) show ?thesis by (auto simp: together_def)
qed

lemma meets_in_join:
  assumes "together P v w" and "together Q v w" and disjoint: "disjoint_classes P" "disjoint_classes Q"
    and sup: "(\<Union>c \<in> set P. meets c Q) \<subseteq> members ` set R"
  shows "together R v w"
proof -
  from assms(1,2) obtain c d where c: "c \<in> set P" "v \<in> set (members c)" "w \<in> set (members c)"
    and d: "d \<in> set Q" "v \<in> set (members d)" "w \<in> set (members d)" by (auto simp: together_def)
  have mem: "v \<in> set (meet c d)" "w \<in> set (meet c d)" using c d by simp_all
  have "meet c d \<noteq> []"
  proof
    assume "meet c d = []"
    with mem(1) show False by (simp del: set_meet)
  qed
  with c(1) d(1) have "meet c d \<in> (\<Union>c \<in> set P. meets c Q)" by (auto simp: meets_def)
  with sup obtain k where k: "k \<in> set R" "members k = meet c d" by auto
  from mem have "v \<in> set (members k)" "w \<in> set (members k)" by (simp_all only: k(2))
  with k(1) show ?thesis unfolding together_def by blast
qed

text \<open>C17: joining two computed partitions, whatever the next number is, gives a partition again, sorted
  and with no value in two classes, in which two values are congruent only if they are congruent in both.
  When the next number is above all numbers in use in the first one, they are congruent exactly if they
  are congruent in both: the join is the meet of the two equivalences. The code guarantees that in the
  first round only: every later one starts its numbers again, and a class that gets a number in use is
  dropped.\<close>

theorem join_correct:
  assumes "computed P" and "computed Q" and "disjoint_classes P" and "disjoint_classes Q"
    and "sorted_classes P" and "sorted_classes Q"
  shows "\<exists>R n'. join P Q n = Inr (R, n') \<and> n \<le> n' \<and> sorted_classes R \<and> disjoint_classes R \<and>
    (\<forall>v w. together R v w \<longrightarrow> together P v w \<and> together Q v w) \<and>
    (numbered_below n P \<longrightarrow> (\<forall>v w. together P v w \<and> together Q v w \<longrightarrow> together R v w))"
proof -
  obtain R n' where run: "join_rows P Q [] n = (R, n')" by (cases "join_rows P Q [] n") blast
  note sound = join_rows_sound [OF run]
  have "classes_with v R \<le> 1" for v
  proof -
    have "classes_with v P * classes_with v Q \<le> 1 * 1"
      using assms(3,4) unfolding disjoint_classes_def by (intro mult_le_mono) blast+
    with sound [of v] show ?thesis by simp
  qed
  then have "disjoint_classes R" by (simp add: disjoint_classes_def)
  moreover have "sorted_classes R" using sound by (simp add: sorted_classes_def)
  moreover have "together R v w" if "numbered_below n P" "together P v w" "together Q v w" for v w
  proof -
    have "(\<Union>c \<in> set P. meets c Q) \<subseteq> members ` set R"
      using join_rows_complete [OF run that(1)] assms(5,6) sorted_classes_distinct by simp
    with that assms(3,4) show ?thesis by (intro meets_in_join [of P v w Q R])
  qed
  moreover have "members ` set R \<subseteq> (\<Union>c \<in> set P. meets c Q)" using sound by simp
  then have "together P v w \<and> together Q v w" if "together R v w" for v w by (rule together_in_join [OF that])
  moreover have "join P Q n = Inr (R, n')" by (simp add: join_computed [OF assms(1,2)] run)
  moreover have "n \<le> n'" using sound by blast
  ultimately show ?thesis by blast
qed

lemma join_correct_witness:
  "let cls = \<lambda>n vs. (new_class n)\<lparr>members := map (V_Arg 0) vs\<rparr>; P = [cls 1 [0, 1, 2], cls 2 [3]]; Q = [cls 1 [0, 1], cls 3 [2, 3]] in
   \<exists>R n'. join P Q 4 = Inr (R, n') \<and> disjoint_classes R \<and> together R (V_Arg 0 0) (V_Arg 0 1) \<and> \<not> together R (V_Arg 0 2) (V_Arg 0 3)"
proof -
  define cls where "cls n vs = (new_class n)\<lparr>members := map (V_Arg 0) vs\<rparr>" for n vs
  define P Q where "P = [cls 1 [0, 1, 2], cls 2 [3]]" and "Q = [cls 1 [0, 1], cls 3 [2, 3]]"
  have "computed P" "computed Q" by (simp_all add: P_def Q_def cls_def new_class_def computed_def top_index_def)
  moreover have "disjoint_classes P" "disjoint_classes Q" by (auto simp: P_def Q_def cls_def new_class_def disjoint_classes_def)
  moreover have "sorted_classes P" "sorted_classes Q" "numbered_below 4 P"
    by (simp_all add: P_def Q_def cls_def new_class_def sorted_classes_def numbered_below_def)
  ultimately obtain R n' where R: "join P Q 4 = Inr (R, n')" "disjoint_classes R" "\<forall>v w. together R v w \<longleftrightarrow> together P v w \<and> together Q v w"
    using join_correct [of P Q 4] by meson
  moreover have "together P (V_Arg 0 0) (V_Arg 0 1)" "together Q (V_Arg 0 0) (V_Arg 0 1)" "\<not> together P (V_Arg 0 2) (V_Arg 0 3)"
    by (simp_all add: P_def Q_def cls_def new_class_def together_def)
  ultimately show ?thesis unfolding Let_def cls_def [symmetric] P_def [symmetric] Q_def [symmetric] by blast
qed

end
