(* ===== verification/GVNTransfer.thy ===== *)
theory GVNTransfer
  imports GVNProps CodegenProgram
begin

text \<open>
  What the transfer function of a block does to a partition: every instruction that it does
  not skip is taken out of its class and put into exactly one, and all other values stay
  with those they are congruent to.
\<close>

section \<open>Moving a value\<close>

text \<open>A step that puts a value into \<open>k\<close> classes and leaves the others together as they are.\<close>

definition moved :: "irval \<Rightarrow> nat \<Rightarrow> partitions \<Rightarrow> partitions \<Rightarrow> bool" where
  "moved v k p q \<longleftrightarrow> (sorted_classes p \<longrightarrow> sorted_classes q) \<and> classes_with v q = k \<and>
     (\<forall>w. w \<noteq> v \<longrightarrow> classes_with w q = classes_with w p) \<and>
     (\<forall>w x. w \<noteq> v \<and> x \<noteq> v \<longrightarrow> together q w x = together p w x)"

lemma moved_trans: "moved v k p q \<Longrightarrow> moved v l q r \<Longrightarrow> moved v l p r"
  by (simp add: moved_def)

lemma together_simps [simp]:
  "together [] v w \<longleftrightarrow> False"
  "together (c # p) v w \<longleftrightarrow> v \<in> set (members c) \<and> w \<in> set (members c) \<or> together p v w"
  "together (p @ q) v w \<longleftrightarrow> together p v w \<or> together q v w"
  by (auto simp: together_def)

text \<open>
  Every class has a leader, except that of top, which has no members and no expressions; the
  numbers in use are below the next one.
\<close>

definition leaders_set :: "partitions \<Rightarrow> bool" where
  "leaders_set p \<longleftrightarrow> (\<forall>c \<in> set p. leader c \<noteq> None \<or>
     cc_index c = top_index \<and> members c = [] \<and> value_expr c = None \<and> value_phi c = None)"

definition fresh_above :: "nat \<Rightarrow> partitions \<Rightarrow> bool" where
  "fresh_above n p \<longleftrightarrow> (\<forall>c \<in> set p. cc_index c < n \<or> cc_index c = top_index)"

lemma fresh_above_mono: "fresh_above n p \<Longrightarrow> n \<le> k \<Longrightarrow> fresh_above k p"
  by (fastforce simp: fresh_above_def)

section \<open>Taking a value out\<close>

definition without :: "irval \<Rightarrow> congruence_class \<Rightarrow> congruence_class list" where
  "without v c = (if v \<notin> set (members c) then [c] else if members (erase_member v c) = [] then [] else [erase_member v c])"

lemma erase_value_result:
  "erase_value v p = Inr q \<Longrightarrow> classes_with v p \<le> 1 \<Longrightarrow> q = concat (map (without v) p)"
proof (induction v p arbitrary: q rule: erase_value.induct)
  case (2 v c cs)
  show ?case
  proof (cases "v \<in> set (members c)")
    case False
    then obtain r where r: "erase_value v cs = Inr r" "q = c # r" using "2.prems"(1) by auto
    with "2.IH"(1) [OF _ r(1)] False "2.prems"(2) show ?thesis by (simp add: without_def)
  next
    case True
    with "2.prems"(2) have none: "classes_with v cs = 0" by simp
    show ?thesis
    proof (cases "members (erase_member v c) = []")
      case False
      with True obtain r where r: "erase_value v cs = Inr r" "q = erase_member v c # r" using "2.prems"(1) by auto
      with "2.IH"(2) [OF _ _ r(1)] True False none show ?thesis by (simp add: without_def)
    next
      case empty: True
      with True "2.prems"(1) obtain d ds r where r: "cs = d # ds" "erase_value v ds = Inr r" "q = d # r"
        by (auto split: list.splits)
      with none have "v \<notin> set (members d)" "classes_with v ds = 0" by (auto split: if_splits)
      with "2.IH"(3) [OF _ _ r(1,2)] True empty r show ?thesis by (simp add: without_def)
    qed
  qed
qed simp

lemma without_simps:
  "w \<noteq> v \<Longrightarrow> classes_with w (without v c) = classes_with w [c]"
  "classes_with v (without v c) = 0"
  "w \<noteq> v \<Longrightarrow> x \<noteq> v \<Longrightarrow> together (without v c) w x = together [c] w x"
proof -
  have keep: "set (members (erase_member v c)) = set (members c) - {v}" by (simp add: erase_member_def)
  then have only: "members (erase_member v c) = [] \<Longrightarrow> set (members c) \<subseteq> {v}" by auto
  show "w \<noteq> v \<Longrightarrow> classes_with w (without v c) = classes_with w [c]" using only by (auto simp: without_def keep)
  show "classes_with v (without v c) = 0" by (simp add: without_def keep)
  show "w \<noteq> v \<Longrightarrow> x \<noteq> v \<Longrightarrow> together (without v c) w x = together [c] w x" using only by (auto simp: without_def keep)
qed

lemma without_index: "cc_index ` set (concat (map (without v) p)) \<subseteq> cc_index ` set p"
  by (auto simp: without_def erase_member_def split: if_splits)

lemma without_sorted: "sorted_classes p \<Longrightarrow> sorted_classes (concat (map (without v) p))"
proof (induction p)
  case (Cons c p)
  have "\<forall>i \<in> cc_index ` set (concat (map (without v) p)). cc_index c < i"
  proof
    fix i assume "i \<in> cc_index ` set (concat (map (without v) p))"
    then have "i \<in> cc_index ` set p" using without_index [of v p] by blast
    with Cons.prems show "cc_index c < i" by (auto simp: sorted_classes_def)
  qed
  with Cons show ?case by (auto simp: sorted_classes_def without_def erase_member_def)
qed simp

lemma erase_value_moved:
  assumes "erase_value v p = Inr q" and "classes_with v p \<le> 1"
  shows "moved v 0 p q" and "fresh_above n p \<Longrightarrow> fresh_above n q" and "leaders_set p \<Longrightarrow> leaders_set q"
proof -
  have q: "q = concat (map (without v) p)" by (rule erase_value_result [OF assms])
  have "classes_with w (concat (map (without v) p)) = (if w = v then 0 else classes_with w p)" for w
    by (induction p) (simp_all add: without_simps)
  moreover have "together (concat (map (without v) p)) w x = together p w x" if "w \<noteq> v" "x \<noteq> v" for w x
    using that by (induction p) (simp_all add: without_simps)
  ultimately show "moved v 0 p q" using without_sorted by (simp add: moved_def q)
  show "fresh_above n q" if "fresh_above n p"
    using that by (auto simp: fresh_above_def q without_def erase_member_def split: if_splits)
  show "leaders_set q" if "leaders_set p"
    using that by (auto simp: leaders_set_def q without_def erase_member_def split: if_splits)
qed

section \<open>Putting it into a class\<close>

lemma insert_same_split:
  "insert_same address v ve vpf p = Some q \<Longrightarrow>
   \<exists>xs c ys. p = xs @ c # ys \<and> q = xs @ insert_member address v c # ys \<and> (value_expr c \<noteq> None \<or> value_phi c \<noteq> None)"
proof (induction p arbitrary: q)
  case (Cons c p)
  show ?case
  proof (cases "holds_expr (value_expr c) ve \<or> (case vpf of None \<Rightarrow> False | Some f \<Rightarrow> holds_expr (value_phi c) f)")
    case True
    then have "value_expr c \<noteq> None \<or> value_phi c \<noteq> None" by (auto simp: holds_expr_def split: option.splits)
    with True Cons.prems show ?thesis by (intro exI [of _ "[]"] exI [of _ c] exI [of _ p]) simp
  next
    case False
    with Cons.prems obtain r where r: "insert_same address v ve vpf p = Some r" "q = c # r" by (auto simp del: holds_expr_def)
    from Cons.IH [OF r(1)] obtain xs d ys where "p = xs @ d # ys" "r = xs @ insert_member address v d # ys"
      "value_expr d \<noteq> None \<or> value_phi d \<noteq> None" by blast
    with r(2) show ?thesis by (intro exI [of _ "c # xs"] exI [of _ d] exI [of _ ys]) simp
  qed
qed simp

lemma insert_member_parts [simp]:
  "set (members (insert_member address v c)) = insert v (set (members c))"
  "cc_index (insert_member address v c) = cc_index c"
  by (auto simp: insert_member_def set_insort_key)

lemma insert_same_moved:
  assumes "insert_same address v ve vpf p = Some q" and "classes_with v p = 0"
  shows "moved v 1 p q" and "fresh_above n p \<Longrightarrow> fresh_above n q" and "leaders_set p \<Longrightarrow> leaders_set q"
proof -
  from insert_same_split [OF assms(1)] obtain xs c ys where p: "p = xs @ c # ys" and q: "q = xs @ insert_member address v c # ys"
    and e: "value_expr c \<noteq> None \<or> value_phi c \<noteq> None" by blast
  from assms(2) have "v \<notin> set (members c)" "classes_with v xs = 0" "classes_with v ys = 0" by (auto simp: p split: if_splits)
  then show "moved v 1 p q" by (auto simp: moved_def p q sorted_classes_def)
  show "fresh_above n q" if "fresh_above n p"
    using that e by (auto simp: fresh_above_def p q insert_member_def)
  show "leaders_set q" if "leaders_set p"
    using that e by (auto simp: leaders_set_def p q insert_member_def)
qed

lemma emplace_cases: "emplace k p = p \<or> (\<exists>xs ys. p = xs @ ys \<and> emplace k p = xs @ k # ys)"
proof (induction p)
  case Nil
  then show ?case by simp
next
  case (Cons c p)
  then show ?case by simp (metis append_Cons append_Nil)
qed

text \<open>A new class is in the partition unless its number is in use.\<close>

lemma add_class_moved:
  assumes none: "classes_with v p = 0" and add: "add_class ve l v (p, g) = (q, g')" and "l \<noteq> None"
  shows "\<exists>k \<le> 1. moved v k p q" and "leaders_set p \<Longrightarrow> leaders_set q"
    and "next_value_number g' = Suc (next_value_number g)"
    and "fresh_above (next_value_number g) p \<Longrightarrow> next_value_number g < top_index \<Longrightarrow>
      moved v 1 p q \<and> fresh_above (next_value_number g') q"
proof -
  obtain k where q: "q = emplace k p" and g': "next_value_number g' = Suc (next_value_number g)"
    and k: "cc_index k = next_value_number g" "members k = [v]" "leader k = l"
    using add by (auto simp: add_class_def new_class_def)
  show "next_value_number g' = Suc (next_value_number g)" by (rule g')
  have in1: "moved v 1 p q" if "p = xs @ ys" "q = xs @ k # ys" for xs ys
  proof -
    have "sorted_classes p \<longrightarrow> sorted_classes q" by (simp add: q emplace_sorted)
    moreover have "classes_with v q = 1" "\<forall>w. w \<noteq> v \<longrightarrow> classes_with w q = classes_with w p"
      "\<forall>w x. w \<noteq> v \<and> x \<noteq> v \<longrightarrow> together q w x = together p w x"
      using that none by (auto simp: k(2))
    ultimately show ?thesis by (simp add: moved_def)
  qed
  have "moved v 0 p p" using none by (simp add: moved_def)
  then show "\<exists>k \<le> 1. moved v k p q" using emplace_cases [of k p] in1 unfolding q by (metis le_refl zero_le)
  show "leaders_set q" if "leaders_set p"
    using emplace_cases [of k p] that assms(3) k(3) by (auto simp: leaders_set_def q)
  show "moved v 1 p q \<and> fresh_above (next_value_number g') q"
    if "fresh_above (next_value_number g) p" "next_value_number g < top_index"
  proof
    have fresh: "cc_index k \<notin> cc_index ` set p" using that by (auto simp: fresh_above_def k(1))
    note new = emplace_new [OF fresh]
    have "together q w x \<longleftrightarrow> together p w x" if "w \<noteq> v" "x \<noteq> v" for w x
      using that by (simp add: together_def q new(1) k(2))
    then show "moved v 1 p q" using none by (auto simp: moved_def q new(2) emplace_sorted k(2))
    show "fresh_above (next_value_number g') q"
      using fresh_above_mono [OF that(1), of "Suc (next_value_number g)"] by (simp add: fresh_above_def q g' new(1) k)
  qed
qed

section \<open>The transfer function\<close>

text \<open>Folding constants changes the cache of floats only, and gives a constant.\<close>

definition recached :: "'b ir_module_scheme \<Rightarrow> 'b ir_module_scheme \<Rightarrow> bool" where
  "recached m m' \<longleftrightarrow> (\<exists>c. m' = m\<lparr>cached_float := c\<rparr>)"

lemma recached_refl: "recached m m"
proof -
  have "m = m\<lparr>cached_float := cached_float m\<rparr>" by simp
  then show ?thesis unfolding recached_def by blast
qed

lemma recached_trans: "recached m m' \<Longrightarrow> recached m' m'' \<Longrightarrow> recached m m''"
  by (auto simp: recached_def)

lemma recached_parts:
  "recached m m' \<Longrightarrow> instrs m' = instrs m \<and> blocks m' = blocks m \<and> graph m' = graph m \<and> function_list m' = function_list m"
  by (auto simp: recached_def)

lemma recached_skipped: "recached m m' \<Longrightarrow> skipped m' i = skipped m i"
  by (simp add: skipped_def recached_parts)

lemma ConstantFP_get_recached: "ConstantFP_get w m = Inr (c, m') \<Longrightarrow> recached m m'"
  using recached_refl by (auto simp: ConstantFP_get_def recached_def prog_defs split: option.splits if_splits)

lemma compute_unary_recached: "compute_unary op v m = Inr (l, m') \<Longrightarrow> recached m m' \<and> (op \<in> {I_sitofp, I_fptosi, I_zext} \<longrightarrow> l \<noteq> None)"
  using recached_refl
  by (auto simp: compute_unary_def ConstantInt_get_def split: OpID.splits option.splits dest!: ConstantFP_get_recached)

lemma fold_recached:
  "fold_int f a b m = Inr (l, m') \<Longrightarrow> recached m m' \<and> l \<noteq> None"
  "fold_fp h a b m = Inr (l, m') \<Longrightarrow> recached m m' \<and> l \<noteq> None"
  "fold_cmp x a b m = Inr (l, m') \<Longrightarrow> recached m m' \<and> l \<noteq> None"
  "fold_fcmp x a b m = Inr (l, m') \<Longrightarrow> recached m m' \<and> l \<noteq> None"
  using recached_refl
  by (auto simp: fold_int_def fold_fp_def fold_cmp_def fold_fcmp_def ConstantInt_get_def ConstantInt_get_bool_def
      split: inst_data.splits dest!: ConstantFP_get_recached)

lemma compute_binary_recached:
  assumes "compute_binary op x a b m = Inr (l, m')" and "op \<in> {I_add, I_sub, I_mul, I_sdiv, I_fadd, I_fsub, I_fmul, I_fdiv, I_cmp, I_fcmp}"
  shows "recached m m' \<and> l \<noteq> None"
  using assms by (auto simp: compute_binary_def dest: fold_recached)

lemma new_leader_recached:
  assumes "new_leader p i m = Inr (l, m')"
  shows "recached m m' \<and> l \<noteq> None"
proof -
  let ?op = "i_op (instrs m ! i)" and ?ops = "operands (graph m) (V_Inst i)"
  consider (binary) "is_binary ?op ?ops \<or> ?op = I_cmp \<or> ?op = I_fcmp" | (unary) "?op \<in> {I_sitofp, I_fptosi, I_zext}" "\<not> is_binary ?op ?ops"
    | (other) "\<not> (is_binary ?op ?ops \<or> ?op = I_cmp \<or> ?op = I_fcmp)" "?op \<notin> {I_sitofp, I_fptosi, I_zext}" by auto
  then show ?thesis
  proof cases
    case binary
    then have op: "?op \<in> {I_add, I_sub, I_mul, I_sdiv, I_fadd, I_fsub, I_fmul, I_fdiv, I_cmp, I_fcmp}" by (auto simp: is_binary_def)
    from assms binary have "(l = Some (V_Inst i) \<and> m' = m) \<or> (\<exists>a b. compute_binary ?op (i_data (instrs m ! i)) a b m = Inr (l, m'))"
      by (auto simp: new_leader_def split: option.splits)
    then show ?thesis
    proof (elim disjE exE)
      fix a b assume "compute_binary ?op (i_data (instrs m ! i)) a b m = Inr (l, m')"
      then show ?thesis using op by (rule compute_binary_recached)
    qed (use recached_refl in simp)
  next
    case unary
    then have "?op \<noteq> I_cmp" "?op \<noteq> I_fcmp" by auto
    with assms unary have "(l = Some (V_Inst i) \<and> m' = m) \<or> (\<exists>a. compute_unary ?op a m = Inr (l, m'))"
      by (auto simp: new_leader_def split: option.splits)
    then show ?thesis
    proof (elim disjE exE)
      fix a assume "compute_unary ?op a m = Inr (l, m')"
      then show ?thesis using unary(1) compute_unary_recached by blast
    qed (use recached_refl in simp)
  next
    case other
    with assms show ?thesis using recached_refl by (auto simp: new_leader_def)
  qed
qed

lemma transfer_instr_moved:
  assumes run: "transfer_instr address fi bb i ((p, g), m) = Some (Inr ((q, g'), m'))" and "\<not> skipped m i"
    and p: "disjoint_classes p"
  shows "(\<exists>k \<le> 1. moved (V_Inst i) k p q) \<and> (leaders_set p \<longrightarrow> leaders_set q) \<and> recached m m' \<and>
    next_value_number g \<le> next_value_number g' \<and> next_value_number g' \<le> Suc (next_value_number g) \<and>
    (fresh_above (next_value_number g) p \<and> next_value_number g < top_index \<longrightarrow>
       moved (V_Inst i) 1 p q \<and> fresh_above (next_value_number g') q)"
proof -
  from run assms(2) obtain r ve vpf where r: "erase_value (V_Inst i) p = Inr r"
    and rest: "(case (if i_op (instrs m ! i) = I_load then None else insert_same address (V_Inst i) ve vpf r) of
        Some p \<Rightarrow> returnP ((p, g\<lparr>next_object := next_object g + 1\<rparr>), m)
      | None \<Rightarrow> bindP (Some (new_leader r i m)) (\<lambda>(l, m).
          returnP (add_class ve l (V_Inst i) (r, g\<lparr>next_object := next_object g + 1\<rparr>), m))) = Some (Inr ((q, g'), m'))"
    by (auto simp: transfer_instr_def)
  have one: "classes_with (V_Inst i) p \<le> 1" using p by (simp add: disjoint_classes_def)
  note out = erase_value_moved [OF r one]
  have zero: "classes_with (V_Inst i) r = 0" using out(1) by (simp add: moved_def)
  show ?thesis
  proof (cases "if i_op (instrs m ! i) = I_load then None else insert_same address (V_Inst i) ve vpf r")
    case (Some s)
    with rest have s: "insert_same address (V_Inst i) ve vpf r = Some q" "g' = g\<lparr>next_object := next_object g + 1\<rparr>" "m' = m"
      by (auto split: if_splits)
    note kept = insert_same_moved [OF s(1) zero]
    from moved_trans [OF out(1) kept(1)] kept(2,3) out(2,3) show ?thesis using recached_refl by (auto simp: s(2,3))
  next
    case None
    let ?g = "g\<lparr>next_object := next_object g + 1\<rparr>"
    from None rest obtain l where l: "new_leader r i m = Inr (l, m')" and add: "add_class ve l (V_Inst i) (r, ?g) = (q, g')"
      by auto
    have new: "recached m m'" "l \<noteq> None" using new_leader_recached [OF l] by blast+
    note kept = add_class_moved [OF zero add new(2)]
    from kept(1) obtain k where "k \<le> 1" "moved (V_Inst i) k r q" by blast
    with moved_trans [OF out(1)] have "\<exists>k \<le> 1. moved (V_Inst i) k p q" by blast
    moreover have "moved (V_Inst i) 1 p q \<and> fresh_above (next_value_number g') q"
      if "fresh_above (next_value_number g) p" "next_value_number g < top_index"
      using kept(4) out(2) [OF that(1)] that(2) moved_trans [OF out(1)] by simp
    ultimately show ?thesis using new(1) kept(2,3) out(3) by simp
  qed
qed

text \<open>What a run over instructions keeps and does.\<close>

definition transferred :: "nat set \<Rightarrow> (partitions \<times> gvn) \<times> 'b ir_module_scheme \<Rightarrow> (partitions \<times> gvn) \<times> 'b ir_module_scheme \<Rightarrow> bool" where
  "transferred T s t = (case (s, t) of (((p, g), m), ((q, g'), m')) \<Rightarrow>
     (sorted_classes p \<longrightarrow> sorted_classes q) \<and> disjoint_classes q \<and> (leaders_set p \<longrightarrow> leaders_set q) \<and> recached m m' \<and>
     (\<forall>w. w \<notin> V_Inst ` T \<longrightarrow> classes_with w q = classes_with w p) \<and>
     (\<forall>w x. w \<notin> V_Inst ` T \<and> x \<notin> V_Inst ` T \<longrightarrow> together q w x = together p w x))"

definition all_classed :: "nat set \<Rightarrow> partitions \<times> gvn \<Rightarrow> bool" where
  "all_classed T s \<longleftrightarrow> fresh_above (next_value_number (snd s)) (fst s) \<and> (\<forall>i \<in> T. classes_with (V_Inst i) (fst s) = 1)"

lemma moved_disjoint: "disjoint_classes p \<Longrightarrow> moved v k p q \<Longrightarrow> k \<le> 1 \<Longrightarrow> disjoint_classes q"
  unfolding disjoint_classes_def moved_def by metis

lemma transfer_fold:
  "foldP (transfer_instr address fi bb) is ((p, g), m) = Some (Inr ((q, g'), m')) \<Longrightarrow> disjoint_classes p \<Longrightarrow>
   transferred {i \<in> set is. \<not> skipped m i} ((p, g), m) ((q, g'), m') \<and>
   (fresh_above (next_value_number g) p \<and> next_value_number g + length is \<le> top_index \<longrightarrow>
      all_classed {i \<in> set is. \<not> skipped m i} (q, g'))"
proof (induction "is" arbitrary: p g m)
  case Nil
  then show ?case using recached_refl by (auto simp: transferred_def all_classed_def)
next
  case (Cons i "is")
  from Cons.prems(1) obtain p1 g1 m1 where step: "transfer_instr address fi bb i ((p, g), m) = Some (Inr ((p1, g1), m1))"
    and run: "foldP (transfer_instr address fi bb) is ((p1, g1), m1) = Some (Inr ((q, g'), m'))" by auto
  show ?case
  proof (cases "skipped m i")
    case True
    with step have same: "p1 = p" "g1 = g" "m1 = m" by (simp_all add: transfer_instr_def)
    have "{j \<in> set (i # is). \<not> skipped m j} = {j \<in> set is. \<not> skipped m j}" using True by auto
    with Cons.IH [OF run] Cons.prems(2) show ?thesis by (simp add: same)
  next
    case False
    note one = transfer_instr_moved [OF step False Cons.prems(2)]
    from one obtain k where k: "k \<le> 1" "moved (V_Inst i) k p p1" by blast
    from one have kept: "leaders_set p \<longrightarrow> leaders_set p1" "recached m m1"
      "next_value_number g1 \<le> Suc (next_value_number g)" by blast+
    let ?T = "{j \<in> set is. \<not> skipped m j}"
    have T: "{j \<in> set is. \<not> skipped m1 j} = ?T" using recached_skipped [OF kept(2)] by simp
    have all: "{j \<in> set (i # is). \<not> skipped m j} = insert i ?T" using False by auto
    note rest = Cons.IH [OF run moved_disjoint [OF Cons.prems(2) k(2,1)], unfolded T]
    have "transferred (insert i ?T) ((p, g), m) ((q, g'), m')"
      using rest k(2) kept recached_trans [OF kept(2)] by (auto simp: transferred_def moved_def)
    moreover have "all_classed (insert i ?T) (q, g')"
      if start: "fresh_above (next_value_number g) p" "next_value_number g + length (i # is) \<le> top_index"
    proof -
      have "next_value_number g < top_index" using start(2) by simp
      with one start(1) have here: "moved (V_Inst i) 1 p p1" "fresh_above (next_value_number g1) p1" by blast+
      have "next_value_number g1 + length is \<le> top_index" using kept(3) start(2) by simp
      with rest here(2) have later: "all_classed ?T (q, g')" by blast
      have "classes_with (V_Inst i) q = 1" if "i \<notin> ?T"
      proof -
        have "classes_with (V_Inst i) q = classes_with (V_Inst i) p1" using that rest by (auto simp: transferred_def)
        with here(1) show ?thesis by (simp add: moved_def)
      qed
      with later show ?thesis by (auto simp: all_classed_def)
    qed
    ultimately show ?thesis unfolding all by blast
  qed
qed

text \<open>C18: whatever the numbers of the input are, what the transfer function of a block leaves is a partition
  again: sorted when it was, with no value in two classes, with a leader for every class but top when the input
  had them; values that are no instructions of the block are in as many classes and congruent to each other as
  before, and nothing of the module changes but the cache of constants. When the numbers in use are below the
  next one, every instruction of the block that has a value and is no phi is in exactly one class and the
  numbers stay below the next one. The code guarantees that in the first round only: every later one starts its
  numbers again, and an instruction whose new class gets a number in use is in no class.\<close>

theorem transferFunction_partitions:
  assumes "transferFunction address fi bb pin (g, m) = Some (Inr ((p, g'), m'))" and "disjoint_classes pin"
  shows "(sorted_classes pin \<longrightarrow> sorted_classes p) \<and> disjoint_classes p \<and> (leaders_set pin \<longrightarrow> leaders_set p) \<and> recached m m' \<and>
    (\<forall>v w. v \<notin> V_Inst ` set (instr_list (blocks m ! bb)) \<and> w \<notin> V_Inst ` set (instr_list (blocks m ! bb)) \<longrightarrow>
       classes_with v p = classes_with v pin \<and> together p v w = together pin v w) \<and>
    (fresh_above (next_value_number g) pin \<and> next_value_number g + length (instr_list (blocks m ! bb)) \<le> top_index \<longrightarrow>
       fresh_above (next_value_number g') p \<and>
       (\<forall>i \<in> set (instr_list (blocks m ! bb)). \<not> skipped m i \<longrightarrow> classes_with (V_Inst i) p = 1))"
proof -
  let ?is = "instr_list (blocks m ! bb)"
  have "foldP (transfer_instr address fi bb) ?is ((pin, g), m) = Some (Inr ((p, g'), m'))"
    using assms(1) by (simp add: transferFunction_def)
  note result = transfer_fold [OF this assms(2)]
  have "v \<notin> V_Inst ` {i \<in> set ?is. \<not> skipped m i}" if "v \<notin> V_Inst ` set ?is" for v using that by blast
  with result show ?thesis unfolding transferred_def all_classed_def case_prod_conv by simp
qed

definition one_plus_two :: ASTExpression where
  "one_plus_two = SimpleExpression (AdditiveExpression (Some (AdditiveExpression None OP_PLUS
     (Term None OP_MUL (F_Num \<lparr>num_type = TYPE_INT, num_val = 1\<rparr>)))) OP_PLUS
     (Term None OP_MUL (F_Num \<lparr>num_type = TYPE_INT, num_val = 2\<rparr>))) None OP_LE"

text \<open>\<open>int f(int n) { n = 1 + 2; return 1 + 2; }\<close>\<close>

definition repeated_program :: ASTProgram where
  "repeated_program = \<lparr>declarations = [D_Fun \<lparr>fd_type = TYPE_INT, fd_id = ''f'',
     fd_params = [\<lparr>p_type = TYPE_INT, p_id = ''n'', p_isarray = False\<rparr>], fd_compound_stmt = CompoundStmt []
       [ExpressionStmt (Some (AssignExpression (Var ''n'' None) one_plus_two)), ReturnStmt (Some one_plus_two)]\<rparr>]\<rparr>"

definition inst_order :: "irval \<Rightarrow> nat" where
  "inst_order v = (case v of V_Inst i \<Rightarrow> i | _ \<Rightarrow> 0)"

text \<open>The partition at the head of its only block.\<close>

definition entry_partition :: partitions where
  "entry_partition = fst (add_leaders [V_Arg 4 0] ([], 1))"

lemma transferFunction_partitions_witness:
  "\<exists>s p g' m'. codegen repeated_program = Inr s \<and>
     transferFunction inst_order new_func_info 0 entry_partition (new_gvn\<lparr>next_value_number := 2\<rparr>, s) = Some (Inr ((p, g'), m')) \<and>
     disjoint_classes p \<and> (\<forall>i \<in> {0, 2, 4}. classes_with (V_Inst i) p = 1) \<and> recached s m'"
proof -
  let ?g = "new_gvn\<lparr>next_value_number := 2\<rparr>"
  have "case codegen repeated_program of Inl _ \<Rightarrow> False | Inr s \<Rightarrow>
    returns (transferFunction inst_order new_func_info 0 entry_partition (new_gvn\<lparr>next_value_number := 2\<rparr>, s)) \<and>
    instr_list (blocks s ! 0) = [0, 1, 2, 3, 4, 5] \<and> map (skipped s) [0, 2, 4] = [False, False, False]" by code_simp
  from case_InrD [OF this] obtain s where s: "codegen repeated_program = Inr s"
    and run: "returns (transferFunction inst_order new_func_info 0 entry_partition (?g, s))"
    and code: "instr_list (blocks s ! 0) = [0, 1, 2, 3, 4, 5]" "map (skipped s) [0, 2, 4] = [False, False, False]"
    by (elim exE conjE) (rule that)
  from run obtain p g' m' where p: "transferFunction inst_order new_func_info 0 entry_partition (?g, s) = Some (Inr ((p, g'), m'))"
    by (auto simp: returns_iff)
  have "disjoint_classes entry_partition" "fresh_above (next_value_number ?g) entry_partition"
    by (simp_all add: entry_partition_def disjoint_classes_def fresh_above_def new_class_def)
  moreover have "next_value_number ?g + length (instr_list (blocks s ! 0)) \<le> top_index" by (simp add: code(1) top_index_def)
  ultimately have "disjoint_classes p \<and> recached s m' \<and> (\<forall>i \<in> set (instr_list (blocks s ! 0)). \<not> skipped s i \<longrightarrow> classes_with (V_Inst i) p = 1)"
    using transferFunction_partitions [OF p] by blast
  with s p code show ?thesis by auto
qed

end
