(* ===== verification/GVNReplace.thy ===== *)
theory GVNReplace
  imports GVNTransfer
begin

text \<open>
  What the replacement of members by leaders does to the operands: each operand of a live
  user goes through the replacements of the blocks the user is in, in their order. When
  the leaders of a block's partition are not replaced themselves, this is one step to the
  leader of the operand's class.
\<close>

section \<open>Composed effects\<close>

text \<open>An effect on operands that holds of each step composes along a run.\<close>

definition effect :: "irval set \<Rightarrow> (irval \<Rightarrow> irval \<Rightarrow> irval) \<Rightarrow> 'b ir_module_scheme \<Rightarrow> 'b ir_module_scheme \<Rightarrow> bool" where
  "effect D h m m' \<longleftrightarrow> (\<forall>u. u \<notin> D \<longrightarrow> operands (graph m') u = map (map_option (h u)) (operands (graph m) u))"

lemma effect_id: "effect D (\<lambda>_ x. x) m m"
  by (simp add: effect_def option.map_id0 [unfolded id_def])

lemma effect_comp: "effect D h m m' \<Longrightarrow> effect D k m' m'' \<Longrightarrow> effect D (\<lambda>u. k u \<circ> h u) m m''"
  by (simp add: effect_def option.map_comp comp_def)

lemma foldP_effect:
  assumes "\<And>x s. x \<in> set xs \<Longrightarrow> P s \<Longrightarrow> \<exists>s'. f x s = Some (Inr s') \<and> P s' \<and> effect D (h x) s s'" and "P s"
  shows "\<exists>s'. foldP f xs s = Some (Inr s') \<and> P s' \<and> effect D (\<lambda>u. fold (\<lambda>x. h x u) xs) s s'"
  using assms
proof (induction xs arbitrary: s)
  case (Cons x xs)
  from Cons.prems obtain s1 where s1: "f x s = Some (Inr s1)" "P s1" "effect D (h x) s s1" by (meson list.set_intros(1))
  from Cons.IH [OF Cons.prems(1) s1(2)] obtain s2 where s2: "foldP f xs s1 = Some (Inr s2)" "P s2" "effect D (\<lambda>u. fold (\<lambda>x. h x u) xs) s1 s2"
    by auto
  with s1(1) have "foldP f (x # xs) s = Some (Inr s2)" by simp
  moreover have "effect D (\<lambda>u. fold (\<lambda>x. h x u) (x # xs)) s s2" using effect_comp [OF s1(3) s2(3)] by simp
  ultimately show ?case using s2(2) by blast
qed (simp add: returnP_def effect_def option.map_id0)

text \<open>Steps that leave a value or take it to where an idempotent map takes it.\<close>

lemma fold_settles:
  assumes "\<And>a y. a \<in> set as \<Longrightarrow> f a y = y \<or> f a y = k y" and "\<And>y. k (k y) = k y"
  shows fold_settles_or: "fold f as x = x \<or> fold f as x = k x"
    and fold_settles_at: "b \<in> set as \<Longrightarrow> f b x = k x \<Longrightarrow> fold f as x = k x"
proof -
  have one: "fold f as x = x \<or> fold f as x = k x" if "\<And>a y. a \<in> set as \<Longrightarrow> f a y = y \<or> f a y = k y" for as x
    using that
  proof (induction as arbitrary: x)
    case (Cons a as)
    have "f a x = x \<or> f a x = k x" using Cons.prems by simp
    moreover have "fold f as (k x) = k x" using Cons.IH [of "k x"] Cons.prems assms(2) by auto
    moreover have "fold f as x = x \<or> fold f as x = k x" using Cons.IH [of x] Cons.prems by auto
    ultimately show ?case by (elim disjE) simp_all
  qed simp
  have stay: "fold f as (k x) = k x" if "\<And>a y. a \<in> set as \<Longrightarrow> f a y = y \<or> f a y = k y" for as x
    using one [of as "k x", OF that] assms(2) by auto
  show "fold f as x = x \<or> fold f as x = k x" by (rule one [OF assms(1)])
  show "fold f as x = k x" if "b \<in> set as" "f b x = k x"
    using assms(1) that(1)
  proof (induction as)
    case (Cons a as)
    have as: "\<And>a y. a \<in> set as \<Longrightarrow> f a y = y \<or> f a y = k y" using Cons.prems(1) by simp
    have kept: "fold f as (k x) = k x" by (rule stay) (rule as)
    have "f a x = x \<or> f a x = k x" using Cons.prems(1) by simp
    then show ?case
    proof
      assume x: "f a x = x"
      show ?thesis
      proof (cases "a = b")
        case True
        with x that(2) have "k x = x" by simp
        with x kept show ?thesis by simp
      next
        case False
        with x Cons.IH [OF as] Cons.prems(2) show ?thesis by simp
      qed
    next
      assume "f a x = k x"
      with kept show ?thesis by simp
    qed
  qed simp
qed

section \<open>The replacements\<close>

definition phi_value :: "'b ir_module_scheme \<Rightarrow> irval \<Rightarrow> bool" where
  "phi_value m v = (case v of V_Inst i \<Rightarrow> i_op (instrs m ! i) = I_phi | _ \<Rightarrow> False)"

definition replaceable :: "'b ir_module_scheme \<Rightarrow> congruence_class \<Rightarrow> irval \<Rightarrow> bool" where
  "replaceable m c v \<longleftrightarrow> Some v \<noteq> leader c \<and> (value_phi c \<noteq> None \<or> \<not> phi_value m v)"

definition replacement :: "'b ir_module_scheme \<Rightarrow> nat \<Rightarrow> congruence_class \<Rightarrow> irval \<Rightarrow> irval \<Rightarrow> irval \<Rightarrow> irval" where
  "replacement m bb c v u x = (if x = v \<and> replaceable m c v \<and> user_in_block m bb u then the (leader c) else x)"

definition class_replacement :: "'b ir_module_scheme \<Rightarrow> nat \<Rightarrow> congruence_class \<Rightarrow> irval \<Rightarrow> irval \<Rightarrow> irval" where
  "class_replacement m bb c u x = (if cc_index c = 0 then x else fold (\<lambda>v. replacement m bb c v u) (members c) x)"

definition block_replacement :: "'b ir_module_scheme \<Rightarrow> gvn \<Rightarrow> nat \<Rightarrow> irval \<Rightarrow> irval \<Rightarrow> irval" where
  "block_replacement m g bb u = fold (\<lambda>c. class_replacement m bb c u) (pout g bb)"

text \<open>A module that differs in its graph only.\<close>

definition regraphed :: "irval set \<Rightarrow> 'b ir_module_scheme \<Rightarrow> 'b ir_module_scheme \<Rightarrow> bool" where
  "regraphed D m m' \<longleftrightarrow> (\<exists>G. m' = m\<lparr>graph := G\<rparr>) \<and> uses_agree D (graph m') \<and>
     (\<forall>u. u \<notin> D \<and> operands (graph m') u \<noteq> [] \<longrightarrow> has_parent m u)"

lemma regraphed_user_in_block [simp]: "user_in_block (m\<lparr>graph := G\<rparr>) bb = user_in_block m bb"
proof
  show "user_in_block (m\<lparr>graph := G\<rparr>) bb u = user_in_block m bb u" for u
    by (cases u) (simp_all add: user_in_block_def split: option.split)
qed

lemma regraphed_phi_value [simp]: "phi_value (m\<lparr>graph := G\<rparr>) v = phi_value m v"
  by (cases v) (simp_all add: phi_value_def)

lemma replace_member_unfold: "replace_member bb c v m = (if replaceable m c v
    then if \<not> list_all (\<lambda>u. has_parent m (fst u)) (use_list (graph m) v) then failP NullDeref
         else case leader c of
           None \<Rightarrow> if list_ex (\<lambda>u. user_in_block m bb (fst u)) (use_list (graph m) v) then failP NullDeref else returnP m
         | Some l \<Rightarrow> bindP (replace_use_with_when (user_in_block m bb) v l (graph m)) (\<lambda>g. returnP (m\<lparr>graph := g\<rparr>))
    else returnP m)"
  by (simp only: replace_member_def replaceable_def phi_value_def)

lemma regraphed_replaceable [simp]: "replaceable (m\<lparr>graph := G\<rparr>) c v = replaceable m c v"
  by (simp add: replaceable_def)

lemma regraphed_has_parent [simp]: "has_parent (m\<lparr>graph := G\<rparr>) u = has_parent m u"
  by (cases u) (simp_all add: has_parent_def)

lemma replace_use_redirects:
  assumes agree: "uses_agree D G" and "v \<noteq> l"
  shows "\<exists>G'. replace_use_with_when pred v l G = Some (Inr G') \<and> uses_agree D G' \<and>
    (\<forall>u. u \<notin> D \<longrightarrow> operands G' u = map (\<lambda>x. if pred u \<and> x = Some v then Some l else x) (operands G u))"
proof (intro exI conjI)
  let ?m = "filter (\<lambda>x. pred (fst x)) (use_list G v)" and ?k = "filter (\<lambda>x. \<not> pred (fst x)) (use_list G v)"
  show "replace_use_with_when pred v l G = Some (Inr (replaced v l ?m ?k G))"
    by (rule replace_use_with_when_result [OF assms(2) uses_agree_positions [OF agree]])
  show "uses_agree D (replaced v l ?m ?k G)"
    by (rule replaced_agree [OF assms]) (auto simp: uses_agreeD(1) [OF agree])
  show "\<forall>u. u \<notin> D \<longrightarrow> operands (replaced v l ?m ?k G) u = map (\<lambda>x. if pred u \<and> x = Some v then Some l else x) (operands G u)"
    using redirect_uses [OF agree, of _ "set ?m" "pred _" v l] by (auto simp: replaced_def)
qed

lemma replace_member_effect:
  assumes s: "regraphed D m s" and l: "leader c = Some l"
  shows "\<exists>s'. replace_member bb c v s = Some (Inr s') \<and> regraphed D m s' \<and> effect D (replacement m bb c v) s s'"
proof (cases "replaceable m c v")
  case False
  from s obtain G where G: "s = m\<lparr>graph := G\<rparr>" by (auto simp: regraphed_def)
  have "replace_member bb c v s = Some (Inr s)"
    using False by (simp add: G replace_member_unfold returnP_def)
  moreover have "effect D (replacement m bb c v) s s"
    using False effect_id [of D s] by (simp add: effect_def replacement_def [abs_def])
  ultimately show ?thesis using s by blast
next
  case True
  from s obtain G where G: "s = m\<lparr>graph := G\<rparr>" and agree: "uses_agree D G"
    and parents: "\<forall>u. u \<notin> D \<and> operands G u \<noteq> [] \<longrightarrow> has_parent m u" by (auto simp: regraphed_def)
  have vl: "v \<noteq> l" using True l by (simp add: replaceable_def)
  have "has_parent m u" if "(u, i) \<in> set (use_list G v)" for u i
    using that uses_agreeD(2) [OF agree] parents by fastforce
  then have known: "list_all (\<lambda>u. has_parent m (fst u)) (use_list G v)" by (auto simp: list_all_iff)
  from replace_use_redirects [OF agree vl] obtain G' where run: "replace_use_with_when (user_in_block m bb) v l G = Some (Inr G')"
    and agree': "uses_agree D G'"
    and moved: "\<forall>u. u \<notin> D \<longrightarrow> operands G' u = map (\<lambda>x. if user_in_block m bb u \<and> x = Some v then Some l else x) (operands G u)" by blast
  have ops: "operands G' u = map (map_option (replacement m bb c v u)) (operands G u)" if "u \<notin> D" for u
    unfolding moved [rule_format, OF that]
  proof (rule map_cong [OF refl])
    show "(if user_in_block m bb u \<and> x = Some v then Some l else x) = map_option (replacement m bb c v u) x" for x
      using True l by (cases x) (auto simp: replacement_def)
  qed
  have "replace_member bb c v s = Some (Inr (m\<lparr>graph := G'\<rparr>))"
    using True known run l by (simp add: G replace_member_unfold returnP_def)
  moreover have "effect D (replacement m bb c v) s (m\<lparr>graph := G'\<rparr>)" using ops by (simp add: effect_def G)
  moreover have "regraphed D m (m\<lparr>graph := G'\<rparr>)"
    using parents ops agree' by (auto simp: regraphed_def)
  ultimately show ?thesis by blast
qed

lemma regraphed_step: "regraphed D m s \<Longrightarrow> \<exists>G. s = m\<lparr>graph := G\<rparr>"
  by (auto simp: regraphed_def)

lemma replace_class_effect:
  assumes s: "regraphed D m s" and l: "cc_index c \<noteq> 0 \<Longrightarrow> members c \<noteq> [] \<Longrightarrow> leader c \<noteq> None"
  shows "\<exists>s'. replace_class bb c s = Some (Inr s') \<and> regraphed D m s' \<and> effect D (class_replacement m bb c) s s'"
proof (cases "cc_index c = 0 \<or> members c = []")
  case True
  then have "class_replacement m bb c = (\<lambda>u x. x)" by (intro ext) (auto simp: class_replacement_def)
  then have "effect D (class_replacement m bb c) s s" using effect_id by metis
  with True s show ?thesis by (auto simp: replace_class_def returnP_def)
next
  case False
  with l have "leader c \<noteq> None" by simp
  then obtain k where "leader c = Some k" by blast
  then have "\<exists>s'. foldP (replace_member bb c) (members c) s = Some (Inr s') \<and> regraphed D m s' \<and>
      effect D (\<lambda>u. fold (\<lambda>v. replacement m bb c v u) (members c)) s s'"
    by (intro foldP_effect [where P = "regraphed D m" and h = "replacement m bb c"] replace_member_effect s)
  with False show ?thesis by (simp add: replace_class_def class_replacement_def [abs_def])
qed

definition leaders_known :: "gvn \<Rightarrow> nat list \<Rightarrow> bool" where
  "leaders_known g bbs \<longleftrightarrow> (\<forall>bb \<in> set bbs. \<forall>c \<in> set (pout g bb). cc_index c \<noteq> 0 \<and> members c \<noteq> [] \<longrightarrow> leader c \<noteq> None)"

lemma replace_block_effect:
  assumes "regraphed D m s" and "leaders_known g bbs" and "bb \<in> set bbs"
  shows "\<exists>s'. foldP (replace_class bb) (pout g bb) s = Some (Inr s') \<and> regraphed D m s' \<and> effect D (block_replacement m g bb) s s'"
  unfolding block_replacement_def [abs_def]
  by (rule foldP_effect [where P = "regraphed D m" and h = "class_replacement m bb"])
    (use assms in \<open>auto simp: leaders_known_def intro!: replace_class_effect\<close>)

lemma replace_cc_members_effect:
  assumes "regraphed D m m" and "leaders_known g (basic_blocks (function_list m ! f))"
  shows "\<exists>s'. replace_cc_members g f m = Some (Inr s') \<and> regraphed D m s' \<and>
    effect D (\<lambda>u. fold (\<lambda>bb. block_replacement m g bb u) (sort (basic_blocks (function_list m ! f)))) m s'"
  unfolding replace_cc_members_def
  by (rule foldP_effect [where P = "regraphed D m" and h = "block_replacement m g"])
    (use assms in \<open>auto intro!: replace_block_effect\<close>)

section \<open>Where an operand goes\<close>

text \<open>A single replacement: from a member to the leader of a class of a block the user is in.\<close>

definition replaces :: "gvn \<Rightarrow> nat list \<Rightarrow> 'b ir_module_scheme \<Rightarrow> irval \<Rightarrow> irval \<Rightarrow> irval \<Rightarrow> bool" where
  "replaces g bbs m u v l \<longleftrightarrow> (\<exists>bb \<in> set bbs. user_in_block m bb u \<and>
     (\<exists>c \<in> set (pout g bb). cc_index c \<noteq> 0 \<and> v \<in> set (members c) \<and> replaceable m c v \<and> leader c = Some l))"

lemma fold_along: "(\<And>a y. a \<in> set as \<Longrightarrow> R\<^sup>*\<^sup>* y (f a y)) \<Longrightarrow> R\<^sup>*\<^sup>* x (fold f as x)"
proof (induction as arbitrary: x)
  case (Cons a as)
  have "R\<^sup>*\<^sup>* x (f a x)" and "R\<^sup>*\<^sup>* (f a x) (fold f as (f a x))" using Cons by auto
  then show ?case by simp
qed simp

lemma block_replacement_along:
  assumes "leaders_known g bbs" and "bb \<in> set bbs"
  shows "(replaces g bbs m u)\<^sup>*\<^sup>* x (block_replacement m g bb u x)"
  unfolding block_replacement_def
proof (rule fold_along)
  fix c y assume c: "c \<in> set (pout g bb)"
  show "(replaces g bbs m u)\<^sup>*\<^sup>* y (class_replacement m bb c u y)"
  proof (cases "cc_index c = 0 \<or> members c = []")
    case False
    with c assms obtain l where l: "leader c = Some l" by (auto simp: leaders_known_def)
    have "replaces g bbs m u v l" if "v \<in> set (members c)" "replaceable m c v" "user_in_block m bb u" for v
      using that assms(2) c False l by (auto simp: replaces_def)
    then have "(replaces g bbs m u)\<^sup>*\<^sup>* y (replacement m bb c v u y)" if "v \<in> set (members c)" for v y
      using that by (auto simp: replacement_def l)
    then have "(replaces g bbs m u)\<^sup>*\<^sup>* y (fold (\<lambda>v. replacement m bb c v u) (members c) y)" by (rule fold_along)
    with False show ?thesis by (simp add: class_replacement_def)
  qed (auto simp: class_replacement_def)
qed

text \<open>
  The one class that replaces a value, when the partition has one; settled partitions do
  not replace their leaders.
\<close>

definition canonical :: "'b ir_module_scheme \<Rightarrow> partitions \<Rightarrow> irval \<Rightarrow> irval" where
  "canonical m p v = (case find (\<lambda>c. cc_index c \<noteq> 0 \<and> v \<in> set (members c) \<and> replaceable m c v) p of
     None \<Rightarrow> v | Some c \<Rightarrow> the (leader c))"

definition settled :: "'b ir_module_scheme \<Rightarrow> partitions \<Rightarrow> bool" where
  "settled m p \<longleftrightarrow> disjoint_classes p \<and> (\<forall>c \<in> set p. cc_index c \<noteq> 0 \<longrightarrow> canonical m p (the (leader c)) = the (leader c))"

lemma classes_with_unique:
  assumes "disjoint_classes p" and "c \<in> set p" and "d \<in> set p" and "v \<in> set (members c)" and "v \<in> set (members d)"
  shows "c = d"
proof -
  let ?q = "filter (\<lambda>c. v \<in> set (members c)) p"
  have "length ?q \<le> 1" using assms(1) by (simp add: disjoint_classes_def classes_with_def)
  moreover have "c \<in> set ?q" "d \<in> set ?q" using assms(2-5) by simp_all
  ultimately show ?thesis by (cases ?q) auto
qed

lemma canonical_of:
  assumes "disjoint_classes p" and "c \<in> set p" and "cc_index c \<noteq> 0" and "v \<in> set (members c)" and "replaceable m c v"
  shows "canonical m p v = the (leader c)"
proof -
  let ?P = "\<lambda>c. cc_index c \<noteq> 0 \<and> v \<in> set (members c) \<and> replaceable m c v"
  have "find ?P p \<noteq> None" using assms(2-5) by (auto simp: find_None_iff)
  then obtain d where d: "find ?P p = Some d" by blast
  then have "d \<in> set p" "v \<in> set (members d)" by (auto simp: find_Some_iff)
  then have "d = c" using classes_with_unique [OF assms(1)] assms(2,4) by blast
  with d show ?thesis by (simp add: canonical_def)
qed

lemma canonical_idem: "settled m p \<Longrightarrow> canonical m p (canonical m p v) = canonical m p v"
  by (auto simp: canonical_def [of m p v] settled_def find_Some_iff find_None_iff split: option.split)

lemma class_replacement_settles:
  assumes "settled m p" and "c \<in> set p" and "user_in_block m bb u"
  shows "class_replacement m bb c u y = y \<or> class_replacement m bb c u y = canonical m p y"
    and "cc_index c \<noteq> 0 \<Longrightarrow> y \<in> set (members c) \<Longrightarrow> replaceable m c y \<Longrightarrow> class_replacement m bb c u y = canonical m p y"
proof -
  have disjoint: "disjoint_classes p" using assms(1) by (simp add: settled_def)
  have each: "replacement m bb c v u y = y \<or> replacement m bb c v u y = canonical m p y"
    if "v \<in> set (members c)" "cc_index c \<noteq> 0" for v y
  proof (cases "y = v \<and> replaceable m c v")
    case True
    with canonical_of [OF disjoint assms(2) that(2,1), of m] show ?thesis by (simp add: replacement_def)
  next
    case False
    then have "replacement m bb c v u y = y" by (auto simp: replacement_def)
    then show ?thesis by blast
  qed
  note idem = canonical_idem [OF assms(1)]
  show "class_replacement m bb c u y = y \<or> class_replacement m bb c u y = canonical m p y"
  proof (cases "cc_index c = 0")
    case False
    then show ?thesis using fold_settles_or [of "members c" "\<lambda>v. replacement m bb c v u" "canonical m p", OF each idem]
      by (simp add: class_replacement_def)
  qed (simp add: class_replacement_def)
  assume c: "cc_index c \<noteq> 0" "y \<in> set (members c)" "replaceable m c y"
  then have "replacement m bb c y u y = canonical m p y"
    using canonical_of [OF disjoint assms(2) c] assms(3) by (simp add: replacement_def)
  then show "class_replacement m bb c u y = canonical m p y"
    using fold_settles_at [of "members c" "\<lambda>v. replacement m bb c v u" "canonical m p", OF each idem c(2)] c(1)
    by (simp add: class_replacement_def)
qed

lemma block_replacement_settled:
  assumes "settled m (pout g bb)" and "user_in_block m bb u"
  shows "block_replacement m g bb u x = canonical m (pout g bb) x"
proof (cases "find (\<lambda>c. cc_index c \<noteq> 0 \<and> x \<in> set (members c) \<and> replaceable m c x) (pout g bb)")
  case None
  then have "canonical m (pout g bb) x = x" by (simp add: canonical_def)
  moreover have "block_replacement m g bb u x = x \<or> block_replacement m g bb u x = canonical m (pout g bb) x"
    unfolding block_replacement_def
    by (rule fold_settles_or [OF class_replacement_settles(1) [OF assms(1) _ assms(2)] canonical_idem [OF assms(1)]])
  ultimately show ?thesis by auto
next
  case (Some c)
  then have c: "c \<in> set (pout g bb)" "cc_index c \<noteq> 0" "x \<in> set (members c)" "replaceable m c x" by (auto simp: find_Some_iff)
  have "class_replacement m bb c u x = canonical m (pout g bb) x"
    by (rule class_replacement_settles(2) [OF assms(1) c(1) assms(2) c(2-4)])
  then show ?thesis unfolding block_replacement_def
    by (rule fold_settles_at [where f = "\<lambda>c. class_replacement m bb c u" and b = c and k = "canonical m (pout g bb)", rotated 3])
      (rule class_replacement_settles(1) [OF assms(1) _ assms(2)] canonical_idem [OF assms(1)] c(1), assumption?)+
qed

lemma block_replacement_outside: "\<not> user_in_block m bb u \<Longrightarrow> block_replacement m g bb u x = x"
proof -
  assume "\<not> user_in_block m bb u"
  then have "replacement m bb c v u = id" for c v by (auto simp: replacement_def)
  then have "class_replacement m bb c u = id" for c by (auto simp: class_replacement_def fold_id)
  then show ?thesis by (simp add: block_replacement_def fold_id)
qed

lemma blocks_replacement_settled:
  assumes "bb \<in> set bbs" and "settled m (pout g bb)" and "\<And>b. user_in_block m b u \<longleftrightarrow> b = bb"
  shows "fold (\<lambda>b. block_replacement m g b u) bbs x = canonical m (pout g bb) x"
proof (rule fold_settles_at [where f = "\<lambda>b. block_replacement m g b u" and b = bb and k = "canonical m (pout g bb)"])
  fix b y
  show "block_replacement m g b u y = y \<or> block_replacement m g b u y = canonical m (pout g bb) y"
  proof (cases "b = bb")
    case True
    then show ?thesis using block_replacement_settled [OF assms(2)] assms(3) by simp
  next
    case False
    then show ?thesis using block_replacement_outside assms(3) by blast
  qed
next
  show "block_replacement m g bb u x = canonical m (pout g bb) x" using block_replacement_settled [OF assms(2)] assms(3) by simp
qed (use assms(1) canonical_idem [OF assms(2)] in simp_all)

section \<open>The result\<close>

text \<open>C19: when every class has a leader and every user a block, the replacement ends, changes operands only and
  keeps the use lists exact; each operand of a live user is reached from the old one by steps from a member to
  the leader of a class of a block the user is in; and in an instruction other than a phi, when the partition of
  its block has disjoint classes that do not replace their leaders, each operand becomes the leader of its class.\<close>

theorem replace_cc_members_correct:
  assumes "uses_agree D (graph m)" and "\<forall>u. u \<notin> D \<and> operands (graph m) u \<noteq> [] \<longrightarrow> has_parent m u"
    and "leaders_known g (basic_blocks (function_list m ! f))"
  shows "\<exists>G. replace_cc_members g f m = Some (Inr (m\<lparr>graph := G\<rparr>)) \<and> uses_agree D G \<and>
    (\<forall>u. u \<notin> D \<longrightarrow> list_all2 (rel_option (replaces g (basic_blocks (function_list m ! f)) m u)\<^sup>*\<^sup>*) (operands (graph m) u) (operands G u)) \<and>
    (\<forall>i bb. V_Inst i \<notin> D \<and> i_op (instrs m ! i) \<noteq> I_phi \<and> i_parent (instrs m ! i) = Some bb \<and>
       bb \<in> set (basic_blocks (function_list m ! f)) \<and> settled m (pout g bb) \<longrightarrow>
       operands G (V_Inst i) = map (map_option (canonical m (pout g bb))) (operands (graph m) (V_Inst i)))"
proof -
  let ?bbs = "basic_blocks (function_list m ! f)" and ?h = "\<lambda>u. fold (\<lambda>bb. block_replacement m g bb u) (sort (basic_blocks (function_list m ! f)))"
  have "m = m\<lparr>graph := graph m\<rparr>" by simp
  with assms(1,2) have "regraphed D m m" unfolding regraphed_def by blast
  from replace_cc_members_effect [OF this assms(3)] obtain s where run: "replace_cc_members g f m = Some (Inr s)"
    and s: "regraphed D m s" and eff: "effect D ?h m s" by blast
  from s obtain G where G: "s = m\<lparr>graph := G\<rparr>" "uses_agree D G" by (auto simp: regraphed_def)
  have ops: "operands G u = map (map_option (?h u)) (operands (graph m) u)" if "u \<notin> D" for u
    using eff that by (simp add: effect_def G(1))
  have "rel_option (replaces g ?bbs m u)\<^sup>*\<^sup>* x (map_option (?h u) x)" for u x
  proof (cases x)
    case (Some y)
    have "(replaces g ?bbs m u)\<^sup>*\<^sup>* y (?h u y)" by (rule fold_along) (use block_replacement_along [OF assms(3)] in simp)
    with Some show ?thesis by simp
  qed simp
  then have "\<forall>u. u \<notin> D \<longrightarrow> list_all2 (rel_option (replaces g ?bbs m u)\<^sup>*\<^sup>*) (operands (graph m) u) (operands G u)"
    by (simp add: ops list.rel_map list_all2_same)
  moreover have "operands G (V_Inst i) = map (map_option (canonical m (pout g bb))) (operands (graph m) (V_Inst i))"
    if i: "V_Inst i \<notin> D \<and> i_op (instrs m ! i) \<noteq> I_phi \<and> i_parent (instrs m ! i) = Some bb \<and> bb \<in> set ?bbs \<and> settled m (pout g bb)" for i bb
  proof -
    have "user_in_block m b (V_Inst i) \<longleftrightarrow> b = bb" for b using i by (auto simp: user_in_block_def)
    then have "?h (V_Inst i) = canonical m (pout g bb)" using i by (intro ext blocks_replacement_settled) simp_all
    with ops i show ?thesis by simp
  qed
  ultimately show ?thesis using run G by blast
qed

lemma repeated_module:
  obtains s g m where "codegen repeated_program = Inr s"
    and "detectEquivalences inst_order new_func_info 4 (new_gvn, s) = Some (Inr (g, m))"
    and "map (\<lambda>c. (cc_index c, leader c, value_phi c, members c)) (pout g 0) = [(1, Some (V_Arg 4 0), None, [V_Arg 4 0]),
      (2, Some (V_Inst 0), None, [V_Inst 0]), (3, Some (V_Int 3), None, [V_Inst 2, V_Inst 4])]"
    and "operands (graph s) (V_Inst 5) = [Some (V_Inst 4)]" and "basic_blocks (function_list s ! 4) = [0]"
    and "map i_op (instrs s) = [I_alloca, I_store, I_add, I_store, I_add, I_ret]" and "map i_parent (instrs s) = replicate 6 (Some 0)"
proof -
  have "case codegen repeated_program of Inl _ \<Rightarrow> False | Inr s \<Rightarrow>
    (case detectEquivalences inst_order new_func_info 4 (new_gvn, s) of Some (Inr (g, m)) \<Rightarrow>
       map (\<lambda>c. (cc_index c, leader c, value_phi c, members c)) (pout g 0) = [(1, Some (V_Arg 4 0), None, [V_Arg 4 0]),
        (2, Some (V_Inst 0), None, [V_Inst 0]), (3, Some (V_Int 3), None, [V_Inst 2, V_Inst 4])] | _ \<Rightarrow> False) \<and>
    operands (graph s) (V_Inst 5) = [Some (V_Inst 4)] \<and> basic_blocks (function_list s ! 4) = [0] \<and>
    map i_op (instrs s) = [I_alloca, I_store, I_add, I_store, I_add, I_ret] \<and> map i_parent (instrs s) = replicate 6 (Some 0)" by code_simp
  from case_InrD [OF this] obtain s where s: "codegen repeated_program = Inr s"
    and g: "case detectEquivalences inst_order new_func_info 4 (new_gvn, s) of Some (Inr (g, m)) \<Rightarrow>
       map (\<lambda>c. (cc_index c, leader c, value_phi c, members c)) (pout g 0) = [(1, Some (V_Arg 4 0), None, [V_Arg 4 0]),
        (2, Some (V_Inst 0), None, [V_Inst 0]), (3, Some (V_Int 3), None, [V_Inst 2, V_Inst 4])] | _ \<Rightarrow> False"
    and rest: "operands (graph s) (V_Inst 5) = [Some (V_Inst 4)]" "basic_blocks (function_list s ! 4) = [0]"
      "map i_op (instrs s) = [I_alloca, I_store, I_add, I_store, I_add, I_ret]" "map i_parent (instrs s) = replicate 6 (Some 0)"
    by (elim exE conjE) (rule that)
  obtain h m where "detectEquivalences inst_order new_func_info 4 (new_gvn, s) = Some (Inr (h, m))"
    using g by (cases "detectEquivalences inst_order new_func_info 4 (new_gvn, s)";
      cases "the (detectEquivalences inst_order new_func_info 4 (new_gvn, s))") auto
  with g that [OF s this _ rest] show thesis by simp
qed

lemma replace_cc_members_correct_witness:
  "\<exists>s g m G. codegen repeated_program = Inr s \<and> detectEquivalences inst_order new_func_info 4 (new_gvn, s) = Some (Inr (g, m)) \<and>
     replace_cc_members g 4 s = Some (Inr (s\<lparr>graph := G\<rparr>)) \<and> operands (graph s) (V_Inst 5) = [Some (V_Inst 4)] \<and>
     operands G (V_Inst 5) = [Some (V_Int 3)]"
proof -
  obtain s g m where s: "codegen repeated_program = Inr s"
    and g: "detectEquivalences inst_order new_func_info 4 (new_gvn, s) = Some (Inr (g, m))"
    and p: "map (\<lambda>c. (cc_index c, leader c, value_phi c, members c)) (pout g 0) = [(1, Some (V_Arg 4 0), None, [V_Arg 4 0]),
      (2, Some (V_Inst 0), None, [V_Inst 0]), (3, Some (V_Int 3), None, [V_Inst 2, V_Inst 4])]"
    and ret: "operands (graph s) (V_Inst 5) = [Some (V_Inst 4)]" and bbs: "basic_blocks (function_list s ! 4) = [0]"
    and ops: "map i_op (instrs s) = [I_alloca, I_store, I_add, I_store, I_add, I_ret]" and parents: "map i_parent (instrs s) = replicate 6 (Some 0)"
    by (rule repeated_module)
  have users: "users_agree s" using codegen_ir_ok [OF s] by (simp add: ir_ok_def)
  have six: "length (instrs s) = 6" using arg_cong [OF ops, of length] by simp
  have inst: "i_op (instrs s ! i) = map i_op (instrs s) ! i" "i_parent (instrs s ! i) = map i_parent (instrs s) ! i" if "i < 6" for i
    using that six by simp_all
  have "has_parent s u" if "operands (graph s) u \<noteq> []" for u
  proof -
    have "existing_user s u" using that users by (auto simp: users_agree_def)
    then show ?thesis using inst(2) parents six by (cases u) (auto simp: has_parent_def)
  qed
  moreover from p obtain c1 c2 c3 where c: "pout g 0 = [c1, c2, c3]" "leader c1 = Some (V_Arg 4 0)" "leader c2 = Some (V_Inst 0)" "leader c3 = Some (V_Int 3)"
    "members c1 = [V_Arg 4 0]" "members c2 = [V_Inst 0]" "members c3 = [V_Inst 2, V_Inst 4]" "cc_index c3 = 3" "value_phi c3 = None"
    by (auto simp: map_eq_Cons_conv)
  then have "leaders_known g (basic_blocks (function_list s ! 4))" by (simp add: bbs leaders_known_def)
  moreover have "settled s (pout g 0)" by (auto simp: settled_def c disjoint_classes_def canonical_def replaceable_def)
  moreover have "canonical s (pout g 0) (V_Inst 4) = V_Int 3"
    using inst(1) [of 4] ops by (simp add: c canonical_def replaceable_def phi_value_def)
  moreover have "i_op (instrs s ! 5) \<noteq> I_phi" "i_parent (instrs s ! 5) = Some 0"
    using inst [of 5] ops parents by (simp_all add: nth_replicate)
  ultimately obtain G where "replace_cc_members g 4 s = Some (Inr (s\<lparr>graph := G\<rparr>))" "operands G (V_Inst 5) = [Some (V_Int 3)]"
    using replace_cc_members_correct [of "{}" s g 4] users ret bbs by (auto simp: users_agree_def)
  with s g ret show ?thesis by blast
qed

end
