(* ===== verification/GVNCode.thy ===== *)
theory GVNCode
  imports GVNReplace DeadCodeProps
begin

text \<open>
  What the pass keeps of the code, whenever it returns: both runs of dead code elimination
  erase no terminator and no store, the analysis changes nothing but the cache of constants,
  and the replacement changes no operand that is a block, because no block is a member of a
  class.
\<close>

section \<open>The code that is kept\<close>

text \<open>
  The module from which the instructions in \<open>S\<close> have been erased; the local values may
  have got names.
\<close>

definition code_less :: "irval set \<Rightarrow> 'b ir_module_scheme \<Rightarrow> nat set \<Rightarrow> 'b ir_module_scheme \<Rightarrow> bool" where
  "code_less D m0 S m \<longleftrightarrow> length (instrs m) = length (instrs m0) \<and> length (function_list m) = length (function_list m0) \<and>
     global_list m = global_list m0 \<and> length (blocks m) = length (blocks m0) \<and>
     (\<forall>i. unnamed_instr (instrs m ! i) = unnamed_instr (instrs m0 ! i)) \<and>
     (\<forall>f. unnamed_fun (function_list m ! f) = unnamed_fun (function_list m0 ! f)) \<and>
     (\<forall>b < length (blocks m0). unnamed_bb (blocks m ! b) =
        unnamed_bb ((blocks m0 ! b)\<lparr>instr_list := filter (\<lambda>i. i \<notin> S) (instr_list (blocks m0 ! b))\<rparr>)) \<and>
     (\<forall>i \<in> S. i_op (instrs m0 ! i) \<notin> {I_br, I_ret, I_store}) \<and> uses_agree (D \<union> V_Inst ` S) (graph m) \<and>
     (\<forall>u. u \<notin> D \<union> V_Inst ` S \<longrightarrow> length (operands (graph m) u) = length (operands (graph m0) u) \<and>
        (\<forall>k < length (operands (graph m0) u). \<forall>b. operands (graph m0) u ! k = Some (V_Block b) \<longrightarrow>
           operands (graph m) u ! k = Some (V_Block b)))"

definition code_kept_from :: "irval set \<Rightarrow> 'b ir_module_scheme \<Rightarrow> 'b ir_module_scheme \<Rightarrow> bool" where
  "code_kept_from D m0 m \<longleftrightarrow> (\<exists>S. code_less D m0 S m)"

lemma code_less_start: "uses_agree D (graph m) \<Longrightarrow> code_less D m {} m"
  by (simp add: code_less_def)

lemma code_lessD:
  assumes "code_less D m0 S m"
  shows "length (instrs m) = length (instrs m0)" "length (function_list m) = length (function_list m0)"
    "length (blocks m) = length (blocks m0)"
    "i_op (instrs m ! i) = i_op (instrs m0 ! i)" "i_parent (instrs m ! i) = i_parent (instrs m0 ! i)"
    "basic_blocks (function_list m ! f) = basic_blocks (function_list m0 ! f)"
    "b < length (blocks m0) \<Longrightarrow> instr_list (blocks m ! b) = filter (\<lambda>i. i \<notin> S) (instr_list (blocks m0 ! b)) \<and>
       bb_parent (blocks m ! b) = bb_parent (blocks m0 ! b)"
  using assms unnamed_fields(1) [of "instrs m ! i" "instrs m0 ! i"] unnamed_fields(2) [of "blocks m ! b"]
    unnamed_fields(3) [of "function_list m ! f" "function_list m0 ! f"]
  by (fastforce simp: code_less_def)+

lemma code_less_well_placed:
  assumes "code_less D m0 S m" and "well_placed m0"
  shows "well_placed m"
  using assms(2) by (simp add: well_placed_def code_lessD [OF assms(1)])

lemma code_less_recached: "code_less D m0 S m \<Longrightarrow> recached m m' \<Longrightarrow> code_less D m0 S m'"
  by (auto simp: code_less_def recached_def)

lemma code_less_but_names: "code_less D m0 S m \<Longrightarrow> but_names m m' \<Longrightarrow> code_less D m0 S m'"
  by (simp add: code_less_def but_names_def)

section \<open>Printing\<close>

text \<open>Printing classes names values and changes nothing else.\<close>

definition naming :: "('b, 'a) ir \<Rightarrow> bool" where
  "naming c \<longleftrightarrow> (\<forall>m x m'. c m = Inr (x, m') \<longrightarrow> but_names m m')"

lemma naming_return: "naming (returnS x)" and naming_get: "naming (getS h)" and naming_lift: "naming (liftR r)"
  and naming_deref: "naming (derefS y)" and naming_done: "naming (\<lambda>m. Inr (x, m))"
  by (simp_all add: naming_def)

lemma naming_bind: "naming c \<Longrightarrow> (\<And>x. naming (k x)) \<Longrightarrow> naming (bindS c k)"
  by (fastforce simp: naming_def intro: but_names_trans)

lemmas naming_intros = naming_return naming_get naming_lift naming_deref naming_done naming_bind

lemma set_instr_name_but_names: "but_names m (set_instr_name f m)"
proof -
  let ?base = "seq_cnt (function_list m ! f)"
  obtain seq m1 where run: "name_all ?base (named_values m f) ([], m) = (seq, m1)" by fastforce
  have local: "local_value v" if "v \<in> set (named_values m f)" for v
    using that by (auto simp: named_values_def arguments_def block_values_def)
  have "but_names m m1" using name_all_but_names [of "named_values m f" "([], m)" ?base, OF local] by (simp add: run)
  with but_names_seq_cnt show ?thesis by (auto simp: set_instr_name_all run Let_def intro: but_names_trans)
qed

lemma naming_print_Function: "naming (print_Function f)"
  unfolding print_Function_def thenS_def
  by (intro naming_intros) (simp add: naming_def set_instr_name_but_names)

lemma naming_value_print: "naming (value_print v)"
  by (cases v) (auto intro!: naming_intros naming_print_Function)

lemma naming_expr_print: "naming (expr_print e :: ('b, string) ir)" "naming (exprs_print es :: ('b, string) ir)"
  by (induction e and es rule: expr_print_exprs_print.induct) (auto intro!: naming_intros naming_value_print)

lemma naming_members_print: "naming (members_print vs)"
  by (induction vs) (auto intro!: naming_intros naming_value_print)

lemma naming_class: "naming (print_congruence_class c)"
  unfolding print_congruence_class_def annotation_print_def
  by (auto intro!: naming_intros naming_value_print naming_expr_print naming_members_print split: option.split)

lemma naming_partition: "naming (print_partition p)"
  by (induction p) (auto intro!: naming_intros naming_class)

lemma naming_seq: "\<forall>c \<in> set cs. naming c \<Longrightarrow> naming (seqS cs)"
  by (induction cs) (auto simp: thenS_def intro!: naming_intros)

lemma log_partitions_but_names: "log_partitions g f m = Inr (x, m') \<Longrightarrow> but_names m m'"
proof -
  have "naming (log_partitions g f)"
    unfolding log_partitions_def print_pins_def print_pouts_def thenS_def
    by (intro naming_intros naming_seq) (auto intro!: naming_intros naming_partition split: option.split)
  then show "log_partitions g f m = Inr (x, m') \<Longrightarrow> but_names m m'" unfolding naming_def by blast
qed

section \<open>Dead code\<close>

text \<open>Marks are never taken back, and what has an effect whatever the calls do is marked.\<close>

lemma mark_inst_marked [simp]: "marked (mark_inst i dc) j \<longleftrightarrow> j = i \<or> marked dc j"
  by (simp add: mark_inst_def)

lemma mark_operands_marked: "mark_operands m i ops dc = Inr dc' \<Longrightarrow> marked dc j \<Longrightarrow> marked dc' j"
proof (induction m i ops dc arbitrary: dc' rule: mark_operands.induct)
  case (2 m i op ops dc)
  then show ?case by (auto split: option.splits irval.splits if_splits)
qed simp

lemma mark_loop_marked: "mark_loop m dc = Some (Inr dc') \<Longrightarrow> marked dc j \<Longrightarrow> marked dc' j"
proof -
  have "r = Inr dc' \<longrightarrow> marked dc j \<longrightarrow> marked dc' j" if "mark_loop m dc = Some r" for m dc r
  proof (rule mark_loop.raw_induct [OF _ that], intro impI)
    fix loop m dc r
    assume IH: "\<And>m dc r. loop m dc = Some r \<Longrightarrow> r = Inr dc' \<longrightarrow> marked dc j \<longrightarrow> marked dc' j"
      and run: "(case work_list dc of [] \<Rightarrow> returnP dc
        | now # rest \<Rightarrow> bindP (Some (mark_uses m now (dc\<lparr>work_list := rest\<rparr>))) (loop m)) = Some r"
      and r: "r = Inr dc'" and j: "marked dc j"
    show "marked dc' j"
    proof (cases "work_list dc")
      case Nil
      with run r j show ?thesis by simp
    next
      case (Cons now rest)
      with run r obtain dc1 where dc1: "mark_uses m now (dc\<lparr>work_list := rest\<rparr>) = Inr dc1" "loop m dc1 = Some (Inr dc')" by auto
      have "marked dc1 j" by (rule mark_operands_marked [OF dc1(1) [unfolded mark_uses_def]]) (simp add: j)
      with IH [OF dc1(2)] show ?thesis by simp
    qed
  qed
  then show "mark_loop m dc = Some (Inr dc') \<Longrightarrow> marked dc j \<Longrightarrow> marked dc' j" by blast
qed

definition effect_of_itself :: "'b ir_module_scheme \<Rightarrow> nat \<Rightarrow> bool" where
  "effect_of_itself m i \<longleftrightarrow> i_op (instrs m ! i) \<in> {I_br, I_ret, I_store}"

lemma mark_critical_marked:
  "mark_critical m fi is dc = Inr dc' \<Longrightarrow> marked dc j \<or> j \<in> set is \<and> effect_of_itself m j \<Longrightarrow> marked dc' j"
proof (induction m fi "is" dc arbitrary: dc' rule: mark_critical.induct)
  case (2 m fi i "is" dc)
  then obtain c where c: "is_critical m fi i = Inr c" "mark_critical m fi is (if c then mark_inst i dc else dc) = Inr dc'" by auto
  have "c" if "effect_of_itself m i" using c(1) that by (auto simp: is_critical_def effect_of_itself_def)
  with "2.IH" [OF c] "2.prems"(2) show ?case by auto
qed simp

lemma mark_function_marked:
  assumes "mark_function m fi f dc = Some (Inr dc')" and "j \<in> set (function_instrs m f)" and "effect_of_itself m j"
  shows "marked dc' j"
proof -
  from assms(1) obtain dc1 where "mark_critical m fi (function_instrs m f) (dc\<lparr>work_list := [], marked := (\<lambda>_. False)\<rparr>) = Inr dc1"
    and loop: "mark_loop m dc1 = Some (Inr dc')" by (auto simp: mark_function_def)
  with assms(2,3) have "marked dc1 j" by (auto intro: mark_critical_marked)
  with loop show ?thesis by (rule mark_loop_marked)
qed

lemma remove_uses_returned:
  "seqS (map remove_use_of_ops_ir is) m = Inr (x, m') \<Longrightarrow> uses_agree D (graph m) \<Longrightarrow>
   \<exists>g. m' = m\<lparr>graph := g\<rparr> \<and> operands g = operands (graph m) \<and> uses_agree (D \<union> V_Inst ` set is) g"
proof (induction "is" arbitrary: m D)
  case Nil
  then show ?case by (intro exI [of _ "graph m"]) simp
next
  case (Cons i "is")
  from Cons.prems(1) obtain y m1 where first: "remove_use_of_ops_ir i m = Inr (y, m1)"
    and later: "seqS (map remove_use_of_ops_ir is) m1 = Inr (x, m')" by (auto simp: thenS_def)
  from first obtain g1 where g1: "remove_use_of_ops (V_Inst i) (graph m) = Inr g1" and "m1 = m\<lparr>graph := g1\<rparr>"
    by (auto simp: remove_use_of_ops_ir_def)
  with later have rest: "seqS (map remove_use_of_ops_ir is) (m\<lparr>graph := g1\<rparr>) = Inr (x, m')" by simp
  have ops: "operands g1 = operands (graph m)" using g1 remove_uses_result by (fastforce simp: remove_use_of_ops_def)
  have "uses_agree (insert (V_Inst i) D) (graph (m\<lparr>graph := g1\<rparr>))" using remove_use_of_ops_agree [OF Cons.prems(2) g1] by simp
  from Cons.IH [OF rest this] obtain g where "m' = m\<lparr>graph := g1\<rparr>\<lparr>graph := g\<rparr>" "operands g = operands g1"
    "uses_agree (insert (V_Inst i) D \<union> V_Inst ` set is) g" by auto
  with ops show ?case by (intro exI [of _ g]) simp
qed

lemma sweep_less:
  assumes run: "sweep f dc m = Inr ((c, dc'), m')" and less: "code_less D m0 S m" and well: "well_placed m0"
    and f: "f < length (function_list m0)"
    and marks: "\<forall>i \<in> set (function_instrs m f). effect_of_itself m0 i \<longrightarrow> marked dc i"
  shows "code_kept_from D m0 m'"
proof -
  let ?W = "filter (\<lambda>i. \<not> marked dc i) (function_instrs m f)"
  from run obtain m1 where m1: "seqS (map remove_use_of_ops_ir ?W) m = Inr ((), m1)" and m2: "seqS (map erase_instruction ?W) m1 = Inr ((), m')"
    by (auto simp: sweep_def thenS_def)
  have agree: "uses_agree (D \<union> V_Inst ` S) (graph m)" using less by (simp add: code_less_def)
  from remove_uses_returned [OF m1 agree] obtain g where g: "m1 = m\<lparr>graph := g\<rparr>" "operands g = operands (graph m)"
    "uses_agree (D \<union> V_Inst ` S \<union> V_Inst ` set ?W) g" by blast
  have wm: "well_placed m" by (rule code_less_well_placed [OF less well])
  have placed: "\<forall>b < length (blocks m1). distinct (instr_list (blocks m1 ! b)) \<and>
      (\<forall>i \<in> set (instr_list (blocks m1 ! b)). i_parent (instrs m1 ! i) = Some b)"
    using wm by (simp add: well_placed_def g(1))
  have fm: "f < length (function_list m)" using f by (simp add: code_lessD [OF less])
  have "\<forall>i \<in> set ?W. \<exists>b < length (blocks m1). i_parent (instrs m1 ! i) = Some b"
  proof
    fix i assume "i \<in> set ?W"
    then have "i \<in> set (function_instrs m f)" by simp
    then obtain b where "b < length (blocks m)" "i_parent (instrs m ! i) = Some b" by (rule listed_in_block [OF wm fm])
    then show "\<exists>b < length (blocks m1). i_parent (instrs m1 ! i) = Some b" by (auto simp: g(1))
  qed
  note parents = this
  from erase_all [OF placed parents] m2 obtain bs where bs: "m' = m1\<lparr>blocks := bs\<rparr>" "length bs = length (blocks m)"
    "\<forall>b < length (blocks m). bs ! b = (blocks m ! b)\<lparr>instr_list := filter (\<lambda>i. i \<notin> set ?W) (instr_list (blocks m ! b))\<rparr>"
    by (auto simp: g(1))
  have "unnamed_bb (bs ! b) = unnamed_bb ((blocks m0 ! b)\<lparr>instr_list := filter (\<lambda>i. i \<notin> S \<union> set ?W) (instr_list (blocks m0 ! b))\<rparr>)"
    if b: "b < length (blocks m0)" for b
  proof -
    have "unnamed_bb (blocks m ! b) = unnamed_bb ((blocks m0 ! b)\<lparr>instr_list := filter (\<lambda>i. i \<notin> S) (instr_list (blocks m0 ! b))\<rparr>)"
      using less b by (simp add: code_less_def)
    moreover have "bs ! b = (blocks m ! b)\<lparr>instr_list := filter (\<lambda>i. i \<notin> S \<union> set ?W) (instr_list (blocks m0 ! b))\<rparr>"
      using bs(3) b code_lessD(3,7) [OF less] by (simp add: conj_commute)
    ultimately show ?thesis by (cases "blocks m ! b"; cases "blocks m0 ! b") (simp add: unnamed_bb_def)
  qed
  moreover have "\<forall>i \<in> S \<union> set ?W. i_op (instrs m0 ! i) \<notin> {I_br, I_ret, I_store}"
    using less marks by (auto simp: code_less_def effect_of_itself_def)
  moreover have "D \<union> V_Inst ` (S \<union> set ?W) = D \<union> V_Inst ` S \<union> V_Inst ` set ?W" by auto
  ultimately have "code_less D m0 (S \<union> set ?W) m'"
    using less bs(2) g(2,3) unfolding code_less_def bs(1) g(1) by simp
  then show ?thesis unfolding code_kept_from_def by blast
qed

lemma dead_code_function_less:
  assumes "dead_code_function fi f (ch, dc, m) = Some (Inr (ch', dc', m'))" and "code_kept_from D m0 m" and well: "well_placed m0"
    and f: "f < length (function_list m0)"
  shows "code_kept_from D m0 m'"
proof -
  from assms(2) obtain S where less: "code_less D m0 S m" by (auto simp: code_kept_from_def)
  from assms(1) obtain dc1 c where mark: "mark_function m fi f dc = Some (Inr dc1)" and sweep: "sweep f dc1 m = Inr ((c, dc'), m')"
    by (auto simp: dead_code_function_def)
  have "i_op (instrs m ! i) = i_op (instrs m0 ! i)" for i by (rule code_lessD(4) [OF less])
  then have "\<forall>i \<in> set (function_instrs m f). effect_of_itself m0 i \<longrightarrow> marked dc1 i"
    using mark_function_marked [OF mark] by (simp add: effect_of_itself_def)
  with sweep_less [OF sweep less well f] show ?thesis by blast
qed

text \<open>What every element of a list keeps, the run over the list keeps.\<close>

lemma foldP_invariant:
  "foldP f xs s = Some (Inr s') \<Longrightarrow> P s \<Longrightarrow> (\<And>x s s'. x \<in> set xs \<Longrightarrow> P s \<Longrightarrow> f x s = Some (Inr s') \<Longrightarrow> P s') \<Longrightarrow> P s'"
proof (induction xs arbitrary: s)
  case (Cons x xs)
  from Cons.prems(1) obtain s1 where s1: "f x s = Some (Inr s1)" "foldP f xs s1 = Some (Inr s')" by auto
  have "P s1" by (rule Cons.prems(3) [OF _ Cons.prems(2) s1(1)]) simp
  with Cons.IH [OF s1(2)] Cons.prems(3) show ?case by (meson list.set_intros(2))
qed simp

lemma dead_code_loop_less:
  assumes run: "dead_code_loop fi (dc, m) = Some (Inr (dc', m'))" and "code_kept_from D m0 m" and well: "well_placed m0"
  shows "code_kept_from D m0 m'"
proof -
  have "r = Inr (dc', m') \<longrightarrow> code_kept_from D m0 (snd s) \<longrightarrow> code_kept_from D m0 m'" if "dead_code_loop fi s = Some r" for s r
  proof (rule dead_code_loop.raw_induct [OF _ that, where P = "\<lambda>fi s r. r = Inr (dc', m') \<longrightarrow> code_kept_from D m0 (snd s) \<longrightarrow> code_kept_from D m0 m'"], intro impI)
    fix loop fi s r
    assume IH: "\<And>fi s r. loop fi s = Some r \<Longrightarrow> r = Inr (dc', m') \<longrightarrow> code_kept_from D m0 (snd s) \<longrightarrow> code_kept_from D m0 m'"
      and step: "bindP (foldP (dead_code_function fi) [0..<length (function_list (snd s))] (False, s)) (\<lambda>r.
        if fst r then loop fi (snd r) else returnP (snd r)) = Some r"
      and r: "r = Inr (dc', m')" and kept: "code_kept_from D m0 (snd s)"
    from step r obtain t where t: "foldP (dead_code_function fi) [0..<length (function_list (snd s))] (False, s) = Some (Inr t)"
      and rest: "(if fst t then loop fi (snd t) else returnP (snd t)) = Some (Inr (dc', m'))" by auto
    have fs: "length (function_list (snd s)) = length (function_list m0)" using kept by (auto simp: code_kept_from_def code_less_def)
    have "code_kept_from D m0 (snd (snd t))"
    proof (rule foldP_invariant [OF t, where P = "\<lambda>t. code_kept_from D m0 (snd (snd t))"])
      fix f t t' assume "f \<in> set [0..<length (function_list (snd s))]" "code_kept_from D m0 (snd (snd t))"
        "dead_code_function fi f t = Some (Inr t')"
      then show "code_kept_from D m0 (snd (snd t'))"
        using dead_code_function_less [OF _ _ well] fs by (cases t; cases t') auto
    qed (simp add: kept)
    with rest IH [of fi "snd t"] show "code_kept_from D m0 m'" by (auto split: if_splits)
  qed
  with run assms(2) show ?thesis by fastforce
qed

lemma dead_code_run_less:
  "dead_code_run m = Some (Inr (dc, m')) \<Longrightarrow> code_kept_from D m0 m \<Longrightarrow> well_placed m0 \<Longrightarrow> code_kept_from D m0 m'"
  by (auto simp: dead_code_run_def intro: dead_code_loop_less)

section \<open>The members of the classes\<close>

definition all_members :: "partitions \<Rightarrow> irval set" where
  "all_members p = \<Union> (set ` members ` set p)"

text \<open>Values that are no blocks.\<close>

definition no_blocks :: "partitions \<Rightarrow> bool" where
  "no_blocks p \<longleftrightarrow> all_members p \<inter> range V_Block = {}"

lemma all_members_simps [simp]:
  "all_members [] = {}" "all_members (c # p) = set (members c) \<union> all_members p" "all_members (p @ q) = all_members p \<union> all_members q"
  by (auto simp: all_members_def)

lemma no_blocks_mono: "no_blocks p \<Longrightarrow> all_members q \<subseteq> all_members p \<Longrightarrow> no_blocks q"
  by (auto simp: no_blocks_def)

lemma no_blocks_insert: "no_blocks p \<Longrightarrow> all_members q \<subseteq> insert (V_Inst i) (all_members p) \<Longrightarrow> no_blocks q"
  by (auto simp: no_blocks_def)

lemma emplace_members: "all_members (emplace c p) \<subseteq> set (members c) \<union> all_members p"
  by (induction p) auto

lemma erase_member_members: "set (members (erase_member v c)) \<subseteq> set (members c)"
  by (auto simp: erase_member_def)

lemma erase_value_members: "erase_value v p = Inr q \<Longrightarrow> all_members q \<subseteq> all_members p"
proof (induction v p arbitrary: q rule: erase_value.induct)
  case (2 v c cs)
  then show ?case using erase_member_members [of v c] by (auto split: if_splits list.splits) blast+
qed simp

lemma insert_same_members: "insert_same address v ve vpf p = Some q \<Longrightarrow> all_members q \<subseteq> insert v (all_members p)"
  using insert_same_split [of address v ve vpf p q] by auto

lemma add_class_members:
  assumes "add_class ve l v (p, g) = (q, g')"
  shows "all_members q \<subseteq> insert v (all_members p)" and "pout g' = pout g"
proof -
  from assms obtain k where "q = emplace k p" "members k = [v]" by (auto simp: add_class_def)
  then show "all_members q \<subseteq> insert v (all_members p)" using emplace_members [of k p] by simp
  show "pout g' = pout g" using assms by (auto simp: add_class_def)
qed

lemma join_members:
  assumes "join P Q n = Inr (R, k)"
  shows "all_members R \<subseteq> all_members P \<union> all_members Q"
proof -
  have "all_members R \<subseteq> all_members P" if "join_rows P Q [] n = (R, k)"
  proof -
    have "members ` set R \<subseteq> (\<Union>c \<in> set P. meets c Q)" using join_rows_sound [OF that] by simp
    moreover have "set vs \<subseteq> all_members P" if "vs \<in> (\<Union>c \<in> set P. meets c Q)" for vs
      using that by (auto simp: meets_def all_members_def)
    ultimately show ?thesis unfolding all_members_def by blast
  qed
  with assms show ?thesis by (cases "(P, Q, n)" rule: join.cases) (auto split: if_splits list.splits)
qed

lemma copy_classes_members:
  "copy_classes address v op p = Inr (b, q) \<Longrightarrow> all_members q \<subseteq> insert v (all_members p)"
proof (induction address v op p arbitrary: b q rule: copy_classes.induct)
  case (2 address v op c cs)
  have into: "set (members (copy_into address v op d)) \<subseteq> insert v (set (members d))" for d by (auto simp: copy_into_def)
  let ?c = "if v \<in> set (members c) then erase_member v c else c"
  have less: "set (members ?c) \<subseteq> set (members c)" using erase_member_members by simp
  show ?case
  proof (cases "v \<in> set (members c) \<and> members ?c = []")
    case True
    with "2.prems" obtain d ds b1 r where r: "cs = d # ds" "copy_classes address v op ds = Inr (b1, r)" "q = copy_into address v op d # r"
      by (auto simp: Let_def split: list.splits)
    from "2.IH"(1) [OF refl True r(1,2)] into [of d] show ?thesis by (auto simp: r)
  next
    case False
    with "2.prems" obtain b1 r where r: "copy_classes address v op cs = Inr (b1, r)" "q = copy_into address v op ?c # r"
      by (auto simp: Let_def)
    from "2.IH"(2) [OF refl False r(1)] into [of ?c] less show ?thesis by (auto simp: r(2))
  qed
qed simp

section \<open>The analysis\<close>

definition clean :: "gvn \<Rightarrow> bool" where
  "clean g \<longleftrightarrow> (\<forall>b. no_blocks (pout g b))"

lemma clean_set_pout: "clean g \<Longrightarrow> no_blocks p \<Longrightarrow> clean (set_pout b p g)"
  by (simp add: clean_def set_pout_def)

lemma transfer_instr_clean:
  assumes run: "transfer_instr address fi bb i ((p, g), m) = Some (Inr ((q, g'), m'))" and p: "no_blocks p"
  shows "no_blocks q \<and> pout g' = pout g \<and> recached m m'"
proof (cases "skipped m i")
  case True
  with run p recached_refl show ?thesis by (auto simp: transfer_instr_def)
next
  case False
  with run obtain r ve vpf where r: "erase_value (V_Inst i) p = Inr r"
    and rest: "(case (if i_op (instrs m ! i) = I_load then None else insert_same address (V_Inst i) ve vpf r) of
        Some p \<Rightarrow> returnP ((p, g\<lparr>next_object := next_object g + 1\<rparr>), m)
      | None \<Rightarrow> bindP (Some (new_leader r i m)) (\<lambda>(l, m).
          returnP (add_class ve l (V_Inst i) (r, g\<lparr>next_object := next_object g + 1\<rparr>), m))) = Some (Inr ((q, g'), m'))"
    by (auto simp: transfer_instr_def)
  have nr: "no_blocks r" by (rule no_blocks_mono [OF p erase_value_members [OF r]])
  show ?thesis
  proof (cases "if i_op (instrs m ! i) = I_load then None else insert_same address (V_Inst i) ve vpf r")
    case (Some s)
    with rest have "insert_same address (V_Inst i) ve vpf r = Some q" "g' = g\<lparr>next_object := next_object g + 1\<rparr>" "m' = m"
      by (auto split: if_splits)
    with no_blocks_insert [OF nr insert_same_members] recached_refl show ?thesis by auto
  next
    case None
    let ?g = "g\<lparr>next_object := next_object g + 1\<rparr>"
    from None rest obtain l where l: "new_leader r i m = Inr (l, m')" and add: "add_class ve l (V_Inst i) (r, ?g) = (q, g')"
      by auto
    from no_blocks_insert [OF nr add_class_members(1) [OF add]] add_class_members(2) [OF add] new_leader_recached [OF l]
    show ?thesis by simp
  qed
qed

lemma transferFunction_clean:
  assumes "transferFunction address fi bb pin (g, m) = Some (Inr ((p, g'), m'))" and "no_blocks pin"
  shows "no_blocks p \<and> pout g' = pout g \<and> recached m m'"
proof -
  let ?P = "\<lambda>s. no_blocks (fst (fst s)) \<and> pout (snd (fst s)) = pout g \<and> recached m (snd s)"
  have run: "foldP (transfer_instr address fi bb) (instr_list (blocks m ! bb)) ((pin, g), m) = Some (Inr ((p, g'), m'))"
    using assms(1) by (simp add: transferFunction_def)
  have "?P ((p, g'), m')"
  proof (rule foldP_invariant [OF run, where P = ?P])
    show "?P ((pin, g), m)" using assms(2) recached_refl by simp
    fix i s s' assume s: "?P s" and step: "transfer_instr address fi bb i s = Some (Inr s')"
    obtain q h n q' h' n' where "s = ((q, h), n)" "s' = ((q', h'), n')" by (metis prod.collapse)
    with s transfer_instr_clean [of address fi bb i q h n q' h' n'] step recached_trans show "?P s'" by auto
  qed
  then show ?thesis by simp
qed

lemma copy_phi_clean: "copy_phi address bb (V_Inst i) op g = Inr g' \<Longrightarrow> clean g \<Longrightarrow> clean g'"
proof -
  assume run: "copy_phi address bb (V_Inst i) op g = Inr g'" and g: "clean g"
  then obtain x where x: "copy_classes address (V_Inst i) op (pout g bb) = Inr x"
    by (cases "copy_classes address (V_Inst i) op (pout g bb)") (simp_all add: copy_phi_def)
  obtain flag p where p: "copy_classes address (V_Inst i) op (pout g bb) = Inr (flag, p)" using x by (cases x) blast
  have np: "no_blocks p" using no_blocks_insert [OF _ copy_classes_members [OF p]] g by (simp add: clean_def)
  show "clean g'"
  proof (cases flag)
    case True
    with run p clean_set_pout [OF g np] show ?thesis by (auto simp: copy_phi_def)
  next
    case False
    obtain q h where add: "add_class (ConstantExpression op) op (V_Inst i) (p, g) = (q, h)" by (metis prod.collapse)
    have "clean h" using add_class_members(2) [OF add] g by (simp add: clean_def)
    from clean_set_pout [OF this no_blocks_insert [OF np add_class_members(1) [OF add]]] False run p add show ?thesis
      by (auto simp: copy_phi_def)
  qed
qed

lemma copy_instrs_clean: "copy_instrs address m bb is g = Inr g' \<Longrightarrow> clean g \<Longrightarrow> clean g'"
proof (induction address m bb "is" g rule: copy_instrs.induct)
  case (2 address m bb i "is" g)
  show ?case
  proof (cases "i_op (instrs m ! i) = I_phi")
    case True
    with "2.prems"(1) obtain op0 op1 op2 op3 ops where ops: "operands (graph m) (V_Inst i) = op0 # op1 # op2 # op3 # ops"
      by (auto split: list.splits)
    with True "2.prems"(1) obtain g1 g2 where g1: "(if op1 = Some (V_Block bb) then copy_phi address bb (V_Inst i) op0 g else Inr g) = Inr g1"
      and g2: "(if op3 = Some (V_Block bb) then copy_phi address bb (V_Inst i) op2 g1 else Inr g1) = Inr g2"
      and rest: "copy_instrs address m bb is g2 = Inr g'" by auto
    have "clean g1" using g1 "2.prems"(2) copy_phi_clean by (auto split: if_splits)
    then have "clean g2" using g2 copy_phi_clean by (auto split: if_splits)
    from "2.IH"(1) [OF True ops refl refl refl g1 g2 rest this] show ?thesis .
  next
    case False
    with "2.IH"(2) [OF False] "2.prems" show ?thesis by simp
  qed
qed simp

lemma flow_clean:
  assumes "flow address fi bb pin (g, m) = Some (Inr (g', m'))" and "no_blocks pin" and "clean g"
  shows "clean g' \<and> recached m m'"
proof -
  from assms(1) obtain p h where tr: "transferFunction address fi bb pin (set_pin bb pin g, m) = Some (Inr ((p, h), m'))"
    and copy: "copy_stmt address m' bb (set_pout bb p h) = Inr g'" by (auto simp: flow_def)
  from transferFunction_clean [OF tr assms(2)] assms(3) have "no_blocks p" "clean h" "recached m m'"
    by (simp_all add: clean_def set_pin_def)
  with copy_instrs_clean [OF copy [unfolded copy_stmt_def]] clean_set_pout show ?thesis by blast
qed

lemma add_leaders_members: "all_members (fst (add_leaders vs (p, n))) \<subseteq> set vs \<union> all_members p"
proof (induction vs arbitrary: p n)
  case (Cons v vs)
  let ?c = "(new_class n)\<lparr>leader := Some v, members := [v]\<rparr>"
  have "all_members (emplace ?c p) \<subseteq> insert v (all_members p)" using emplace_members [of ?c p] by simp
  with Cons.IH [of "emplace ?c p" "n + 1"] show ?case by auto
qed simp

lemma init_block_clean:
  assumes "init_block address fi bb (g, m) = Some (Inr (g', m'))" and "clean g"
  shows "clean g' \<and> recached m m'"
proof (cases "pre_bbs (blocks m ! bb) = []")
  case False
  have "no_blocks top" by (simp add: top_def new_class_def no_blocks_def)
  with False assms recached_refl clean_set_pout show ?thesis by (auto simp: init_block_def)
next
  case True
  let ?vs = "arguments_of m (bb_parent (blocks m ! bb)) @ map V_Global [0..<length (global_list m)]"
  obtain pin n where pin: "add_leaders ?vs ([], next_value_number g) = (pin, n)" by (metis prod.collapse)
  have "all_members pin \<subseteq> set ?vs" using add_leaders_members [of ?vs "[]" "next_value_number g"] unfolding pin by simp
  then have "no_blocks pin" by (auto simp: no_blocks_def arguments_of_def)
  moreover have "clean (g\<lparr>next_value_number := n\<rparr>)" using assms(2) by (simp add: clean_def)
  moreover have "flow address fi bb pin (g\<lparr>next_value_number := n\<rparr>, m) = Some (Inr (g', m'))"
    using assms(1) True by (simp add: init_block_def pin)
  ultimately show ?thesis using flow_clean by blast
qed

lemma block_input_clean:
  assumes "block_input m bb g = Inr (Some (pin, g'))" and "clean g"
  shows "no_blocks pin \<and> clean g'"
proof -
  consider a where "pre_bbs (blocks m ! bb) = [a]" | a b where "pre_bbs (blocks m ! bb) = [a, b]"
    using assms(1) by (auto simp: block_input_def split: list.splits)
  then show ?thesis
  proof cases
    case 1
    with assms show ?thesis by (auto simp: block_input_def clean_def)
  next
    case (2 a b)
    with assms(1) obtain n where n: "join (pout g a) (pout g b) (next_value_number g) = Inr (pin, n)" and g': "g' = g\<lparr>next_value_number := n\<rparr>"
      by (auto simp: block_input_def)
    from join_members [OF n] assms(2) show ?thesis by (auto simp: g' clean_def no_blocks_def)
  qed
qed

lemma iterate_block_clean:
  assumes "iterate_block address fi bb (ch, g, m) = Some (Inr (ch', g', m'))" and "clean g"
  shows "clean g' \<and> recached m m'"
proof -
  from assms(1) obtain x where x: "block_input m bb g = Inr x" by (auto simp: iterate_block_def)
  show ?thesis
  proof (cases x)
    case None
    with x assms recached_refl show ?thesis by (auto simp: iterate_block_def)
  next
    case (Some y)
    obtain pin h where y: "y = (pin, h)" by (metis prod.collapse)
    from assms(1) x Some y have "flow address fi bb pin (h, m) = Some (Inr (g', m'))" by (auto simp: iterate_block_def)
    with block_input_clean [OF x [unfolded Some y] assms(2)] flow_clean show ?thesis by blast
  qed
qed

lemma iterate_clean:
  assumes run: "iterate address fi bbs n (g, m) = Some (Inr (g', m'))" and "clean g"
  shows "clean g' \<and> recached m m'"
proof -
  let ?P = "\<lambda>s r. r = Inr (g', m') \<longrightarrow> clean (fst s) \<longrightarrow> clean g' \<and> recached (snd s) m'"
  have "?P s r" if "iterate address fi bbs n s = Some r" for s r
  proof (rule iterate.raw_induct [OF _ that, where P = "\<lambda>address fi bbs n s r. ?P s r"], intro impI)
    fix loop address fi bbs n s r
    assume IH: "\<And>address fi bbs n s r. loop address fi bbs n s = Some r \<Longrightarrow> ?P s r"
      and step: "bindP (foldP (iterate_block address fi) bbs (False, (fst s)\<lparr>next_value_number := n\<rparr>, snd s)) (\<lambda>r.
        if fst r then loop address fi bbs n (snd r) else returnP (snd r)) = Some r"
      and r: "r = Inr (g', m')" and g: "clean (fst s)"
    from step r obtain t where t: "foldP (iterate_block address fi) bbs (False, (fst s)\<lparr>next_value_number := n\<rparr>, snd s) = Some (Inr t)"
      and rest: "(if fst t then loop address fi bbs n (snd t) else returnP (snd t)) = Some (Inr (g', m'))" by auto
    let ?Q = "\<lambda>t. clean (fst (snd t)) \<and> recached (snd s) (snd (snd t))"
    have "?Q t"
    proof (rule foldP_invariant [OF t, where P = ?Q])
      show "?Q (False, (fst s)\<lparr>next_value_number := n\<rparr>, snd s)" using g recached_refl by (simp add: clean_def)
      fix bb t t' assume "?Q t" "iterate_block address fi bb t = Some (Inr t')"
      then show "?Q t'" by (cases t; cases t') (auto dest!: iterate_block_clean intro: recached_trans)
    qed
    with rest IH [of address fi bbs n "snd t" r] r recached_trans show "clean g' \<and> recached (snd s) m'"
      by (auto split: if_splits)
  qed
  with run assms(2) show ?thesis by fastforce
qed

lemma detectEquivalences_clean:
  assumes run: "detectEquivalences address fi f (g, m) = Some (Inr (g', m'))" and "clean g"
  shows "clean g' \<and> recached m m'"
proof -
  let ?bbs = "basic_blocks (function_list m ! f)"
  from run obtain h n where init: "foldP (init_block address fi) ?bbs (g, m) = Some (Inr (h, n))"
    and loop: "iterate address fi ?bbs (next_value_number h) (h, n) = Some (Inr (g', m'))"
    by (auto simp: detectEquivalences_def Let_def)
  let ?Q = "\<lambda>t. clean (fst t) \<and> recached m (snd t)"
  have "?Q (h, n)"
  proof (rule foldP_invariant [OF init, where P = ?Q])
    show "?Q (g, m)" using assms(2) recached_refl by simp
    fix bb t t' assume "?Q t" "init_block address fi bb t = Some (Inr t')"
    then show "?Q t'" by (cases t; cases t') (auto dest!: init_block_clean intro: recached_trans)
  qed
  with iterate_clean [OF loop] recached_trans show ?thesis by auto
qed

section \<open>The replacement\<close>

lemma replace_use_less:
  assumes less: "code_less D m0 S m" and "v \<noteq> l" and v: "\<forall>b. v \<noteq> V_Block b"
    and run: "replace_use_with_when pred v l (graph m) = Some (Inr G)"
  shows "code_less D m0 S (m\<lparr>graph := G\<rparr>)"
proof -
  let ?D = "D \<union> V_Inst ` S" and ?f = "\<lambda>u x. if pred u \<and> x = Some v then Some l else x"
  have "uses_agree ?D (graph m)" using less by (simp add: code_less_def)
  from replace_use_redirects [OF this assms(2), of pred] run have agree: "uses_agree ?D G"
    and ops: "\<forall>u. u \<notin> ?D \<longrightarrow> operands G u = map (?f u) (operands (graph m) u)" by auto
  have "V_Block b \<noteq> v" for b using v by auto
  then show ?thesis using less agree ops by (simp add: code_less_def)
qed

lemma replace_member_less:
  assumes run: "replace_member bb c v m = Some (Inr m')" and less: "code_less D m0 S m" and v: "\<forall>b. v \<noteq> V_Block b"
  shows "code_less D m0 S m'"
proof (cases "replaceable m c v \<and> leader c \<noteq> None")
  case False
  with run less show ?thesis by (auto simp: replace_member_unfold split: if_splits)
next
  case True
  then obtain l where l: "leader c = Some l" and "v \<noteq> l" by (auto simp: replaceable_def)
  from run True l obtain G where "replace_use_with_when (user_in_block m bb) v l (graph m) = Some (Inr G)" "m' = m\<lparr>graph := G\<rparr>"
    by (auto simp: replace_member_unfold split: if_splits)
  with replace_use_less [OF less \<open>v \<noteq> l\<close> v] show ?thesis by blast
qed

lemma replace_class_less:
  assumes run: "replace_class bb c m = Some (Inr m')" and less: "code_less D m0 S m" and c: "set (members c) \<inter> range V_Block = {}"
  shows "code_less D m0 S m'"
proof (cases "cc_index c = 0")
  case False
  with run have "foldP (replace_member bb c) (members c) m = Some (Inr m')" by (simp add: replace_class_def)
  then show ?thesis
  proof (rule foldP_invariant [where P = "code_less D m0 S"])
    fix v s s' assume "v \<in> set (members c)" "code_less D m0 S s" "replace_member bb c v s = Some (Inr s')"
    with replace_member_less [of bb c v s s' D m0 S] c show "code_less D m0 S s'" by blast
  qed (rule less)
qed (use run less in \<open>simp add: replace_class_def\<close>)

lemma replace_cc_members_less:
  assumes run: "replace_cc_members g f m = Some (Inr m')" and less: "code_less D m0 S m" and g: "clean g"
  shows "code_less D m0 S m'"
proof (rule foldP_invariant [OF run [unfolded replace_cc_members_def], where P = "code_less D m0 S"])
  fix bb s s' assume s: "code_less D m0 S s" and "foldP (replace_class bb) (pout g bb) s = Some (Inr s')"
  then show "code_less D m0 S s'"
  proof (elim foldP_invariant [where P = "code_less D m0 S"])
    fix c s s' assume c: "c \<in> set (pout g bb)" "code_less D m0 S s" "replace_class bb c s = Some (Inr s')"
    have "set (members c) \<inter> range V_Block = {}" using g c(1) by (auto simp: clean_def no_blocks_def all_members_def)
    with replace_class_less c(2,3) show "code_less D m0 S s'" by blast
  qed
qed (rule less)

section \<open>The pass\<close>

lemma gvn_function_less:
  assumes run: "gvn_function address fi dj f (js, g, m) = Some (Inr (js', g', m'))" and kept: "code_kept_from D m0 m"
  shows "code_kept_from D m0 m'"
proof (cases "basic_blocks (function_list m ! f) = []")
  case True
  with run kept show ?thesis by (auto simp: gvn_function_def)
next
  case False
  with run obtain h n x k where analysis: "detectEquivalences address fi f (initPerFunction g, m) = Some (Inr (h, n))"
    and log: "log_partitions h f n = Inr (x, k)" and replace: "replace_cc_members h f k = Some (Inr m')"
    by (auto simp: gvn_function_def split: if_splits prod.splits)
  have "clean (initPerFunction g)" by (simp add: clean_def initPerFunction_def no_blocks_def)
  from detectEquivalences_clean [OF analysis this] have "clean h" "recached m n" by simp_all
  from kept obtain S where "code_less D m0 S m" by (auto simp: code_kept_from_def)
  from code_less_but_names [OF code_less_recached [OF this \<open>recached m n\<close>] log_partitions_but_names [OF log]]
  have "code_less D m0 S k" .
  with replace_cc_members_less [OF replace] \<open>clean h\<close> show ?thesis by (auto simp: code_kept_from_def)
qed

text \<open>C20: when global value numbering returns, the module has the functions, globals, blocks and
  instructions it had, but for names: the values of a function that the log prints get theirs, and its
  counter of names moves. Each block lists its instructions in their old order less some that are
  neither terminators nor stores, use lists and operands of what is left agree, and every operand
  that was a block is still that block: the control flow is the one before the pass.\<close>

theorem gvn_run_keeps_code:
  assumes "gvn_run address dump_json m = Some (Inr (json, m'))" and "well_placed m" and "uses_agree D (graph m)"
  shows "\<exists>S. code_less D m S m'"
proof -
  have well: "well_placed m" by (rule assms(2))
  from assms(1) obtain fi dc n js h k dc' where first: "dead_code_run m = Some (Inr (dc, n))"
    and numbering: "foldP (gvn_function address fi dump_json) [0..<length (function_list n)]
      (if dump_json then ''['' else [], new_gvn, n) = Some (Inr (js, h, k))"
    and second: "dead_code_run k = Some (Inr (dc', m'))" by (auto simp: gvn_run_def)
  have "code_kept_from D m m" using code_less_start [OF assms(3)] unfolding code_kept_from_def by blast
  with dead_code_run_less [OF first _ well] have "code_kept_from D m n" .
  have "code_kept_from D m (snd (snd (js, h, k)))"
  proof (rule foldP_invariant [OF numbering, where P = "\<lambda>t. code_kept_from D m (snd (snd t))"])
    fix f t t' assume "code_kept_from D m (snd (snd t))" "gvn_function address fi dump_json f t = Some (Inr t')"
    then show "code_kept_from D m (snd (snd t'))" by (cases t; cases t') (auto intro: gvn_function_less)
  qed (use \<open>code_kept_from D m n\<close> in simp)
  with dead_code_run_less [OF second _ well] show ?thesis by (simp add: code_kept_from_def)
qed

lemma gvn_run_keeps_code_witness:
  "\<exists>s json m S. codegen repeated_program = Inr s \<and> gvn_run inst_order False s = Some (Inr (json, m)) \<and> code_less {} s S m \<and>
     instr_list (blocks s ! 0) \<noteq> instr_list (blocks m ! 0)"
proof -
  have "case codegen repeated_program of Inl _ \<Rightarrow> False | Inr s \<Rightarrow>
    (case gvn_run inst_order False s of Some (Inr (json, m)) \<Rightarrow> instr_list (blocks s ! 0) \<noteq> instr_list (blocks m ! 0) | _ \<Rightarrow> False)"
    by code_simp
  from case_InrD [OF this] obtain s where s: "codegen repeated_program = Inr s"
    and run: "case gvn_run inst_order False s of Some (Inr (json, m)) \<Rightarrow> instr_list (blocks s ! 0) \<noteq> instr_list (blocks m ! 0) | _ \<Rightarrow> False"
    by blast
  obtain json m where m: "gvn_run inst_order False s = Some (Inr (json, m))" and d: "instr_list (blocks s ! 0) \<noteq> instr_list (blocks m ! 0)"
    using run by (auto split: option.splits sum.splits)
  have ok: "ir_ok s" by (rule codegen_ir_ok [OF s])
  have "uses_agree {} (graph s)" using ok by (simp add: ir_ok_def users_agree_def)
  from gvn_run_keeps_code [OF m ir_ok_well_placed [OF ok] this] s m d show ?thesis by blast
qed

end
