(* ===== verification/Mem2RegUnstored.thy ===== *)
theory Mem2RegUnstored
  imports Mem2RegCode
begin

text \<open>
  What \<open>Mem2Reg\<close> does to a variable that is read and never stored: no value is ever
  on its stack, so its loads stay, and \<open>remove_alloca\<close> takes the variable away from them.
\<close>

section \<open>Variables that are never stored\<close>

text \<open>
  Nothing stores to the variable or stores its address, and no phi stands for it; then it has
  no stack and is on none.
\<close>

definition unstored :: "nat \<Rightarrow> 'b ir_module_scheme \<Rightarrow> bool" where
  "unstored a m \<longleftrightarrow> is_op I_alloca m a \<and>
     (\<forall>i. is_op I_store m i \<longrightarrow> Some (V_Inst a) \<notin> set (operands (graph m) (V_Inst i))) \<and>
     (\<forall>i. is_op I_phi m i \<longrightarrow> get_lval m i \<noteq> Some (V_Inst a))"

definition valueless :: "nat \<Rightarrow> val_stack \<Rightarrow> bool" where
  "valueless a st \<longleftrightarrow> st (Some (V_Inst a)) = None \<and> (\<forall>x vs. st x = Some vs \<longrightarrow> Some (V_Inst a) \<notin> set vs)"

definition loads_from :: "nat \<Rightarrow> 'b ir_module_scheme \<Rightarrow> nat \<Rightarrow> bool" where
  "loads_from a m i \<longleftrightarrow> is_op I_load m i \<and> load_lval m i = Inr (Some (V_Inst a))"

text \<open>A step that leaves the loads of the variable alone.\<close>

definition unstored_state :: "nat \<Rightarrow> 'b ir_module_scheme \<Rightarrow> bool" where
  "unstored_state a m \<longleftrightarrow> (\<exists>D. pass_state D m) \<and> unstored a m"

definition loads_stay :: "nat \<Rightarrow> 'b ir_module_scheme \<Rightarrow> 'b ir_module_scheme \<Rightarrow> bool" where
  "loads_stay a m m' \<longleftrightarrow> (\<forall>i < length (instrs m). loads_from a m' i = loads_from a m i) \<and>
     (\<forall>b < length (blocks m). \<forall>i \<in> set (instr_list (blocks m ! b)). loads_from a m i \<longrightarrow> i \<in> set (instr_list (blocks m' ! b)))"

definition ignores :: "nat \<Rightarrow> 'b ir_module_scheme \<Rightarrow> 'b ir_module_scheme \<Rightarrow> bool" where
  "ignores a m m' \<longleftrightarrow> (unstored_state a m \<longrightarrow> unstored_state a m' \<and> loads_stay a m m' \<and>
     length (instrs m) \<le> length (instrs m') \<and> length (blocks m') = length (blocks m))"

lemma loads_from_old: "loads_from a m i \<Longrightarrow> i < length (instrs m)"
  by (simp add: loads_from_def is_op_def)

lemma ignores_refl: "ignores a m m"
  by (simp add: ignores_def loads_stay_def)

lemma ignores_trans:
  assumes 1: "ignores a m m1" and 2: "ignores a m1 m2"
  shows "ignores a m m2"
  unfolding ignores_def
proof (intro impI)
  assume "unstored_state a m"
  with 1 2 have s: "unstored_state a m1" "loads_stay a m m1" "loads_stay a m1 m2" "unstored_state a m2"
    and len: "length (instrs m) \<le> length (instrs m1)" "length (instrs m1) \<le> length (instrs m2)" "length (blocks m1) = length (blocks m)"
      "length (blocks m2) = length (blocks m1)" by (auto simp: ignores_def)
  have same: "loads_from a m1 i = loads_from a m i" "loads_from a m2 i = loads_from a m1 i" if "i < length (instrs m)" for i
    using s(2,3) that len(1) by (auto simp: loads_stay_def)
  have "loads_stay a m m2"
    unfolding loads_stay_def
  proof (intro conjI allI ballI impI)
    fix b i assume b: "b < length (blocks m)" and i: "i \<in> set (instr_list (blocks m ! b))" and l: "loads_from a m i"
    then have "i \<in> set (instr_list (blocks m1 ! b))" using s(2) by (simp add: loads_stay_def)
    moreover have "loads_from a m1 i" using same(1) loads_from_old [OF l] l by blast
    ultimately show "i \<in> set (instr_list (blocks m2 ! b))" using s(3) b len(3) by (simp add: loads_stay_def)
  qed (use same in simp)
  with s len show "unstored_state a m2 \<and> loads_stay a m m2 \<and> length (instrs m) \<le> length (instrs m2) \<and> length (blocks m2) = length (blocks m)"
    by simp
qed

lemma ignoresI:
  assumes "promotes m m'"
    and "\<And>D E. pass_state D m \<Longrightarrow> promoted E m m' \<Longrightarrow> unstored a m \<Longrightarrow> unstored a m' \<and> loads_stay a m m'"
  shows "ignores a m m'"
  unfolding ignores_def
proof (intro impI)
  assume s: "unstored_state a m"
  then obtain D where D: "pass_state D m" unfolding unstored_state_def by blast
  from promotesD [OF assms(1) D] obtain E where E: "promoted E m m'" "pass_state (D \<union> V_Inst ` E) m'" by blast
  from assms(2) [OF D E(1)] s E(2) promotedD(4,5) [OF E(1)] show "unstored_state a m' \<and> loads_stay a m m' \<and>
      length (instrs m) \<le> length (instrs m') \<and> length (blocks m') = length (blocks m)" unfolding unstored_state_def by blast
qed

lemma ignoresD: "ignores a m m' \<Longrightarrow> unstored_state a m \<Longrightarrow> unstored_state a m'"
  by (simp add: ignores_def)

lemma ignores_load: "ignores a m m' \<Longrightarrow> unstored_state a m \<Longrightarrow> i < length (instrs m) \<Longrightarrow> loads_from a m' i = loads_from a m i"
  by (simp add: ignores_def loads_stay_def)

lemma nth_checked_nth: "nth_checked xs i = Inr x \<longleftrightarrow> i < length xs \<and> xs ! i = x"
  by (auto simp: nth_checked_def)

lemma load_lval_iff: "load_lval m i = Inr x \<longleftrightarrow> operands (graph m) (V_Inst i) \<noteq> [] \<and> operands (graph m) (V_Inst i) ! 0 = x"
  by (simp add: load_lval_def get_operand_def nth_checked_nth)

section \<open>Steps of renaming\<close>

text \<open>A step that changes operands only, and redirects loads to other values than the variable.\<close>

lemma redirect_variable:
  assumes S: "\<And>u j. (u, j) \<in> S \<Longrightarrow> j < length (ops u) \<and> ops u ! j = Some (V_Inst i)" and w: "w \<noteq> V_Inst a" and i: "i \<noteq> a"
  shows "j < length (ops u) \<Longrightarrow> redirect S w ops u ! j = Some (V_Inst a) \<longleftrightarrow> ops u ! j = Some (V_Inst a)"
    and "Some (V_Inst a) \<in> set (redirect S w ops u) \<longleftrightarrow> Some (V_Inst a) \<in> set (ops u)"
proof -
  show at: "redirect S w ops u ! j = Some (V_Inst a) \<longleftrightarrow> ops u ! j = Some (V_Inst a)" if "j < length (ops u)" for j
    using S [of u j] w i that by auto
  show "Some (V_Inst a) \<in> set (redirect S w ops u) \<longleftrightarrow> Some (V_Inst a) \<in> set (ops u)"
    using at by (fastforce simp: in_set_conv_nth)
qed

lemma replace_load_ignores:
  assumes run: "replace_load i v m = Some (Inr m')" and i: "is_op I_load m i" and v: "v \<noteq> Some (V_Inst a)"
  shows "ignores a m m'"
proof (rule ignoresI [OF keeps_code_promotes [OF replace_load_keeps [OF run i]]])
  fix D E assume D: "pass_state D m" and un: "unstored a m"
  show "unstored a m' \<and> loads_stay a m m'"
  proof (cases v)
    case None
    with run have "m' = m" by (simp add: replace_load_def split: if_splits)
    with un show ?thesis by (simp add: loads_stay_def)
  next
    case (Some w)
    with run obtain g where g: "replace_all_use_with (V_Inst i) w (graph m) = Some (Inr g)" "m' = m\<lparr>graph := g\<rparr>"
      by (auto simp: replace_load_def)
    from D have agree: "uses_agree D (graph m)" by (simp add: pass_state_def uses_kept_def)
    have ops: "operands g = redirect (set (use_list (graph m) (V_Inst i))) w (operands (graph m))"
      using replace_all_returned [OF agree g(1)] by blast
    have at: "j < length (operands (graph m) u) \<and> operands (graph m) u ! j = Some (V_Inst i)"
      if "(u, j) \<in> set (use_list (graph m) (V_Inst i))" for u j using uses_agreeD(2) [OF agree] that by blast
    let ?r = "redirect (set (use_list (graph m) (V_Inst i))) w (operands (graph m))"
    have w: "w \<noteq> V_Inst a" and i': "i \<noteq> a" using v Some un i by (auto simp: unstored_def is_op_def)
    have r: "?r u ! j = Some (V_Inst a) \<longleftrightarrow> operands (graph m) u ! j = Some (V_Inst a)" if "j < length (operands (graph m) u)" for u j
      by (rule redirect_variable(1) [where i = i]) (use at w i' that in simp_all)
    have r': "Some (V_Inst a) \<in> set (?r u) \<longleftrightarrow> Some (V_Inst a) \<in> set (operands (graph m) u)" for u
      by (rule redirect_variable(2) [where i = i]) (use at w i' in simp_all)
    have op: "is_op op m' = is_op op m" for op by (simp add: g(2) is_op_def fun_eq_iff)
    have "loads_from a m' j = loads_from a m j" for j
    proof (cases "operands (graph m) (V_Inst j) = []")
      case True
      then show ?thesis by (simp add: loads_from_def load_lval_iff g(2) ops redirect_def)
    next
      case False
      then have "0 < length (operands (graph m) (V_Inst j))" by simp
      note zero = r [OF this]
      from False have "?r (V_Inst j) \<noteq> []" by (simp flip: length_greater_0_conv)
      with zero False show ?thesis by (simp only: loads_from_def load_lval_iff g(2) ops) (simp add: is_op_def ops)
    qed
    then show ?thesis using un r' by (simp add: unstored_def loads_stay_def op) (simp add: g(2) ops get_lval_def)
  qed
qed

lemma add_phi_pair_ignores:
  assumes run: "add_phi_pair_operand (V_Inst i) w x m = Inr ((), m')" and i: "is_op I_phi m i"
  shows "ignores a m m'"
proof (rule ignoresI [OF keeps_code_promotes [OF add_phi_pair_keeps [OF run i]]])
  fix D E assume un: "unstored a m"
  have m': "m' = m\<lparr>graph := add_operand (V_Inst i) x (add_operand (V_Inst i) w (graph m))\<rparr>"
    using run by (simp add: add_phi_pair_operand_def)
  have op: "is_op op m' = is_op op m" for op by (simp add: m' is_op_def fun_eq_iff)
  have ops: "operands (graph m') (V_Inst j) = operands (graph m) (V_Inst j)" if "j \<noteq> i" for j
    using that by (simp add: m' add_operand_def add_use_def)
  have other: "j \<noteq> i" if "is_op I_load m j \<or> is_op I_store m j" for j using that i by (auto simp: is_op_def)
  have "loads_from a m' j = loads_from a m j" for j
    using ops [OF other, of j] by (auto simp: loads_from_def load_lval_iff op)
  moreover have "unstored a m'"
    using un ops [OF other] by (simp add: unstored_def op get_lval_def) (simp add: m')
  ultimately show "unstored a m' \<and> loads_stay a m m'" by (simp add: loads_stay_def m')
qed

lemma erase_instr_ignores:
  assumes run: "erase_instr b i m = Inr ((), m')" and i: "memory_op m i" "i_parent (instrs m ! i) = Some b" and no: "\<not> loads_from a m i"
  shows "ignores a m m'"
proof (rule ignoresI [OF keeps_code_promotes [OF erase_instr_keeps [OF run i]]])
  fix D E assume un: "unstored a m"
  obtain g where g: "remove_use_of_ops (V_Inst i) (graph m) = Inr g"
    and m': "m' = m\<lparr>graph := g, blocks := (blocks m)[b := (blocks m ! b)\<lparr>instr_list := removeAll i (instr_list (blocks m ! b))\<rparr>]\<rparr>"
    using run by (auto simp: erase_instr_def upd_block_def)
  have ops: "operands g = operands (graph m)" using g remove_uses_result by (fastforce simp: remove_use_of_ops_def)
  have op: "is_op op m' = is_op op m" for op by (simp add: m' is_op_def fun_eq_iff)
  have "loads_from a m' = loads_from a m" by (simp add: fun_eq_iff loads_from_def load_lval_iff op) (simp add: m' ops)
  moreover have "j \<in> set (instr_list (blocks m' ! c))" if "c < length (blocks m)" "j \<in> set (instr_list (blocks m ! c))" "loads_from a m j" for c j
    using that no by (cases "c = b") (auto simp: m')
  ultimately show "unstored a m' \<and> loads_stay a m m'"
    using un by (simp add: unstored_def loads_stay_def op) (simp add: m' ops get_lval_def)
qed

lemma erase_list_ignores:
  "seqS (map (erase_instr b) is) m = Inr ((), m') \<Longrightarrow> unstored_state a m \<Longrightarrow>
   \<forall>i \<in> set is. memory_op m i \<and> i_parent (instrs m ! i) = Some b \<and> \<not> loads_from a m i \<Longrightarrow> ignores a m m'"
proof (induction "is" arbitrary: m)
  case (Cons i "is")
  then obtain m1 where m1: "erase_instr b i m = Inr ((), m1)" "seqS (map (erase_instr b) is) m1 = Inr ((), m')" by auto
  have mem: "memory_op m i" "i_parent (instrs m ! i) = Some b" using Cons.prems(3) by simp_all
  note k = keeps_code_ops [OF erase_instr_keeps [OF m1(1) mem]]
  have s: "ignores a m m1" by (rule erase_instr_ignores [OF m1(1) mem]) (use Cons.prems(3) in simp)
  have "\<forall>j \<in> set is. memory_op m1 j \<and> i_parent (instrs m1 ! j) = Some b \<and> \<not> loads_from a m1 j"
  proof
    fix j assume "j \<in> set is"
    then have j: "memory_op m j" "i_parent (instrs m ! j) = Some b" "\<not> loads_from a m j" using Cons.prems(3) by simp_all
    then have "j < length (instrs m)" by (auto simp: memory_op_def is_op_def)
    with j k ignores_load [OF s Cons.prems(2)] show "memory_op m1 j \<and> i_parent (instrs m1 ! j) = Some b \<and> \<not> loads_from a m1 j" by simp
  qed
  with ignores_trans [OF s] Cons.IH [OF m1(2) ignoresD [OF s Cons.prems(2)]] show ?case by blast
qed (simp add: ignores_refl)

lemma push_phis_valueless:
  "unstored a m \<Longrightarrow> valueless a st \<Longrightarrow> valueless a (push_phis m is st)"
proof (induction "is" arbitrary: st)
  case (Cons i "is")
  have "valueless a (push_val (get_lval m i) (Some (V_Inst i)) st)" if "is_op I_phi m i"
    using Cons.prems that by (auto simp: valueless_def push_val_def unstored_def is_op_def split: option.splits)
  with Cons show ?case by simp
qed simp

lemma rename_instrs_ignores:
  "rename_instrs is wait st m = Some (Inr (wait', st', m')) \<Longrightarrow> unstored_state a m \<Longrightarrow> valueless a st \<Longrightarrow>
   \<forall>i \<in> set is. i < length (instrs m) \<Longrightarrow> \<forall>i \<in> set wait. i < length (instrs m) \<and> \<not> loads_from a m i \<Longrightarrow>
   ignores a m m' \<and> valueless a st' \<and> (\<forall>i \<in> set wait'. i < length (instrs m) \<and> \<not> loads_from a m i)"
proof (induction "is" arbitrary: wait st m)
  case Nil
  then show ?case by (simp add: ignores_refl)
next
  case (Cons i "is")
  have un: "unstored a m" using Cons.prems(2) by (simp add: unstored_state_def)
  from Cons.prems(1) consider
    (load) l v m1 where "is_op I_load m i" "load_lval m i = Inr l" "st l \<noteq> None" "top_val l st = Inr v"
      "replace_load i v m = Some (Inr m1)" "rename_instrs is (wait @ [i]) st m1 = Some (Inr (wait', st', m'))"
  | (store) l r where "is_op I_store m i" "store_lval m i = Inr l" "store_rval m i = Inr r"
      "rename_instrs is (wait @ [i]) (push_val l r st) m = Some (Inr (wait', st', m'))"
  | (other) "rename_instrs is wait st m = Some (Inr (wait', st', m'))"
    by (auto split: if_splits)
  then show ?case
  proof cases
    case load
    from load(3,4) obtain vs where "st l = Some vs" "v \<in> set vs"
      by (auto simp: top_val_def split: option.splits list.splits if_splits)
    with Cons.prems(3) load(3) have v: "v \<noteq> Some (V_Inst a)" and l: "l \<noteq> Some (V_Inst a)" by (auto simp: valueless_def)
    have s: "ignores a m m1" by (rule replace_load_ignores [OF load(5,1) v])
    have len: "length (instrs m1) = length (instrs m)"
      using keeps_code_ops(3) [OF replace_load_keeps [OF load(5,1)]] by simp
    note same = ignores_load [OF s Cons.prems(2)]
    have "\<not> loads_from a m i" using l load(2) by (simp add: loads_from_def)
    then have "\<forall>j \<in> set (wait @ [i]). j < length (instrs m1) \<and> \<not> loads_from a m1 j" using Cons.prems(4,5) same len by simp
    from Cons.IH [OF load(6) ignoresD [OF s Cons.prems(2)] Cons.prems(3) _ this] Cons.prems(4) len
    have r: "ignores a m1 m'" "valueless a st'" "\<forall>j \<in> set wait'. j < length (instrs m) \<and> \<not> loads_from a m1 j" by simp_all
    with ignores_trans [OF s r(1)] same show ?thesis by blast
  next
    case store
    have "l \<in> set (operands (graph m) (V_Inst i))" "r \<in> set (operands (graph m) (V_Inst i))"
      using store(2,3) by (auto simp: store_lval_def store_rval_def get_operand_def nth_checked_nth)
    with un store(1) have "l \<noteq> Some (V_Inst a)" "r \<noteq> Some (V_Inst a)" by (auto simp: unstored_def)
    with Cons.prems(3) have v: "valueless a (push_val l r st)"
      by (auto simp: valueless_def push_val_def split: option.splits)
    have "\<not> loads_from a m i" using store(1) by (simp add: loads_from_def is_op_def)
    with Cons.IH [OF store(4) Cons.prems(2) v] Cons.prems(4,5) show ?thesis by simp
  next
    case other
    with Cons.IH [OF other Cons.prems(2,3)] Cons.prems(4,5) show ?thesis by simp
  qed
qed

lemma fill_block_ignores: "fill_block b is st m = Inr m' \<Longrightarrow> ignores a m m'"
proof (induction "is" arbitrary: m)
  case Nil
  then show ?case by (simp add: ignores_refl)
next
  case (Cons i "is")
  show ?case
  proof (cases "is_op I_phi m i \<and> st (get_lval m i) \<noteq> None")
    case True
    with Cons.prems obtain w m1 where m1: "add_phi_pair_operand (V_Inst i) w (V_Block b) m = Inr ((), m1)" "fill_block b is st m1 = Inr m'"
      by (auto split: if_splits)
    from ignores_trans [OF add_phi_pair_ignores [OF m1(1)] Cons.IH [OF m1(2)]] True show ?thesis by blast
  next
    case False
    with Cons.prems have "fill_block b is st m = Inr m'" by (simp only: fill_block.simps if_False)
    then show ?thesis by (rule Cons.IH)
  qed
qed

lemma fill_phis_ignores: "fill_phis b ss st m = Inr m' \<Longrightarrow> ignores a m m'"
proof (induction ss arbitrary: m)
  case (Cons s ss)
  then obtain m1 where "fill_block b (instr_list (blocks m ! s)) st m = Inr m1" "fill_phis b ss st m1 = Inr m'" by auto
  with Cons.IH ignores_trans fill_block_ignores show ?case by blast
qed (simp add: ignores_refl)

lemma pop_val_valueless:
  assumes "pop_val l st = Inr st'" and "valueless a st"
  shows "valueless a st'"
proof -
  from assms(1) obtain v vs where "st l = Some (v # vs)" "st' = st(l \<mapsto> butlast (v # vs))"
    by (auto simp: pop_val_def split: option.splits list.splits)
  moreover have "set (butlast (v # vs)) \<subseteq> set (v # vs)" by (auto dest: in_set_butlastD)
  ultimately show ?thesis using assms(2) unfolding valueless_def by (metis fun_upd_apply option.distinct(1) option.sel subsetD)
qed

lemma pop_values_valueless: "pop_values m is st = Inr st' \<Longrightarrow> valueless a st \<Longrightarrow> valueless a st'"
proof (induction "is" arbitrary: st)
  case (Cons i "is")
  from Cons.prems(1) have "\<exists>st1. pop_values m is st1 = Inr st' \<and> (st1 = st \<or> (\<exists>l. pop_val l st = Inr st1))"
    by (fastforce split: if_splits)
  then obtain st1 where "pop_values m is st1 = Inr st'" "st1 = st \<or> (\<exists>l. pop_val l st = Inr st1)" by blast
  with Cons.IH pop_val_valueless Cons.prems(2) show ?case by blast
qed simp

section \<open>The recursion\<close>

definition steps_by :: "nat \<Rightarrow> val_stack \<times> 'b ir_module_scheme \<Rightarrow> val_stack \<times> 'b ir_module_scheme \<Rightarrow> bool" where
  "steps_by a s s' \<longleftrightarrow> (unstored_state a (snd s) \<and> valueless a (fst s) \<longrightarrow> ignores a (snd s) (snd s') \<and> valueless a (fst s'))"

lemma steps_by_refl: "steps_by a s s"
  by (simp add: steps_by_def ignores_refl)

lemma steps_by_trans: "steps_by a s t \<Longrightarrow> steps_by a t u \<Longrightarrow> steps_by a s u"
  unfolding steps_by_def using ignores_trans ignoresD by metis

lemma unstored_state_inside:
  assumes "unstored_state a m" and "b < length (blocks m)" and "i \<in> set (instr_list (blocks m ! b))"
  shows "i < length (instrs m)" and "i_parent (instrs m ! i) = Some b"
  using assms by (auto simp: unstored_state_def pass_state_def uses_kept_def)

lemma enter_block_steps:
  assumes run: "enter_block b s = Some (Inr (wait, s'))" and b: "b < length (blocks (snd s))"
  shows "steps_by a s s' \<and> (unstored_state a (snd s) \<and> valueless a (fst s) \<longrightarrow> (\<forall>i \<in> set wait. \<not> loads_from a (snd s) i))"
proof -
  let ?is = "instr_list (blocks (snd s) ! b)"
  from run obtain st m1 m2 where ren: "rename_instrs ?is [] (push_phis (snd s) ?is (fst s)) (snd s) = Some (Inr (wait, st, m1))"
    and fill: "fill_phis b (succ_bbs (blocks m1 ! b)) st m1 = Inr m2" and s': "s' = (st, m2)"
    by (auto simp: enter_block_def Let_def)
  have "ignores a (snd s) m1 \<and> valueless a st \<and> (\<forall>i \<in> set wait. i < length (instrs (snd s)) \<and> \<not> loads_from a (snd s) i)"
    if v: "unstored_state a (snd s)" "valueless a (fst s)"
  proof (rule rename_instrs_ignores [OF ren v(1)])
    show "valueless a (push_phis (snd s) ?is (fst s))" by (rule push_phis_valueless) (use v in \<open>simp_all add: unstored_state_def\<close>)
    show "\<forall>i \<in> set ?is. i < length (instrs (snd s))" using unstored_state_inside(1) [OF v(1) b] by blast
  qed simp
  with ignores_trans [OF _ fill_phis_ignores [OF fill]] show ?thesis unfolding steps_by_def s' by auto
qed

lemma leave_block_steps:
  assumes run: "leave_block b wait s = Some (Inr s')"
    and wait: "\<forall>i \<in> set wait. memory_op (snd s) i \<and> i_parent (instrs (snd s) ! i) = Some b"
      "unstored_state a (snd s) \<Longrightarrow> valueless a (fst s) \<Longrightarrow> \<forall>i \<in> set wait. \<not> loads_from a (snd s) i"
  shows "steps_by a s s'"
proof -
  from run obtain st m where "pop_values (snd s) (instr_list (blocks (snd s) ! b)) (fst s) = Inr st"
    "seqS (map (erase_instr b) wait) (snd s) = Inr ((), m)" "s' = (st, m)" by (auto simp: leave_block_def)
  with wait erase_list_ignores pop_values_valueless show ?thesis unfolding steps_by_def by fastforce
qed

lemma foldP_steps:
  assumes "foldP f xs s = Some (Inr s')" and "blocks_hold (snd s)" and "tree_inside tree (snd s)" and "\<forall>x \<in> set xs. x < length (blocks (snd s))"
    and "\<And>x s s'. f x s = Some (Inr s') \<Longrightarrow> blocks_hold (snd s) \<Longrightarrow> tree_inside tree (snd s) \<Longrightarrow> x < length (blocks (snd s)) \<Longrightarrow>
      keeps_code (snd s) (snd s') \<and> steps_by a s s'"
  shows "steps_by a s s'"
  using assms(1-4)
proof (induction xs arbitrary: s)
  case Nil
  then show ?case by (simp add: steps_by_refl)
next
  case (Cons x xs)
  obtain s1 where s1: "f x s = Some (Inr s1)" "foldP f xs s1 = Some (Inr s')" using Cons.prems(1) by auto
  have k: "keeps_code (snd s) (snd s1)" "steps_by a s s1" using assms(5) [OF s1(1)] Cons.prems by simp_all
  have "steps_by a s1 s'" by (rule Cons.IH [OF s1(2)]) (use keeps_code_frame [OF k(1)] Cons.prems in auto)
  with k(2) show ?case by (rule steps_by_trans)
qed

lemma re_name_steps:
  assumes "re_name tree b s = Some (Inr s')" and "blocks_hold (snd s)" and "tree_inside tree (snd s)" and "b < length (blocks (snd s))"
  shows "keeps_code (snd s) (snd s') \<and> steps_by a s s'"
proof -
  have "\<forall>s'. r = Inr s' \<longrightarrow> blocks_hold (snd s) \<longrightarrow> tree_inside tree (snd s) \<longrightarrow> b < length (blocks (snd s)) \<longrightarrow>
      keeps_code (snd s) (snd s') \<and> steps_by a s s'" if "re_name tree b s = Some r" for r
  proof (rule re_name.raw_induct [OF _ that], intro allI impI)
    fix rec :: "(nat option \<Rightarrow> nat list) \<Rightarrow> nat \<Rightarrow> val_stack \<times> 'a ir_module_scheme \<Rightarrow> (val_stack \<times> 'a ir_module_scheme) run"
      and tree b s r s'
    assume IH: "\<And>tree b s r. rec tree b s = Some r \<Longrightarrow> \<forall>s'. r = Inr s' \<longrightarrow> blocks_hold (snd s) \<longrightarrow> tree_inside tree (snd s) \<longrightarrow>
        b < length (blocks (snd s)) \<longrightarrow> keeps_code (snd s) (snd s') \<and> steps_by a s s'"
      and body: "bindP (enter_block b s) (\<lambda>r. bindP (foldP (\<lambda>c t. rec tree c t) (tree (Some b)) (snd r)) (\<lambda>t. leave_block b (fst r) t)) = Some r"
      and r: "r = Inr s'" and hold: "blocks_hold (snd s)" and tree: "tree_inside tree (snd s)" and b: "b < length (blocks (snd s))"
    obtain wait s1 s2 where s1: "enter_block b s = Some (Inr (wait, s1))" and s2: "foldP (\<lambda>c t. rec tree c t) (tree (Some b)) s1 = Some (Inr s2)"
      and leave: "leave_block b wait s2 = Some (Inr s')" using body r by auto
    note e = enter_block_keeps [OF s1] and a1 = enter_block_steps [OF s1 b, of a]
    note f1 = keeps_code_frame [OF conjunct1 [OF e]]
    have inside: "\<forall>c \<in> set (tree (Some b)). c < length (blocks (snd s1))" using tree f1(3) by (simp add: tree_inside_def)
    have child: "keeps_code (snd s) (snd s') \<and> steps_by a s s'" if "rec tree c s = Some (Inr s')" "blocks_hold (snd s)" "tree_inside tree (snd s)"
        "c < length (blocks (snd s))" for c s s' using IH [OF that(1)] that(2-4) by blast
    have k2: "keeps_code (snd s1) (snd s2)"
      by (rule foldP_keeps [OF s2, where tree = tree and B = "\<lambda>m. length (blocks m)"]) (use child inside f1 hold tree keeps_code_frame in auto)
    have a2: "steps_by a s1 s2"
      by (rule foldP_steps [OF s2, where tree = tree]) (use child inside f1 hold tree in auto)
    have k12: "keeps_code (snd s) (snd s2)" using e keeps_code_trans k2 by blast
    have a12: "steps_by a s s2" using a1 steps_by_trans a2 by blast
    have mem: "\<forall>i \<in> set wait. memory_op (snd s2) i \<and> i_parent (instrs (snd s2) ! i) = Some b"
      using e hold b keeps_code_ops [OF k12] by (auto simp: blocks_hold_def)
    have "steps_by a s s'"
    proof (cases "unstored_state a (snd s) \<and> valueless a (fst s)")
      case True
      then have s: "unstored_state a (snd s)" "valueless a (fst s)" by simp_all
      have i: "ignores a (snd s) (snd s2)" using a12 s by (simp add: steps_by_def)
      have "\<not> loads_from a (snd s2) i" if w: "i \<in> set wait" for i
      proof -
        have "i < length (instrs (snd s))" using e w unstored_state_inside(1) [OF s(1) b] by blast
        with ignores_load [OF i s(1)] a1 s w show ?thesis by simp
      qed
      then have "steps_by a s2 s'" by (intro leave_block_steps [OF leave mem]) blast
      with a12 show ?thesis by (rule steps_by_trans)
    qed (auto simp: steps_by_def)
    moreover have "keeps_code (snd s) (snd s')" using keeps_code_trans [OF k12 leave_block_keeps [OF leave mem]] .
    ultimately show "keeps_code (snd s) (snd s') \<and> steps_by a s s'" by blast
  qed
  with assms show ?thesis by blast
qed

section \<open>Placing phis\<close>

lemma insert_phi_ignores:
  assumes run: "insert_phi v b m = Inr ((), m')" and v: "v \<noteq> Some (V_Inst a)"
  shows "ignores a m m'"
proof (rule ignoresI [OF insert_phi_promotes [OF run]])
  fix D E assume D: "pass_state D m" and un: "unstored a m"
  let ?n = "length (instrs m)"
  let ?bs = "(blocks m)[b := (blocks m ! b)\<lparr>instr_list := ?n # instr_list (blocks m ! b)\<rparr>]"
  have graph: "new_user (V_Inst ?n) 0 (graph m) = graph m"
    using D by (simp add: pass_state_def new_user_def fresh_users_def fun_upd_idem)
  obtain t where m': "m' = m\<lparr>instrs := instrs m @ [\<lparr>i_type = t, i_op = I_phi, i_data = X_LVal v, i_parent = Some b, i_name = []\<rparr>], blocks := ?bs\<rparr>"
    using run graph by (auto simp: insert_phi_def create_phi_def new_instruction_def set_lval_def add_instr_begin_def upd_block_def)
  have op: "is_op op m' i \<longleftrightarrow> is_op op m i \<or> i = ?n \<and> op = I_phi" for op i
    by (auto simp: m' is_op_def nth_append less_Suc_eq)
  have lval: "get_lval m' i = (if i = ?n then v else get_lval m i)" if "i \<le> ?n" for i
    using that by (auto simp: m' get_lval_def nth_append)
  have "unstored a m'" using un v lval by (auto simp: unstored_def op) (auto simp: m' is_op_def)
  moreover have "loads_from a m' = loads_from a m" by (simp add: fun_eq_iff loads_from_def load_lval_iff op) (simp add: m')
  moreover have "i \<in> set (instr_list (blocks m' ! c))" if "c < length (blocks m)" "i \<in> set (instr_list (blocks m ! c))" for c i
    using that by (cases "c = b") (simp_all add: m')
  ultimately show "unstored a m' \<and> loads_stay a m m'" by (simp add: loads_stay_def)
qed

lemma phi_frontier_ignores:
  "phi_frontier v bs s = Inr s' \<Longrightarrow> v \<noteq> Some (V_Inst a) \<Longrightarrow> ignores a (phi_module s) (phi_module s')"
proof (induction v bs s rule: phi_frontier.induct)
  case (2 v b bs work has m)
  show ?case
  proof (cases "b \<in> set has")
    case True
    with 2 show ?thesis by (simp add: phi_module_def)
  next
    case False
    with "2.prems" obtain m1 where m1: "insert_phi v b m = Inr ((), m1)"
      "phi_frontier v bs (work @ [b], has @ [b], m1) = Inr s'" by auto
    from ignores_trans [OF insert_phi_ignores [OF m1(1) "2.prems"(2)]] "2.IH"(2) [OF False m1(1) refl m1(2) "2.prems"(2)] show ?thesis
      by (simp add: phi_module_def)
  qed
qed (simp add: ignores_refl)

lemma phi_loop_ignores:
  assumes "phi_loop df v s = Some (Inr s')" and "v \<noteq> Some (V_Inst a)"
  shows "ignores a (phi_module s) (phi_module s')"
proof -
  have "\<forall>s'. r = Inr s' \<longrightarrow> v \<noteq> Some (V_Inst a) \<longrightarrow> ignores a (phi_module s) (phi_module s')" if "phi_loop df v s = Some r" for r
  proof (rule phi_loop.raw_induct [OF _ that], intro allI impI)
    fix rec :: "(nat option \<Rightarrow> nat list) \<Rightarrow> irval option \<Rightarrow> 'a phi_state \<Rightarrow> 'a phi_state run" and df v s r s'
    assume IH: "\<And>df v s r. rec df v s = Some r \<Longrightarrow> \<forall>s'. r = Inr s' \<longrightarrow> v \<noteq> Some (V_Inst a) \<longrightarrow> ignores a (phi_module s) (phi_module s')"
      and body: "(case fst s of [] \<Rightarrow> returnP s | b # rest \<Rightarrow> bindP (Some (phi_frontier v (df (Some b)) (rest, snd s))) (rec df v)) = Some r"
      and r: "r = Inr s'" and v: "v \<noteq> Some (V_Inst a)"
    show "ignores a (phi_module s) (phi_module s')"
    proof (cases "fst s")
      case Nil
      with body r show ?thesis by (simp add: ignores_refl)
    next
      case (Cons b rest)
      with body r obtain s1 where s1: "phi_frontier v (df (Some b)) (rest, snd s) = Inr s1" "rec df v s1 = Some (Inr s')" by auto
      have "ignores a (phi_module s1) (phi_module s')" using IH [OF s1(2)] v by blast
      with ignores_trans [OF phi_frontier_ignores [OF s1(1) v]] show ?thesis by (simp add: phi_module_def)
    qed
  qed
  with assms show ?thesis by blast
qed

lemma live_block_unstored:
  "live_block m b is lv = Inr lv' \<Longrightarrow> unstored a m \<Longrightarrow> Some (V_Inst a) \<notin> set (global_live_var_name lv) \<Longrightarrow>
   Some (V_Inst a) \<notin> set (global_live_var_name lv')"
proof (induction m b "is" lv rule: live_block.induct)
  case (2 m b i "is" lv)
  show ?case
  proof (cases "is_op I_store m i")
    case True
    with "2.prems"(1) obtain r v where v: "store_rval m i = Inr r" "store_lval m i = Inr v"
      and rest: "live_block m b is (if is_variable m v then live_store v b lv else lv) = Inr lv'" by auto
    have "v \<in> set (operands (graph m) (V_Inst i))" using v(2) by (auto simp: store_lval_def get_operand_def nth_checked_nth)
    then have "v \<noteq> Some (V_Inst a)" using "2.prems"(2) True by (auto simp: unstored_def)
    with "2.prems"(3) have "Some (V_Inst a) \<notin> set (global_live_var_name (if is_variable m v then live_store v b lv else lv))"
      by (simp add: live_store_def)
    with "2.IH"(1) [OF True v rest "2.prems"(2)] show ?thesis by blast
  next
    case False
    with 2 show ?thesis by simp
  qed
qed simp

lemma live_blocks_unstored:
  "live_blocks m bs lv = Inr lv' \<Longrightarrow> unstored a m \<Longrightarrow> Some (V_Inst a) \<notin> set (global_live_var_name lv) \<Longrightarrow>
   Some (V_Inst a) \<notin> set (global_live_var_name lv')"
proof (induction m bs lv rule: live_blocks.induct)
  case (2 m b bs lv)
  then obtain lv1 where lv1: "live_block m b (instr_list (blocks m ! b)) lv = Inr lv1" "live_blocks m bs lv1 = Inr lv'" by auto
  with "2.IH" [OF lv1] live_block_unstored [OF lv1(1)] "2.prems" show ?case by blast
qed simp

lemma foldP_ignores:
  "foldP f xs m = Some (Inr m') \<Longrightarrow> (\<And>x m m'. x \<in> set xs \<Longrightarrow> f x m = Some (Inr m') \<Longrightarrow> ignores a m m') \<Longrightarrow> ignores a m m'"
proof (induction xs arbitrary: m)
  case (Cons x xs)
  then obtain m1 where m1: "f x m = Some (Inr m1)" "foldP f xs m1 = Some (Inr m')" by auto
  have "ignores a m1 m'"
  proof (rule Cons.IH [OF m1(2)])
    show "ignores a b c" if "y \<in> set xs" "f y b = Some (Inr c)" for y b c using Cons.prems(2) [of y b c] that by simp
  qed
  with Cons.prems(2) [OF _ m1(1)] ignores_trans show ?case by auto
qed (simp add: ignores_refl)

lemma generate_phi_ignores:
  assumes "generate_phi address df f m = Some (Inr m')" and un: "unstored a m"
  shows "ignores a m m'"
proof -
  from assms(1) obtain lv where lv: "live_blocks m (basic_blocks (function_list m ! f)) new_live_vars = Inr lv"
    by (auto simp: generate_phi_def)
  with assms(1) have fold: "foldP (\<lambda>v m. bindP (phi_loop df v (live_var_2blocks lv v, [], m)) (\<lambda>(_, _, m). returnP m))
      (sort_key address (global_live_var_name lv)) m = Some (Inr m')" by (simp add: generate_phi_def)
  have no: "Some (V_Inst a) \<notin> set (global_live_var_name lv)"
    by (rule live_blocks_unstored [OF lv un]) (simp add: new_live_vars_def)
  show ?thesis
  proof (rule foldP_ignores [OF fold])
    fix v m m' assume "v \<in> set (sort_key address (global_live_var_name lv))"
      and loop: "bindP (phi_loop df v (live_var_2blocks lv v, [], m)) (\<lambda>(_, _, m). returnP m) = Some (Inr m')"
    with no have v: "v \<noteq> Some (V_Inst a)" by auto
    from loop obtain s where "phi_loop df v (live_var_2blocks lv v, [], m) = Some (Inr s)" "phi_module s = m'"
      by (auto simp: phi_module_def)
    with phi_loop_ignores [OF _ v] show "ignores a m m'" by (fastforce simp: phi_module_def)
  qed
qed

section \<open>Removing the variable\<close>

lemma erase_list_gone:
  "seqS (map (erase_instr b) is) m = Inr ((), m') \<Longrightarrow> b < length (blocks m) \<Longrightarrow>
   \<forall>i \<in> set is. memory_op m i \<and> i_parent (instrs m ! i) = Some b \<Longrightarrow> set is \<inter> set (instr_list (blocks m' ! b)) = {}"
proof (induction "is" arbitrary: m)
  case (Cons i "is")
  then obtain m1 where m1: "erase_instr b i m = Inr ((), m1)" "seqS (map (erase_instr b) is) m1 = Inr ((), m')" by auto
  have k: "keeps_code m m1" by (rule erase_instr_keeps [OF m1(1)]) (use Cons.prems(3) in simp_all)
  have mem: "\<forall>j \<in> set is. memory_op m1 j \<and> i_parent (instrs m1 ! j) = Some b" using Cons.prems(3) keeps_code_ops [OF k] by simp
  have b: "b < length (blocks m1)" using keeps_code_frame(3) [OF k] Cons.prems(2) by simp
  have "i \<notin> set (instr_list (blocks m1 ! b))" using m1(1) Cons.prems(2) by (auto simp: erase_instr_def upd_block_def)
  moreover have "set (instr_list (blocks m' ! b)) \<subseteq> set (instr_list (blocks m1 ! b))"
    using erase_list_keeps [OF m1(2) mem] b by (simp add: keeps_code_def)
  ultimately show ?case using Cons.IH [OF m1(2) b mem] by auto
qed simp

lemma remove_alloca_block_ignores:
  assumes run: "remove_alloca_block b m = Inr ((), m')" and s: "unstored_state a m" and b: "b < length (blocks m)"
  shows "ignores a m m' \<and> keeps_code m m' \<and> (scalar_alloca m a \<longrightarrow> a \<notin> set (instr_list (blocks m' ! b)))"
proof -
  let ?is = "filter (scalar_alloca m) (instr_list (blocks m ! b))"
  have run': "seqS (map (erase_instr b) ?is) m = Inr ((), m')" using run by (simp add: remove_alloca_block_def bindS_def getS_def)
  have mem: "\<forall>i \<in> set ?is. memory_op m i \<and> i_parent (instrs m ! i) = Some b"
    using unstored_state_inside(2) [OF s b] by (auto simp: scalar_alloca_def memory_op_def)
  have k: "keeps_code m m'" by (rule erase_list_keeps [OF run' mem])
  have "\<forall>i \<in> set ?is. \<not> loads_from a m i" by (auto simp: scalar_alloca_def loads_from_def is_op_def)
  with mem have "ignores a m m'" by (intro erase_list_ignores [OF run' s]) blast
  moreover have "a \<notin> set (instr_list (blocks m' ! b))" if "scalar_alloca m a"
    using erase_list_gone [OF run' b mem] k b that by (auto simp: keeps_code_def)
  ultimately show ?thesis using k by blast
qed

lemma scalar_alloca_instrs: "instrs m' = instrs m \<Longrightarrow> scalar_alloca m' = scalar_alloca m"
  by (simp add: scalar_alloca_def is_op_def fun_eq_iff)

lemma remove_blocks_ignores:
  "seqS (map remove_alloca_block bs) m = Inr ((), m') \<Longrightarrow> unstored_state a m \<Longrightarrow> \<forall>b \<in> set bs. b < length (blocks m) \<Longrightarrow>
   ignores a m m' \<and> keeps_code m m' \<and> (scalar_alloca m a \<longrightarrow> (\<forall>b \<in> set bs. a \<notin> set (instr_list (blocks m' ! b))))"
proof (induction bs arbitrary: m)
  case (Cons b bs)
  then obtain m1 where m1: "remove_alloca_block b m = Inr ((), m1)" "seqS (map remove_alloca_block bs) m1 = Inr ((), m')" by auto
  have b: "b < length (blocks m)" using Cons.prems(3) by simp
  note r = remove_alloca_block_ignores [OF m1(1) Cons.prems(2) b]
  then have k: "keeps_code m m1" and i: "ignores a m m1" by blast+
  note len = keeps_code_frame(3) [OF k]
  have rest: "ignores a m1 m' \<and> keeps_code m1 m' \<and> (scalar_alloca m1 a \<longrightarrow> (\<forall>b \<in> set bs. a \<notin> set (instr_list (blocks m' ! b))))"
    by (rule Cons.IH [OF m1(2) ignoresD [OF i Cons.prems(2)]]) (use Cons.prems(3) len in simp)
  then have "set (instr_list (blocks m' ! b)) \<subseteq> set (instr_list (blocks m1 ! b))" using b len by (simp add: keeps_code_def)
  with rest r scalar_alloca_instrs [OF keeps_code_ops(3) [OF k]] ignores_trans [OF i] keeps_code_trans [OF k] show ?case by auto
qed (simp add: ignores_refl keeps_code_refl)

section \<open>The pass\<close>

lemma promoted_gone:
  assumes p: "promoted E m m'" and a: "a < length (instrs m)" "a \<notin> set (instr_list (blocks m ! b))" and b: "b < length (blocks m)"
  shows "a \<notin> set (instr_list (blocks m' ! b))"
proof -
  obtain phis where "set phis \<subseteq> {length (instrs m)..<length (instrs m')}"
    "blocks m' ! b = (blocks m ! b)\<lparr>instr_list := phis @ filter (\<lambda>i. i \<notin> E) (instr_list (blocks m ! b))\<rparr>"
    using p b unfolding promoted_def by blast
  with a show ?thesis by auto
qed

lemma promoted_scalar:
  assumes "promoted E m m'" and "scalar_alloca m a"
  shows "scalar_alloca m' a"
proof -
  have a: "a < length (instrs m)" using assms(2) by (simp add: scalar_alloca_def is_op_def)
  show ?thesis using assms(2) promotedD(6) [OF assms(1) a] promotedD(5) [OF assms(1)] a by (simp add: scalar_alloca_def is_op_def)
qed

lemma mem2reg_function_steps:
  assumes run: "mem2reg_function address d f s = Some (Inr s')" and u: "unstored_state a (snd s)" "valueless a (fst s)"
    and tree: "tree_inside (dom_tree_succ_blocks d) (snd s)"
    and f: "\<forall>b \<in> set (basic_blocks (function_list (snd s) ! f)). b < length (blocks (snd s))"
  shows "ignores a (snd s) (snd s') \<and> valueless a (fst s') \<and>
    (scalar_alloca (snd s) a \<longrightarrow> (\<forall>b \<in> set (basic_blocks (function_list (snd s) ! f)). a \<notin> set (instr_list (blocks (snd s') ! b))))"
proof -
  let ?bbs = "basic_blocks (function_list (snd s) ! f)"
  obtain D where D: "pass_state D (snd s)" using u(1) unfolding unstored_state_def by blast
  obtain st1 m1 m2 where first: "(if ?bbs \<noteq> [] then bindP (generate_phi address (dom_frontier d) f (snd s)) (\<lambda>m.
        re_name (dom_tree_succ_blocks d) (hd (basic_blocks (function_list m ! f))) (fst s, m)) else returnP s) = Some (Inr (st1, m1))"
    and last: "remove_alloca f m1 = Inr ((), m2)" and s': "s' = (st1, m2)" using run by (auto simp: mem2reg_function_def)
  have "\<exists>E. promoted E (snd s) m1 \<and> ignores a (snd s) m1 \<and> valueless a st1"
  proof (cases "?bbs = []")
    case True
    with first u(2) promoted_refl ignores_refl show ?thesis by (cases s) auto
  next
    case False
    with first obtain m where gen: "generate_phi address (dom_frontier d) f (snd s) = Some (Inr m)"
      and ren: "re_name (dom_tree_succ_blocks d) (hd (basic_blocks (function_list m ! f))) (fst s, m) = Some (Inr (st1, m1))" by auto
    from promotesD [OF generate_phi_promotes [OF gen] D] obtain E where E: "promoted E (snd s) m" "pass_state (D \<union> V_Inst ` E) m" by blast
    have i: "ignores a (snd s) m" by (rule generate_phi_ignores [OF gen]) (use u(1) in \<open>simp add: unstored_state_def\<close>)
    have "hd ?bbs < length (blocks m)" using f False promotedD(4) [OF E(1)] by simp
    then have r: "keeps_code m m1 \<and> steps_by a (fst s, m) (st1, m1)"
      using re_name_steps [OF ren, of a] pass_state_hold [OF E(2)] tree promotedD(1,4) [OF E(1)] by (simp add: tree_inside_def)
    then have "ignores a m m1" "valueless a st1" using ignoresD [OF i u(1)] u(2) by (simp_all add: steps_by_def)
    moreover obtain F where "promoted F m m1" using promotesD [OF keeps_code_promotes E(2)] r by blast
    ultimately show ?thesis using promoted_trans [OF E(1)] ignores_trans [OF i] by blast
  qed
  then obtain E where E: "promoted E (snd s) m1" and i: "ignores a (snd s) m1" and v: "valueless a st1" by blast
  note p = promotedD [OF E]
  have "seqS (map remove_alloca_block ?bbs) m1 = Inr ((), m2)" using last p(1) by (simp add: remove_alloca_def bindS_def getS_def)
  from remove_blocks_ignores [OF this ignoresD [OF i u(1)]] f p(4)
  have "ignores a m1 m2 \<and> (scalar_alloca m1 a \<longrightarrow> (\<forall>b \<in> set ?bbs. a \<notin> set (instr_list (blocks m2 ! b))))" by simp
  with ignores_trans [OF i] promoted_scalar [OF E] v show ?thesis by (auto simp: s')
qed

lemma mem2reg_functions_steps:
  "foldP (mem2reg_function address d) fs s = Some (Inr s') \<Longrightarrow> unstored_state a (snd s) \<Longrightarrow> valueless a (fst s) \<Longrightarrow>
   tree_inside (dom_tree_succ_blocks d) (snd s) \<Longrightarrow> functions_inside (snd s) \<Longrightarrow> set fs \<subseteq> {..<length (function_list (snd s))} \<Longrightarrow>
   ignores a (snd s) (snd s') \<and> (scalar_alloca (snd s) a \<longrightarrow>
     (\<forall>f \<in> set fs. \<forall>b \<in> set (basic_blocks (function_list (snd s) ! f)). a \<notin> set (instr_list (blocks (snd s') ! b))))"
proof (induction fs arbitrary: s)
  case Nil
  then show ?case by (simp add: ignores_refl)
next
  case (Cons f fs)
  then obtain s1 where s1: "mem2reg_function address d f s = Some (Inr s1)" "foldP (mem2reg_function address d) fs s1 = Some (Inr s')" by auto
  obtain D where D: "pass_state D (snd s)" using Cons.prems(2) unfolding unstored_state_def by blast
  have f: "\<forall>b \<in> set (basic_blocks (function_list (snd s) ! f)). b < length (blocks (snd s))"
    using Cons.prems(5,6) unfolding functions_inside_def by auto
  obtain E where E: "promoted E (snd s) (snd s1)" "pass_state (D \<union> V_Inst ` E) (snd s1)"
    using mem2reg_function_promotes [OF s1(1) D Cons.prems(4) f] by blast
  note p = promotedD [OF E(1)]
  note h = mem2reg_function_steps [OF s1(1) Cons.prems(2,3,4) f]
  then have i: "ignores a (snd s) (snd s1)" by blast
  have inside: "tree_inside (dom_tree_succ_blocks d) (snd s1)" "functions_inside (snd s1)" "set fs \<subseteq> {..<length (function_list (snd s1))}"
    using Cons.prems(4-6) p(1,4) by (auto simp: tree_inside_def functions_inside_def)
  note r = Cons.IH [OF s1(2) ignoresD [OF i Cons.prems(2)] _ inside]
  obtain F where F: "promoted F (snd s1) (snd s')" using mem2reg_functions_promote [OF s1(2) E(2) inside] by blast
  have "a \<notin> set (instr_list (blocks (snd s') ! b))" if "scalar_alloca (snd s) a" "b \<in> set (basic_blocks (function_list (snd s) ! f))" for b
  proof (rule promoted_gone [OF F])
    show "a < length (instrs (snd s1))" using that(1) p(5) by (simp add: scalar_alloca_def is_op_def)
    show "a \<notin> set (instr_list (blocks (snd s1) ! b))" using h that by blast
    show "b < length (blocks (snd s1))" using f that(2) p(4) by simp
  qed
  with r h ignores_trans [OF i] promoted_scalar [OF E(1)] p(1) show ?case by auto
qed

section \<open>Reading a variable that is never assigned\<close>

lemma codegen_unstored:
  assumes s: "codegen prog = Inr s" and a: "is_op I_alloca s a"
    and loads: "\<forall>(u, j) \<in> set (use_list (graph s) (V_Inst a)). \<exists>l. u = V_Inst l \<and> is_op I_load s l"
  shows "unstored_state a s"
proof -
  note ok = codegen_ir_ok [OF s]
  have D: "pass_state {} s" by (rule ir_ok_pass_state(1) [OF ok])
  then have agree: "uses_agree {} (graph s)" by (simp add: pass_state_def uses_kept_def)
  have "Some (V_Inst a) \<notin> set (operands (graph s) (V_Inst i))" if i: "is_op I_store s i" for i
  proof
    assume "Some (V_Inst a) \<in> set (operands (graph s) (V_Inst i))"
    then obtain j where "j < length (operands (graph s) (V_Inst i))" "operands (graph s) (V_Inst i) ! j = Some (V_Inst a)"
      by (auto simp: in_set_conv_nth)
    then have "(V_Inst i, j) \<in> set (use_list (graph s) (V_Inst a))" by (simp add: uses_agreeD(2) [OF agree])
    with loads i show False by (auto simp: is_op_def)
  qed
  moreover have "\<not> is_op I_phi s i" for i
    using codegen_code_ok [OF s] by (auto simp: code_ok_def shaped_instr_def is_op_def)
  ultimately show ?thesis using a D unfolding unstored_state_def unstored_def by blast
qed

lemma mem2reg_run_unstored:
  assumes s: "codegen prog = Inr s" and run: "mem2reg_run address s = Some (Inr m)" and u: "unstored_state a s"
  shows "ignores a s m" and "scalar_alloca s a \<Longrightarrow> c < length (blocks s) \<Longrightarrow> a \<notin> set (instr_list (blocks m ! c))"
proof -
  note ok = codegen_ir_ok [OF s]
  from run obtain d st where d: "dominators_run s = Some (Inr d)"
    and fold: "foldP (mem2reg_function address d) [0..<length (function_list s)] (Map.empty, s) = Some (Inr (st, m))"
    by (auto simp: mem2reg_run_def)
  have "tree_inside (dom_tree_succ_blocks d) s"
    using dominators_run_inside [OF ok d] by (auto simp: tree_inside_def entries_inside_def)
  moreover have "set [0..<length (function_list s)] \<subseteq> {..<length (function_list s)}" by auto
  ultimately have "ignores a s m \<and> (scalar_alloca s a \<longrightarrow>
     (\<forall>f \<in> set [0..<length (function_list s)]. \<forall>b \<in> set (basic_blocks (function_list s ! f)). a \<notin> set (instr_list (blocks m ! b))))"
    using mem2reg_functions_steps [OF fold, of a] u ir_ok_pass_state(2) [OF ok] by (simp add: valueless_def del: set_upt)
  then have r: "ignores a s m \<and> (scalar_alloca s a \<longrightarrow>
     (\<forall>f < length (function_list s). \<forall>b \<in> set (basic_blocks (function_list s ! f)). a \<notin> set (instr_list (blocks m ! b))))" by simp
  then show "ignores a s m" by blast
  show "a \<notin> set (instr_list (blocks m ! c))" if "scalar_alloca s a" "c < length (blocks s)"
  proof -
    have "blocks_placed s" using ok by (simp add: ir_ok_def)
    with that(2) have "bb_parent (blocks s ! c) < length (function_list s)" "c \<in> set (basic_blocks (function_list s ! bb_parent (blocks s ! c)))"
      by (simp_all add: blocks_placed_def)
    with r that(1) show ?thesis by blast
  qed
qed

text \<open>C15: a scalar variable of a generated module that is only loaded from, because nothing is
  ever stored to it, is erased by the pass while each load from it stays in its block and still has
  the variable as operand: the result uses a value that no instruction of any block computes.\<close>

theorem mem2reg_unassigned_variable_dangles:
  assumes "codegen prog = Inr s" and "mem2reg_run address s = Some (Inr m)" and "scalar_alloca s a"
    and "\<forall>(u, j) \<in> set (use_list (graph s) (V_Inst a)). \<exists>l. u = V_Inst l \<and> is_op I_load s l"
  shows "(\<forall>c < length (blocks m). a \<notin> set (instr_list (blocks m ! c))) \<and>
    (\<forall>c < length (blocks s). \<forall>l \<in> set (instr_list (blocks s ! c)). (V_Inst l, 0) \<in> set (use_list (graph s) (V_Inst a)) \<longrightarrow>
       l \<in> set (instr_list (blocks m ! c)) \<and> operands (graph m) (V_Inst l) = [Some (V_Inst a)])"
proof -
  have u: "unstored_state a s" by (rule codegen_unstored [OF assms(1) _ assms(4)]) (use assms(3) in \<open>simp add: scalar_alloca_def\<close>)
  note i = mem2reg_run_unstored(1) [OF assms(1,2) u] and gone = mem2reg_run_unstored(2) [OF assms(1,2) u assms(3)]
  have len: "length (blocks m) = length (blocks s)" using i u by (simp add: ignores_def)
  have agree: "uses_agree {} (graph s)"
    using ir_ok_pass_state(1) [OF codegen_ir_ok [OF assms(1)]] by (simp add: pass_state_def uses_kept_def)
  obtain E where E: "promoted E s m" using mem2reg_run_promoted [OF codegen_ir_ok [OF assms(1)] assms(2)] by blast
  have "l \<in> set (instr_list (blocks m ! c)) \<and> operands (graph m) (V_Inst l) = [Some (V_Inst a)]"
    if c: "c < length (blocks s)" "l \<in> set (instr_list (blocks s ! c))" and l: "(V_Inst l, 0) \<in> set (use_list (graph s) (V_Inst a))" for c l
  proof -
    have load: "is_op I_load s l" using assms(4) l by auto
    then have ls: "l < length (instrs s)" by (simp add: is_op_def)
    have at: "0 < length (operands (graph s) (V_Inst l))" "operands (graph s) (V_Inst l) ! 0 = Some (V_Inst a)"
      using l by (simp_all add: uses_agreeD(2) [OF agree])
    then have loads: "loads_from a s l" using load by (simp add: loads_from_def load_lval_iff)
    have one: "length (operands (graph s) (V_Inst l)) = 1"
    proof -
      obtain ops where "operands (graph s) (V_Inst l) = map Some ops" "shape_ok s (i_op (instrs s ! l)) (i_data (instrs s ! l)) ops"
        using codegen_code_ok [OF assms(1)] ls unfolding code_ok_def shaped_instr_def by blast
      with load show ?thesis by (auto simp: is_op_def)
    qed
    have "length (operands (graph m) (V_Inst l)) = 1"
      using E one ls load by (simp add: promoted_def old_operands_kept_def is_op_def)
    moreover have "operands (graph m) (V_Inst l) ! 0 = Some (V_Inst a)"
      using ignores_load [OF i u ls] loads by (simp add: loads_from_def load_lval_iff)
    moreover have "l \<in> set (instr_list (blocks m ! c))" using i u c loads by (auto simp: ignores_def loads_stay_def)
    ultimately show ?thesis by (auto simp: length_Suc_conv)
  qed
  with gone len show ?thesis by auto
qed

lemma mem2reg_unassigned_variable_dangles_witness:
  "\<exists>s m. codegen (function_f [''x''] [ReturnStmt (Some (condition ''x''))]) = Inr s \<and>
    mem2reg_run allocation_order s = Some (Inr m) \<and> scalar_alloca s 2 \<and> use_list (graph s) (V_Inst 2) = [(V_Inst 3, 0)] \<and>
    2 \<notin> set (instr_list (blocks m ! 0)) \<and> 3 \<in> set (instr_list (blocks m ! 0)) \<and> operands (graph m) (V_Inst 3) = [Some (V_Inst 2)]"
proof -
  let ?p = "function_f [''x''] [ReturnStmt (Some (condition ''x''))]"
  have "case codegen ?p of Inl _ \<Rightarrow> False | Inr s \<Rightarrow> scalar_alloca s 2 \<and> is_op I_load s 3 \<and> use_list (graph s) (V_Inst 2) = [(V_Inst 3, 0)] \<and>
      map instr_list (blocks s) = [[0, 1, 2, 3, 4]] \<and>
    (case mem2reg_run allocation_order s of Some (Inr m) \<Rightarrow> length (blocks m) = 1 | _ \<Rightarrow> False)" by code_simp
  from case_InrD [OF this] obtain s where s: "codegen ?p = Inr s"
    and a: "scalar_alloca s 2" "is_op I_load s 3" "use_list (graph s) (V_Inst 2) = [(V_Inst 3, 0)]" "map instr_list (blocks s) = [[0, 1, 2, 3, 4]]"
    and run: "case mem2reg_run allocation_order s of Some (Inr m) \<Rightarrow> length (blocks m) = 1 | _ \<Rightarrow> False" by (elim exE conjE) (rule that)
  from run obtain m where m: "mem2reg_run allocation_order s = Some (Inr m)" "length (blocks m) = 1"
    by (auto split: option.splits sum.splits)
  have one: "length (blocks s) = 1" using a(4) [THEN arg_cong [where f = length]] by simp
  then have body: "instr_list (blocks s ! 0) = [0, 1, 2, 3, 4]" using nth_map [of 0 "blocks s" instr_list] a(4) by simp
  have "\<forall>(u, j) \<in> set (use_list (graph s) (V_Inst 2)). \<exists>l. u = V_Inst l \<and> is_op I_load s l" using a(2,3) by simp
  from mem2reg_unassigned_variable_dangles [OF s m(1) a(1) this] one body a(3) m(2)
  have "2 \<notin> set (instr_list (blocks m ! 0)) \<and> 3 \<in> set (instr_list (blocks m ! 0)) \<and> operands (graph m) (V_Inst 3) = [Some (V_Inst 2)]"
    by simp
  with s m(1) a(1,3) show ?thesis by blast
qed

end
