(* ===== verification/DomDebug.thy ===== *)
theory DomDebug
  imports Dominators IrPrint
begin

text \<open>
  The parts of \<open>optimization/Dominators.cpp\<close> that no pass calls: the iteration on sets
  of dominators and the two printers for debugging.
\<close>

section \<open>Sets of dominators\<close>

text \<open>The member \<open>doms_\<close>: a set per block, in the order of the addresses.\<close>

type_synonym doms = "nat \<Rightarrow> nat list"

definition add_dom :: "nat \<Rightarrow> nat \<Rightarrow> doms \<Rightarrow> doms" where
  "add_dom b c d = d(b := set_insert c (d b))"

definition set_doms :: "nat \<Rightarrow> nat list \<Rightarrow> doms \<Rightarrow> doms" where
  "set_doms b ds d = d(b := ds)"

text \<open>\<open>std::set_intersection\<close>: the merge of two ranges.\<close>

fun set_intersection :: "nat list \<Rightarrow> nat list \<Rightarrow> nat list" where
  "set_intersection (x # xs) (y # ys) =
     (if x < y then set_intersection xs (y # ys)
      else if y < x then set_intersection (x # xs) ys
      else x # set_intersection xs ys)"
| "set_intersection _ _ = []"

text \<open>
  The loop over the other predecessors. \<open>ret\<close> has room for \<open>n\<close> blocks; what it
  gets is put before what is left of \<open>pre\<close>.
\<close>

fun meet_doms :: "doms \<Rightarrow> nat list \<Rightarrow> nat list \<Rightarrow> nat \<Rightarrow> nat list result" where
  "meet_doms d [] pre n = Inr pre"
| "meet_doms d (p # ps) pre n =
     (let ret = set_intersection pre (d p) in
      if length ret > n then Inl BadIndex
      else meet_doms d ps (ret @ take (length ret) pre) (length ret))"

definition doms_block :: "(nat \<Rightarrow> nat list) \<Rightarrow> nat \<Rightarrow> nat \<Rightarrow> doms \<Rightarrow> nat list result" where
  "doms_block pred n bb d = (case pred bb of
     [] \<Rightarrow> Inl BadIndex
   | p # ps \<Rightarrow> bindR (meet_doms d ps (d p) n) (\<lambda>pre. Inr (fold set_insert pre [bb])))"

fun doms_sweep :: "(nat \<Rightarrow> nat list) \<Rightarrow> nat \<Rightarrow> nat list \<Rightarrow> bool \<Rightarrow> doms \<Rightarrow> (bool \<times> doms) result" where
  "doms_sweep pred n [] changed d = Inr (changed, d)"
| "doms_sweep pred n (bb # bbs) changed d = bindR (doms_block pred n bb d) (\<lambda>ds.
     if d bb \<noteq> ds then doms_sweep pred n bbs True (set_doms bb ds d) else doms_sweep pred n bbs changed d)"

partial_function (option) doms_loop :: "(nat \<Rightarrow> nat list) \<Rightarrow> nat list \<Rightarrow> doms \<Rightarrow> doms run" where
  "doms_loop pred bbs d = bindP (Some (doms_sweep pred (length bbs) bbs False d)) (\<lambda>r.
     if fst r then doms_loop pred bbs (snd r) else returnP (snd r))"

definition create_doms :: "(nat \<Rightarrow> nat list) \<Rightarrow> nat list \<Rightarrow> doms \<Rightarrow> doms run" where
  "create_doms pred bbs d = doms_loop pred bbs (fold (\<lambda>bb. add_dom bb bb) bbs d)"

text \<open>A block without predecessors, as every entry is, has no first predecessor to read.\<close>

lemma create_doms_fails:
  assumes "bb \<in> set bbs" and "pred bb = []"
  shows "\<exists>e. create_doms pred bbs d = Some (Inl e)"
proof -
  have "\<exists>e. doms_sweep pred n bbs c d = Inl e" for n c d
    using assms(1)
  proof (induction bbs arbitrary: c d)
    case (Cons b bbs)
    show ?case
    proof (cases "b = bb")
      case True
      with assms(2) show ?thesis by (simp add: doms_block_def)
    next
      case False
      then have "bb \<in> set bbs" using Cons.prems by simp
      note IH = Cons.IH [OF this]
      show ?thesis using IH by (cases "doms_block pred n b d") auto
    qed
  qed simp
  then obtain e where "doms_sweep pred (length bbs) bbs False (fold (\<lambda>bb. add_dom bb bb) bbs d) = Inl e" by blast
  then show ?thesis by (simp add: create_doms_def doms_loop.simps [of pred bbs])
qed

text \<open>
  What is left of \<open>pre\<close> stays behind the intersection: 1 is in the first set only, and is
  taken for a dominator.
\<close>

lemma create_doms_leftover: "meet_doms (\<lambda>p. if p = 0 then [1, 2, 3] else [3]) [1] [1, 2, 3] 5 = Inr [3, 1]"
  by simp

section \<open>Printing\<close>

text \<open>The names of the blocks; another block has the empty string.\<close>

definition block_ids :: "'b ir_module_scheme \<Rightarrow> nat list \<Rightarrow> nat \<Rightarrow> string" where
  "block_ids m bbs b = (case map_of (rev (zip bbs [0..<length bbs])) b of
     None \<Rightarrow> []
   | Some counter \<Rightarrow> if bb_name (blocks m ! b) = [] then ''bb'' @ show_nat counter else bb_name (blocks m ! b))"

definition print_idom :: "'b ir_module_scheme \<Rightarrow> dominators \<Rightarrow> nat \<Rightarrow> string" where
  "print_idom m d f =
     (let bbs = basic_blocks (function_list m ! f); bb_id = block_ids m bbs
      in ''Immediate dominance of function '' @ f_name (function_list m ! f) @ '':'' @ [CHR 0x0A] @
         concat (map (\<lambda>bb. bb_id bb @ '': '' @ (case idom d bb of Some b \<Rightarrow> bb_id b | None \<Rightarrow> ''null'') @ [CHR 0x0A]) bbs))"

definition print_dominance_frontier :: "'b ir_module_scheme \<Rightarrow> dominators \<Rightarrow> nat \<Rightarrow> string" where
  "print_dominance_frontier m d f =
     (let bbs = basic_blocks (function_list m ! f); bb_id = block_ids m bbs
      in ''Dominance Frontier of function '' @ f_name (function_list m ! f) @ '':'' @ [CHR 0x0A] @
         concat (map (\<lambda>bb. bb_id bb @ '': '' @
           (if dom_frontier d (Some bb) = [] then ''null'' else join_comma (map bb_id (dom_frontier d (Some bb)))) @ [CHR 0x0A]) bbs))"

declare doms_loop.simps [code]

end
