(* ===== verification/Logging.thy ===== *)
theory Logging
  imports CxxStd
begin

text \<open>
  The log of \<open>common/logging.cpp\<close> and \<open>logging.hpp\<close>: a message is written
  when its level is at least the one of the environment variable \<open>LOGV\<close>, and never
  without that variable.
\<close>

datatype LogLevel = DEBUG | INFO | WARNING | ERROR

fun level_value :: "LogLevel \<Rightarrow> int" where
  "level_value DEBUG = 0" | "level_value INFO = 1" | "level_value WARNING = 2" | "level_value ERROR = 3"

fun level2string :: "LogLevel \<Rightarrow> string" where
  "level2string DEBUG = ''DEBUG''" | "level2string INFO = ''INFO''"
| "level2string WARNING = ''WARNING''" | "level2string ERROR = ''ERROR''"

text \<open>The index of a character that is not found is \<open>-1\<close>.\<close>

definition get_short_name :: "string \<Rightarrow> string" where
  "get_short_name path = (case rfind (CHR ''/'') path of None \<Rightarrow> path | Some index \<Rightarrow> drop (Suc index) path)"

record LocationInfo =
  loc_file :: string
  loc_line :: nat
  loc_func :: string

record LogWriter =
  log_location :: LocationInfo
  log_level :: LogLevel
  env_log_level :: int

text \<open>The constructor, with the value of \<open>LOGV\<close>.\<close>

definition new_LogWriter :: "string option \<Rightarrow> LocationInfo \<Rightarrow> LogLevel \<Rightarrow> LogWriter result" where
  "new_LogWriter logv loc lvl = (case logv of
     Some s \<Rightarrow> bindR (stoi s) (\<lambda>n. Inr \<lparr>log_location = loc, log_level = lvl, env_log_level = sint n\<rparr>)
   | None \<Rightarrow> Inr \<lparr>log_location = loc, log_level = lvl, env_log_level = 4\<rparr>)"

definition output_log :: "LogWriter \<Rightarrow> string \<Rightarrow> string" where
  "output_log w msg =
     (if level_value (log_level w) \<ge> env_log_level w
      then ''['' @ level2string (log_level w) @ ''] '' @ ''('' @ loc_file (log_location w) @ '':'' @ show_nat (loc_line (log_location w)) @
        ''L  '' @ loc_func (log_location w) @ '')'' @ msg @ [CHR 0x0A]
      else [])"

text \<open>\<open>LOG_IF\<close>: the text that a log statement writes.\<close>

definition log_if :: "string option \<Rightarrow> string \<Rightarrow> nat \<Rightarrow> string \<Rightarrow> LogLevel \<Rightarrow> string \<Rightarrow> string result" where
  "log_if logv path line func lvl msg =
     bindR (new_LogWriter logv \<lparr>loc_file = get_short_name path, loc_line = line, loc_func = func\<rparr> lvl) (\<lambda>w. Inr (output_log w msg))"

text \<open>Without \<open>LOGV\<close> no log statement writes anything: the passes can be read without them.\<close>

lemma silent_without_LOGV: "log_if None path line func lvl msg = Inr []"
  by (cases lvl) (simp_all add: log_if_def new_LogWriter_def output_log_def)

end
