(* ===== verification/Spec2Isabelle.thy ===== *)
theory Spec2Isabelle
  imports AstPrint Driver DeadCodeProps GVNCode Mem2RegUnstored DomDebug Logging
begin

text \<open>
  The compiler of the C-minus-f language: \<open>cminusfc\<close> with its libraries. A source
  file goes through the generated scanner and parser, which build a concrete syntax tree
  (\<open>src/common/syntax_tree.c\<close>, \<open>src/parser\<close>); the class \<open>AST\<close>
  turns it into an abstract syntax tree (\<open>src/common/ast.cpp\<close>); the visitor
  \<open>CminusfBuilder\<close> (\<open>src/cminusfc/cminusf_builder.cpp\<close>) makes a module of
  the IR (\<open>src/lightir\<close>); the passes the options select change it
  (\<open>src/optimization\<close>); and the driver (\<open>src/cminusfc/cminusfc.cpp\<close>) writes
  the printed module to a file.

  \<^bold>\<open>Conventions.\<close> A branch of the code that fails (a failed assertion, an abort, a
  null pointer that is dereferenced, a read out of range, a wrong cast, undefined arithmetic)
  is a value \<open>Inl e\<close> of \<open>'a result\<close> (theory Prelude), with one constructor of
  \<open>failure\<close> for each reason. Code that changes objects shared by pointer is a program
  \<open>('s, 'a) prog\<close> over a state (StateR). A loop that may not end has a result in
  \<open>'a run\<close> (RunOpt), where \<open>None\<close> is a run that never returns: those functions
  are \<open>partial_function (option)\<close>, no fuel is used anywhere, and that a loop ends is
  proved as such. Objects are numbers: the address of an instruction, a block or a function is
  its position in the list of the objects of its class, in the order they were made, and that
  order stands for the order of addresses where the code iterates over a set of pointers to
  blocks; where it is the order of values, it is a parameter (\<open>address\<close>). A C++
  \<open>int\<close> is a 32-bit word, read with \<open>sint\<close>; a \<open>float\<close> is its 32 bits,
  with the IEEE operations written out in CxxStd. Sizes, counters and value numbers are
  natural numbers: that they do not wrap around is the one bound taken for granted, and where
  a number is compared with the maximum (the top of value numbering) it is a hypothesis.

  \<^bold>\<open>Front end.\<close> SyntaxTree: the nodes, the node constructor of the semantic actions,
  the printer, the tokens and the grammar as data, with its trees as the relation
  \<open>derives\<close>; the text of a node is its buffer of 30 characters, and reading one that
  is not terminated fails. Ast: the classes of \<open>ast.hpp\<close>. AstTransform:
  \<open>AST::transform_node_iter\<close>, one definition per branch. AstRoundtrip: it recovers
  every well-formed AST whose texts fit the buffers from its concrete tree. AstTotal: on a tree
  of the grammar whose texts fit and whose literals are in range none of its failures is
  reached. AstPrint: the printer visitor, which refines a rendering of a tree of
  labels.

  \<^bold>\<open>IR.\<close> IrTypes: types as terms, and the module's tables of type objects, with the
  locale \<open>interner\<close> for a table and an interpretation for each of the three; comparing
  addresses is comparing types. UseDef: operands and use lists (\<open>User.cpp\<close>,
  \<open>Value.cpp\<close>), polymorphic in the values, with the invariant that the two agree. Ir:
  modules, functions, blocks, instructions, constants and all factories; a float constant that is
  not a number is a new object at each request, told apart by its place in the cache. IrInv: the invariant
  \<open>ir_ok\<close> of a module and the effect of every factory on it. IrPrint and IrPrintProps:
  naming and printing, total on generated modules, with different names for the values of a
  function, and injective on constants but NaNs.

  \<^bold>\<open>Code generation.\<close> Scope: the stack of scopes, its contract as the locale
  \<open>scoping\<close>, interpreted on the code's operations. Codegen: every \<open>visit\<close> as
  \<open>gen_*\<close>, and \<open>codegen\<close> for a program. CodegenCfg: each visit starts in an
  open block, closes all it makes but one, and touches no other. CodegenProgram: so generated
  modules satisfy \<open>ir_ok\<close>; every block ends with its only terminator and the lists of
  predecessors and successors agree. CodegenValues: every value that is held is an object of
  the module, instructions have the number of operands they need, and branches, addresses and
  call arguments have operands of the right kind.

  \<^bold>\<open>Passes.\<close> Dominators: the numbering, immediate dominators, frontiers,
  the tree; DomGraph, DomIdom, DomFrontier and DomProgram show that it computes what walks
  define, that it ends, and on which generated modules it hangs; DomDebug: what no pass calls.
  Worklist: the locale \<open>marking_loop\<close> for a queue of marked nodes, interpreted on
  the three passes that have one (FuncInfoProps, DeadCodeProps, Mem2RegProps). FuncInfo:
  purity, the complement of a closure, with the origin of an address as a relation that does not
  mention the code's search. DeadCode: exactly the instructions that an effect needs remain, an
  effect being a terminator, a store or a call of a function that is impure in that sense. Mem2Reg: phis at the iterated frontiers (Mem2RegProps), and what renaming and the
  removal of variables keep of the code (Mem2RegCode), and what becomes of a variable that is
  never stored (Mem2RegUnstored). ConstFold: the folder against the
  values of the instructions, stated over words and the library's signed division. GVN: value
  numbering; GVNProps: expressions are compared by an equivalence and the join of partitions
  is at most the meet of their congruences, and the meet while the numbers are fresh, as they are
  in the first round; GVNTransfer: the transfer function leaves disjoint classes, and all
  instructions are in one while the numbers are fresh;
  GVNReplace: operands go to the leaders of their classes; GVNCode: the pass keeps the blocks,
  their branches and all stores, whenever it returns; the text of the partitions that the pass
  builds for its log gives names to values, so the code is kept but for names.

  \<^bold>\<open>Driver.\<close> Driver: options, the target path, the pass manager, the text of the
  file, the commands and the exit status; a run without passes fails only in code generation.
  Logging: log messages, and that none is written without \<open>LOGV\<close>. The other theories
  leave out what is written to the log; the arguments of the messages are evaluated all the same,
  and where that can fail or change the module (the prints of value numbering and of the purity
  analysis) they are part of the model.

  \<^bold>\<open>What the proofs found.\<close> The dominator pass hangs on a reachable join with an
  unreachable predecessor (\<open>dominators_run_hangs_iff\<close>). Mem2Reg erases
  every variable that is read and never assigned and keeps the loads from it
  (\<open>mem2reg_unassigned_variable_dangles\<close>). The folder compares with NaN the other way
  (\<open>fold_fcmp_nan_differs\<close>), and the cache of constants loses \<open>-0.0\<close>
  (\<open>negative_zero_is_lost\<close>). Replacing a value by itself never ends
  (\<open>replace_all_use_with_self_diverges\<close>).

  \<^bold>\<open>Not modelled.\<close> The scanner and the LALR tables that flex and bison generate: the
  driver takes the parser as a parameter, of which its theorem assumes that the result is a tree
  of the grammar. Reading and writing files and running \<open>clang\<close> and \<open>rm\<close>, which
  are a parameter too. The class \<open>ConstantArray\<close>, of which nothing makes an object. The
  freeing of objects. The messages of warnings and errors on the standard error output.
  The tests and the warm-up programs of the course. That the iteration of value numbering ends
  is not proved: the code starts each round from the same value number, and its partitions
  need not stay disjoint over the copy statements of phis.
\<close>

end
